(* ===== verification/Prelude.thy ===== *)
theory Prelude
  imports Complex_Main "HOL-Library.Word"
begin

text \<open>
  What every component of the benchmark's model shares: the machine integers of the C code, C
  strings and the routines of the C standard library the sources call on them, and the lemmas on
  lists, words and decimal notation that the component theories use.

  A C string is the list of its characters without the terminating NUL, and a pointer into a
  string is the suffix that starts there; reading at the end of the list gives the NUL, as reading
  the terminator does in C.  Two pointers into the same string are equal exactly when the suffixes
  are.
\<close>

unbundle bit_operations_syntax

section \<open>Machine integers\<close>

type_synonym u8 = "8 word"
type_synonym u16 = "16 word"
type_synonym u32 = "32 word"
type_synonym u64 = "64 word"

named_theorems cstr_simps \<open>how the C string routines act on explicit strings\<close>
named_theorems dec_simps \<open>decimal notation\<close>

text \<open>The number of binary digits; \<^verbatim>\<open>__builtin_clz\<close> is the width less this number.\<close>

fun bit_length :: "nat \<Rightarrow> nat" where
  "bit_length n = (if n = 0 then 0 else Suc (bit_length (n div 2)))"

declare bit_length.simps [simp del]

lemma bit_length_0 [simp]: "bit_length 0 = 0"
  by (simp add: bit_length.simps)

lemma bit_length_pos: "0 < n \<Longrightarrow> bit_length n = Suc (bit_length (n div 2))"
  by (subst bit_length.simps) simp

lemma bit_length_gt_0 [simp]: "0 < bit_length n \<longleftrightarrow> 0 < n"
  by (cases "n = 0") (simp_all add: bit_length_pos)

lemma less_2_power_bit_length: "n < 2 ^ bit_length n"
proof (induction n rule: bit_length.induct)
  case (1 n)
  show ?case
  proof (cases "n = 0")
    case False
    with 1 have "n div 2 < 2 ^ bit_length (n div 2)" by simp
    then have "n < 2 * 2 ^ bit_length (n div 2)" by simp
    with False show ?thesis by (simp add: bit_length_pos)
  qed simp
qed

lemma power_bit_length_le: "0 < n \<Longrightarrow> 2 ^ (bit_length n - 1) \<le> n"
proof (induction n rule: bit_length.induct)
  case (1 n)
  show ?case
  proof (cases "n div 2 = 0")
    case True
    with 1 show ?thesis by (simp add: bit_length_pos)
  next
    case False
    with 1 have "2 ^ (bit_length (n div 2) - 1) \<le> n div 2" by simp
    then have "2 * 2 ^ (bit_length (n div 2) - 1) \<le> n" by simp
    moreover have "2 * 2 ^ (bit_length (n div 2) - 1) = (2::nat) ^ bit_length (n div 2)"
      using False bit_length_gt_0 [of "n div 2"] by (cases "bit_length (n div 2)") auto
    ultimately show ?thesis using 1 by (simp add: bit_length_pos)
  qed
qed

lemma bit_length_eqI:
  assumes "2 ^ k \<le> n" and "n < 2 ^ Suc k"
  shows "bit_length n = Suc k"
proof -
  have "0 < n" using assms(1) by (rule less_le_trans [rotated]) simp
  have "(2::nat) ^ (bit_length n - 1) < 2 ^ Suc k"
    using power_bit_length_le [OF \<open>0 < n\<close>] assms(2) by (rule le_less_trans)
  then have "bit_length n - 1 < Suc k" by (rule power_less_imp_less_exp [rotated]) simp
  moreover have "(2::nat) ^ k < 2 ^ bit_length n"
    using assms(1) less_2_power_bit_length by (rule le_less_trans)
  then have "k < bit_length n" by (rule power_less_imp_less_exp [rotated]) simp
  ultimately show ?thesis by simp
qed

lemma bit_length_le_iff: "bit_length n \<le> k \<longleftrightarrow> n < 2 ^ k"
proof
  assume "bit_length n \<le> k"
  then have "(2::nat) ^ bit_length n \<le> 2 ^ k" by simp
  with less_2_power_bit_length [of n] show "n < 2 ^ k" by linarith
next
  assume *: "n < 2 ^ k"
  show "bit_length n \<le> k"
  proof (cases "n = 0")
    case False
    then have "(2::nat) ^ (bit_length n - 1) < 2 ^ k"
      using power_bit_length_le [of n] * by (meson le_less_trans neq0_conv)
    then have "bit_length n - 1 < k" by (rule power_less_imp_less_exp [rotated]) simp
    then show ?thesis by simp
  qed simp
qed

definition clz :: "'a::len word \<Rightarrow> nat" where
  "clz w = LENGTH('a) - bit_length (unat w)"

section \<open>Characters and C strings\<close>

abbreviation cc :: "char \<Rightarrow> nat" where
  "cc c \<equiv> of_char c"

abbreviation NUL :: char where
  "NUL \<equiv> CHR 0x00"

text \<open>The newline and the tab as strings.\<close>

abbreviation nl :: string where "nl \<equiv> [CHR 0x0A]"
abbreviation tab :: string where "tab \<equiv> [CHR 0x09]"

definition peek :: "string \<Rightarrow> char" where
  "peek s = (case s of [] \<Rightarrow> NUL | c # _ \<Rightarrow> c)"

definition char_at :: "string \<Rightarrow> nat \<Rightarrow> char" where
  "char_at s i = (if i < length s then s ! i else NUL)"

lemma peek_simps [simp]: "peek [] = NUL" "peek (c # s) = c"
  by (simp_all add: peek_def)

lemma char_at_simps [simp]:
  "char_at [] i = NUL" "char_at (c # s) 0 = c" "char_at (c # s) (Suc i) = char_at s i"
  by (simp_all add: char_at_def)

lemma char_at_append: "char_at (s @ t) i = (if i < length s then s ! i else char_at t (i - length s))"
  by (auto simp: char_at_def nth_append)

text \<open>The string a \<^verbatim>\<open>char\<close> buffer holds: everything before the first NUL.\<close>

definition cstr :: "string \<Rightarrow> string" where
  "cstr buf = takeWhile (\<lambda>c. c \<noteq> NUL) buf"

definition isdigit :: "char \<Rightarrow> bool" where
  "isdigit c \<longleftrightarrow> 48 \<le> cc c \<and> cc c \<le> 57"

definition isspace :: "char \<Rightarrow> bool" where
  "isspace c \<longleftrightarrow> cc c = 32 \<or> 9 \<le> cc c \<and> cc c \<le> 13"

definition isalpha :: "char \<Rightarrow> bool" where
  "isalpha c \<longleftrightarrow> 65 \<le> cc c \<and> cc c \<le> 90 \<or> 97 \<le> cc c \<and> cc c \<le> 122"

definition tolower :: "char \<Rightarrow> char" where
  "tolower c = (if 65 \<le> cc c \<and> cc c \<le> 90 then char_of (cc c + 32) else c)"

definition digit_val :: "char \<Rightarrow> nat option" where
  "digit_val c =
     (if isdigit c then Some (cc c - 48)
      else if 97 \<le> cc c \<and> cc c \<le> 122 then Some (cc c - 87)
      else if 65 \<le> cc c \<and> cc c \<le> 90 then Some (cc c - 55)
      else None)"

definition is_base_digit :: "nat \<Rightarrow> char \<Rightarrow> bool" where
  "is_base_digit b c = (case digit_val c of None \<Rightarrow> False | Some d \<Rightarrow> d < b)"

text \<open>\<^verbatim>\<open>strncmp(s, t, n) == 0\<close> and \<^verbatim>\<open>strncasecmp(s, t, n) == 0\<close>.\<close>

definition strneq :: "string \<Rightarrow> string \<Rightarrow> nat \<Rightarrow> bool" where
  "strneq s t n \<longleftrightarrow> take n s = take n t"

definition strncaseeq :: "string \<Rightarrow> string \<Rightarrow> nat \<Rightarrow> bool" where
  "strncaseeq s t n \<longleftrightarrow> map tolower (take n s) = map tolower (take n t)"

text \<open>\<^verbatim>\<open>strchrnul\<close>, as the part of the string before the character found.\<close>

definition before_char :: "char \<Rightarrow> string \<Rightarrow> string" where
  "before_char c s = takeWhile (\<lambda>d. d \<noteq> c) s"

subsection \<open>Numbers in strings\<close>

definition base_val :: "nat \<Rightarrow> string \<Rightarrow> nat" where
  "base_val b ds = foldl (\<lambda>n c. b * n + (case digit_val c of None \<Rightarrow> 0 | Some d \<Rightarrow> d)) 0 ds"

text \<open>The sign of a number and what follows it.\<close>

definition split_sign :: "string \<Rightarrow> bool \<times> string" where
  "split_sign s = (if peek s = CHR ''-'' then (True, tl s)
                   else if peek s = CHR ''+'' then (False, tl s) else (False, s))"

text \<open>In base 16 a prefix \<^verbatim>\<open>0x\<close> is skipped when a hexadecimal digit follows it.\<close>

definition skip_0x :: "nat \<Rightarrow> string \<Rightarrow> string" where
  "skip_0x b s =
     (if b = 16 \<and> peek s = CHR ''0'' \<and> tolower (char_at s 1) = CHR ''x'' \<and> is_base_digit 16 (char_at s 2)
      then drop 2 s else s)"

text \<open>
  \<^verbatim>\<open>strtoul\<close> (and \<^verbatim>\<open>strtoull\<close>) on a 64-bit platform: white space, a sign, digits; the value, where
  the number ends, and whether \<^verbatim>\<open>errno\<close> is set to \<^verbatim>\<open>ERANGE\<close>.  Without digits nothing is consumed.
\<close>

definition strtoul :: "string \<Rightarrow> nat \<Rightarrow> u64 \<times> string \<times> bool" where
  "strtoul s b =
     (let (neg, t) = split_sign (dropWhile isspace s);
          u = skip_0x b t;
          ds = takeWhile (is_base_digit b) u;
          n = base_val b ds
      in if ds = [] then (0, s, False)
         else if 2 ^ 64 \<le> n then (- 1, dropWhile (is_base_digit b) u, True)
         else (if neg then - of_nat n else of_nat n, dropWhile (is_base_digit b) u, False))"

text \<open>\<^verbatim>\<open>strtol\<close>: the value as a signed 64-bit number in its word.\<close>

definition strtol :: "string \<Rightarrow> nat \<Rightarrow> u64 \<times> string \<times> bool" where
  "strtol s b =
     (let (neg, t) = split_sign (dropWhile isspace s);
          u = skip_0x b t;
          ds = takeWhile (is_base_digit b) u;
          n = base_val b ds
      in if ds = [] then (0, s, False)
         else if neg \<and> 2 ^ 63 < n then (of_int (- (2 ^ 63)), dropWhile (is_base_digit b) u, True)
         else if \<not> neg \<and> 2 ^ 63 \<le> n then (of_nat (2 ^ 63 - 1), dropWhile (is_base_digit b) u, True)
         else (if neg then - of_nat n else of_nat n, dropWhile (is_base_digit b) u, False))"

text \<open>Decimal output, \<^verbatim>\<open>%u\<close> and its kin.\<close>

definition digit_char :: "nat \<Rightarrow> char" where
  "digit_char d = char_of (48 + d)"

fun dec_string :: "nat \<Rightarrow> string" where
  "dec_string n = (if n < 10 then [digit_char n] else dec_string (n div 10) @ [digit_char (n mod 10)])"

declare dec_string.simps [simp del]

text \<open>\<^verbatim>\<open>%d\<close>.\<close>

definition sdec_string :: "int \<Rightarrow> string" where
  "sdec_string i = (if i < 0 then CHR ''-'' # dec_string (nat (- i)) else dec_string (nat i))"

section \<open>Lemmas on strings and numbers\<close>

lemma cc_digit_char: "d < 10 \<Longrightarrow> cc (digit_char d) = 48 + d"
  by (simp add: digit_char_def)

lemma isdigit_digit_char [simp]: "d < 10 \<Longrightarrow> isdigit (digit_char d)"
  by (simp add: isdigit_def cc_digit_char)

lemma digit_val_digit_char [simp]: "d < 10 \<Longrightarrow> digit_val (digit_char d) = Some d"
  by (simp add: digit_val_def cc_digit_char)

lemma is_base_digit_10: "is_base_digit 10 c = isdigit c"
  by (auto simp: is_base_digit_def digit_val_def isdigit_def)

lemma dec_string_ne [simp]: "dec_string n \<noteq> []"
  by (subst dec_string.simps) simp

lemma sdec_string_int: "sdec_string (int n) = dec_string n"
  by (simp add: sdec_string_def)

lemma dec_string_digits: "c \<in> set (dec_string n) \<Longrightarrow> isdigit c"
proof (induction n rule: dec_string.induct)
  case (1 n)
  then show ?case by (subst (asm) dec_string.simps) (auto split: if_splits)
qed

lemma base_val_snoc: "base_val b (ds @ [c]) = b * base_val b ds + (case digit_val c of None \<Rightarrow> 0 | Some d \<Rightarrow> d)"
  by (simp add: base_val_def)

lemma base_val_dec_string [dec_simps]: "base_val 10 (dec_string n) = n"
proof (induction n rule: dec_string.induct)
  case (1 n)
  show ?case
  proof (cases "n < 10")
    case True
    then show ?thesis by (subst dec_string.simps) (simp add: base_val_def)
  next
    case False
    with 1 have "base_val 10 (dec_string (n div 10)) = n div 10" by simp
    with False show ?thesis by (subst dec_string.simps) (simp add: base_val_snoc)
  qed
qed

lemma dec_string_inject: "dec_string m = dec_string n \<Longrightarrow> m = n"
  by (metis base_val_dec_string)

lemma length_dec_string:
  assumes "10 ^ d \<le> n" and "n < 10 ^ Suc d"
  shows "length (dec_string n) = Suc d"
  using assms
proof (induction d arbitrary: n)
  case 0
  then show ?case by (subst dec_string.simps) simp
next
  case (Suc d)
  have "10 ^ Suc d \<le> n" by (rule Suc.prems)
  moreover have "(10::nat) \<le> 10 ^ Suc d" by simp
  ultimately have "10 \<le> n" by linarith
  moreover have "10 ^ d \<le> n div 10" using Suc.prems(1) by (simp add: less_eq_div_iff_mult_less_eq mult.commute)
  moreover have "n div 10 < 10 ^ Suc d" using Suc.prems(2) by (simp add: less_mult_imp_div_less mult.commute)
  ultimately show ?case using Suc.IH [of "n div 10"] by (subst dec_string.simps) simp
qed

lemma length_dec_string_mono: "m \<le> n \<Longrightarrow> length (dec_string m) \<le> length (dec_string n)"
proof (induction n arbitrary: m rule: dec_string.induct)
  case (1 n)
  show ?case
  proof (cases "m < 10")
    case True
    then have "length (dec_string m) = 1" by (subst dec_string.simps) simp
    then show ?thesis by (simp add: Suc_le_eq)
  next
    case False
    then have "length (dec_string (m div 10)) \<le> length (dec_string (n div 10))"
      using 1 by (intro "1.IH") (auto intro: div_le_mono)
    with False "1.prems" show ?thesis
      by (subst dec_string.simps [of m], subst dec_string.simps [of n]) simp
  qed
qed

lemma takeWhile_digits_dec_string [dec_simps]:
  "\<not> isdigit (peek r) \<Longrightarrow> takeWhile isdigit (dec_string n @ r) = dec_string n"
  by (cases r) (auto simp: takeWhile_append2 dec_string_digits)

lemma dropWhile_digits_dec_string [dec_simps]:
  "\<not> isdigit (peek r) \<Longrightarrow> dropWhile isdigit (dec_string n @ r) = r"
  by (cases r) (auto simp: dropWhile_append2 dec_string_digits)

lemma hd_dec_string_isdigit [simp]: "isdigit (hd (dec_string n))"
  by (rule dec_string_digits [of _ n]) simp

lemma dec_string_Cons: obtains c ds where "dec_string n = c # ds" "isdigit c"
  by (metis dec_string_ne hd_dec_string_isdigit list.collapse)

lemma isdigit_not_space: "isdigit c \<Longrightarrow> \<not> isspace c"
  by (auto simp: isdigit_def isspace_def)

lemma isdigit_not_sign: "isdigit c \<Longrightarrow> c \<noteq> CHR ''-'' \<and> c \<noteq> CHR ''+''"
  by (auto simp: isdigit_def)

text \<open>Reading back a printed number.\<close>

lemma strtoul_dec_string [dec_simps]:
  assumes "n < 2 ^ 64" and "\<not> isdigit (peek r)"
  shows "strtoul (dec_string n @ r) 10 = (of_nat n, r, False)"
proof -
  obtain c ds where *: "dec_string n = c # ds" "isdigit c" by (rule dec_string_Cons)
  have ws: "dropWhile isspace (dec_string n @ r) = dec_string n @ r"
    using * by (simp add: isdigit_not_space)
  have sg: "split_sign (dec_string n @ r) = (False, dec_string n @ r)"
    using * isdigit_not_sign [of c] by (simp add: split_sign_def)
  show ?thesis
    using assms unfolding strtoul_def ws sg
    by (simp add: skip_0x_def is_base_digit_10 [abs_def] dec_simps)
qed

lemma dropWhile_suffix_length: "length (dropWhile P s) \<le> length s"
  by (induction s) auto

lemma length_split_sign: "length (snd (split_sign s)) \<le> length s"
  by (simp add: split_sign_def)

lemma length_skip_0x: "length (skip_0x b s) \<le> length s"
  by (simp add: skip_0x_def)

lemma dropWhile_length_less: "takeWhile P s \<noteq> [] \<Longrightarrow> length (dropWhile P s) < length s"
  by (cases s) (auto simp: le_imp_less_Suc dropWhile_suffix_length split: if_splits)

lemma strtoul_length: "strtoul s b = (v, r, e) \<Longrightarrow> length r \<le> length s"
  and strtol_length: "strtol s b = (v, r, e) \<Longrightarrow> length r \<le> length s"
proof -
  obtain neg t where t: "split_sign (dropWhile isspace s) = (neg, t)" by fastforce
  have "length t \<le> length s"
    using length_split_sign [of "dropWhile isspace s"] t dropWhile_suffix_length [of isspace s] by simp
  then have u: "length (dropWhile (is_base_digit b) (skip_0x b t)) \<le> length s"
    using dropWhile_suffix_length [of "is_base_digit b" "skip_0x b t"] length_skip_0x [of b t] by linarith
  show "strtoul s b = (v, r, e) \<Longrightarrow> length r \<le> length s"
    using t u by (auto simp: strtoul_def Let_def split: if_splits)
  show "strtol s b = (v, r, e) \<Longrightarrow> length r \<le> length s"
    using t u by (auto simp: strtol_def Let_def split: if_splits)
qed

text \<open>A number that is read consumes at least one character.\<close>

lemma strtoul_progress: "strtoul s b = (v, r, e) \<Longrightarrow> r \<noteq> s \<Longrightarrow> length r < length s"
  and strtol_progress: "strtol s b = (v, r, e) \<Longrightarrow> r \<noteq> s \<Longrightarrow> length r < length s"
proof -
  obtain neg t where t: "split_sign (dropWhile isspace s) = (neg, t)" by fastforce
  have "length t \<le> length s"
    using length_split_sign [of "dropWhile isspace s"] t dropWhile_suffix_length [of isspace s] by simp
  then have u: "length (skip_0x b t) \<le> length s"
    using length_skip_0x [of b t] by linarith
  have d: "takeWhile (is_base_digit b) (skip_0x b t) \<noteq> [] \<Longrightarrow>
           length (dropWhile (is_base_digit b) (skip_0x b t)) < length s"
    using dropWhile_length_less u by fastforce
  show "strtoul s b = (v, r, e) \<Longrightarrow> r \<noteq> s \<Longrightarrow> length r < length s"
    using t d by (auto simp: strtoul_def Let_def split: if_splits)
  show "strtol s b = (v, r, e) \<Longrightarrow> r \<noteq> s \<Longrightarrow> length r < length s"
    using t d by (auto simp: strtol_def Let_def split: if_splits)
qed

text \<open>Numbers in a window no longer than the modulus have different remainders.\<close>

lemma mod_window_inj:
  fixes i j :: nat
  assumes "i mod n = j mod n" and "i \<le> j" and "j < i + n"
  shows "i = j"
proof -
  have "n dvd j - i" using assms(1,2) by (metis mod_eq_dvd_iff_nat)
  moreover have "j - i < n" using assms(2,3) by simp
  ultimately have "j - i = 0" by (meson dvd_imp_le not_less neq0_conv)
  with assms(2) show ?thesis by simp
qed

lemma mod_window_inj':
  fixes i j :: nat
  assumes "i mod n = j mod n" and "a \<le> i" "i < a + n" "a \<le> j" "j < a + n"
  shows "i = j"
  using mod_window_inj [of i n j] mod_window_inj [of j n i] assms
  by (cases "i \<le> j") auto

section \<open>Lemmas on words\<close>

lemma unat_of_nat_32: "n < 2 ^ 32 \<Longrightarrow> unat (of_nat n :: u32) = n"
  by (simp add: unsigned_of_nat take_bit_nat_eq_self)

lemma unat_of_nat_64: "n < 2 ^ 64 \<Longrightarrow> unat (of_nat n :: u64) = n"
  by (simp add: unsigned_of_nat take_bit_nat_eq_self)

lemma unat_add_no_overflow:
  fixes x y :: "'a::len word"
  shows "unat x + unat y < 2 ^ LENGTH('a) \<Longrightarrow> unat (x + y) = unat x + unat y"
  by (simp add: unat_word_ariths)

lemma unat_mult_no_overflow:
  fixes x y :: "'a::len word"
  shows "unat x * unat y < 2 ^ LENGTH('a) \<Longrightarrow> unat (x * y) = unat x * unat y"
  by (simp add: unat_word_ariths)

lemma unat_power_2: "k < LENGTH('a) \<Longrightarrow> unat (2 ^ k :: 'a::len word) = 2 ^ k"
proof -
  assume k: "k < LENGTH('a)"
  have "unat (of_nat (2 ^ k) :: 'a word) = 2 ^ k mod 2 ^ LENGTH('a)" by (rule unat_of_nat)
  then show ?thesis using k by simp
qed

lemma sint_eq_unat:
  fixes w :: "'a::len word"
  assumes "unat w < 2 ^ (LENGTH('a) - 1)"
  shows "sint w = int (unat w)"
proof -
  have i: "int (unat w) = uint w" by simp
  have "int (unat w) < 2 ^ (LENGTH('a) - 1)" using assms by (metis of_nat_less_iff of_nat_numeral of_nat_power)
  then have "signed_take_bit (LENGTH('a) - 1) (uint w) = uint w"
    unfolding i by (subst signed_take_bit_int_eq_self_iff) (auto intro: order_trans [of _ 0])
  then show ?thesis by (simp add: sint_uint)
qed
lemma unat_lt_2p [simp]: "unat (x :: 'a::len word) < 2 ^ LENGTH('a)"
  by (rule unsigned_less)

lemma unat_u32_lt: "unat (x :: u32) < 2 ^ 32" and unat_u64_lt: "unat (y :: u64) < 2 ^ 64"
  using unat_lt_2p [of x] unat_lt_2p [of y] by simp_all

section \<open>Contracts that several components use\<close>

text \<open>An invariant of a step relation: it holds in every state that can be reached from one in which it holds.\<close>

locale preserved =
  fixes step :: "'s \<Rightarrow> 's \<Rightarrow> bool" and inv :: "'s \<Rightarrow> bool"
  assumes step_inv: "step s t \<Longrightarrow> inv s \<Longrightarrow> inv t"
begin

lemma reach_inv: "step\<^sup>*\<^sup>* s t \<Longrightarrow> inv s \<Longrightarrow> inv t"
  by (induction rule: rtranclp_induct) (auto intro: step_inv)

end

text \<open>
  A histogram into which values are recorded one at a time.  \<open>holds h vs\<close> relates a histogram to the accepted values,
  the last one first; recording keeps the shape of the histogram, on which it depends which values are accepted.  \<open>fits\<close> and
  \<open>room\<close> are what is required of the values and of their number.
\<close>

fun record_seq :: "('h \<Rightarrow> 'v \<Rightarrow> 'h option) \<Rightarrow> 'h \<Rightarrow> 'v list \<Rightarrow> 'h option" where
  "record_seq ins h [] = Some h"
| "record_seq ins h (v # vs) = Option.bind (ins h v) (\<lambda>h'. record_seq ins h' vs)"

locale recorder =
  fixes ins :: "'h \<Rightarrow> 'v \<Rightarrow> 'h option" and holds :: "'h \<Rightarrow> 'v list \<Rightarrow> bool" and shape :: "'h \<Rightarrow> 's"
    and acc :: "'h \<Rightarrow> 'v \<Rightarrow> bool" and fits :: "'v \<Rightarrow> bool" and room :: "nat \<Rightarrow> bool"
  assumes ins_holds: "holds h vs \<Longrightarrow> fits v \<Longrightarrow> room (length vs + 1) \<Longrightarrow>
      \<exists>h'. ins h v = Some h' \<and> holds h' (if acc h v then v # vs else vs) \<and> shape h' = shape h"
    and acc_shape: "shape h' = shape h \<Longrightarrow> acc h' = acc h"
    and room_mono: "room n \<Longrightarrow> m \<le> n \<Longrightarrow> room m"
begin

lemma record_seq_holds:
  assumes "holds h ws" and "\<forall>v \<in> set vs. fits v" and "room (length ws + length vs)"
  shows "\<exists>h'. record_seq ins h vs = Some h' \<and> holds h' (rev (filter (acc h) vs) @ ws) \<and> shape h' = shape h"
  using assms
proof (induction vs arbitrary: h ws)
  case (Cons v vs)
  let ?ws = "if acc h v then v # ws else ws"
  have "room (length ws + 1)" using Cons.prems(3) by (rule room_mono) simp
  then obtain h1 where h1: "ins h v = Some h1" "holds h1 ?ws" "shape h1 = shape h" using ins_holds Cons.prems by force
  have "room (length ?ws + length vs)" using Cons.prems(3) by (rule room_mono) simp
  then obtain h' where "record_seq ins h1 vs = Some h'" "holds h' (rev (filter (acc h1) vs) @ ?ws)" "shape h' = shape h1"
    using Cons.IH [OF h1(2)] Cons.prems(2) by auto
  then show ?case using h1 acc_shape [OF h1(3)] by (simp split: if_splits)
qed simp

end

end
