(* ===== verification/Common.thy ===== *)
theory Common
  imports Prelude "HOL-Library.Signed_Division"
begin

text \<open>
  The shared routines of \<^verbatim>\<open>common.h\<close> and \<^verbatim>\<open>common.c\<close>: time arithmetic, the length of a number in
  decimal, unbiased random numbers, bin names, TLS key passwords and string literals.

  Parameters stand for what the sources only call: the random number generator of the client
  library, the size of \<^verbatim>\<open>as_bin_name\<close>, the environment and the file system.
\<close>

section \<open>Time\<close>

text \<open>\<^verbatim>\<open>(~(((int64_t) a) >> 63)) & a\<close>\<close>

definition ramp :: "u64 \<Rightarrow> u64" where
  "ramp a = (NOT (signed_drop_bit 63 a)) AND a"

record timespec =
  tv_sec :: u64
  tv_nsec :: u64

definition timespec_to_us :: "timespec \<Rightarrow> u64" where
  "timespec_to_us ts = tv_sec ts * 1000000 + of_int (sint (tv_nsec ts) sdiv 1000)"

definition timespec_add_us :: "timespec \<Rightarrow> u64 \<Rightarrow> timespec" where
  "timespec_add_us ts us =
     (let nsec = tv_nsec ts + us * 1000
      in ts\<lparr> tv_sec := tv_sec ts + nsec div 1000000000, tv_nsec := nsec mod 1000000000 \<rparr>)"

section \<open>The length of a number in decimal\<close>

definition lookup :: "(u64 \<times> nat) list" where
  "lookup =
     [(- 1, 1), (- 1, 1), (- 1, 1), (9, 1),
      (- 1, 2), (- 1, 2), (99, 2),
      (- 1, 3), (- 1, 3), (999, 3),
      (- 1, 4), (- 1, 4), (- 1, 4), (9999, 4),
      (- 1, 5), (- 1, 5), (99999, 5),
      (- 1, 6), (- 1, 6), (999999, 6),
      (- 1, 7), (- 1, 7), (- 1, 7), (9999999, 7),
      (- 1, 8), (- 1, 8), (99999999, 8),
      (- 1, 9), (- 1, 9), (999999999, 9),
      (- 1, 10), (- 1, 10), (- 1, 10), (9999999999, 10),
      (- 1, 11), (- 1, 11), (99999999999, 11),
      (- 1, 12), (- 1, 12), (999999999999, 12),
      (- 1, 13), (- 1, 13), (- 1, 13), (9999999999999, 13),
      (- 1, 14), (- 1, 14), (99999999999999, 14),
      (- 1, 15), (- 1, 15), (999999999999999, 15),
      (- 1, 16), (- 1, 16), (- 1, 16), (9999999999999999, 16),
      (- 1, 17), (- 1, 17), (99999999999999999, 17),
      (- 1, 18), (- 1, 18), (999999999999999999, 18),
      (- 1, 19), (- 1, 19), (- 1, 19), (9999999999999999999, 19)]"

definition dec_display_len :: "u64 \<Rightarrow> nat" where
  "dec_display_len number =
     (let digits = 63 - clz number
      in if number = 0 then 1
         else snd (lookup ! digits) + (if fst (lookup ! digits) < number then 1 else 0))"

section \<open>Random numbers in a range\<close>

text \<open>
  The generator is the parameter \<open>next\<close>, from a state to a number and the next state.  The loop draws
  until the number is not below \<open>rem\<close>; \<^const>\<open>None\<close> is not returning: the loop does not end, or the
  remainder by zero traps.
\<close>

partial_function (option) rand_loop :: "('r \<Rightarrow> 'w::len word \<times> 'r) \<Rightarrow> 'w word \<Rightarrow> 'r \<Rightarrow> ('w word \<times> 'r) option" where
  "rand_loop next rem random =
     (let r = fst (next random); random' = snd (next random)
      in if r < rem then rand_loop next rem random' else Some (r, random'))"

definition gen_rand_range :: "('r \<Rightarrow> u32 \<times> 'r) \<Rightarrow> 'r \<Rightarrow> u32 \<Rightarrow> (u32 \<times> 'r) option" where
  "gen_rand_range next random mx =
     (if mx = 0 then None
      else let rem = (- mx) mod mx
           in case rand_loop next rem random of
                None \<Rightarrow> None
              | Some (r, random') \<Rightarrow> Some (r mod mx, random'))"

definition gen_rand_range_64 :: "('r \<Rightarrow> u64 \<times> 'r) \<Rightarrow> 'r \<Rightarrow> u64 \<Rightarrow> (u64 \<times> 'r) option" where
  "gen_rand_range_64 next random mx =
     (if mx = 0 then None
      else let rem = (- mx) mod mx
           in case rand_loop next rem random of
                None \<Rightarrow> None
              | Some (r, random') \<Rightarrow> Some (r mod mx, random'))"

section \<open>Bin names\<close>

text \<open>The parameter \<open>bin_name_size\<close> is \<^verbatim>\<open>sizeof(as_bin_name)\<close>.\<close>

definition bin_name_too_large :: "nat \<Rightarrow> u64 \<Rightarrow> u32 \<Rightarrow> bool" where
  "bin_name_too_large bin_name_size name_len n_bins =
     (if n_bins = 1 then name_len \<ge> of_nat bin_name_size
      else name_len + 1 + of_nat (dec_display_len (ucast n_bins)) \<ge> of_nat bin_name_size)"

text \<open>\<^verbatim>\<open>%d\<close> prints the unsigned number as a signed one; \<^verbatim>\<open>snprintf\<close> keeps what fits.\<close>

definition gen_bin_name :: "nat \<Rightarrow> string \<Rightarrow> u32 \<Rightarrow> string" where
  "gen_bin_name bin_name_size bin_name bin_idx =
     (if bin_idx = 0 then take (bin_name_size - 1) bin_name
      else take (bin_name_size - 1) (bin_name @ ''_'' @ sdec_string (sint (bin_idx + 1))))"

section \<open>Passwords of TLS keys\<close>

datatype password_error =
    Env_missing | Env_empty | File_missing | File_unreadable | Password_too_long | File_password_empty

datatype pw_file = No_file | Unreadable_file | File string

definition password_env :: "(string \<Rightarrow> string option) \<Rightarrow> string \<Rightarrow> password_error + string" where
  "password_env getenv var =
     (case getenv var of
        None \<Rightarrow> Inl Env_missing
      | Some pw \<Rightarrow> if pw = [] then Inl Env_empty else Inr pw)"

text \<open>\<^verbatim>\<open>fgets(pw, n, fh)\<close>: at most \<open>n - 1\<close> characters, up to and including a newline.\<close>

fun fgets :: "nat \<Rightarrow> string \<Rightarrow> string" where
  "fgets 0 cs = []"
| "fgets n [] = []"
| "fgets (Suc n) (c # cs) = (if n = 0 then [] else if c = CHR 0x0A then [c] else c # fgets n cs)"

definition pw_end :: "char \<Rightarrow> bool" where
  "pw_end c \<longleftrightarrow> c = NUL \<or> c = CHR 0x0A \<or> c = CHR 0x0D"

definition password_file :: "(string \<Rightarrow> pw_file) \<Rightarrow> string \<Rightarrow> password_error + string" where
  "password_file fs path =
     (case fs path of
        No_file \<Rightarrow> Inl File_missing
      | Unreadable_file \<Rightarrow> Inl File_unreadable
      | File cs \<Rightarrow>
          if cs = [] then Inl File_unreadable
          else let pw = takeWhile (\<lambda>c. \<not> pw_end c) (fgets 5000 cs)
               in if length pw = 4999 then Inl Password_too_long
                  else if pw = [] then Inl File_password_empty
                  else Inr pw)"

definition tls_read_password ::
  "(string \<Rightarrow> string option) \<Rightarrow> (string \<Rightarrow> pw_file) \<Rightarrow> string \<Rightarrow> password_error + string" where
  "tls_read_password getenv fs value =
     (if strneq value ''env:'' 4 then password_env getenv (drop 4 value)
      else if strneq value ''file:'' 5 then password_file fs (drop 5 value)
      else Inr value)"

section \<open>String literals\<close>

datatype literal_error =
    Expected_quote | Unterminated_literal | Dangling_escape | Unterminated_hex | Invalid_octal
  | Invalid_hex | Unknown_escape char | Literal_overrun

definition is_octal :: "char \<Rightarrow> bool" where
  "is_octal c \<longleftrightarrow> 48 \<le> cc c \<and> cc c \<le> 55"

text \<open>The first pass: the length of the literal and where its closing quote is.\<close>

function (sequential) scan_literal :: "string \<Rightarrow> nat \<Rightarrow> literal_error + nat \<times> string" where
  "scan_literal [] len = Inl Unterminated_literal"
| "scan_literal (c # s) len =
     (if c = CHR 0x22 then Inr (len, c # s)
      else if c = CHR 0x5C then
        if s = [] then Inl Dangling_escape
        else if peek s = CHR ''x'' then
          if char_at s 1 = NUL \<or> char_at s 2 = NUL then Inl Unterminated_hex
          else scan_literal (drop 3 s) (Suc len)
        else if 48 \<le> cc (peek s) \<and> cc (peek s) \<le> 51 then
          if \<not> is_octal (char_at s 1) \<or> \<not> is_octal (char_at s 2) then Inl Invalid_octal
          else scan_literal (drop 3 s) (Suc len)
        else scan_literal (tl s) (Suc len)
      else scan_literal s (Suc len))"
  by pat_completeness auto

termination
  by (relation "measure (\<lambda>(s, len). length s)") auto

definition simple_escape :: "char \<Rightarrow> char option" where
  "simple_escape c =
     map_of [(CHR ''a'', CHR 0x07), (CHR ''b'', CHR 0x08), (CHR ''e'', CHR 0x1B), (CHR ''f'', CHR 0x0C),
             (CHR ''n'', CHR 0x0A), (CHR ''r'', CHR 0x0D), (CHR ''t'', CHR 0x09), (CHR ''v'', CHR 0x0B),
             (CHR 0x5C, CHR 0x5C), (CHR 0x27, CHR 0x27), (CHR 0x22, CHR 0x22), (CHR ''?'', CHR ''?'')] c"

text \<open>The second pass, up to the closing quote \<open>e\<close>; running past the end of the string is an error here.\<close>

function (sequential) emit_literal :: "string \<Rightarrow> string \<Rightarrow> literal_error + string" where
  "emit_literal [] e = (if e = [] then Inr [] else Inl Literal_overrun)"
| "emit_literal (c # s) e =
     (if c # s = e then Inr []
      else if c = CHR 0x5C then
        case simple_escape (peek s) of
          Some d \<Rightarrow> map_sum id ((#) d) (emit_literal (tl s) e)
        | None \<Rightarrow>
            if 48 \<le> cc (peek s) \<and> cc (peek s) \<le> 51 then
              let val = (cc (peek s) - 48) * 64 + (cc (char_at s 1) - 48) * 8 + (cc (char_at s 2) - 48)
              in map_sum id ((#) (char_of val)) (emit_literal (drop 3 s) e)
            else if peek s = CHR ''x'' then
              let (val, endptr, _) = strtoul (cstr [char_at s 1, char_at s 2]) 16
              in if endptr \<noteq> [] \<or> length (cstr [char_at s 1, char_at s 2]) \<noteq> 2 then Inl Invalid_hex
                 else map_sum id ((#) (char_of (unat val))) (emit_literal (drop 3 s) e)
            else Inl (Unknown_escape (peek s))
      else map_sum id ((#) c) (emit_literal s e))"
  by pat_completeness auto

termination
  by (relation "measure (\<lambda>(s, e). length s)") auto

definition parse_string_literal :: "string \<Rightarrow> literal_error + string \<times> string" where
  "parse_string_literal str =
     (if peek str \<noteq> CHR 0x22 then Inl Expected_quote
      else case scan_literal (tl str) 0 of
             Inl err \<Rightarrow> Inl err
           | Inr (len, e) \<Rightarrow>
               case emit_literal (tl str) e of
                 Inl err \<Rightarrow> Inl err
               | Inr res \<Rightarrow> Inr (res, tl e))"

section \<open>Lemmas\<close>

text \<open>Each entry of the table brackets the numbers with its number of binary digits.\<close>

definition entry_ok :: "nat \<Rightarrow> u64 \<times> nat \<Rightarrow> bool" where
  "entry_ok p e =
     (let mx = unat (fst e); d = snd e
      in 0 < d \<and> 10 ^ (d - 1) \<le> p \<and>
         (mx = 2 ^ 64 - 1 \<and> 2 * p \<le> 10 ^ d \<or> mx = 10 ^ d - 1 \<and> 2 * p \<le> 10 ^ Suc d))"

fun table_ok :: "nat \<Rightarrow> (u64 \<times> nat) list \<Rightarrow> bool" where
  "table_ok p [] = True"
| "table_ok p (e # es) = (entry_ok p e \<and> table_ok (2 * p) es)"

lemma unat_max_64: "unat (- 1 :: u64) = 18446744073709551615"
  by (simp add: unsigned_minus_1_eq_mask mask_eq_exp_minus_1)

lemma lookup_ok: "table_ok 1 lookup" "length lookup = 64"
  by (simp_all add: lookup_def entry_ok_def unat_max_64)

lemma table_okD: "table_ok p es \<Longrightarrow> k < length es \<Longrightarrow> entry_ok (p * 2 ^ k) (es ! k)"
proof (induction p es arbitrary: k rule: table_ok.induct)
  case (2 p e es)
  then show ?case by (cases k) (auto simp: mult.assoc mult.left_commute)
qed simp

lemma entry_okD:
  assumes "k < 64" and "2 ^ k \<le> n" and "n < 2 ^ Suc k" and "n < 2 ^ 64"
  shows "length (dec_string n) = snd (lookup ! k) + (if unat (fst (lookup ! k)) < n then 1 else 0)"
proof -
  let ?d = "snd (lookup ! k)"
  have "entry_ok (2 ^ k) (lookup ! k)" using table_okD [OF lookup_ok(1), of k] lookup_ok(2) assms(1) by simp
  then have d: "0 < ?d" "(10::nat) ^ (?d - 1) \<le> 2 ^ k"
    and c: "unat (fst (lookup ! k)) = 2 ^ 64 - 1 \<and> 2 ^ Suc k \<le> (10::nat) ^ ?d \<or>
         unat (fst (lookup ! k)) = 10 ^ ?d - 1 \<and> 2 ^ Suc k \<le> (10::nat) ^ Suc ?d"
    unfolding entry_ok_def Let_def power_Suc by blast+
  have lo: "10 ^ (?d - 1) \<le> n" using d(2) assms(2) by (rule le_trans)
  have short: "length (dec_string n) = ?d" if "n < 10 ^ ?d"
    using length_dec_string [OF lo] that d(1) by simp
  show ?thesis
  proof (cases "n < 10 ^ ?d")
    case True
    then have "\<not> unat (fst (lookup ! k)) < n" using c assms(4) by auto
    with short [OF True] show ?thesis by simp
  next
    case False
    then have "\<not> 2 ^ Suc k \<le> (10::nat) ^ ?d" using assms(3) by linarith
    with c have m: "unat (fst (lookup ! k)) = 10 ^ ?d - 1" and u: "n < 10 ^ Suc ?d"
      using assms(3) by linarith+
    have "(0::nat) < 10 ^ ?d" by simp
    with m False have "unat (fst (lookup ! k)) < n" by linarith
    moreover have "length (dec_string n) = Suc ?d"
      using length_dec_string [of ?d n] False u by simp
    ultimately show ?thesis by simp
  qed
qed

lemma dec_display_len_eq: "dec_display_len n = length (dec_string (unat n))"
proof (cases "n = 0")
  case True
  then show ?thesis by (simp add: dec_display_len_def dec_string.simps [of 0])
next
  case False
  let ?b = "bit_length (unat n)"
  have b: "0 < ?b" "?b \<le> 64"
    using False unat_u64_lt [of n] by (simp_all add: unat_gt_0 bit_length_le_iff)
  have "2 ^ (?b - 1) \<le> unat n" using False by (intro power_bit_length_le) (simp add: unat_gt_0)
  moreover have "unat n < 2 ^ Suc (?b - 1)" using less_2_power_bit_length [of "unat n"] b(1) by simp
  ultimately have "length (dec_string (unat n)) =
      snd (lookup ! (?b - 1)) + (if unat (fst (lookup ! (?b - 1))) < unat n then 1 else 0)"
    using b unat_u64_lt [of n] by (intro entry_okD) (simp_all add: less_2_power_bit_length)
  moreover have "63 - clz n = ?b - 1" using b by (simp add: clz_def)
  ultimately show ?thesis using False by (simp add: dec_display_len_def Let_def word_less_nat_alt)
qed

subsection \<open>Random numbers\<close>

text \<open>The draws of a generator, and where a loop that skips the small ones stops.\<close>

fun draw_state :: "('r \<Rightarrow> 'w \<times> 'r) \<Rightarrow> 'r \<Rightarrow> nat \<Rightarrow> 'r" where
  "draw_state next r 0 = r"
| "draw_state next r (Suc n) = draw_state next (snd (next r)) n"

definition draw :: "('r \<Rightarrow> 'w \<times> 'r) \<Rightarrow> 'r \<Rightarrow> nat \<Rightarrow> 'w" where
  "draw next r n = fst (next (draw_state next r n))"

lemma draw_0 [simp]: "draw next r 0 = fst (next r)"
  and draw_Suc [simp]: "draw next r (Suc n) = draw next (snd (next r)) n"
  by (simp_all add: draw_def)

lemma rand_loop_first:
  assumes "\<not> draw next r n < rem" and "\<forall>i < n. draw next r i < rem"
  shows "rand_loop next rem r = Some (draw next r n, draw_state next r (Suc n))"
  using assms
proof (induction n arbitrary: r)
  case 0
  then show ?case by (subst rand_loop.simps) (simp add: Let_def)
next
  case (Suc n)
  have "fst (next r) < rem" using Suc.prems(2) by (metis draw_0 zero_less_Suc)
  moreover have "\<forall>i < n. draw next (snd (next r)) i < rem" using Suc.prems(2) by (metis Suc_less_eq draw_Suc)
  ultimately show ?case
    using Suc.IH [of "snd (next r)"] Suc.prems(1) by (subst rand_loop.simps) (simp add: Let_def)
qed

lemma rand_loop_draw:
  assumes "rand_loop next rem r = Some (x, r')"
  shows "\<not> x < rem"
proof -
  have "\<not> fst (x, r') < rem"
    by (rule rand_loop.raw_induct [where P = "\<lambda>next rem r y. \<not> fst y < rem", OF _ assms])
      (auto simp: Let_def split: if_splits)
  then show ?thesis by simp
qed

lemma rand_loop_returns:
  assumes "\<not> draw next r n < rem"
  shows "\<exists>m \<le> n. rand_loop next rem r = Some (draw next r m, draw_state next r (Suc m)) \<and> \<not> draw next r m < rem"
proof -
  define m where "m = (LEAST m. \<not> draw next r m < rem)"
  have "\<not> draw next r m < rem" unfolding m_def using assms by (rule LeastI)
  moreover have "\<forall>i < m. draw next r i < rem" unfolding m_def using not_less_Least [of _ "\<lambda>m. \<not> draw next r m < rem"] by blast
  moreover have "m \<le> n" unfolding m_def using assms by (rule Least_le)
  ultimately show ?thesis using rand_loop_first [of "next" r m rem] by blast
qed

text \<open>The number of draws the loop rejects, \<open>2 ^ w mod max\<close>, and why it is enough to avoid bias.\<close>

lemma unat_neg_mod:
  fixes m :: "'w::len word"
  assumes "m \<noteq> 0"
  shows "unat ((- m) mod m) = 2 ^ LENGTH('w) mod unat m"
proof -
  have lt: "unat m < 2 ^ LENGTH('w)" by simp
  have pos: "0 < unat m" using assms by (simp add: unat_gt_0)
  have "- m = of_nat (2 ^ LENGTH('w) - unat m)" using lt by (simp add: of_nat_diff less_imp_le)
  then have "unat (- m) = (2 ^ LENGTH('w) - unat m) mod 2 ^ LENGTH('w)" by (simp only: unat_of_nat)
  then have "unat (- m) = 2 ^ LENGTH('w) - unat m" using pos by (simp only: mod_less diff_less zero_less_power zero_less_numeral)
  then have "unat ((- m) mod m) = (2 ^ LENGTH('w) - unat m) mod unat m" by (simp add: unat_mod_distrib)
  also have "\<dots> = 2 ^ LENGTH('w) mod unat m" using le_mod_geq [of "unat m" "2 ^ LENGTH('w)"] lt by simp
  finally show ?thesis .
qed

lemma card_residue_block:
  fixes m a v :: nat
  assumes "v < m"
  shows "card {x. a \<le> x \<and> x < a + m \<and> x mod m = v} = 1"
proof -
  let ?x = "a + (v + m - a mod m) mod m"
  have m: "0 < m" using assms by simp
  have x: "?x mod m = v"
  proof -
    have "?x mod m = (a mod m + (v + m - a mod m)) mod m" by (simp add: mod_simps)
    also have "a mod m + (v + m - a mod m) = v + m" using mod_less_divisor [OF m, of a] by linarith
    finally show ?thesis using assms by simp
  qed
  have "x = ?x" if "a \<le> x" "x < a + m" "x mod m = v" for x
  proof -
    have "?x < a + m" "a \<le> ?x" using m by simp_all
    then show ?thesis using mod_window_inj' [of x m ?x a] that x by simp
  qed
  then have "{x. a \<le> x \<and> x < a + m \<and> x mod m = v} = {?x}" using x m by auto
  then show ?thesis by simp
qed

lemma card_residue:
  fixes m a v q :: nat
  assumes "v < m"
  shows "card {x. a \<le> x \<and> x < a + q * m \<and> x mod m = v} = q"
proof (induction q)
  case (Suc q)
  let ?A = "{x. a \<le> x \<and> x < a + q * m \<and> x mod m = v}"
  let ?B = "{x. a + q * m \<le> x \<and> x < a + q * m + m \<and> x mod m = v}"
  have "{x. a \<le> x \<and> x < a + Suc q * m \<and> x mod m = v} = ?A \<union> ?B" by auto
  moreover have "card (?A \<union> ?B) = card ?A + card ?B" by (rule card_Un_disjoint) auto
  ultimately show ?case using Suc card_residue_block [OF assms, of "a + q * m"] by simp
qed simp

text \<open>Among the draws that are kept every result is hit by the same number of them.\<close>

lemma rand_unbiased:
  fixes m :: "'w::len word"
  assumes "m \<noteq> 0" and "v < m"
  shows "card {x :: 'w word. \<not> x < (- m) mod m \<and> x mod m = v} = 2 ^ LENGTH('w) div unat m"
proof -
  let ?N = "2 ^ LENGTH('w) :: nat" and ?m = "unat m"
  have mp: "0 < ?m" "unat v < ?m" using assms by (simp_all add: unat_gt_0 word_less_nat_alt)
  have N: "?N = ?N mod ?m + ?N div ?m * ?m" by simp
  have R: "unat ((- m) mod m) = ?N mod ?m" using assms(1) by (rule unat_neg_mod)
  let ?S = "{x :: 'w word. \<not> x < (- m) mod m \<and> x mod m = v}"
  let ?T = "{x. ?N mod ?m \<le> x \<and> x < ?N mod ?m + ?N div ?m * ?m \<and> x mod ?m = unat v}"
  have S: "?S = {x. ?N mod ?m \<le> unat x \<and> unat x mod ?m = unat v}"
    by (simp add: word_less_nat_alt R not_less word_unat_eq_iff del: unat_mod_distrib)
      (simp add: unat_mod_distrib)
  have T: "?T = {x. ?N mod ?m \<le> x \<and> x < ?N \<and> x mod ?m = unat v}" by (simp flip: N)
  have "bij_betw unat ?S ?T"
    unfolding S T
    by (rule bij_betw_byWitness [where f' = of_nat]) (auto simp: unsigned_of_nat take_bit_nat_eq_self)
  then show ?thesis
    using card_residue [OF mp(2), of "?N mod ?m" "?N div ?m"] by (simp add: bij_betw_same_card)
qed

text \<open>The result is the first draw that is not rejected, modulo the bound.\<close>

lemma gen_rand_range_64_returns:
  fixes mx :: u64
  assumes "mx \<noteq> 0" and "2 ^ 63 \<le> draw next random n"
  shows "\<exists>m. gen_rand_range_64 next random mx = Some (draw next random m mod mx, draw_state next random (Suc m)) \<and>
           draw next random m mod mx < mx \<and> \<not> draw next random m < (- mx) mod mx \<and>
           (\<forall>i < m. draw next random i < (- mx) mod mx)"
proof -
  have "2 ^ 64 mod unat mx \<le> (2::nat) ^ 63"
  proof (cases "unat mx \<le> 2 ^ 63")
    case True
    moreover have "2 ^ 64 mod unat mx < unat mx" using assms(1) by (simp add: unat_gt_0)
    ultimately show ?thesis by linarith
  next
    case False
    then have "2 ^ 64 mod unat mx = 2 ^ 64 - unat mx"
      using unat_u64_lt [of mx] by (simp add: mod_if)
    with False show ?thesis by simp
  qed
  then have "unat ((- mx) mod mx) \<le> 2 ^ 63" using unat_neg_mod [OF assms(1)] by simp
  then have top: "\<not> draw next random n < (- mx) mod mx"
    using assms(2) by (simp add: word_less_nat_alt word_le_nat_alt)
  define m where "m = (LEAST m. \<not> draw next random m < (- mx) mod mx)"
  have m: "\<not> draw next random m < (- mx) mod mx" "\<forall>i < m. draw next random i < (- mx) mod mx"
    unfolding m_def using LeastI [of "\<lambda>m. \<not> draw next random m < (- mx) mod mx", OF top]
      not_less_Least [of _ "\<lambda>m. \<not> draw next random m < (- mx) mod mx"] by blast+
  have res: "gen_rand_range_64 next random mx = Some (draw next random m mod mx, draw_state next random (Suc m))"
    using rand_loop_first [OF m] assms(1) by (simp add: gen_rand_range_64_def Let_def)
  moreover have "draw next random m mod mx < mx" using assms(1) by (simp add: word_mod_less_divisor word_neq_0_conv)
  ultimately show ?thesis using m by blast
qed

subsection \<open>Bin names\<close>

lemma gen_bin_name_fits:
  assumes ok: "\<not> bin_name_too_large sz (of_nat (length name)) n" and idx: "i < n"
    and n: "unat n < 2 ^ 31" and sz: "sz < 2 ^ 32" and name: "length name < 2 ^ 32"
  shows "gen_bin_name sz name i = (if i = 0 then name else name @ ''_'' @ dec_string (Suc (unat i))) \<and>
         length (gen_bin_name sz name i) < sz"
proof -
  have i: "unat i < unat n" using idx by (simp add: word_less_nat_alt)
  have i1: "unat (i + 1) = Suc (unat i)"
    using i n by (subst unat_add_no_overflow) simp_all
  have si: "sint (i + 1) = int (Suc (unat i))"
    using i n i1 by (subst sint_eq_unat) simp_all
  show ?thesis
  proof (cases "n = 1")
    case True
    then have "i = 0" using i by (simp add: word_unat_eq_iff)
    moreover have "length name < sz"
      using ok True name sz by (simp add: bin_name_too_large_def word_le_nat_alt unat_of_nat_64)
    ultimately show ?thesis by (simp add: gen_bin_name_def)
  next
    case False
    let ?d = "length (dec_string (unat n))"
    have n64: "unat (ucast n :: u64) = unat n"
      using unat_u32_lt [of n] by (simp add: unsigned_ucast_eq take_bit_nat_eq_self)
    have d: "?d \<le> 10"
      using length_dec_string_mono [of "unat n" "2 ^ 31"] length_dec_string [of 9 "2 ^ 31"] n by simp
    have "unat (of_nat (length name) + 1 + of_nat ?d :: u64) = length name + 1 + ?d"
      using name d by (simp add: unat_add_no_overflow unat_of_nat_64)
    then have fit: "length name + 1 + ?d < sz"
      using ok False sz by (simp add: bin_name_too_large_def word_le_nat_alt unat_of_nat_64 dec_display_len_eq n64)
    have "length (dec_string (Suc (unat i))) \<le> ?d" using i by (intro length_dec_string_mono) simp
    then show ?thesis
      using fit unfolding gen_bin_name_def si sdec_string_int by simp
  qed
qed

lemma gen_bin_name_inj:
  assumes "\<not> bin_name_too_large sz (of_nat (length name)) n" and "i < n" "j < n"
    and "unat n < 2 ^ 31" and "sz < 2 ^ 32" and "length name < 2 ^ 32"
    and "gen_bin_name sz name i = gen_bin_name sz name j"
  shows "i = j"
  using gen_bin_name_fits [OF assms(1,2,4-6)] gen_bin_name_fits [OF assms(1,3,4-6)] assms(7)
  by (auto split: if_splits simp: word_unat_eq_iff dest: dec_string_inject)

subsection \<open>Passwords\<close>

lemma fgets_line: "takeWhile (\<lambda>c. \<not> pw_end c) (fgets (Suc n) cs) = take n (takeWhile (\<lambda>c. \<not> pw_end c) cs)"
proof (induction cs arbitrary: n)
  case (Cons c cs)
  show ?case
  proof (cases n)
    case (Suc m)
    then show ?thesis using Cons.IH [of m] by (auto simp: pw_end_def)
  qed simp
qed simp

subsection \<open>String literals\<close>

lemma simple_escape_no_digit:
  "simple_escape c = Some d \<Longrightarrow> c \<noteq> CHR ''x'' \<and> \<not> (48 \<le> cc c \<and> cc c \<le> 51)"
  by (auto simp: simple_escape_def split: if_splits)

lemma scan_literal_length: "scan_literal s n = Inr (len, e) \<Longrightarrow> length e \<le> length s"
proof (induction s n rule: scan_literal.induct)
  case (2 c s n)
  then show ?case by (auto split: if_splits simp: le_Suc_eq dest!: meta_mp) 
qed simp

lemma scan_literal_strict:
  assumes "scan_literal (c # s) n = Inr (len, e)" and "c \<noteq> CHR 0x22"
  shows "length e \<le> length s"
proof -
  have "scan_literal s (Suc n) = Inr (len, e) \<or> scan_literal (tl s) (Suc n) = Inr (len, e) \<or>
        scan_literal (drop 3 s) (Suc n) = Inr (len, e)"
    using assms by (auto split: if_splits)
  then show ?thesis by (auto dest: scan_literal_length)
qed

text \<open>The two passes agree on how far they go.\<close>

lemma passes_agree:
  "scan_literal s n = Inr (len, e) \<Longrightarrow>
   emit_literal s e \<noteq> Inl Literal_overrun \<and> (\<forall>res. emit_literal s e = Inr res \<longrightarrow> n + length res = len)"
proof (induction s n rule: scan_literal.induct)
  case (2 c s n)
  show ?case
  proof (cases "c = CHR 0x22")
    case True
    with 2 show ?thesis by auto
  next
    case q: False
    have ne: "c # s \<noteq> e" using scan_literal_strict [OF "2.prems" q] by auto
    show ?thesis
    proof (cases "c = CHR 0x5C")
      case False
      with 2 q ne have "emit_literal s e \<noteq> Inl Literal_overrun \<and>
          (\<forall>res. emit_literal s e = Inr res \<longrightarrow> Suc n + length res = len)" by simp
      with False ne show ?thesis by (cases "emit_literal s e") auto
    next
      case esc: True
      have step: "emit_literal (drop k s) e \<noteq> Inl Literal_overrun \<and>
          (\<forall>res. emit_literal (drop k s) e = Inr res \<longrightarrow> Suc n + length res = len)"
        if "k = (if peek s = CHR ''x'' \<or> 48 \<le> cc (peek s) \<and> cc (peek s) \<le> 51 then 3 else 1)" for k
        using 2 q esc that by (auto split: if_splits simp: drop_Suc)
      show ?thesis
        using step [OF refl] ne esc simple_escape_no_digit [of "peek s"]
        by (cases "emit_literal (drop 1 s) e"; cases "emit_literal (drop 3 s) e")
          (auto split: option.splits prod.splits if_splits simp: Let_def drop_Suc)
    qed
  qed
qed simp

subsection \<open>Ways to write a character in a literal\<close>

datatype lit_form = Plain | Octal | Hex

definition hex_digit :: "nat \<Rightarrow> char" where
  "hex_digit d = (if d < 10 then char_of (48 + d) else char_of (87 + d))"

fun write_char :: "lit_form \<times> char \<Rightarrow> string" where
  "write_char (Plain, c) = [c]"
| "write_char (Octal, c) =
     [CHR 0x5C, char_of (48 + cc c div 64), char_of (48 + cc c div 8 mod 8), char_of (48 + cc c mod 8)]"
| "write_char (Hex, c) = [CHR 0x5C, CHR ''x'', hex_digit (cc c div 16), hex_digit (cc c mod 16)]"

fun writable :: "lit_form \<times> char \<Rightarrow> bool" where
  "writable (Plain, c) \<longleftrightarrow> c \<noteq> CHR 0x22 \<and> c \<noteq> CHR 0x5C \<and> c \<noteq> NUL"
| "writable (Octal, c) \<longleftrightarrow> True"
| "writable (Hex, c) \<longleftrightarrow> True"

lemma cc_less [simp]: "cc c < 256"
  by (cases c) (simp add: of_char_def)

lemma hex_digit_props:
  assumes "d < 16"
  shows "digit_val (hex_digit d) = Some d" "\<not> isspace (hex_digit d)"
    "hex_digit d \<noteq> CHR ''-''" "hex_digit d \<noteq> CHR ''+''" "hex_digit d \<noteq> NUL"
proof -
  have cc: "cc (hex_digit d) = (if d < 10 then 48 + d else 87 + d)" using assms by (simp add: hex_digit_def)
  then show "digit_val (hex_digit d) = Some d" "\<not> isspace (hex_digit d)"
    using assms by (auto simp: digit_val_def isdigit_def isspace_def)
  have "cc (hex_digit d) \<noteq> cc (CHR ''-'')" "cc (hex_digit d) \<noteq> cc (CHR ''+'')" "cc (hex_digit d) \<noteq> cc NUL"
    using cc assms by (auto split: if_splits)
  then show "hex_digit d \<noteq> CHR ''-''" "hex_digit d \<noteq> CHR ''+''" "hex_digit d \<noteq> NUL" by auto
qed

lemma strtoul_hex_pair:
  assumes "h < 16" and "l < 16"
  shows "strtoul [hex_digit h, hex_digit l] 16 = (of_nat (16 * h + l), [], False)"
proof -
  have "is_base_digit 16 (hex_digit h)" "is_base_digit 16 (hex_digit l)" "\<not> is_base_digit 16 NUL"
    using hex_digit_props(1) assms by (simp_all add: is_base_digit_def digit_val_def isdigit_def)
  then show ?thesis
    using hex_digit_props [OF assms(1)] hex_digit_props [OF assms(2)] assms
    by (simp add: strtoul_def split_sign_def skip_0x_def base_val_def Let_def char_at_def)
qed

lemma cc_octal: "k < 8 \<Longrightarrow> cc (char_of (48 + k)) = 48 + k"
  by simp

lemma write_char_scan:
  assumes "writable fc"
  shows "scan_literal (write_char fc @ r) n = scan_literal r (Suc n)"
proof (cases fc)
  case (Pair f c)
  have c: "cc c div 64 < 4" "cc c div 8 mod 8 < 8" "cc c mod 8 < 8" "cc c div 16 < 16" "cc c mod 16 < 16"
    using cc_less [of c] by (auto simp: less_mult_imp_div_less)
  have o: "cc (char_of (48 + cc c div 64)) = 48 + cc c div 64" using c(1) by simp
  then have "cc (char_of (48 + cc c div 64)) \<noteq> cc (CHR ''x'')" using c(1) by simp
  then have "char_of (48 + cc c div 64) \<noteq> CHR ''x''" by metis
  then show ?thesis
    using assms Pair c o by (cases f) (auto simp: is_octal_def hex_digit_props char_at_def)
qed

lemma write_char_emit:
  assumes "writable fc" and e: "length e \<le> length r"
  shows "emit_literal (write_char fc @ r) e = map_sum id ((#) (snd fc)) (emit_literal r e)"
proof (cases fc)
  case (Pair f c)
  have c: "cc c div 64 < 4" "cc c div 8 mod 8 < 8" "cc c mod 8 < 8" "cc c div 16 < 16" "cc c mod 16 < 16"
    using cc_less [of c] by (auto simp: less_mult_imp_div_less)
  have ne: "write_char fc @ r \<noteq> e" using e Pair by (cases f) auto
  show ?thesis
  proof (cases f)
    case Plain
    with assms Pair ne show ?thesis by auto
  next
    case Octal
    let ?o = "char_of (48 + cc c div 64) :: char"
    have o: "cc ?o = 48 + cc c div 64" using c(1) by simp
    have se: "simple_escape ?o = None"
      using o c(1) simple_escape_no_digit [of ?o] by (cases "simple_escape ?o") auto
    have "cc c div 64 = cc c div 8 div 8" by (simp flip: div_mult2_eq)
    then have "cc c div 64 * 64 + cc c div 8 mod 8 * 8 + cc c mod 8 = cc c"
      using div_mult_mod_eq [of "cc c div 8" 8] div_mult_mod_eq [of "cc c" 8] by linarith
    with Octal Pair ne se o c show ?thesis by (simp add: Let_def char_at_def)
  next
    case Hex
    have se: "simple_escape (CHR ''x'') = None" by (simp add: simple_escape_def)
    have cs: "cstr [hex_digit (cc c div 16), hex_digit (cc c mod 16)] = [hex_digit (cc c div 16), hex_digit (cc c mod 16)]"
      using c hex_digit_props(5) by (simp add: cstr_def)
    have "unat (of_nat (cc c) :: u64) = cc c"
      using less_trans [OF cc_less [of c]] by (intro unat_of_nat_64) simp
    with Hex Pair ne se cs strtoul_hex_pair [OF c(4,5)] show ?thesis by (simp add: Let_def char_at_def)
  qed
qed

lemma written_scan:
  "\<forall>fc \<in> set fcs. writable fc \<Longrightarrow>
   scan_literal (concat (map write_char fcs) @ CHR 0x22 # r) n = Inr (n + length fcs, CHR 0x22 # r)"
  by (induction fcs arbitrary: n) (auto simp: write_char_scan)

lemma written_emit:
  "\<forall>fc \<in> set fcs. writable fc \<Longrightarrow>
   emit_literal (concat (map write_char fcs) @ CHR 0x22 # r) (CHR 0x22 # r) = Inr (map snd fcs)"
  by (induction fcs) (auto simp: write_char_emit)

section \<open>Properties\<close>

text \<open>
  The table lookup of \<^verbatim>\<open>dec_display_len\<close> gives, for every 64-bit number, the number of characters
  the number takes when printed in decimal.
\<close>

theorem dec_display_len_correct: "dec_display_len n = length (dec_string (unat n))"
  by (rule dec_display_len_eq)

text \<open>
  C22. \<^verbatim>\<open>gen_rand_range_64\<close> with a positive bound returns as soon as the generator draws a number with
  the top bit set, at the latest, and what it returns is below the bound; among the draws it does not
  reject, every result is hit by the same number of draws, so it has no modulo bias.
\<close>

theorem gen_rand_range_64_correct:
  fixes mx :: u64
  assumes "mx \<noteq> 0" and "2 ^ 63 \<le> draw next random n"
  shows "(\<exists>r random'. gen_rand_range_64 next random mx = Some (r, random') \<and> r < mx) \<and>
         (\<forall>v < mx. card {x. \<not> x < (- mx) mod mx \<and> x mod mx = v} = 2 ^ 64 div unat mx) \<and>
         (\<forall>r random'. gen_rand_range_64 next random mx = Some (r, random') \<longrightarrow>
            (\<exists>m. r = draw next random m mod mx \<and> \<not> draw next random m < (- mx) mod mx \<and>
                 (\<forall>i < m. draw next random i < (- mx) mod mx)))"
proof -
  have "\<forall>v < mx. card {x. \<not> x < (- mx) mod mx \<and> x mod mx = v} = 2 ^ 64 div unat mx"
    using rand_unbiased [OF assms(1)] by simp
  then show ?thesis using gen_rand_range_64_returns [OF assms] by auto
qed

text \<open>
  When \<^verbatim>\<open>bin_name_too_large\<close> accepts a base name and a number of bins, the generated names of
  all bins fit their buffer without truncation and are pairwise different.
\<close>

theorem bin_names_distinct:
  assumes "\<not> bin_name_too_large sz (of_nat (length name)) n"
    and "unat n < 2 ^ 31" and "sz < 2 ^ 32" and "length name < 2 ^ 32"
  shows "inj_on (gen_bin_name sz name) {i. i < n} \<and>
         (\<forall>i < n. length (gen_bin_name sz name i) < sz \<and>
            gen_bin_name sz name i = (if i = 0 then name else name @ ''_'' @ dec_string (Suc (unat i))))"
proof (intro conjI allI impI inj_onI)
  show "i = j" if "i \<in> {i. i < n}" "j \<in> {i. i < n}" "gen_bin_name sz name i = gen_bin_name sz name j" for i j
    using gen_bin_name_inj [OF assms(1) _ _ assms(2-4)] that by blast
qed (use gen_bin_name_fits [OF assms(1) _ assms(2-4)] in blast)+

text \<open>
  A password file yields a password exactly when its first line, up to a newline, carriage
  return or NUL, has between 1 and 4998 characters, and then that line is the password.
\<close>

theorem password_file_first_line:
  "password_file fs path = Inr pw \<longleftrightarrow>
     (\<exists>cs. fs path = File cs \<and> pw = takeWhile (\<lambda>c. \<not> pw_end c) cs \<and> pw \<noteq> [] \<and> length pw < 4999)"
proof (cases "fs path")
  case (File cs)
  let ?l = "takeWhile (\<lambda>c. \<not> pw_end c) cs"
  have "takeWhile (\<lambda>c. \<not> pw_end c) (fgets 5000 cs) = take 4999 ?l"
    using fgets_line [of 4999 cs] by simp
  moreover have "cs = [] \<longrightarrow> ?l = []" by simp
  ultimately show ?thesis
    using File by (cases "length ?l < 4999") (auto simp: password_file_def Let_def)
qed (simp_all add: password_file_def)

text \<open>
  The second pass of \<^verbatim>\<open>parse_string_literal\<close> never runs past the closing quote and writes exactly
  as many characters as the first pass counted, so the buffer allocated between them is neither
  overrun nor left with an unset part.
\<close>

theorem parse_string_literal_fits:
  assumes "scan_literal s 0 = Inr (len, e)"
  shows "emit_literal s e \<noteq> Inl Literal_overrun \<and> (\<forall>res. emit_literal s e = Inr res \<longrightarrow> length res = len)"
  using passes_agree [OF assms] by simp

text \<open>
  C37. Every string can be written as a literal, each character plainly (unless it is a quote, a
  backslash or a NUL), as an octal escape or as a hexadecimal escape, and parsing the literal gives
  the string back together with what follows the closing quote.
\<close>

theorem parse_string_literal_roundtrip:
  assumes "\<forall>fc \<in> set fcs. writable fc"
  shows "parse_string_literal (CHR 0x22 # concat (map write_char fcs) @ CHR 0x22 # r) = Inr (map snd fcs, r)"
  using written_scan [OF assms] written_emit [OF assms] by (simp add: parse_string_literal_def)

section \<open>Witnesses\<close>

text \<open>A generator that counts up from its state.\<close>

definition counter :: "u64 \<Rightarrow> u64 \<times> u64" where
  "counter r = (r, r + 1)"

theorem gen_rand_range_64_correct_witness:
  "\<exists>r random'. gen_rand_range_64 counter (2 ^ 63) 10 = Some (r, random') \<and> r < 10"
proof -
  have "2 ^ 63 \<le> draw counter (2 ^ 63) 0" by (simp add: counter_def)
  then show ?thesis using gen_rand_range_64_correct [of 10 counter "2 ^ 63" 0] by simp
qed

theorem bin_names_distinct_witness:
  "inj_on (gen_bin_name 16 ''testbin'') {i. i < 3}"
proof -
  have d: "dec_display_len 3 = 1" by (simp add: dec_display_len_eq dec_string.simps [of 3])
  have "\<not> bin_name_too_large 16 (of_nat (length ''testbin'')) 3"
    by (simp add: bin_name_too_large_def d)
  then show ?thesis using bin_names_distinct [of 16 "''testbin''" 3] by simp
qed

theorem parse_string_literal_fits_witness:
  "emit_literal ''ab\"'' ''\"'' \<noteq> Inl Literal_overrun"
proof -
  have "scan_literal ''ab\"'' 0 = Inr (2, ''\"'')" by simp
  from parse_string_literal_fits [OF this] show ?thesis by blast
qed

theorem parse_string_literal_roundtrip_witness:
  "parse_string_literal (CHR 0x22 # concat (map write_char [(Plain, CHR ''a''), (Hex, CHR 0x22), (Octal, NUL)]) @ CHR 0x22 # '',1'')
     = Inr ([CHR ''a'', CHR 0x22, NUL], '',1'')"
  using parse_string_literal_roundtrip [of "[(Plain, CHR ''a''), (Hex, CHR 0x22), (Octal, NUL)]" "'',1''"] by simp

end
