(* ===== verification/Floating.thy ===== *)
theory Floating
  imports Prelude
begin

text \<open>
  Binary floating point as the sources use it: rounding to nearest, ties to even, in the IEEE formats
  with \<open>p\<close> bits of precision whose smallest positive number is \<open>2 ^ - E\<close> (\<open>p = 24\<close>, \<open>E = 149\<close> for
  \<^verbatim>\<open>float\<close>, \<open>p = 53\<close>, \<open>E = 1074\<close> for \<^verbatim>\<open>double\<close>), the arithmetic of \<^verbatim>\<open>float\<close>, conversions, and
  \<^verbatim>\<open>strtod\<close>.

  The magnitude of a finite number is coded by its bits, which order it.  Values of arithmetic
  expressions are \<open>Fin\<close> of a rational number, an infinity or a NaN; the two zeros, which no
  comparison of the sources tells apart, are one value.
\<close>

section \<open>Rounding\<close>

definition round_even :: "rat \<Rightarrow> int" where
  "round_even x =
     (let f = \<lfloor>x\<rfloor>; r = x - of_int f
      in if r < 1 / 2 \<or> r = 1 / 2 \<and> even f then f else f + 1)"

definition fp_bits :: "nat \<Rightarrow> nat \<Rightarrow> rat \<Rightarrow> nat" where
  "fp_bits p E x =
     (let k = bit_length (nat \<lfloor>x * 2 ^ E\<rfloor>) - p
      in k * 2 ^ (p - 1) + nat (round_even (x * 2 ^ E / 2 ^ k)))"

definition fp_mag :: "nat \<Rightarrow> nat \<Rightarrow> nat \<Rightarrow> rat" where
  "fp_mag p E b =
     (let k = b div 2 ^ (p - 1) - 1
      in of_nat (b - k * 2 ^ (p - 1)) * 2 ^ k / 2 ^ E)"

datatype fp = Fin rat | Inf bool | NaN

text \<open>A format: precision, exponent of the smallest number and the bits of infinity.\<close>

definition fp_round :: "nat \<Rightarrow> nat \<Rightarrow> nat \<Rightarrow> rat \<Rightarrow> fp" where
  "fp_round p E inf_bits x =
     (let b = fp_bits p E \<bar>x\<bar>
      in if inf_bits \<le> b then Inf (x < 0) else Fin (if x < 0 then - fp_mag p E b else fp_mag p E b))"

definition to_float :: "rat \<Rightarrow> fp" where
  "to_float = fp_round 24 149 (255 * 2 ^ 23)"

definition to_double :: "rat \<Rightarrow> fp" where
  "to_double = fp_round 53 1074 (2047 * 2 ^ 52)"

section \<open>Arithmetic of \<^verbatim>\<open>float\<close>\<close>

fun fp_neg :: "fp \<Rightarrow> fp" where
  "fp_neg (Fin x) = Fin (- x)"
| "fp_neg (Inf n) = Inf (\<not> n)"
| "fp_neg NaN = NaN"

fun f_add :: "fp \<Rightarrow> fp \<Rightarrow> fp" where
  "f_add (Fin x) (Fin y) = to_float (x + y)"
| "f_add (Inf n) (Fin y) = Inf n"
| "f_add (Fin x) (Inf m) = Inf m"
| "f_add (Inf n) (Inf m) = (if n = m then Inf n else NaN)"
| "f_add _ _ = NaN"

definition f_sub :: "fp \<Rightarrow> fp \<Rightarrow> fp" where
  "f_sub x y = f_add x (fp_neg y)"

fun f_mul :: "fp \<Rightarrow> fp \<Rightarrow> fp" where
  "f_mul (Fin x) (Fin y) = to_float (x * y)"
| "f_mul (Inf n) (Fin y) = (if y = 0 then NaN else Inf (n \<noteq> (y < 0)))"
| "f_mul (Fin x) (Inf m) = (if x = 0 then NaN else Inf ((x < 0) \<noteq> m))"
| "f_mul (Inf n) (Inf m) = Inf (n \<noteq> m)"
| "f_mul _ _ = NaN"

fun f_div :: "fp \<Rightarrow> fp \<Rightarrow> fp" where
  "f_div (Fin x) (Fin y) = (if y = 0 then if x = 0 then NaN else Inf (x < 0) else to_float (x / y))"
| "f_div (Inf n) (Fin y) = Inf (n \<noteq> (y < 0))"
| "f_div (Fin x) (Inf m) = Fin 0"
| "f_div _ _ = NaN"

text \<open>The conversion of an unsigned integer and \<^verbatim>\<open>nearbyintf\<close>.\<close>

definition f_of_nat :: "nat \<Rightarrow> fp" where
  "f_of_nat n = to_float (of_nat n)"

fun nearbyintf :: "fp \<Rightarrow> fp" where
  "nearbyintf (Fin x) = Fin (of_int (round_even x))"
| "nearbyintf v = v"

text \<open>Comparisons; every comparison with a NaN is false.\<close>

fun fp_less :: "fp \<Rightarrow> fp \<Rightarrow> bool" where
  "fp_less (Fin x) (Fin y) \<longleftrightarrow> x < y"
| "fp_less (Inf n) (Fin y) \<longleftrightarrow> n"
| "fp_less (Fin x) (Inf m) \<longleftrightarrow> \<not> m"
| "fp_less (Inf n) (Inf m) \<longleftrightarrow> n \<and> \<not> m"
| "fp_less _ _ \<longleftrightarrow> False"

section \<open>Conversions\<close>

text \<open>
  Truncation to an unsigned integer of \<open>w\<close> bits; out of range the conversion is undefined.
\<close>

definition fp_to_unsigned :: "nat \<Rightarrow> fp \<Rightarrow> nat option" where
  "fp_to_unsigned w v =
     (case v of
        Fin x \<Rightarrow> if - 1 < x \<and> x < 2 ^ w then Some (nat \<lfloor>\<bar>x\<bar>\<rfloor>) else None
      | _ \<Rightarrow> None)"

section \<open>\<^verbatim>\<open>strtod\<close>\<close>

text \<open>The bits of a \<^verbatim>\<open>double\<close> with a given sign and magnitude.\<close>

definition double_word :: "bool \<Rightarrow> nat \<Rightarrow> u64" where
  "double_word neg b = of_nat ((if neg then 2 ^ 63 else 0) + b)"

definition double_inf :: nat where "double_inf = 2047 * 2 ^ 52"
definition double_nan :: nat where "double_nan = 2047 * 2 ^ 52 + 2 ^ 51"

text \<open>Digits, an optional point and more digits: the digits before and after it and what follows.\<close>

definition fp_digits :: "(char \<Rightarrow> bool) \<Rightarrow> string \<Rightarrow> string \<times> string \<times> string" where
  "fp_digits isd t =
     (let ip = takeWhile isd t; r = dropWhile isd t
      in if peek r = CHR ''.'' then (ip, takeWhile isd (tl r), dropWhile isd (tl r)) else (ip, [], r))"

text \<open>An optional exponent, introduced by the letter \<open>c\<close>.\<close>

definition fp_exponent :: "char \<Rightarrow> string \<Rightarrow> int \<times> string" where
  "fp_exponent c r =
     (if tolower (peek r) = c then
        let (neg, t) = split_sign (tl r); ds = takeWhile isdigit t; n = int (base_val 10 ds)
        in if ds = [] then (0, r) else (if neg then - n else n, dropWhile isdigit t)
      else (0, r))"

definition scale :: "rat \<Rightarrow> int \<Rightarrow> rat" where
  "scale b e = (if 0 \<le> e then b ^ nat e else 1 / b ^ nat (- e))"

text \<open>
  The value of a number in the base with digits \<open>isd\<close>: \<open>letter\<close> introduces its exponent, a power of
  \<open>eb\<close>, and each digit after the point counts \<open>step\<close> powers of \<open>eb\<close>.
\<close>

definition fp_number :: "nat \<Rightarrow> (char \<Rightarrow> bool) \<Rightarrow> char \<Rightarrow> rat \<Rightarrow> nat \<Rightarrow> string \<Rightarrow> (rat \<times> string) option" where
  "fp_number base isd letter eb step t =
     (let (ip, fr, r) = fp_digits isd t; (e, r') = fp_exponent letter r
      in if ip = [] \<and> fr = [] then None
         else Some (of_nat (base_val base (ip @ fr)) * scale eb (e - int (step * length fr)), r'))"

definition strtod_finite :: "bool \<Rightarrow> rat \<Rightarrow> string \<Rightarrow> u64 \<times> string \<times> bool" where
  "strtod_finite neg x r =
     (let b = fp_bits 53 1074 x
      in if double_inf \<le> b then (double_word neg double_inf, r, True)
         else (double_word neg b, r, b < 2 ^ 52 \<and> fp_mag 53 1074 b \<noteq> x))"

definition strtod :: "string \<Rightarrow> u64 \<times> string \<times> bool" where
  "strtod s =
     (let (neg, t) = split_sign (dropWhile isspace s)
      in if strncaseeq t ''infinity'' 8 then (double_word neg double_inf, drop 8 t, False)
         else if strncaseeq t ''inf'' 3 then (double_word neg double_inf, drop 3 t, False)
         else if strncaseeq t ''nan'' 3 then (double_word neg double_nan, drop 3 t, False)
         else case (if peek t = CHR ''0'' \<and> tolower (char_at t 1) = CHR ''x''
                    then fp_number 16 (is_base_digit 16) (CHR ''p'') 2 4 (drop 2 t) else None) of
                Some (x, r) \<Rightarrow> strtod_finite neg x r
              | None \<Rightarrow>
                  case fp_number 10 isdigit (CHR ''e'') 10 1 t of
                    Some (x, r) \<Rightarrow> strtod_finite neg x r
                  | None \<Rightarrow> (0, s, False))"

section \<open>Lemmas on rounding\<close>

lemma round_even_bounds: "x - 1 / 2 \<le> of_int (round_even x)" "of_int (round_even x) \<le> x + 1 / 2"
proof -
  have "of_int \<lfloor>x\<rfloor> \<le> x" "x < of_int \<lfloor>x\<rfloor> + 1" by linarith+
  moreover have "round_even x = \<lfloor>x\<rfloor> \<and> x - of_int \<lfloor>x\<rfloor> \<le> 1 / 2 \<or> round_even x = \<lfloor>x\<rfloor> + 1 \<and> x - of_int \<lfloor>x\<rfloor> \<ge> 1 / 2"
    unfolding round_even_def Let_def by (cases "x - of_int \<lfloor>x\<rfloor> < 1 / 2") (simp_all add: not_less)
  ultimately show "x - 1 / 2 \<le> of_int (round_even x)" "of_int (round_even x) \<le> x + 1 / 2"
    by (elim disjE conjE; simp only: of_int_add of_int_1; linarith)+
qed

lemma round_even_int [simp]: "round_even (of_int i) = i"
  by (simp add: round_even_def Let_def)

lemma round_even_nat [simp]: "round_even (of_nat n) = int n"
  using round_even_int [of "int n"] by simp

lemma round_even_mono:
  assumes "x \<le> y"
  shows "round_even x \<le> round_even y"
proof (cases "\<lfloor>x\<rfloor> = \<lfloor>y\<rfloor>")
  case True
  with assms show ?thesis by (auto simp: round_even_def Let_def)
next
  case False
  then have "\<lfloor>x\<rfloor> + 1 \<le> \<lfloor>y\<rfloor>" using floor_mono [OF assms] by linarith
  moreover have "round_even x \<le> \<lfloor>x\<rfloor> + 1" "\<lfloor>y\<rfloor> \<le> round_even y" by (auto simp: round_even_def Let_def)
  ultimately show ?thesis by linarith
qed

lemma round_even_nonneg: "0 \<le> x \<Longrightarrow> 0 \<le> round_even x"
  using round_even_mono [of 0 x] round_even_int [of 0] by simp

lemma fp_bits_scaled:
  fixes x :: rat
  assumes "0 \<le> x" and "bit_length (nat \<lfloor>x * 2 ^ E\<rfloor>) - p = k"
  shows "x * 2 ^ E / 2 ^ k < 2 ^ p" and "0 < p \<Longrightarrow> 0 < k \<Longrightarrow> 2 ^ (p - 1) \<le> x * 2 ^ E / 2 ^ k"
proof -
  let ?n = "nat \<lfloor>x * 2 ^ E\<rfloor>"
  have n: "of_nat ?n \<le> x * 2 ^ E" "x * 2 ^ E < of_nat ?n + 1"
    using assms(1) floor_correct [of "x * 2 ^ E"] by (simp_all add: of_nat_nat)
  have "bit_length ?n \<le> k + p" using assms(2) by linarith
  then have "?n + 1 \<le> 2 ^ (k + p)" unfolding bit_length_le_iff Suc_eq_plus1 [symmetric] by (rule Suc_leI)
  then have "of_nat (?n + 1) \<le> (of_nat (2 ^ (k + p)) :: rat)" by (rule of_nat_mono)
  then have "x * 2 ^ E < 2 ^ (k + p)" using n(2) by simp
  then show "x * 2 ^ E / 2 ^ k < 2 ^ p" by (simp add: divide_less_eq power_add mult.commute)
  assume kp: "0 < p" "0 < k"
  then have b: "bit_length ?n = k + p" using assms(2) by simp
  with kp have "0 < ?n" by (metis add_is_0 bit_length_0 gr_zeroI less_numeral_extra(3))
  then have "2 ^ (k + p - 1) \<le> ?n" using power_bit_length_le [of ?n] b by simp
  then have "(of_nat (2 ^ (k + p - 1)) :: rat) \<le> of_nat ?n" by (rule of_nat_mono)
  then have "(of_nat (2 ^ (k + p - 1)) :: rat) \<le> x * 2 ^ E" using n(1) by (rule order_trans)
  then have "2 ^ (k + (p - 1)) \<le> x * 2 ^ E" using kp by simp
  then show "2 ^ (p - 1) \<le> x * 2 ^ E / 2 ^ k" by (simp add: le_divide_eq power_add mult.commute)
qed

lemma fp_bits_mono:
  assumes "0 \<le> x" "x \<le> y" and p: "0 < p"
  shows "fp_bits p E x \<le> fp_bits p E y"
proof -
  let ?k = "\<lambda>x. bit_length (nat \<lfloor>x * 2 ^ E\<rfloor>) - p"
  let ?m = "\<lambda>x. nat (round_even (x * 2 ^ E / 2 ^ ?k x))"
  have xy: "x * 2 ^ E \<le> y * 2 ^ E" using assms(2) by (simp add: mult_right_mono)
  have bm: "a \<le> b \<Longrightarrow> bit_length a \<le> bit_length b" for a b
    by (meson bit_length_le_iff le_less_trans less_2_power_bit_length)
  have k: "?k x \<le> ?k y" using bm [of "nat \<lfloor>x * 2 ^ E\<rfloor>" "nat \<lfloor>y * 2 ^ E\<rfloor>"] xy
    by (simp add: diff_le_mono floor_mono nat_mono)
  show ?thesis
  proof (cases "?k x = ?k y")
    case True
    have "x * 2 ^ E / 2 ^ ?k y \<le> y * 2 ^ E / 2 ^ ?k y" using xy by (simp add: divide_right_mono)
    then have "?m x \<le> ?m y" unfolding True by (intro nat_mono round_even_mono)
    with True show ?thesis by (simp add: fp_bits_def Let_def)
  next
    case False
    with k have lt: "Suc (?k x) \<le> ?k y" by simp
    have "round_even (x * 2 ^ E / 2 ^ ?k x) \<le> round_even (of_nat (2 ^ p))"
      using fp_bits_scaled(1) [of x E p] assms(1) by (intro round_even_mono) (simp add: less_imp_le)
    then have "?m x \<le> 2 ^ p" by (simp only: round_even_nat nat_le_iff)
    moreover have "round_even (of_nat (2 ^ (p - 1))) \<le> round_even (y * 2 ^ E / 2 ^ ?k y)"
      using fp_bits_scaled(2) [of y E p] assms lt by (intro round_even_mono) simp
    then have "2 ^ (p - 1) \<le> ?m y" unfolding round_even_nat by linarith
    moreover have "(2::nat) ^ p = 2 * 2 ^ (p - 1)" using p by (cases p) auto
    moreover have "Suc (?k x) * 2 ^ (p - 1) \<le> ?k y * 2 ^ (p - 1)" using lt by (rule mult_le_mono1)
    ultimately show ?thesis unfolding fp_bits_def Let_def mult_Suc by linarith
  qed
qed

text \<open>Numbers of the format are fixed points of rounding.\<close>

lemma fp_mag_split:
  assumes "0 < p"
  obtains k m where "fp_mag p E b = of_nat m * 2 ^ k / 2 ^ E" "b = k * 2 ^ (p - 1) + m" "m < 2 ^ p"
    "0 < k \<Longrightarrow> 2 ^ (p - 1) \<le> m"
proof -
  let ?h = "2 ^ (p - 1) :: nat"
  define k where "k = b div ?h - 1"
  define m where "m = b - k * ?h"
  have pp: "(2::nat) ^ p = 2 * ?h" using assms by (cases p) auto
  have b: "b = b div ?h * ?h + b mod ?h" "b mod ?h < ?h" by (rule div_mult_mod_eq [symmetric]) simp
  show thesis
  proof (cases "b div ?h")
    case 0
    then have "k = 0" "m = b" by (simp_all add: k_def m_def)
    moreover have "b < ?h" using 0 by (simp add: div_eq_0_iff)
    ultimately show thesis using that [of b 0] pp by (simp add: fp_mag_def Let_def 0)
  next
    case (Suc q)
    then have k: "k = q" by (simp add: k_def)
    have "b = ?h + q * ?h + b mod ?h" using b(1) Suc by simp
    then have m: "m = ?h + b mod ?h" unfolding m_def k by linarith
    have "b = k * ?h + m" using b(1) Suc k m by simp
    moreover have "m < 2 ^ p" "?h \<le> m" using m b(2) pp by linarith+
    moreover have "fp_mag p E b = of_nat m * 2 ^ k / 2 ^ E" by (simp add: fp_mag_def Let_def k_def m_def)
    ultimately show thesis using that by blast
  qed
qed

lemma fp_bits_mag:
  assumes "0 < p"
  shows "fp_bits p E (fp_mag p E b) = b"
proof -
  obtain k m where km: "fp_mag p E b = of_nat m * 2 ^ k / 2 ^ E" "b = k * 2 ^ (p - 1) + m" "m < 2 ^ p"
    "0 < k \<Longrightarrow> 2 ^ (p - 1) \<le> m" using fp_mag_split [OF assms] by metis
  have sc: "fp_mag p E b * 2 ^ E = of_nat (m * 2 ^ k)" by (simp add: km(1))
  then have fl: "nat \<lfloor>fp_mag p E b * 2 ^ E\<rfloor> = m * 2 ^ k" by (simp only: floor_of_nat nat_int)
  have "bit_length (m * 2 ^ k) - p = k"
  proof (cases "k = 0")
    case True
    with km(3) show ?thesis by (simp add: bit_length_le_iff [symmetric])
  next
    case False
    have "2 ^ (p - 1) * 2 ^ k \<le> m * 2 ^ k" using km(4) False by simp
    then have "2 ^ (p - 1 + k) \<le> m * 2 ^ k" by (simp add: power_add)
    moreover have "m * 2 ^ k < 2 ^ p * 2 ^ k" using km(3) by simp
    then have "m * 2 ^ k < 2 ^ Suc (p - 1 + k)" using assms by (simp add: power_add flip: power_Suc)
    ultimately have "bit_length (m * 2 ^ k) = Suc (p - 1 + k)" by (rule bit_length_eqI)
    with assms show ?thesis by simp
  qed
  moreover have "fp_mag p E b * 2 ^ E / 2 ^ k = of_nat m" unfolding sc by simp
  ultimately show ?thesis
    unfolding fp_bits_def Let_def fl using km(2) by simp
qed

lemma fp_mag_nonneg: "0 \<le> fp_mag p E b"
  by (simp add: fp_mag_def Let_def)

lemma fp_mag_mono_iff:
  assumes "0 < p"
  shows "fp_mag p E b \<le> fp_mag p E c \<longleftrightarrow> b \<le> c"
proof
  assume "fp_mag p E b \<le> fp_mag p E c"
  then show "b \<le> c"
    using fp_bits_mono [OF fp_mag_nonneg _ assms, of p E b "fp_mag p E c" E] fp_bits_mag [OF assms] by simp
next
  assume "b \<le> c"
  then show "fp_mag p E b \<le> fp_mag p E c"
    using fp_bits_mono [OF fp_mag_nonneg _ assms, of p E c "fp_mag p E b" E] fp_bits_mag [OF assms]
    by (metis le_antisym linear order_refl)
qed

text \<open>The largest finite numbers bound what rounds to a finite number; rounding is monotone.\<close>

definition is_float :: "rat \<Rightarrow> bool" where
  "is_float x \<longleftrightarrow> (\<exists>b < 255 * 2 ^ 23. \<bar>x\<bar> = fp_mag 24 149 b)"

lemma to_float_exact: "is_float x \<Longrightarrow> to_float x = Fin x"
  by (auto simp: is_float_def to_float_def fp_round_def Let_def fp_bits_mag)

lemma to_float_is_float: "to_float x = Fin y \<Longrightarrow> is_float y"
  by (auto simp: is_float_def to_float_def fp_round_def Let_def fp_mag_nonneg split: if_splits
      intro!: exI [of _ "fp_bits 24 149 \<bar>x\<bar>"])

text \<open>A number between 0 and a number of the format rounds to one between them.\<close>

lemma to_float_between:
  assumes "0 \<le> x" and "x \<le> v" and "is_float v"
  shows "\<exists>y. to_float x = Fin y \<and> 0 \<le> y \<and> y \<le> v"
proof -
  obtain b where b: "b < 255 * 2 ^ 23" "v = fp_mag 24 149 b" using assms by (auto simp: is_float_def)
  have "fp_bits 24 149 x \<le> fp_bits 24 149 v" using assms by (intro fp_bits_mono) auto
  then have le: "fp_bits 24 149 x \<le> b" using b by (simp add: fp_bits_mag)
  then have "to_float x = Fin (fp_mag 24 149 (fp_bits 24 149 x))"
    using assms(1) b(1) by (simp add: to_float_def fp_round_def Let_def)
  moreover have "fp_mag 24 149 (fp_bits 24 149 x) \<le> v" using le b(2) by (simp add: fp_mag_mono_iff)
  ultimately show ?thesis using fp_mag_nonneg by blast
qed

lemma to_float_neg: "0 < x \<Longrightarrow> to_float (- x) = fp_neg (to_float x)"
  by (simp add: to_float_def fp_round_def Let_def)

lemma fp_mag_compose:
  assumes "0 < p" and "k = 0 \<or> 2 ^ (p - 1) \<le> m" and "m \<le> 2 ^ p"
  shows "fp_mag p E (k * 2 ^ (p - 1) + m) = of_nat m * 2 ^ k / 2 ^ E"
proof -
  let ?h = "2 ^ (p - 1) :: nat"
  have pp: "(2::nat) ^ p = 2 * ?h" using assms(1) by (cases p) auto
  consider "m < ?h" | "?h \<le> m" "m < 2 * ?h" | "m = 2 * ?h" using assms(3) pp by linarith
  then show ?thesis
  proof cases
    case 1
    then have "k = 0" using assms(2) by auto
    with 1 show ?thesis by (simp add: fp_mag_def Let_def)
  next
    case 2
    then have "m div ?h = 1" by (intro div_nat_eqI) simp_all
    then have "(k * ?h + m) div ?h = k + 1" by (simp add: div_mult_self3)
    then show ?thesis by (simp add: fp_mag_def Let_def)
  next
    case 3
    have "(k * ?h + m) div ?h = k + 2" using 3 by (simp add: div_mult_self3)
    then have "fp_mag p E (k * ?h + m) = of_nat (k * ?h + m - Suc k * ?h) * 2 ^ Suc k / 2 ^ E"
      by (simp add: fp_mag_def Let_def)
    also have "k * ?h + m - Suc k * ?h = ?h" using 3 by simp
    finally show ?thesis using 3 by simp
  qed
qed

lemma fp_mag_bits:
  assumes "0 \<le> x" and "0 < p"
  shows "fp_mag p E (fp_bits p E x) =
    (let k = bit_length (nat \<lfloor>x * 2 ^ E\<rfloor>) - p in of_int (round_even (x * 2 ^ E / 2 ^ k)) * 2 ^ k / 2 ^ E)"
proof -
  let ?k = "bit_length (nat \<lfloor>x * 2 ^ E\<rfloor>) - p"
  let ?s = "x * 2 ^ E / 2 ^ ?k"
  have n: "0 \<le> round_even ?s" using assms(1) by (intro round_even_nonneg) simp
  have "round_even ?s \<le> round_even (of_nat (2 ^ p))"
    using fp_bits_scaled(1) [OF assms(1), of E p] by (intro round_even_mono) (simp add: less_imp_le)
  then have "nat (round_even ?s) \<le> 2 ^ p" by (simp only: round_even_nat nat_le_iff)
  moreover have "?k = 0 \<or> 2 ^ (p - 1) \<le> nat (round_even ?s)"
  proof (cases "?k = 0")
    case False
    then have "round_even (of_nat (2 ^ (p - 1))) \<le> round_even ?s"
      using fp_bits_scaled(2) [OF assms(1), of E p] assms(2) by (intro round_even_mono) simp
    then show ?thesis unfolding round_even_nat by linarith
  qed simp
  ultimately have "fp_mag p E (?k * 2 ^ (p - 1) + nat (round_even ?s)) = of_nat (nat (round_even ?s)) * 2 ^ ?k / 2 ^ E"
    using assms(2) by (intro fp_mag_compose)
  with n show ?thesis by (simp add: fp_bits_def Let_def of_nat_nat)
qed

text \<open>The rounding error between 0 and 1.\<close>

lemma is_float_1: "is_float 1"
  unfolding is_float_def by (rule exI [of _ "127 * 2 ^ 23"]) (simp add: fp_mag_def Let_def)

lemma to_float_error:
  assumes "0 \<le> x" and "x \<le> 1"
  shows "\<exists>y. to_float x = Fin y \<and> \<bar>y - x\<bar> \<le> 1 / 2 ^ 24 \<and> 0 \<le> y \<and> y \<le> 1 \<and> is_float y"
proof -
  define k where "k = bit_length (nat \<lfloor>x * 2 ^ 149\<rfloor>) - 24"
  define s where "s = x * 2 ^ 149 / 2 ^ k"
  obtain y where y: "to_float x = Fin y" "0 \<le> y" "y \<le> 1" using to_float_between [OF assms is_float_1] by auto
  have "x * 2 ^ 149 \<le> 2 ^ 149" using assms(2) by simp
  then have "\<lfloor>x * 2 ^ 149\<rfloor> < 2 ^ 150" by (simp add: floor_less_iff)
  then have "nat \<lfloor>x * 2 ^ 149\<rfloor> < nat (2 ^ 150)" by (subst nat_mono_iff) simp_all
  then have "nat \<lfloor>x * 2 ^ 149\<rfloor> < 2 ^ 150" by simp
  then have k: "k \<le> 126" unfolding k_def bit_length_le_iff [symmetric] by simp
  have "y = fp_mag 24 149 (fp_bits 24 149 x)"
    using y(1) assms(1) by (auto simp: to_float_def fp_round_def Let_def split: if_splits)
  also have "\<dots> = of_int (round_even s) * 2 ^ k / 2 ^ 149"
    using fp_mag_bits [OF assms(1), of 24 149] by (simp add: Let_def k_def s_def)
  finally have y': "y = of_int (round_even s) * (2 ^ k / 2 ^ 149)" by simp
  have x': "x = s * (2 ^ k / 2 ^ 149)" by (simp add: s_def)
  have d: "\<bar>of_int (round_even s) - s\<bar> \<le> 1 / 2" using round_even_bounds [of s] by linarith
  have "y - x = (of_int (round_even s) - s) * (2 ^ k / 2 ^ 149)" unfolding y' by (subst x') (simp add: algebra_simps)
  then have "\<bar>y - x\<bar> = \<bar>of_int (round_even s) - s\<bar> * \<bar>2 ^ k / 2 ^ 149\<bar>" by (simp only: abs_mult)
  then have "\<bar>y - x\<bar> = \<bar>of_int (round_even s) - s\<bar> * (2 ^ k / 2 ^ 149)" by simp
  also have "\<dots> \<le> 1 / 2 * (2 ^ 126 / 2 ^ 149)"
    using d power_increasing [OF k, of "2::rat"] by (intro mult_mono divide_right_mono) simp_all
  finally show ?thesis using y to_float_is_float [OF y(1)] by simp
qed

text \<open>What the format contains: integers of at most 24 bits times powers of two.\<close>

lemma is_float_intro:
  assumes "m < 2 ^ 24" and "k \<le> 230"
  shows "is_float (of_nat m * 2 ^ k / 2 ^ 149)"
proof -
  let ?v = "of_nat m * 2 ^ k / 2 ^ 149 :: rat"
  define K where "K = bit_length (nat \<lfloor>?v * 2 ^ 149\<rfloor>) - 24"
  define s where "s = ?v * 2 ^ 149 / 2 ^ K"
  have "nat \<lfloor>?v * 2 ^ 149\<rfloor> = m * 2 ^ k"
  proof -
    have "?v * 2 ^ 149 = of_nat (m * 2 ^ k)" by simp
    then show ?thesis by (simp only: floor_of_nat nat_int)
  qed
  moreover have "m * 2 ^ k < 2 ^ (24 + k)" using assms(1) by (simp add: power_add)
  ultimately have K: "K \<le> k" by (simp add: K_def bit_length_le_iff [symmetric])
  have "s = of_nat m * (2 ^ k / 2 ^ K)" by (simp add: s_def)
  also have "2 ^ k / 2 ^ K = (2 ^ (k - K) :: rat)" using K by (simp add: power_diff)
  finally have s: "s = of_nat (m * 2 ^ (k - K))" by simp
  then have re: "round_even s = int (m * 2 ^ (k - K))" by (simp only: round_even_nat)
  have "s < 2 ^ 24" using fp_bits_scaled(1) [of ?v 149 24 K] by (simp add: K_def s_def)
  then have "m * 2 ^ (k - K) < 2 ^ 24" unfolding s by (metis of_nat_less_iff of_nat_numeral of_nat_power)
  moreover have "fp_bits 24 149 ?v = K * 2 ^ 23 + m * 2 ^ (k - K)"
    unfolding fp_bits_def Let_def K_def [symmetric] s_def [symmetric] re nat_int by simp
  ultimately have "fp_bits 24 149 ?v < 255 * 2 ^ 23" using assms(2) K by simp
  moreover have "fp_mag 24 149 (fp_bits 24 149 ?v) = ?v"
  proof -
    have "fp_mag 24 149 (fp_bits 24 149 ?v) = of_int (round_even s) * 2 ^ K / 2 ^ 149"
      using fp_mag_bits [of ?v 24 149] unfolding Let_def K_def [symmetric] s_def [symmetric] by simp
    also have "\<dots> = s * 2 ^ K / 2 ^ 149" unfolding re unfolding s by simp
    finally show ?thesis by (simp add: s_def)
  qed
  ultimately show ?thesis unfolding is_float_def by (metis abs_of_nonneg fp_mag_nonneg)
qed

lemma is_float_scale:
  assumes "is_float x" and "0 \<le> x" and "x \<le> 1" and "e \<le> 100"
  shows "is_float (x * 2 ^ e)"
proof -
  obtain b where b: "x = fp_mag 24 149 b" using assms(1,2) by (auto simp: is_float_def)
  obtain k m where km: "fp_mag 24 149 b = of_nat m * 2 ^ k / 2 ^ 149" "b = k * 2 ^ 23 + m" "m < 2 ^ 24"
    by (rule fp_mag_split [of 24 149 b]) (simp_all only: zero_less_numeral, simp)
  have "fp_mag 24 149 (127 * 2 ^ 23) = 1" by (simp add: fp_mag_def Let_def)
  then have "fp_mag 24 149 b \<le> fp_mag 24 149 (127 * 2 ^ 23)" using assms(3) b by simp
  then have "b \<le> 127 * 2 ^ 23" by (simp add: fp_mag_mono_iff)
  then have "k \<le> 127" using km(2) by simp
  then have "is_float (of_nat m * 2 ^ (k + e) / 2 ^ 149)" using km(3) assms(4) by (intro is_float_intro) auto
  moreover have "x * 2 ^ e = of_nat m * 2 ^ (k + e) / 2 ^ 149" unfolding b km(1) by (simp add: power_add)
  ultimately show ?thesis by (simp only:)
qed

section \<open>How far \<^verbatim>\<open>strtod\<close> reads\<close>

lemma fp_digits_length:
  assumes "fp_digits isd t = (ip, fr, r)"
  shows "length r \<le> length t" and "ip \<noteq> [] \<or> fr \<noteq> [] \<Longrightarrow> length r < length t"
proof -
  let ?d = "dropWhile isd t"
  have d: "length ?d \<le> length t" by (rule dropWhile_suffix_length)
  have "length r \<le> length t \<and> (ip \<noteq> [] \<or> fr \<noteq> [] \<longrightarrow> length r < length t)"
  proof (cases "peek ?d = CHR ''.''")
    case True
    then have "0 < length ?d" by (cases ?d) auto
    moreover have "length r \<le> length (tl ?d)"
      using assms True dropWhile_suffix_length [of isd "tl ?d"] by (auto simp: fp_digits_def Let_def)
    ultimately have "length r < length t" using d unfolding length_tl by linarith
    then show ?thesis by simp
  next
    case False
    then have "r = ?d" "ip = takeWhile isd t" "fr = []" using assms by (simp_all add: fp_digits_def Let_def)
    then show ?thesis using d dropWhile_length_less [of isd t] by blast
  qed
  then show "length r \<le> length t" "ip \<noteq> [] \<or> fr \<noteq> [] \<Longrightarrow> length r < length t" by blast+
qed

lemma fp_exponent_length:
  assumes "fp_exponent c r = (e, r')"
  shows "length r' \<le> length r"
proof -
  obtain neg t where t: "split_sign (tl r) = (neg, t)" by fastforce
  have "length (dropWhile isdigit t) \<le> length t" by (rule dropWhile_suffix_length)
  moreover have "length t \<le> length (tl r)" using length_split_sign [of "tl r"] t by simp
  ultimately show ?thesis
    using assms t by (auto simp: fp_exponent_def Let_def split: if_splits)
qed

lemma fp_number_length: "fp_number base isd c eb st t = Some (x, r) \<Longrightarrow> length r < length t"
  by (auto simp: fp_number_def Let_def split: prod.splits if_splits
      dest!: fp_digits_length(2) fp_exponent_length)

lemma strtod_progress:
  assumes "strtod s = (v, r, err)" and "r \<noteq> s"
  shows "length r < length s"
proof -
  obtain neg t where t: "split_sign (dropWhile isspace s) = (neg, t)" by fastforce
  have lt: "length t \<le> length s"
    using length_split_sign [of "dropWhile isspace s"] t dropWhile_suffix_length [of isspace s] by simp
  have pre: "strncaseeq t u n \<Longrightarrow> 0 < n \<Longrightarrow> u \<noteq> [] \<Longrightarrow> 0 < length t" for u n
    by (cases t; cases u; cases n) (auto simp: strncaseeq_def)
  have fin: "strtod_finite neg x q = (v, r, err) \<Longrightarrow> r = q" for x q
    by (auto simp: strtod_finite_def Let_def split: if_splits)
  let ?hex = "if peek t = CHR ''0'' \<and> tolower (char_at t 1) = CHR ''x''
              then fp_number 16 (is_base_digit 16) (CHR ''p'') 2 4 (drop 2 t) else None"
  consider (word) u n where "strncaseeq t u n" "0 < n" "u \<noteq> []" "r = drop n t"
    | (hex) x q where "?hex = Some (x, q)" "strtod_finite neg x q = (v, r, err)"
    | (dec) x q where "fp_number 10 isdigit (CHR ''e'') 10 1 t = Some (x, q)" "strtod_finite neg x q = (v, r, err)"
  proof (cases "strncaseeq t ''infinity'' 8 \<or> strncaseeq t ''inf'' 3 \<or> strncaseeq t ''nan'' 3")
    case True
    then show thesis
      using word [of "''infinity''" 8] word [of "''inf''" 3] word [of "''nan''" 3] assms(1) t
      by (auto simp: strtod_def split: if_splits)
  next
    case False
    then show thesis
      using hex dec assms t by (cases ?hex; cases "fp_number 10 isdigit (CHR ''e'') 10 1 t") (auto simp: strtod_def)
  qed
  then show ?thesis
  proof cases
    case word
    then have "0 < length t" by (intro pre)
    with word lt show ?thesis by (simp only: length_drop)
  next
    case hex
    then have "length q < length (drop 2 t)" by (auto split: if_splits dest: fp_number_length)
    with fin [OF hex(2)] lt show ?thesis by simp
  next
    case dec
    then have "length q < length t" by (auto dest: fp_number_length)
    with fin [OF dec(2)] lt show ?thesis by simp
  qed
qed

end
