(* ===== verification/Bin_Gen.thy ===== *)
theory Bin_Gen
  imports Common Floating
begin

text \<open>
  The data of object specifications and the generation of values (\<^verbatim>\<open>object_spec.h\<close> and the generating
  half of \<^verbatim>\<open>object_spec.c\<close>): the types of bins and random values of every type.

  The random number generator and the ordered map belong to the client library.  The generator is a
  record of functions on its state; no state is a NULL pointer, which only constant bins survive.  An
  ordered map is the list of its pairs in the order of its iterator; where a pair goes is the parameter
  \<open>om_set\<close>, whose law is stated in \<^verbatim>\<open>Bin_Conform\<close>.
\<close>

section \<open>Values and specifications\<close>

datatype as_val =
    As_bool bool
  | As_int u64
  | As_str string
  | As_dbl u64
  | As_bytes "u8 list"
  | As_list "as_val list"
  | As_map "(as_val \<times> as_val) list"

type_synonym om_setter = "(as_val \<times> as_val) list \<Rightarrow> as_val \<Rightarrow> as_val \<Rightarrow> (as_val \<times> as_val) list"

text \<open>
  The type tag and the union of \<^verbatim>\<open>struct bin_spec_s\<close>; the constructors \<open>C_...\<close> are the types with the
  \<^verbatim>\<open>CONST\<close> bit.  A double is its bit pattern.
\<close>

datatype bin_spec = Bin (n_repeats: u32) (kind: bin_kind)
and bin_kind =
    K_bool
  | C_bool bool
  | K_int u8
  | C_int u64
  | K_str u32
  | C_str string
  | K_bytes u32
  | K_double
  | C_double u64
  | K_list u32 "bin_spec list"
  | C_list "as_val list"
  | K_map u32 "kv_pair list"
  | C_map "(as_val \<times> as_val) list"
and kv_pair = Kv (key_spec: bin_spec) (val_spec: bin_spec)

record obj_spec =
  bin_specs :: "bin_spec list"
  n_bin_specs :: u32
  valid :: bool

section \<open>Generators\<close>

record 'r as_random =
  next_uint32 :: "'r \<Rightarrow> u32 \<times> 'r"
  next_uint64 :: "'r \<Rightarrow> u64 \<times> 'r"
  next_bytes :: "nat \<Rightarrow> 'r \<Rightarrow> u8 list \<times> 'r"

text \<open>
  What a generating routine does: return a value and the next state, return NULL, or give no result,
  because it does not end or its behaviour is undefined.
\<close>

datatype ('a, 's) gen = Gen 'a 's | Null_val 's | Stuck

fun bind_gen :: "('a, 's) gen \<Rightarrow> ('a \<Rightarrow> 's \<Rightarrow> ('b, 's) gen) \<Rightarrow> ('b, 's) gen" where
  "bind_gen (Gen a s) f = f a s"
| "bind_gen (Null_val s) f = Null_val s"
| "bind_gen Stuck f = Stuck"

text \<open>Drawing through a pointer to the generator.\<close>

definition with_random :: "('r \<Rightarrow> ('a, 'r) gen) \<Rightarrow> 'r option \<Rightarrow> ('a, 'r option) gen" where
  "with_random f st =
     (case st of
        None \<Rightarrow> Stuck
      | Some r \<Rightarrow> (case f r of Gen a r' \<Rightarrow> Gen a (Some r') | Null_val r' \<Rightarrow> Null_val (Some r') | Stuck \<Rightarrow> Stuck))"

definition draw_range :: "'r as_random \<Rightarrow> u64 \<Rightarrow> 'r \<Rightarrow> (u64, 'r) gen" where
  "draw_range rng mx r =
     (case gen_rand_range_64 (next_uint64 rng) r mx of None \<Rightarrow> Stuck | Some (x, r') \<Rightarrow> Gen x r')"

subsection \<open>Scalars\<close>

definition gen_random_bool :: "'r as_random \<Rightarrow> 'r \<Rightarrow> (as_val, 'r) gen" where
  "gen_random_bool rng r = (let (x, r') = next_uint32 rng r in Gen (As_bool (x AND 1 \<noteq> 0)) r')"

definition int_min :: "u8 \<Rightarrow> u64" where
  "int_min rg = push_bit (unat rg * 8) 1 AND NOT 1"

definition int_range_size :: "u8 \<Rightarrow> u64" where
  "int_range_size rg = push_bit (unat rg * 8) 0xff + (if rg = 0 then 1 else 0)"

definition gen_random_int :: "'r as_random \<Rightarrow> u8 \<Rightarrow> 'r \<Rightarrow> (as_val, 'r) gen" where
  "gen_random_int rng rg r =
     (if rg > 7 then Null_val r
      else bind_gen (draw_range rng (int_range_size rg) r)
             (\<lambda>x r'. Gen (As_int (x + int_min rg)) r'))"

definition raw_to_alphanum :: "u64 \<Rightarrow> u64" where
  "raw_to_alphanum n0 =
     (let n = n0 + 0x3636363636363636;
          x = drop_bit 6 n AND 0x0101010101010101;
          y = (x + 0x7f7f7f7f7f7f7f7f) AND 0x7a7a7a7a7a7a7a7a;
          x' = x OR push_bit 5 x;
          n' = n + (x' + y)
      in n' AND 0x7f7f7f7f7f7f7f7f)"

definition ALPHANUM_PER_64_BITS :: nat where "ALPHANUM_PER_64_BITS = 12"
definition N_ALPHANUM :: u64 where "N_ALPHANUM = 36"
definition MAX_SEED :: u64 where "MAX_SEED = 4738381338321616896"

text \<open>The loops that spread the base 36 digits of a seed over the bytes of a word, from byte \<open>k\<close> on.\<close>

fun div_first :: "nat \<Rightarrow> nat \<Rightarrow> u64 \<Rightarrow> u64 \<Rightarrow> u64 \<times> u64" where
  "div_first k 0 s c = (s, c)"
| "div_first k (Suc n) s c =
     (let s' = s div N_ALPHANUM in div_first (Suc k) n s' (c OR push_bit (k * 8) (s' mod N_ALPHANUM)))"

fun div_last :: "nat \<Rightarrow> nat \<Rightarrow> u64 \<Rightarrow> u64 \<Rightarrow> u64 \<times> u64" where
  "div_last k 0 s c = (s, c)"
| "div_last k (Suc n) s c =
     div_last (Suc k) n (s div N_ALPHANUM) (c OR push_bit (k * 8) (s mod N_ALPHANUM))"

text \<open>24 characters from two seeds, as three words.\<close>

definition str_batch :: "u64 \<Rightarrow> u64 \<Rightarrow> u64 list" where
  "str_batch s1 s2 =
     (let (s1, c1) = div_first 1 7 s1 (s1 mod N_ALPHANUM);
          s1 = s1 div N_ALPHANUM;
          (s1, c2) = div_first 1 3 s1 (s1 mod N_ALPHANUM);
          (s2, c2) = div_last 4 4 s2 c2;
          (s2, c3) = div_first 1 7 s2 (s2 mod N_ALPHANUM)
      in [raw_to_alphanum c1, raw_to_alphanum c2, raw_to_alphanum c3])"

text \<open>The bytes of a word in memory, least significant first.\<close>

definition word_chars :: "u64 \<Rightarrow> string" where
  "word_chars c = map (\<lambda>k. char_of (unat (drop_bit (8 * k) c) mod 256)) [0..<8]"

definition alphanum_char :: "u64 \<Rightarrow> char" where
  "alphanum_char r = (if r < 10 then char_of (unat r + 48) else char_of (unat r + 87))"

fun tail_chars :: "nat \<Rightarrow> u64 \<Rightarrow> string" where
  "tail_chars 0 s = []"
| "tail_chars (Suc n) s = alphanum_char (s mod N_ALPHANUM) # tail_chars n (s div N_ALPHANUM)"

text \<open>The characters still to be written, in batches of 24 and then of up to 12.\<close>

function gen_str_tail :: "'r as_random \<Rightarrow> nat \<Rightarrow> 'r \<Rightarrow> (string, 'r) gen" where
  "gen_str_tail rng n r =
     (if n = 0 then Gen [] r
      else let sz = min n ALPHANUM_PER_64_BITS
           in bind_gen (draw_range rng MAX_SEED r) (\<lambda>s r.
              bind_gen (gen_str_tail rng (n - sz) r) (\<lambda>cs r. Gen (tail_chars sz s @ cs) r)))"
  by pat_completeness auto

termination
  by (relation "measure (\<lambda>(rng, n, r). n)") (auto simp: ALPHANUM_PER_64_BITS_def)

function gen_str_chars :: "'r as_random \<Rightarrow> nat \<Rightarrow> 'r \<Rightarrow> (string, 'r) gen" where
  "gen_str_chars rng n r =
     (if 2 * ALPHANUM_PER_64_BITS \<le> n then
        bind_gen (draw_range rng MAX_SEED r) (\<lambda>s1 r.
        bind_gen (draw_range rng MAX_SEED r) (\<lambda>s2 r.
        bind_gen (gen_str_chars rng (n - 2 * ALPHANUM_PER_64_BITS) r) (\<lambda>cs r.
          Gen (concat (map word_chars (str_batch s1 s2)) @ cs) r)))
      else gen_str_tail rng n r)"
  by pat_completeness auto

termination
  by (relation "measure (\<lambda>(rng, n, r). n)") (auto simp: ALPHANUM_PER_64_BITS_def)

text \<open>The buffer has \<open>len + 1\<close> bytes, computed in 32 bits; one that is too small for the string is overrun.\<close>

definition gen_random_str :: "'r as_random \<Rightarrow> u32 \<Rightarrow> 'r \<Rightarrow> (as_val, 'r) gen" where
  "gen_random_str rng len r =
     bind_gen (gen_str_chars rng (unat len) r) (\<lambda>cs r.
       if unat (len + 1) < unat len + 1 then Stuck else Gen (As_str cs) r)"

text \<open>
  A zeroed buffer whose first \<open>c_len\<close> bytes are random.  A \<open>c_len\<close> that does not fit its type or that
  exceeds the buffer is undefined.
\<close>

definition gen_random_bytes :: "'r as_random \<Rightarrow> u32 \<Rightarrow> fp \<Rightarrow> 'r \<Rightarrow> (as_val, 'r) gen" where
  "gen_random_bytes rng len ratio r =
     (case fp_to_unsigned 32 (f_mul ratio (f_of_nat (unat len))) of
        None \<Rightarrow> Stuck
      | Some c_len \<Rightarrow>
          if c_len > unat len then Stuck
          else let (bs, r') = next_bytes rng c_len r
               in Gen (As_bytes (bs @ replicate (unat len - c_len) 0)) r')"

definition gen_random_double :: "'r as_random \<Rightarrow> 'r \<Rightarrow> (as_val, 'r) gen" where
  "gen_random_double rng r = (let (x, r') = next_uint64 rng r in Gen (As_dbl x) r')"

subsection \<open>Collections\<close>

text \<open>The inner loop of the list generator: \<open>n\<close> values of one element.\<close>

primrec gen_repeat :: "nat \<Rightarrow> ('s \<Rightarrow> ('a, 's) gen) \<Rightarrow> 's \<Rightarrow> ('a list, 's) gen" where
  "gen_repeat 0 g s = Gen [] s"
| "gen_repeat (Suc n) g s =
     bind_gen (g s) (\<lambda>v s. bind_gen (gen_repeat n g s) (\<lambda>vs s. Gen (v # vs) s))"

text \<open>The outer loop, with \<open>n\<close> values still missing; running out of elements is out of bounds.\<close>

fun gen_elements :: "nat \<Rightarrow> (u32 \<times> ('s \<Rightarrow> ('a, 's) gen)) list \<Rightarrow> 's \<Rightarrow> ('a list, 's) gen" where
  "gen_elements n [] s = (if n = 0 then Gen [] s else Stuck)"
| "gen_elements n ((reps, g) # es) s =
     (if n = 0 then Gen [] s
      else bind_gen (gen_repeat (unat reps) g s) (\<lambda>vs s.
           bind_gen (gen_elements (n - unat reps) es s) (\<lambda>ws s. Gen (vs @ ws) s)))"

definition MAX_KEY_ENTRY_RETRIES :: nat where "MAX_KEY_ENTRY_RETRIES = 1024"

text \<open>
  Drawing a key that is not in the map: the key, unless the tries of this entry are used up, and the
  number of tries so far.
\<close>

function gen_key ::
  "('s \<Rightarrow> (as_val, 's) gen) \<Rightarrow> (as_val \<times> as_val) list \<Rightarrow> nat \<Rightarrow> 's \<Rightarrow> (as_val option \<times> nat, 's) gen" where
  "gen_key g m retry_count s =
     (if retry_count < MAX_KEY_ENTRY_RETRIES then
        case g s of
          Gen k s' \<Rightarrow> if map_of m k = None then Gen (Some k, retry_count) s' else gen_key g m (Suc retry_count) s'
        | _ \<Rightarrow> Stuck
      else Gen (None, retry_count) s)"
  by pat_completeness auto

termination
  by (relation "measure (\<lambda>(g, m, n, s). MAX_KEY_ENTRY_RETRIES - n)") (auto simp: MAX_KEY_ENTRY_RETRIES_def)

text \<open>The repetitions of one entry, and the entries of a map.\<close>

primrec gen_entry ::
  "om_setter \<Rightarrow> ('s \<Rightarrow> (as_val, 's) gen) \<Rightarrow> ('s \<Rightarrow> (as_val, 's) gen) \<Rightarrow> nat \<Rightarrow>
   (as_val \<times> as_val) list \<Rightarrow> nat \<Rightarrow> 's \<Rightarrow> ((as_val \<times> as_val) list, 's) gen" where
  "gen_entry om_set gk gv 0 m retry_count s = Gen m s"
| "gen_entry om_set gk gv (Suc n) m retry_count s =
     bind_gen (gen_key gk m retry_count s) (\<lambda>(ko, retry_count) s.
       case ko of
         None \<Rightarrow> Gen m s
       | Some k \<Rightarrow>
           (case gv s of
              Gen v s' \<Rightarrow> gen_entry om_set gk gv n (om_set m k v) retry_count s'
            | _ \<Rightarrow> Stuck))"

fun gen_entries ::
  "om_setter \<Rightarrow> (u32 \<times> ('s \<Rightarrow> (as_val, 's) gen) \<times> ('s \<Rightarrow> (as_val, 's) gen)) list \<Rightarrow>
   (as_val \<times> as_val) list \<Rightarrow> 's \<Rightarrow> ((as_val \<times> as_val) list, 's) gen" where
  "gen_entries om_set [] m s = Gen m s"
| "gen_entries om_set ((reps, gk, gv) # es) m s =
     bind_gen (gen_entry om_set gk gv (unat reps) m 0 s) (\<lambda>m s. gen_entries om_set es m s)"

definition gen_random_list ::
  "u32 \<Rightarrow> (u32 \<times> ('s \<Rightarrow> (as_val, 's) gen)) list \<Rightarrow> 's \<Rightarrow> (as_val, 's) gen" where
  "gen_random_list len es s = bind_gen (gen_elements (unat len) es s) (\<lambda>vs s. Gen (As_list vs) s)"

definition gen_random_map ::
  "om_setter \<Rightarrow> (u32 \<times> ('s \<Rightarrow> (as_val, 's) gen) \<times> ('s \<Rightarrow> (as_val, 's) gen)) list \<Rightarrow> 's \<Rightarrow> (as_val, 's) gen" where
  "gen_random_map om_set es s = bind_gen (gen_entries om_set es [] s) (\<lambda>m s. Gen (As_map m) s)"

text \<open>
  \<^verbatim>\<open>bin_spec_random_val\<close>; the list and map cases call it on their parts.
\<close>

primrec bin_spec_random_val ::
    "om_setter \<Rightarrow> 'r as_random \<Rightarrow> fp \<Rightarrow> bin_spec \<Rightarrow> 'r option \<Rightarrow> (as_val, 'r option) gen"
  and bin_kind_random_val ::
    "om_setter \<Rightarrow> 'r as_random \<Rightarrow> fp \<Rightarrow> bin_kind \<Rightarrow> 'r option \<Rightarrow> (as_val, 'r option) gen"
  and kv_generators ::
    "om_setter \<Rightarrow> 'r as_random \<Rightarrow> fp \<Rightarrow> kv_pair \<Rightarrow>
     u32 \<times> ('r option \<Rightarrow> (as_val, 'r option) gen) \<times> ('r option \<Rightarrow> (as_val, 'r option) gen)" where
  "bin_spec_random_val om rng ratio (Bin n k) = bin_kind_random_val om rng ratio k"
| "bin_kind_random_val om rng ratio K_bool = with_random (gen_random_bool rng)"
| "bin_kind_random_val om rng ratio (C_bool b) = Gen (As_bool b)"
| "bin_kind_random_val om rng ratio (K_int rg) = with_random (gen_random_int rng rg)"
| "bin_kind_random_val om rng ratio (C_int i) = Gen (As_int i)"
| "bin_kind_random_val om rng ratio (K_str len) = with_random (gen_random_str rng len)"
| "bin_kind_random_val om rng ratio (C_str s) = Gen (As_str s)"
| "bin_kind_random_val om rng ratio (K_bytes len) = with_random (gen_random_bytes rng len ratio)"
| "bin_kind_random_val om rng ratio K_double = with_random (gen_random_double rng)"
| "bin_kind_random_val om rng ratio (C_double d) = Gen (As_dbl d)"
| "bin_kind_random_val om rng ratio (K_list len es) =
     gen_random_list len (zip (map n_repeats es) (map (bin_spec_random_val om rng ratio) es))"
| "bin_kind_random_val om rng ratio (C_list vs) = Gen (As_list vs)"
| "bin_kind_random_val om rng ratio (K_map len kvs) =
     gen_random_map om (map (kv_generators om rng ratio) kvs)"
| "bin_kind_random_val om rng ratio (C_map m) = Gen (As_map m)"
| "kv_generators om rng ratio (Kv k v) =
     (n_repeats k, bin_spec_random_val om rng ratio k, bin_spec_random_val om rng ratio v)"

declare gen_str_tail.simps [simp del] gen_str_chars.simps [simp del] gen_key.simps [simp del]

end
