(* ===== verification/Alphanum.thy ===== *)
theory Alphanum
  imports Bin_Gen
begin

text \<open>
  The characters of random strings.  \<^verbatim>\<open>_gen_random_str\<close> writes 24 characters at a time, working on the
  eight bytes of a word at once; this theory shows that this path writes exactly the characters the
  plain loop for the last characters would write from the same seeds.
\<close>

section \<open>Bytes of a word\<close>

fun pack :: "nat list \<Rightarrow> nat" where
  "pack [] = 0"
| "pack (b # bs) = b + 256 * pack bs"

lemma byte_or:
  assumes "c < 256"
  shows "c + 256 * z = take_bit 8 c OR push_bit 8 (z::nat)"
proof -
  have "take_bit 8 c AND push_bit 8 z = 0" by (rule bit_eqI) (simp add: bit_simps)
  then have "take_bit 8 c + push_bit 8 z = take_bit 8 c OR push_bit 8 z" by (rule disjunctive_add_eq_or)
  moreover have "take_bit 8 c = c" using assms by (simp add: take_bit_nat_eq_self)
  ultimately show ?thesis by (simp add: push_bit_eq_mult)
qed

lemma byte_and: "take_bit 8 a AND take_bit 8 b < (256::nat)" and byte_or_less: "take_bit 8 a OR take_bit 8 b < (256::nat)"
proof -
  have "take_bit 8 a AND take_bit 8 b = take_bit 8 (a AND b)" "take_bit 8 a OR take_bit 8 b = take_bit 8 (a OR b)"
    by (rule bit_eqI; auto simp: bit_simps)+
  then show "take_bit 8 a AND take_bit 8 b < (256::nat)" "take_bit 8 a OR take_bit 8 b < (256::nat)"
    using take_bit_nat_less_exp [of 8 "a AND b"] take_bit_nat_less_exp [of 8 "a OR b"] by simp_all
qed

lemma and_byte:
  assumes "a < 256" "m < 256"
  shows "(a + 256 * x) AND (m + 256 * y) = (a AND m) + 256 * (x AND (y::nat))"
proof -
  have t: "take_bit 8 a = a" "take_bit 8 m = m" using assms by (simp_all add: take_bit_nat_eq_self)
  have "a AND m < 256" using byte_and [of a m] t by simp
  then have "(a AND m) + 256 * (x AND y) = take_bit 8 (a AND m) OR push_bit 8 (x AND y)" by (rule byte_or)
  moreover have "(take_bit 8 a OR push_bit 8 x) AND (take_bit 8 m OR push_bit 8 y) = take_bit 8 (a AND m) OR push_bit 8 (x AND y)"
    by (rule bit_eqI) (auto simp: bit_simps)
  ultimately show ?thesis using byte_or [OF assms(1), of x] byte_or [OF assms(2), of y] by simp
qed

lemma or_byte:
  assumes "a < 256" "m < 256"
  shows "(a + 256 * x) OR (m + 256 * y) = (a OR m) + 256 * (x OR (y::nat))"
proof -
  have t: "take_bit 8 a = a" "take_bit 8 m = m" using assms by (simp_all add: take_bit_nat_eq_self)
  have "a OR m < 256" using byte_or_less [of a m] t by simp
  then have "(a OR m) + 256 * (x OR y) = take_bit 8 (a OR m) OR push_bit 8 (x OR y)" by (rule byte_or)
  moreover have "(take_bit 8 a OR push_bit 8 x) OR (take_bit 8 m OR push_bit 8 y) = take_bit 8 (a OR m) OR push_bit 8 (x OR y)"
    by (rule bit_eqI) (auto simp: bit_simps)
  ultimately show ?thesis using byte_or [OF assms(1), of x] byte_or [OF assms(2), of y] by simp
qed

lemma pack_add: "length as = length bs \<Longrightarrow> pack as + pack bs = pack (map2 (+) as bs)"
  by (induction as bs rule: list_induct2) auto

lemma pack_and:
  "length as = length bs \<Longrightarrow> \<forall>a \<in> set as. a < 256 \<Longrightarrow> \<forall>b \<in> set bs. b < 256 \<Longrightarrow>
   pack as AND pack bs = pack (map2 (AND) as bs)"
  by (induction as bs rule: list_induct2) (auto simp: and_byte)

lemma pack_or:
  "length as = length bs \<Longrightarrow> \<forall>a \<in> set as. a < 256 \<Longrightarrow> \<forall>b \<in> set bs. b < 256 \<Longrightarrow>
   pack as OR pack bs = pack (map2 (OR) as bs)"
  by (induction as bs rule: list_induct2) (auto simp: or_byte)

lemma pack_less: "\<forall>a \<in> set as. a < 256 \<Longrightarrow> pack as < 256 ^ length as"
  by (induction as) auto

lemma mod_add_4: "(p + 4 * q) mod 2 = p mod (2::nat)"
  by presburger

lemma pack_shift6:
  "\<forall>a \<in> set as. a < 256 \<Longrightarrow>
   (pack as div 64) AND pack (replicate (length as) 1) = pack (map (\<lambda>a. a div 64 mod 2) as)"
proof (induction as)
  case (Cons a as)
  let ?N = "pack as"
  have "(a + 256 * ?N) div 64 = a div 64 + 4 * ?N" by simp
  also have "\<dots> = (a div 64 + 4 * (?N mod 64)) + 256 * (?N div 64)"
    using div_mult_mod_eq [of ?N 64] by linarith
  finally have "(a + 256 * ?N) div 64 = (a div 64 + 4 * (?N mod 64)) + 256 * (?N div 64)" .
  moreover have "a div 64 + 4 * (?N mod 64) < 256"
  proof -
    have "a div 64 < 4" using Cons.prems by (simp add: less_mult_imp_div_less)
    moreover have "?N mod 64 < 64" by simp
    ultimately show ?thesis by linarith
  qed
  ultimately have "(a + 256 * ?N) div 64 AND (1 + 256 * pack (replicate (length as) 1))
      = (a div 64 + 4 * (?N mod 64) AND 1) + 256 * (?N div 64 AND pack (replicate (length as) 1))"
    using and_byte [of "a div 64 + 4 * (?N mod 64)" 1 "?N div 64" "pack (replicate (length as) 1)"] by simp
  moreover have "(a div 64 + 4 * (?N mod 64)) AND 1 = a div 64 mod 2"
    using mod_add_4 [of "a div 64" "?N mod 64"] by (simp add: and_one_eq)
  ultimately show ?case using Cons by simp
qed simp


lemma map2_replicate: "length as = n \<Longrightarrow> map2 f as (replicate n b) = map (\<lambda>a. f a b) as"
  by (induction as arbitrary: n) auto

lemma map2_map: "map2 f (map g as) (map h as) = map (\<lambda>a. f (g a) (h a)) as"
  by (induction as) auto

lemma pack_scale: "c * pack as = pack (map ((*) c) as)"
  by (induction as) (auto simp: algebra_simps)

text \<open>Each step of \<^verbatim>\<open>raw_to_alphanum\<close>, byte by byte.\<close>

definition alnum :: "nat \<Rightarrow> nat" where
  "alnum a = (if a < 10 then a + 48 else a + 87)"

text \<open>The byte after the last addition.\<close>

definition alnum_raw :: "nat \<Rightarrow> nat" where
  "alnum_raw a =
     (a + 0x36) + (((a + 0x36) div 64 mod 2 OR 32 * ((a + 0x36) div 64 mod 2)) +
       (((a + 0x36) div 64 mod 2 + 0x7f) AND 0x7a))"

lemma alnum_byte:
  assumes "a < 36"
  shows "alnum_raw a < 256 \<and> alnum_raw a AND 0x7f = alnum a"
proof -
  have m: "v AND 0x7f = v mod 128" for v :: nat
    using take_bit_eq_mask [of 7 v] by (simp add: take_bit_eq_mod mask_eq_exp_minus_1)
  show ?thesis
  proof (cases "a < 10")
    case True
    then have "(a + 0x36) div 64 = 0" by simp
    with True m show ?thesis by (simp add: alnum_def alnum_raw_def mod_if)
  next
    case False
    then have "(a + 0x36) div 64 = 1" using assms by (intro div_nat_eqI) simp_all
    with False assms m show ?thesis by (simp add: alnum_def alnum_raw_def mod_if)
  qed
qed

lemma drop_bit_of_nat_64: "m < 2 ^ 64 \<Longrightarrow> drop_bit k (of_nat m :: u64) = of_nat (m div 2 ^ k)"
  by (simp only: word_unat_eq_iff unat_drop_bit_eq)
    (simp add: drop_bit_eq_div unat_of_nat_64 le_less_trans [OF div_le_dividend])

lemma push_bit_5: "push_bit 5 (of_nat m :: u64) = of_nat (32 * m)"
  by (simp add: push_bit_eq_mult)

lemma add_and_of_nat: "(of_nat a + of_nat b) AND of_nat c = (of_nat ((a + b) AND c) :: u64)"
  by (simp only: of_nat_and_eq of_nat_add)

lemma replicate_8: "replicate 8 b = [b, b, b, b, b, b, b, b]"
  by (simp add: eval_nat_numeral)

lemma raw_bytes:
  assumes "length as = 8" and "\<forall>a \<in> set as. a < 36"
  shows "raw_to_alphanum (of_nat (pack as)) = of_nat (pack (map alnum as))"
proof -
  let ?c = "\<lambda>b. pack (replicate 8 b)"
  let ?n = "map (\<lambda>a. a + 0x36) as"
  let ?x = "map (\<lambda>a. (a + 0x36) div 64 mod 2) as"
  let ?y = "map (\<lambda>a. ((a + 0x36) div 64 mod 2 + 0x7f) AND 0x7a) as"
  let ?x' = "map (\<lambda>a. (a + 0x36) div 64 mod 2 OR 32 * ((a + 0x36) div 64 mod 2)) as"
  have cs: "(0x3636363636363636 :: nat) = ?c 0x36" "(0x0101010101010101 :: nat) = ?c 1"
    "(0x7f7f7f7f7f7f7f7f :: nat) = ?c 0x7f" "(0x7a7a7a7a7a7a7a7a :: nat) = ?c 0x7a"
    by (simp_all add: replicate_8)
  have bit: "(a + 0x36) div 64 mod 2 < (2::nat)" for a by simp
  have n: "pack as + ?c 0x36 = pack ?n" using assms(1) by (simp add: pack_add map2_replicate)
  have n256: "\<forall>a \<in> set ?n. a < 256" using assms(2) by fastforce
  have n_lt: "pack ?n < 2 ^ 64"
    using pack_less [OF n256] assms(1) by simp
  have x: "pack ?n div 64 AND ?c 1 = pack ?x"
    using pack_shift6 [of ?n] n256 assms(1) by (simp add: o_def)
  have y0: "pack ?x + ?c 0x7f = pack (map (\<lambda>a. (a + 0x36) div 64 mod 2 + 0x7f) as)"
    using assms(1) by (simp add: pack_add map2_replicate o_def)
  have y: "(pack ?x + ?c 0x7f) AND ?c 0x7a = pack ?y"
    unfolding y0 using assms(1) bit
    by (subst pack_and) (auto simp: map2_replicate o_def intro: less_trans [of _ "2 + 127"])
  have x': "pack ?x OR 32 * pack ?x = pack ?x'"
    unfolding pack_scale
    using bit by (subst pack_or) (auto simp: map2_map o_def intro: less_trans [of _ 2] less_trans [of _ "64"])
  have sum: "pack ?n + (pack ?x' + pack ?y) = pack (map alnum_raw as)"
    by (simp add: pack_add map2_map alnum_raw_def [abs_def])
  have fin: "(pack ?n + (pack ?x' + pack ?y)) AND ?c 0x7f = pack (map alnum as)"
    unfolding sum using assms alnum_byte
    by (subst pack_and) (auto simp: map2_replicate o_def intro!: arg_cong [where f = pack])
  have cw: "(0x7f7f7f7f7f7f7f7f :: u64) = of_nat (?c 0x7f)" "(0x7a7a7a7a7a7a7a7a :: u64) = of_nat (?c 0x7a)"
    using cs(3,4) by (metis of_nat_numeral)+
  have w1: "of_nat (pack as) + (0x3636363636363636 :: u64) = of_nat (pack ?n)"
    using n cs(1) by (metis of_nat_add of_nat_numeral)
  have w2: "drop_bit 6 (of_nat (pack ?n) :: u64) AND 0x0101010101010101 = of_nat (pack ?x)"
  proof -
    have "(0x0101010101010101 :: u64) = of_nat (?c 1)" using cs(2) by (metis of_nat_numeral)
    moreover have "drop_bit 6 (of_nat (pack ?n) :: u64) = of_nat (pack ?n div 64)"
      using drop_bit_of_nat_64 [OF n_lt, of 6] by simp
    ultimately show ?thesis by (simp only: of_nat_and_eq [symmetric] x)
  qed
  have w3: "(of_nat (pack ?x) + 0x7f7f7f7f7f7f7f7f) AND (0x7a7a7a7a7a7a7a7a :: u64) = of_nat (pack ?y)"
    unfolding cw add_and_of_nat y ..
  have w4: "of_nat (pack ?x) OR push_bit 5 (of_nat (pack ?x) :: u64) = of_nat (pack ?x')"
    unfolding push_bit_5 of_nat_or_eq [symmetric] x' ..
  have w5: "(of_nat (pack ?n) + (of_nat (pack ?x') + of_nat (pack ?y))) AND (0x7f7f7f7f7f7f7f7f :: u64) = of_nat (pack (map alnum as))"
    unfolding cw of_nat_add [symmetric] of_nat_and_eq [symmetric] fin ..
  show ?thesis unfolding raw_to_alphanum_def Let_def w1 w2 w3 w4 w5 ..
qed


lemma pack_snoc: "pack (ds @ [d]) = pack ds + 256 ^ length ds * d"
  by (induction ds) (auto simp: algebra_simps)

lemma pack_or_snoc:
  assumes "\<forall>d \<in> set ds. d < 256"
  shows "pack ds OR push_bit (8 * length ds) d = pack (ds @ [d])"
proof -
  let ?k = "8 * length ds"
  have "pack ds < 2 ^ ?k" using pack_less [OF assms] by (simp add: power_mult)
  then have t: "take_bit ?k (pack ds) = pack ds" by (simp add: take_bit_nat_eq_self)
  have "take_bit ?k (pack ds) AND push_bit ?k d = 0" by (rule bit_eqI) (simp add: bit_simps)
  then have "take_bit ?k (pack ds) + push_bit ?k d = take_bit ?k (pack ds) OR push_bit ?k d"
    by (rule disjunctive_add_eq_or)
  moreover have "(2::nat) ^ ?k = 256 ^ length ds" by (simp add: power_mult)
  ultimately show ?thesis unfolding t pack_snoc push_bit_eq_mult by (simp add: mult.commute)
qed

lemma word_or_snoc:
  assumes "\<forall>d \<in> set ds. d < 256" and "k = length ds"
  shows "(of_nat (pack ds) :: u64) OR push_bit (k * 8) x = of_nat (pack (ds @ [unat x]))"
proof -
  have "push_bit (k * 8) x = of_nat (push_bit (8 * length ds) (unat x))"
    using assms(2) by (simp add: push_bit_eq_mult mult.commute)
  then show ?thesis using pack_or_snoc [OF assms(1), of "unat x"] by (metis of_nat_or_eq)
qed

text \<open>The digits of a seed in base 36, least significant first.\<close>

primrec base36 :: "nat \<Rightarrow> nat \<Rightarrow> nat list" where
  "base36 0 s = []"
| "base36 (Suc n) s = s mod 36 # base36 n (s div 36)"

lemma length_base36 [simp]: "length (base36 n s) = n"
  by (induction n arbitrary: s) auto

lemma base36_small: "d \<in> set (base36 n s) \<Longrightarrow> d < 36"
  by (induction n arbitrary: s) auto

lemma base36_append: "base36 (m + n) s = base36 m s @ base36 n (s div 36 ^ m)"
  by (induction m arbitrary: s) (auto simp: div_mult2_eq)

lemma unat_36: "unat (s div N_ALPHANUM) = unat s div 36" "unat (s mod N_ALPHANUM) = unat s mod 36"
  by (simp_all add: N_ALPHANUM_def unat_div_distrib unat_mod_distrib)

lemma div_first_eq:
  assumes "\<forall>d \<in> set ds. d < 256" and "k = length ds"
  shows "\<exists>s'. div_first k n s (of_nat (pack ds)) = (s', of_nat (pack (ds @ base36 n (unat s div 36)))) \<and>
           unat s' = unat s div 36 ^ n"
  using assms
proof (induction n arbitrary: k s ds)
  case (Suc n)
  let ?d = "unat (s div N_ALPHANUM mod N_ALPHANUM)"
  have d: "?d = unat s div 36 mod 36" by (simp add: unat_36)
  have "\<forall>e \<in> set (ds @ [?d]). e < 256" using Suc.prems(1) d by auto
  from Suc.IH [OF this, of "Suc k" "s div N_ALPHANUM"] Suc.prems(2)
  obtain s' where "div_first (Suc k) n (s div N_ALPHANUM) (of_nat (pack (ds @ [?d]))) =
      (s', of_nat (pack ((ds @ [?d]) @ base36 n (unat s div 36 div 36))))" "unat s' = unat s div 36 div 36 ^ n"
    by (auto simp: unat_36)
  then show ?case
    using word_or_snoc [OF Suc.prems, of "s div N_ALPHANUM mod N_ALPHANUM"] d
    by (auto simp: Let_def div_mult2_eq)
qed simp

lemma div_last_eq:
  assumes "\<forall>d \<in> set ds. d < 256" and "k = length ds"
  shows "\<exists>s'. div_last k n s (of_nat (pack ds)) = (s', of_nat (pack (ds @ base36 n (unat s)))) \<and>
           unat s' = unat s div 36 ^ n"
  using assms
proof (induction n arbitrary: k s ds)
  case (Suc n)
  let ?d = "unat (s mod N_ALPHANUM)"
  have d: "?d = unat s mod 36" by (simp add: unat_36)
  have "\<forall>e \<in> set (ds @ [?d]). e < 256" using Suc.prems(1) d by auto
  from Suc.IH [OF this, of "Suc k" "s div N_ALPHANUM"] Suc.prems(2)
  obtain s' where "div_last (Suc k) n (s div N_ALPHANUM) (of_nat (pack (ds @ [?d]))) =
      (s', of_nat (pack ((ds @ [?d]) @ base36 n (unat s div 36))))" "unat s' = unat s div 36 div 36 ^ n"
    by (auto simp: unat_36)
  then show ?case
    using word_or_snoc [OF Suc.prems, of "s mod N_ALPHANUM"] d
    by (auto simp: Let_def div_mult2_eq)
qed simp

lemma pack_nth: "k < length bs \<Longrightarrow> \<forall>b \<in> set bs. b < 256 \<Longrightarrow> pack bs div 256 ^ k mod 256 = bs ! k"
proof (induction bs arbitrary: k)
  case (Cons b bs)
  show ?case
  proof (cases k)
    case (Suc j)
    have "(b + 256 * pack bs) div 256 = pack bs" using Cons.prems by simp
    with Suc Cons show ?thesis by (simp add: div_mult2_eq)
  qed (use Cons.prems in simp)
qed simp

lemma word_chars_pack:
  assumes "length bs = 8" and "\<forall>b \<in> set bs. b < 256"
  shows "word_chars (of_nat (pack bs)) = map char_of bs"
proof -
  have "pack bs < 2 ^ 64" using pack_less [OF assms(2)] assms(1) by simp
  then have "unat (drop_bit (8 * k) (of_nat (pack bs) :: u64)) = pack bs div 256 ^ k" for k
    by (simp only: unat_drop_bit_eq unat_of_nat_64) (simp add: drop_bit_eq_div power_mult)
  then have "word_chars (of_nat (pack bs)) = map (\<lambda>k. char_of (pack bs div 256 ^ k mod 256)) [0..<8]"
    by (simp add: word_chars_def)
  also have "\<dots> = map (\<lambda>k. char_of (bs ! k)) [0..<8]" using pack_nth [of _ bs] assms by (intro map_cong) auto
  also have "\<dots> = map char_of (map ((!) bs) [0..<length bs])" using assms(1) by simp
  also have "\<dots> = map char_of bs" by (simp only: map_nth)
  finally show ?thesis .
qed

lemma alnum_less: "a < 36 \<Longrightarrow> alnum a < 123"
  by (simp add: alnum_def)

lemma batch_word:
  assumes "length as = 8" and "\<forall>a \<in> set as. a < 36"
  shows "word_chars (raw_to_alphanum (of_nat (pack as))) = map (char_of \<circ> alnum) as"
  using raw_bytes [OF assms] word_chars_pack [of "map alnum as"] assms alnum_less by fastforce

lemma tail_chars_eq: "tail_chars n s = map (char_of \<circ> alnum) (base36 n (unat s))"
proof (induction n arbitrary: s)
  case (Suc n)
  have "alphanum_char (s mod N_ALPHANUM) = char_of (alnum (unat s mod 36))"
    by (simp add: alphanum_char_def alnum_def unat_36 word_less_nat_alt)
  with Suc show ?case by (simp add: unat_36)
qed simp

lemma first_word:
  "\<exists>s'. div_first 1 n s (s mod N_ALPHANUM) = (s', of_nat (pack (base36 (Suc n) (unat s)))) \<and>
        unat s' = unat s div 36 ^ n"
proof -
  have "\<forall>d \<in> set [unat (s mod N_ALPHANUM)]. d < 256" by (simp add: unat_36 less_trans [of _ 36])
  moreover have "of_nat (pack [unat (s mod N_ALPHANUM)]) = s mod N_ALPHANUM" by simp
  moreover have "[unat (s mod N_ALPHANUM)] @ base36 n (unat s div 36) = base36 (Suc n) (unat s)" by (simp add: unat_36)
  ultimately show ?thesis using div_first_eq [of "[unat (s mod N_ALPHANUM)]" 1 n s] by (metis One_nat_def length_Cons list.size(3))
qed

text \<open>The vectorised path writes what the plain loop would write from the two seeds.\<close>

lemma str_batch_eq: "concat (map word_chars (str_batch s1 s2)) = tail_chars 12 s1 @ tail_chars 12 s2"
proof -
  obtain t1 where t1: "div_first 1 7 s1 (s1 mod N_ALPHANUM) = (t1, of_nat (pack (base36 8 (unat s1))))"
    "unat t1 = unat s1 div 36 ^ 7"
    using first_word [of 7 s1] by auto
  have u1: "unat (t1 div N_ALPHANUM) = unat s1 div 36 ^ 8" by (simp add: unat_36 t1(2) div_mult2_eq [symmetric])
  obtain t2 where t2: "div_first 1 3 (t1 div N_ALPHANUM) (t1 div N_ALPHANUM mod N_ALPHANUM)
      = (t2, of_nat (pack (base36 4 (unat s1 div 36 ^ 8))))"
    using first_word [of 3 "t1 div N_ALPHANUM"] u1 by auto
  let ?c2 = "base36 4 (unat s1 div 36 ^ 8) @ base36 4 (unat s2)"
  have small: "\<forall>d \<in> set (base36 n x). d < 256" for n x using base36_small by fastforce
  obtain t3 where t3: "div_last 4 4 s2 (of_nat (pack (base36 4 (unat s1 div 36 ^ 8)))) = (t3, of_nat (pack ?c2))"
    "unat t3 = unat s2 div 36 ^ 4"
    using div_last_eq [OF small, of 4 4 "unat s1 div 36 ^ 8" 4 s2] by auto
  obtain t4 where t4: "div_first 1 7 t3 (t3 mod N_ALPHANUM) = (t4, of_nat (pack (base36 8 (unat s2 div 36 ^ 4))))"
    using first_word [of 7 t3] t3(2) by auto
  have b2: "word_chars (raw_to_alphanum (of_nat (pack ?c2))) = map (char_of \<circ> alnum) ?c2"
    using base36_small by (intro batch_word) auto
  have "str_batch s1 s2 = [raw_to_alphanum (of_nat (pack (base36 8 (unat s1)))),
      raw_to_alphanum (of_nat (pack ?c2)), raw_to_alphanum (of_nat (pack (base36 8 (unat s2 div 36 ^ 4))))]"
    by (simp only: str_batch_def t1(1) t2 t3(1) t4 Let_def prod.case)
  then have "concat (map word_chars (str_batch s1 s2)) =
      map (char_of \<circ> alnum) (base36 8 (unat s1) @ ?c2 @ base36 8 (unat s2 div 36 ^ 4))"
    using b2 base36_small by (simp add: batch_word)
  also have "base36 8 (unat s1) @ ?c2 @ base36 8 (unat s2 div 36 ^ 4) = base36 12 (unat s1) @ base36 12 (unat s2)"
    using base36_append [of 8 4 "unat s1"] base36_append [of 4 8 "unat s2"] by simp
  finally show ?thesis by (simp add: tail_chars_eq)
qed

section \<open>Properties\<close>

text \<open>
  C30. \<^verbatim>\<open>raw_to_alphanum\<close> turns eight bytes of values below 36, packed in a word, into the eight bytes
  of the corresponding characters 0-9 and a-z, without any carry between bytes.
\<close>

theorem raw_to_alphanum_bytewise:
  assumes "length as = 8" and "\<forall>a \<in> set as. a < 36"
  shows "word_chars (raw_to_alphanum (of_nat (pack as))) = map (\<lambda>a. alphanum_char (of_nat a)) as"
proof -
  have "alphanum_char (of_nat a) = (char_of \<circ> alnum) a" if "a < 36" for a
    using that by (simp add: alphanum_char_def alnum_def word_less_nat_alt unat_of_nat_64)
  then show ?thesis using batch_word [OF assms] assms(2) by simp
qed

theorem raw_to_alphanum_bytewise_witness:
  "word_chars (raw_to_alphanum (of_nat (pack [0, 9, 10, 35, 1, 2, 3, 4])))
     = map (\<lambda>a. alphanum_char (of_nat a)) [0, 9, 10, 35, 1, 2, 3, 4]"
  using raw_to_alphanum_bytewise [of "[0, 9, 10, 35, 1, 2, 3, 4]"] by simp

text \<open>
  The vectorised generation of 24 characters from two seeds gives exactly the characters of the
  plain loop, twelve from each seed.
\<close>

theorem str_batch_is_plain_loop:
  "concat (map word_chars (str_batch s1 s2)) = tail_chars ALPHANUM_PER_64_BITS s1 @ tail_chars ALPHANUM_PER_64_BITS s2"
  using str_batch_eq by (simp add: ALPHANUM_PER_64_BITS_def)

end
