(* ===== verification/Bin_Conform.thy ===== *)
theory Bin_Conform
  imports Alphanum "HOL-Library.AList"
begin

text \<open>
  What a generated value has to look like, as the comment on \<^verbatim>\<open>obj_spec_parse\<close> in \<^verbatim>\<open>object_spec.h\<close>
  describes it, and the proof that \<^verbatim>\<open>bin_spec_random_val\<close> returns such a value for every well-formed
  specification.
\<close>

section \<open>Values that conform to a specification\<close>

definition is_alphanum :: "char \<Rightarrow> bool" where
  "is_alphanum c \<longleftrightarrow> isdigit c \<or> 97 \<le> cc c \<and> cc c \<le> 122"

definition int_lo :: "u8 \<Rightarrow> nat" where "int_lo rg = (if rg = 0 then 0 else 256 ^ unat rg)"
definition int_hi :: "u8 \<Rightarrow> nat" where "int_hi rg = 256 ^ Suc (unat rg)"

text \<open>Elements with their repetitions, in order.\<close>

fun matches :: "(u32 \<times> ('a \<Rightarrow> bool)) list \<Rightarrow> 'a list \<Rightarrow> bool" where
  "matches [] vs \<longleftrightarrow> vs = []"
| "matches ((n, p) # es) vs \<longleftrightarrow>
     unat n \<le> length vs \<and> list_all p (take (unat n) vs) \<and> matches es (drop (unat n) vs)"

primrec conf_spec :: "bin_spec \<Rightarrow> as_val \<Rightarrow> bool"
  and conf_kind :: "bin_kind \<Rightarrow> as_val \<Rightarrow> bool"
  and conf_kv :: "kv_pair \<Rightarrow> as_val \<times> as_val \<Rightarrow> bool" where
  "conf_spec (Bin n k) = conf_kind k"
| "conf_kind K_bool = (\<lambda>v. case v of As_bool b \<Rightarrow> True | _ \<Rightarrow> False)"
| "conf_kind (C_bool b) = (\<lambda>v. v = As_bool b)"
| "conf_kind (K_int rg) = (\<lambda>v. case v of As_int i \<Rightarrow> int_lo rg \<le> unat i \<and> unat i < int_hi rg | _ \<Rightarrow> False)"
| "conf_kind (C_int i) = (\<lambda>v. v = As_int i)"
| "conf_kind (K_str len) = (\<lambda>v. case v of As_str s \<Rightarrow> length s = unat len \<and> list_all is_alphanum s | _ \<Rightarrow> False)"
| "conf_kind (C_str s) = (\<lambda>v. v = As_str s)"
| "conf_kind (K_bytes len) = (\<lambda>v. case v of As_bytes bs \<Rightarrow> length bs = unat len | _ \<Rightarrow> False)"
| "conf_kind K_double = (\<lambda>v. case v of As_dbl d \<Rightarrow> True | _ \<Rightarrow> False)"
| "conf_kind (C_double d) = (\<lambda>v. v = As_dbl d)"
| "conf_kind (K_list len es) =
     (\<lambda>v. case v of As_list vs \<Rightarrow> length vs = unat len \<and> matches (zip (map n_repeats es) (map conf_spec es)) vs
                  | _ \<Rightarrow> False)"
| "conf_kind (C_list vs) = (\<lambda>v. v = As_list vs)"
| "conf_kind (K_map len kvs) =
     (\<lambda>v. case v of As_map m \<Rightarrow> distinct (map fst m) \<and> length m \<le> unat len \<and>
                                list_all (\<lambda>kv. list_ex (\<lambda>p. p kv) (map conf_kv kvs)) m
                  | _ \<Rightarrow> False)"
| "conf_kind (C_map m) = (\<lambda>v. v = As_map m)"
| "conf_kv (Kv k v) = (\<lambda>(a, b). conf_spec k a \<and> conf_spec v b)"

section \<open>Well-formed specifications\<close>

fun scalar_key :: "bin_kind \<Rightarrow> bool" where
  "scalar_key (K_int rg) = True"
| "scalar_key (C_int i) = True"
| "scalar_key (K_str len) = True"
| "scalar_key (C_str s) = True"
| "scalar_key (K_bytes len) = True"
| "scalar_key _ = False"

definition key_repeats :: "kv_pair \<Rightarrow> nat" where
  "key_repeats kv = unat (n_repeats (key_spec kv))"

primrec wf_spec :: "bin_spec \<Rightarrow> bool" and wf_kind :: "bin_kind \<Rightarrow> bool" and wf_kv :: "kv_pair \<Rightarrow> bool" where
  "wf_spec (Bin n k) \<longleftrightarrow> 0 < n \<and> wf_kind k"
| "wf_kind K_bool = True"
| "wf_kind (C_bool b) = True"
| "wf_kind (K_int rg) = (rg \<le> 7)"
| "wf_kind (C_int i) = True"
| "wf_kind (K_str len) = True"
| "wf_kind (C_str s) = True"
| "wf_kind (K_bytes len) = True"
| "wf_kind K_double = True"
| "wf_kind (C_double d) = True"
| "wf_kind (K_list len es) = (list_all id (map wf_spec es) \<and> unat len = sum_list (map (unat \<circ> n_repeats) es))"
| "wf_kind (C_list vs) = True"
| "wf_kind (K_map len kvs) = (list_all id (map wf_kv kvs) \<and> unat len = sum_list (map key_repeats kvs))"
| "wf_kind (C_map m) = True"
| "wf_kv (Kv k v) = (wf_spec k \<and> wf_spec v \<and> scalar_key (kind k) \<and> n_repeats v = 1)"

text \<open>
  Sizes for which the buffers are large enough: strings whose length plus one fits 32 bits, and byte
  arrays small enough that their length is exact in single precision.
\<close>

primrec bytes_ok_spec :: "bin_spec \<Rightarrow> bool" and bytes_ok_kind :: "bin_kind \<Rightarrow> bool" and bytes_ok_kv :: "kv_pair \<Rightarrow> bool" where
  "bytes_ok_spec (Bin n k) = bytes_ok_kind k"
| "bytes_ok_kind K_bool = True"
| "bytes_ok_kind (C_bool b) = True"
| "bytes_ok_kind (K_int rg) = True"
| "bytes_ok_kind (C_int i) = True"
| "bytes_ok_kind (K_str len) = (len \<noteq> - 1)"
| "bytes_ok_kind (C_str s) = True"
| "bytes_ok_kind (K_bytes len) = (unat len < 2 ^ 24)"
| "bytes_ok_kind K_double = True"
| "bytes_ok_kind (C_double d) = True"
| "bytes_ok_kind (K_list len es) = list_all id (map bytes_ok_spec es)"
| "bytes_ok_kind (C_list vs) = True"
| "bytes_ok_kind (K_map len kvs) = list_all id (map bytes_ok_kv kvs)"
| "bytes_ok_kind (C_map m) = True"
| "bytes_ok_kv (Kv k v) = (bytes_ok_spec k \<and> bytes_ok_spec v)"

section \<open>What the client library promises\<close>

text \<open>
  The generator never draws only small numbers for ever, and fills as many bytes as it is asked to;
  the ordered map keeps its keys distinct and a pair that is set is found under its key.
\<close>

definition rng_ok :: "'r as_random \<Rightarrow> bool" where
  "rng_ok rng \<longleftrightarrow>
     (\<forall>r. \<exists>n. 2 ^ 63 \<le> draw (next_uint64 rng) r n) \<and> (\<forall>n r. length (fst (next_bytes rng n r)) = n)"

definition om_ok :: "om_setter \<Rightarrow> bool" where
  "om_ok om \<longleftrightarrow>
     (\<forall>m k v. distinct (map fst m) \<longrightarrow>
        distinct (map fst (om m k v)) \<and> map_of (om m k v) = (map_of m)(k \<mapsto> v))"

section \<open>Generators that always return\<close>

definition yields :: "('r option \<Rightarrow> ('a, 'r option) gen) \<Rightarrow> ('a \<Rightarrow> bool) \<Rightarrow> bool" where
  "yields g P \<longleftrightarrow> (\<forall>r. \<exists>v r'. g (Some r) = Gen v (Some r') \<and> P v)"

lemma yieldsE:
  assumes "yields g P"
  obtains v r' where "g (Some r) = Gen v (Some r')" "P v"
  using assms unfolding yields_def by blast

lemma yields_const: "P v \<Longrightarrow> yields (Gen v) P"
  by (simp add: yields_def)

lemma yields_scalar: "(\<And>r. \<exists>v r'. g r = Gen v r' \<and> P v) \<Longrightarrow> yields (with_random g) P"
  unfolding yields_def
proof
  fix r
  assume "\<And>r. \<exists>v r'. g r = Gen v r' \<and> P v"
  then obtain v r' where "g r = Gen v r'" "P v" by blast
  then show "\<exists>v r'. with_random g (Some r) = Gen v (Some r') \<and> P v" by (simp add: with_random_def)
qed

lemma yields_mono: "yields g P \<Longrightarrow> (\<And>v. P v \<Longrightarrow> Q v) \<Longrightarrow> yields g Q"
  unfolding yields_def by blast

text \<open>A bounded random number.\<close>

lemma draw_range_ok:
  assumes "rng_ok rng" and "mx \<noteq> 0"
  shows "\<exists>x r'. draw_range rng mx r = Gen x r' \<and> x < mx"
proof -
  obtain n where n: "2 ^ 63 \<le> draw (next_uint64 rng) r n" using assms(1) unfolding rng_ok_def by blast
  then show ?thesis using gen_rand_range_64_returns [OF assms(2) n] by (auto simp: draw_range_def)
qed

subsection \<open>Scalars\<close>

lemma bool_ok: "yields (with_random (gen_random_bool rng)) (conf_kind K_bool)"
  by (rule yields_scalar) (simp add: gen_random_bool_def split: prod.splits)

lemma double_ok: "yields (with_random (gen_random_double rng)) (conf_kind K_double)"
  by (rule yields_scalar) (simp add: gen_random_double_def split: prod.splits)

text \<open>The lower end and the size of an integer range, as numbers.\<close>

lemma int_range_words:
  assumes "rg \<le> 7"
  shows "unat (int_min rg) = int_lo rg" "unat (int_range_size rg) = int_hi rg - int_lo rg"
    "int_lo rg < int_hi rg" "int_hi rg \<le> 2 ^ 64"
proof -
  have "unat rg \<le> 7" using assms by (simp add: word_le_nat_alt)
  then have "unat rg = 0 \<or> unat rg = 1 \<or> unat rg = 2 \<or> unat rg = 3 \<or> unat rg = 4 \<or> unat rg = 5 \<or> unat rg = 6 \<or> unat rg = 7"
    by linarith
  then consider "rg = 0" | "rg = 1" | "rg = 2" | "rg = 3" | "rg = 4" | "rg = 5" | "rg = 6" | "rg = 7"
    by (auto simp: word_unat_eq_iff)
  then show "unat (int_min rg) = int_lo rg" "unat (int_range_size rg) = int_hi rg - int_lo rg"
    "int_lo rg < int_hi rg" "int_hi rg \<le> 2 ^ 64"
    by (cases; simp add: int_min_def int_lo_def int_hi_def int_range_size_def)+
qed

lemma int_ok:
  assumes "rng_ok rng" and "rg \<le> 7"
  shows "yields (with_random (gen_random_int rng rg)) (conf_kind (K_int rg))"
proof (rule yields_scalar)
  fix r
  note w = int_range_words [OF assms(2)]
  have "int_range_size rg \<noteq> 0" using w(2,3) by (metis less_irrefl unat_0 zero_less_diff)
  then obtain x r' where x: "draw_range rng (int_range_size rg) r = Gen x r'" "x < int_range_size rg"
    using draw_range_ok [OF assms(1)] by blast
  have "unat x < int_hi rg - int_lo rg" using x(2) w(2) by (simp add: word_less_nat_alt)
  then have "unat (x + int_min rg) = unat x + int_lo rg" "unat x + int_lo rg < int_hi rg"
    using w by (simp_all add: unat_add_no_overflow)
  then show "\<exists>v r'. gen_random_int rng rg r = Gen v r' \<and> conf_kind (K_int rg) v"
    using x(1) assms(2) by (simp add: gen_random_int_def not_less)
qed

lemma alphanum_is: "list_all is_alphanum (tail_chars n s)"
proof -
  have "is_alphanum (char_of (alnum a))" if "a < 36" for a
    using that by (auto simp: is_alphanum_def isdigit_def alnum_def)
  then show ?thesis using base36_small by (fastforce simp: tail_chars_eq list_all_iff)
qed

lemma length_tail_chars [simp]: "length (tail_chars n s) = n"
  by (simp add: tail_chars_eq)

lemma str_tail_ok:
  assumes "rng_ok rng"
  shows "\<exists>cs r'. gen_str_tail rng n r = Gen cs r' \<and> length cs = n \<and> list_all is_alphanum cs"
proof (induction n arbitrary: r rule: less_induct)
  case (less n)
  show ?case
  proof (cases "n = 0")
    case False
    let ?sz = "min n ALPHANUM_PER_64_BITS"
    have sz: "0 < ?sz" using False by (simp add: ALPHANUM_PER_64_BITS_def)
    obtain s r1 where s: "draw_range rng MAX_SEED r = Gen s r1"
      using draw_range_ok [OF assms, of MAX_SEED r] by (auto simp: MAX_SEED_def)
    obtain cs r2 where "gen_str_tail rng (n - ?sz) r1 = Gen cs r2" "length cs = n - ?sz" "list_all is_alphanum cs"
      using less.IH [of "n - ?sz" r1] sz False by (metis diff_less neq0_conv)
    then show ?thesis
      using s False alphanum_is by (subst gen_str_tail.simps) (simp add: Let_def)
  qed (subst gen_str_tail.simps, simp)
qed

lemma str_chars_ok:
  assumes "rng_ok rng"
  shows "\<exists>cs r'. gen_str_chars rng n r = Gen cs r' \<and> length cs = n \<and> list_all is_alphanum cs"
proof (induction n arbitrary: r rule: less_induct)
  case (less n)
  show ?case
  proof (cases "2 * ALPHANUM_PER_64_BITS \<le> n")
    case True
    obtain s1 r1 where s1: "draw_range rng MAX_SEED r = Gen s1 r1"
      using draw_range_ok [OF assms, of MAX_SEED r] by (auto simp: MAX_SEED_def)
    obtain s2 r2 where s2: "draw_range rng MAX_SEED r1 = Gen s2 r2"
      using draw_range_ok [OF assms, of MAX_SEED r1] by (auto simp: MAX_SEED_def)
    obtain cs r3 where "gen_str_chars rng (n - 2 * ALPHANUM_PER_64_BITS) r2 = Gen cs r3"
      "length cs = n - 2 * ALPHANUM_PER_64_BITS" "list_all is_alphanum cs"
      using less.IH [of "n - 2 * ALPHANUM_PER_64_BITS" r2] True by (auto simp: ALPHANUM_PER_64_BITS_def)
    then show ?thesis
      using s1 s2 True alphanum_is
      by (subst gen_str_chars.simps) (simp add: str_batch_eq ALPHANUM_PER_64_BITS_def)
  next
    case False
    then show ?thesis using str_tail_ok [OF assms] by (subst gen_str_chars.simps) simp
  qed
qed

lemma str_ok: "rng_ok rng \<Longrightarrow> len \<noteq> - 1 \<Longrightarrow> yields (with_random (gen_random_str rng len)) (conf_kind (K_str len))"
proof (rule yields_scalar)
  fix r
  assume ok: "rng_ok rng" and "len \<noteq> - 1"
  then have "1 + len \<noteq> 0" by (simp add: add_eq_0_iff)
  then have len: "unat (len + 1) = Suc (unat len)" using unatSuc [of len] by (simp add: add.commute)
  obtain cs r' where "gen_str_chars rng (unat len) r = Gen cs r'" "length cs = unat len" "list_all is_alphanum cs"
    using str_chars_ok [OF ok, of "unat len" r] by (elim exE conjE)
  then show "\<exists>v r'. gen_random_str rng len r = Gen v r' \<and> conf_kind (K_str len) v"
    by (simp add: gen_random_str_def len)
qed

text \<open>Short byte arrays: the scaled length does not exceed the length.\<close>

definition ratio_ok :: "fp \<Rightarrow> bool" where
  "ratio_ok ratio \<longleftrightarrow> (\<exists>x. ratio = Fin x \<and> 0 \<le> x \<and> x \<le> 1)"

lemma bytes_ok:
  assumes "rng_ok rng" and "ratio_ok ratio" and "unat len < 2 ^ 24"
  shows "yields (with_random (gen_random_bytes rng len ratio)) (conf_kind (K_bytes len))"
proof (rule yields_scalar)
  fix r
  let ?l = "of_nat (unat len) :: rat"
  obtain x where x: "ratio = Fin x" "0 \<le> x" "x \<le> 1" using assms(2) by (auto simp: ratio_ok_def)
  have fl: "is_float ?l" using is_float_intro [OF assms(3), of 149] by (simp del: of_nat_unat)
  have l0: "0 \<le> ?l" by (rule of_nat_0_le_iff)
  then obtain y where y: "to_float (x * ?l) = Fin y" "0 \<le> y" "y \<le> ?l"
    using to_float_between [of "x * ?l" ?l] fl x mult_left_le_one_le [of ?l x] by auto
  have "?l < 2 ^ 24" using assms(3) by (metis of_nat_less_iff of_nat_numeral of_nat_power)
  then have yl: "y < 2 ^ 32" using y(3) by simp
  have "f_mul ratio (f_of_nat (unat len)) = Fin y"
    using x(1) y(1) to_float_exact [OF fl] by (simp only: f_of_nat_def f_mul.simps)
  then have c: "fp_to_unsigned 32 (f_mul ratio (f_of_nat (unat len))) = Some (nat \<lfloor>y\<rfloor>)"
    using y(2) yl by (simp add: fp_to_unsigned_def)
  have "\<lfloor>y\<rfloor> \<le> int (unat len)" using y(3) by (simp only: floor_le_iff)
  then have le: "nat \<lfloor>y\<rfloor> \<le> unat len" by linarith
  obtain bs r' where b: "next_bytes rng (nat \<lfloor>y\<rfloor>) r = (bs, r')" by fastforce
  then have "length bs = nat \<lfloor>y\<rfloor>" using assms(1) unfolding rng_ok_def by (metis fst_conv)
  then show "\<exists>v r'. gen_random_bytes rng len ratio r = Gen v r' \<and> conf_kind (K_bytes len) v"
    using c le b by (simp add: gen_random_bytes_def)
qed

subsection \<open>Lists\<close>

lemma yields_bind:
  assumes "yields g P" and "\<And>v. P v \<Longrightarrow> yields (f v) Q"
  shows "yields (\<lambda>s. bind_gen (g s) f) Q"
  unfolding yields_def
proof
  fix r
  obtain v r' where v: "g (Some r) = Gen v (Some r')" "P v" by (rule yieldsE [OF assms(1)])
  obtain w r'' where "f v (Some r') = Gen w (Some r'')" "Q w" by (rule yieldsE [OF assms(2) [OF v(2)]])
  then show "\<exists>w r''. bind_gen (g (Some r)) f = Gen w (Some r'') \<and> Q w" by (simp add: v(1))
qed

lemma yields_bind2:
  assumes "yields g P" and "yields h Q" and "\<And>v w. P v \<Longrightarrow> Q w \<Longrightarrow> R (f v w)"
  shows "yields (\<lambda>s. bind_gen (g s) (\<lambda>v s. bind_gen (h s) (\<lambda>w s. Gen (f v w) s))) R"
  by (rule yields_bind [OF assms(1)], rule yields_bind [OF assms(2)], rule yields_const)
    (rule assms(3))

lemma yields_repeat:
  assumes "yields g P"
  shows "yields (gen_repeat n g) (\<lambda>vs. length vs = n \<and> list_all P vs)"
proof (induction n)
  case 0
  show ?case by (simp add: yields_def)
next
  case (Suc n)
  have "yields (\<lambda>s. bind_gen (g s) (\<lambda>v s. bind_gen (gen_repeat n g s) (\<lambda>vs s. Gen (v # vs) s)))
    (\<lambda>vs. length vs = Suc n \<and> list_all P vs)"
    by (rule yields_bind2 [OF assms Suc.IH]) simp
  then show ?case by (simp add: yields_def)
qed

lemma matches_none: "(\<Sum>a\<leftarrow>ps. unat (fst a)) = 0 \<Longrightarrow> matches ps []"
  by (induction ps) auto

lemma yields_elements:
  assumes "list_all2 (\<lambda>(n, g) (m, P). n = m \<and> yields g P) es ps"
  shows "yields (gen_elements ((\<Sum>a\<leftarrow>es. unat (fst a))) es)
    (\<lambda>vs. length vs = (\<Sum>a\<leftarrow>es. unat (fst a)) \<and> matches ps vs)"
  using assms
proof (induction es ps rule: list_all2_induct)
  case Nil
  show ?case by (simp add: yields_def)
next
  case (Cons e es p ps)
  obtain n g P where e: "e = (n, g)" "p = (n, P)" "yields g P" using Cons.hyps(1) by (cases e; cases p) auto
  let ?m = "(\<Sum>a\<leftarrow>es. unat (fst a))"
  have same: "(\<Sum>a\<leftarrow>ps. unat (fst a)) = ?m"
    using Cons.hyps(2) by (induction rule: list_all2_induct) auto
  show ?case
  proof (cases "unat n + ?m = 0")
    case True
    then have "matches ps []" using matches_none [of ps] same by simp
    then show ?thesis using True e by (simp add: yields_def)
  next
    case False
    have "yields (\<lambda>s. bind_gen (gen_repeat (unat n) g s) (\<lambda>vs s. bind_gen (gen_elements ?m es s) (\<lambda>ws s. Gen (vs @ ws) s)))
      (\<lambda>vs. length vs = unat n + ?m \<and> matches (p # ps) vs)"
      by (rule yields_bind2 [OF yields_repeat [OF e(3)] Cons.IH]) (simp add: e)
    then show ?thesis using False e by (auto simp: yields_def)
  qed
qed

subsection \<open>Maps\<close>

lemma yields_key:
  assumes "yields g P"
  shows "yields (gen_key g m c) (\<lambda>(ko, c'). \<forall>k. ko = Some k \<longrightarrow> P k \<and> map_of m k = None)"
proof (induction "MAX_KEY_ENTRY_RETRIES - c" arbitrary: c rule: less_induct)
  case less
  show ?case
  proof (cases "c < MAX_KEY_ENTRY_RETRIES")
    case True
    have IH: "yields (gen_key g m (Suc c)) (\<lambda>(ko, c'). \<forall>k. ko = Some k \<longrightarrow> P k \<and> map_of m k = None)"
      by (rule less.hyps) (use True in simp)
    show ?thesis unfolding yields_def
    proof
      fix r
      obtain k r' where k: "g (Some r) = Gen k (Some r')" "P k" by (rule yieldsE [OF assms])
      show "\<exists>v r'. gen_key g m c (Some r) = Gen v (Some r') \<and> (case v of (ko, c') \<Rightarrow> \<forall>k. ko = Some k \<longrightarrow> P k \<and> map_of m k = None)"
      proof (cases "map_of m k = None")
        case True
        then show ?thesis using k \<open>c < _\<close> by (subst gen_key.simps) simp
      next
        case False
        then show ?thesis using k \<open>c < _\<close> IH by (subst gen_key.simps) (simp add: yields_def)
      qed
    qed
  next
    case False
    then show ?thesis by (subst gen_key.simps [abs_def]) (simp add: yields_def gen_key.simps)
  qed
qed

text \<open>Setting a key the map does not have adds one pair.\<close>

lemma set_new_key:
  assumes "om_ok om" and "distinct (map fst m)" and "map_of m k = None"
  shows "distinct (map fst (om m k v))" "length (om m k v) = Suc (length m)" "set (om m k v) = insert (k, v) (set m)"
proof -
  let ?m = "om m k v"
  have om: "distinct (map fst ?m)" "map_of ?m = (map_of m)(k \<mapsto> v)" using assms unfolding om_ok_def by blast+
  show "distinct (map fst ?m)" by (rule om(1))
  show s: "set ?m = insert (k, v) (set m)"
  proof (rule set_eqI, safe)
    fix a b
    assume "(a, b) \<in> set ?m" and ne: "(a, b) \<notin> set m"
    then have "map_of ?m a = Some b" using om(1) by (simp add: map_of_eq_Some_iff)
    then show "a = k" "b = v" using ne om(2) assms(2) by (auto simp: map_of_eq_Some_iff split: if_splits)
  next
    fix a b
    assume "(a, b) \<in> set m"
    then have "map_of m a = Some b" using assms(2) by (simp add: map_of_eq_Some_iff)
    then have "map_of ?m a = Some b" using om(2) assms(3) by auto
    then show "(a, b) \<in> set ?m" by (rule map_of_SomeD)
  next
    show "(k, v) \<in> set ?m" using om(2) by (intro map_of_SomeD) simp
  qed
  have "(k, v) \<notin> set m" using assms(3) by (auto simp: map_of_eq_None_iff image_iff)
  then show "length ?m = Suc (length m)"
    using s distinct_card [of ?m] distinct_card [of m] om(1) assms(2) by (simp add: distinct_map card_insert_if)
qed

lemma yields_entry:
  assumes om: "om_ok om" and k: "yields gk P" and v: "yields gv Q" and R: "\<And>a b. P a \<Longrightarrow> Q b \<Longrightarrow> R (a, b)"
    and m: "distinct (map fst m)" "list_all R m"
  shows "yields (gen_entry om gk gv n m c) (\<lambda>m'. distinct (map fst m') \<and> length m' \<le> length m + n \<and> list_all R m')"
  using m
proof (induction n arbitrary: m c)
  case 0
  then show ?case by (simp add: yields_def)
next
  case (Suc n)
  have "yields (\<lambda>s. bind_gen (gen_key gk m c s) (\<lambda>(ko, c) s. case ko of None \<Rightarrow> Gen m s | Some k \<Rightarrow>
      (case gv s of Gen v s' \<Rightarrow> gen_entry om gk gv n (om m k v) c s' | _ \<Rightarrow> Stuck)))
    (\<lambda>m'. distinct (map fst m') \<and> length m' \<le> length m + Suc n \<and> list_all R m')" (is "yields _ ?Q")
  proof (rule yields_bind [OF yields_key [OF k]])
    fix p :: "as_val option \<times> nat"
    assume p: "case p of (ko, c') \<Rightarrow> \<forall>k. ko = Some k \<longrightarrow> P k \<and> map_of m k = None"
    obtain ko c' where p': "p = (ko, c')" by fastforce
    then have ko: "\<forall>k. ko = Some k \<longrightarrow> P k \<and> map_of m k = None" using p by simp
    show "yields (case p of (ko, c) \<Rightarrow> \<lambda>s. case ko of None \<Rightarrow> Gen m s | Some k \<Rightarrow>
      (case gv s of Gen v s' \<Rightarrow> gen_entry om gk gv n (om m k v) c s' | _ \<Rightarrow> Stuck)) ?Q"
    proof (cases ko)
      case None
      then show ?thesis using Suc.prems p' by (simp add: yields_def)
    next
      case (Some k)
      then have k: "P k" "map_of m k = None" using ko by auto
      show ?thesis unfolding yields_def
      proof
        fix r
        obtain w r' where w: "gv (Some r) = Gen w (Some r')" "Q w" by (rule yieldsE [OF v])
        note new = set_new_key [OF om Suc.prems(1) k(2), of w]
        have "list_all R (om m k w)" using Suc.prems(2) R [OF k(1) w(2)] by (simp add: list_all_iff new(3))
        then show "\<exists>v r'. (case p of (ko, c) \<Rightarrow> \<lambda>s. case ko of None \<Rightarrow> Gen m s | Some k \<Rightarrow>
          (case gv s of Gen v s' \<Rightarrow> gen_entry om gk gv n (om m k v) c s' | _ \<Rightarrow> Stuck)) (Some r) = Gen v (Some r') \<and> ?Q v"
          using Suc.IH [of "om m k w" c'] new w Some p' by (simp add: yields_def)
      qed
    qed
  qed
  then show ?case by simp
qed

lemma yields_entries:
  assumes om: "om_ok om"
    and es: "list_all (\<lambda>(n, gk, gv). \<exists>P Q. yields gk P \<and> yields gv Q \<and> (\<forall>a b. P a \<longrightarrow> Q b \<longrightarrow> R (a, b))) es"
    and m: "distinct (map fst m)" "list_all R m"
  shows "yields (gen_entries om es m)
    (\<lambda>m'. distinct (map fst m') \<and> length m' \<le> length m + (\<Sum>a\<leftarrow>es. unat (fst a)) \<and> list_all R m')"
  using es m
proof (induction es arbitrary: m)
  case Nil
  then show ?case by (simp add: yields_def)
next
  case (Cons e es)
  obtain n gk gv P Q where e: "e = (n, gk, gv)" "yields gk P" "yields gv Q" "\<And>a b. P a \<Longrightarrow> Q b \<Longrightarrow> R (a, b)"
    using Cons.prems(1) by (cases e) auto
  have "yields (\<lambda>s. bind_gen (gen_entry om gk gv (unat n) m 0 s) (\<lambda>m s. gen_entries om es m s))
    (\<lambda>m'. distinct (map fst m') \<and> length m' \<le> length m + (\<Sum>a\<leftarrow>(e # es). unat (fst a)) \<and> list_all R m')"
  proof (rule yields_bind [OF yields_entry [OF om e(2,3,4) Cons.prems(2,3)]])
    fix m'
    assume m': "distinct (map fst m') \<and> length m' \<le> length m + unat n \<and> list_all R m'"
    have "yields (gen_entries om es m')
      (\<lambda>w. distinct (map fst w) \<and> length w \<le> length m' + (\<Sum>a\<leftarrow>es. unat (fst a)) \<and> list_all R w)"
      using Cons.IH [of m'] Cons.prems(1) m' by simp
    then show "yields (gen_entries om es m')
      (\<lambda>w. distinct (map fst w) \<and> length w \<le> length m + (\<Sum>a\<leftarrow>(e # es). unat (fst a)) \<and> list_all R w)"
      by (rule yields_mono) (use m' in \<open>simp add: e(1)\<close>)
  qed
  then show ?case by (simp add: e(1))
qed

section \<open>Every generated value conforms\<close>

lemma list_kind_ok:
  assumes "\<And>e. e \<in> set es \<Longrightarrow> yields (bin_spec_random_val om rng ratio e) (conf_spec e)"
    and "unat len = (\<Sum>e\<leftarrow>es. unat (n_repeats e))"
  shows "yields (bin_kind_random_val om rng ratio (K_list len es)) (conf_kind (K_list len es))"
proof -
  let ?gs = "zip (map n_repeats es) (map (bin_spec_random_val om rng ratio) es)"
  let ?ps = "zip (map n_repeats es) (map conf_spec es)"
  have "list_all2 (\<lambda>(n, g) (m, P). n = m \<and> yields g P) ?gs ?ps"
    using assms(1) by (simp add: list_all2_conv_all_nth)
  moreover have "(\<Sum>a\<leftarrow>?gs. unat (fst a)) = unat len"
  proof -
    have "map (\<lambda>a. unat (fst a)) ?gs = map (\<lambda>e. unat (n_repeats e)) es" by (rule nth_equalityI) auto
    then show ?thesis by (simp add: assms(2))
  qed
  ultimately have "yields (gen_elements (unat len) ?gs) (\<lambda>vs. length vs = unat len \<and> matches ?ps vs)"
    using yields_elements [of ?gs ?ps] by simp
  then have "yields (gen_random_list len ?gs) (conf_kind (K_list len es))"
    unfolding gen_random_list_def [abs_def]
    by (rule yields_bind) (rule yields_const, simp)
  then show ?thesis by simp
qed

lemma map_kind_ok:
  assumes om: "om_ok om" and parts: "\<And>kv. kv \<in> set kvs \<Longrightarrow> yields (bin_spec_random_val om rng ratio (key_spec kv)) (conf_spec (key_spec kv)) \<and>
      yields (bin_spec_random_val om rng ratio (val_spec kv)) (conf_spec (val_spec kv))"
    and len: "unat len = (\<Sum>kv\<leftarrow>kvs. key_repeats kv)"
  shows "yields (bin_kind_random_val om rng ratio (K_map len kvs)) (conf_kind (K_map len kvs))"
proof -
  let ?gs = "map (kv_generators om rng ratio) kvs"
  let ?R = "\<lambda>kv. list_ex (\<lambda>p. p kv) (map conf_kv kvs)"
  have "list_all (\<lambda>(n, gk, gv). \<exists>P Q. yields gk P \<and> yields gv Q \<and> (\<forall>a b. P a \<longrightarrow> Q b \<longrightarrow> ?R (a, b))) ?gs"
    unfolding list_all_iff
  proof (rule ballI, clarify)
    fix n gk gv
    assume "(n, gk, gv) \<in> set ?gs"
    then obtain kv where kv: "kv \<in> set kvs" "kv_generators om rng ratio kv = (n, gk, gv)" by auto
    obtain k v where "kv = Kv k v" by (cases kv)
    then have in_kvs: "Kv k v \<in> set kvs" and g: "gk = bin_spec_random_val om rng ratio k" "gv = bin_spec_random_val om rng ratio v"
      using kv by auto
    have "?R (a, b)" if "conf_spec k a" "conf_spec v b" for a b
      using in_kvs that by (force simp: list_ex_iff)
    moreover have "yields gk (conf_spec k)" "yields gv (conf_spec v)" using parts [OF in_kvs] by (simp_all add: g)
    ultimately show "\<exists>P Q. yields gk P \<and> yields gv Q \<and> (\<forall>a b. P a \<longrightarrow> Q b \<longrightarrow> ?R (a, b))" by blast
  qed
  moreover have "(\<Sum>a\<leftarrow>?gs. unat (fst a)) = unat len"
  proof -
    have "unat (fst (kv_generators om rng ratio kv)) = key_repeats kv" for kv by (cases kv) (simp add: key_repeats_def)
    then show ?thesis by (simp add: len comp_def)
  qed
  ultimately have "yields (gen_entries om ?gs []) (\<lambda>m. distinct (map fst m) \<and> length m \<le> unat len \<and> list_all ?R m)"
    using yields_entries [OF om, of ?R ?gs "[]"] by simp
  then have "yields (gen_random_map om ?gs) (conf_kind (K_map len kvs))"
    unfolding gen_random_map_def [abs_def]
    by (rule yields_bind) (rule yields_const, simp)
  then show ?thesis by simp
qed

lemma random_val_ok:
  assumes om: "om_ok om" and rng: "rng_ok rng" and ratio: "ratio_ok ratio"
  shows "wf_spec b \<Longrightarrow> bytes_ok_spec b \<Longrightarrow> yields (bin_spec_random_val om rng ratio b) (conf_spec b)"
    and "wf_kind k \<Longrightarrow> bytes_ok_kind k \<Longrightarrow> yields (bin_kind_random_val om rng ratio k) (conf_kind k)"
    and "wf_kv kv \<Longrightarrow> bytes_ok_kv kv \<Longrightarrow>
      yields (bin_spec_random_val om rng ratio (key_spec kv)) (conf_spec (key_spec kv)) \<and>
      yields (bin_spec_random_val om rng ratio (val_spec kv)) (conf_spec (val_spec kv))"
proof (induction b and k and kv)
  case (K_list len es)
  then show ?case by (intro list_kind_ok) (simp_all add: list_all_iff comp_def)
next
  case (K_map len kvs)
  then show ?case by (intro map_kind_ok [OF om]) (simp_all add: list_all_iff)
next
  case (K_int rg)
  then show ?case using int_ok [OF rng] by simp
next
  case (K_bytes len)
  then show ?case using bytes_ok [OF rng ratio] by simp
next
  case (K_str len)
  then show ?case using str_ok [OF rng] by simp
qed (use bool_ok double_ok in \<open>simp_all add: yields_const\<close>)


text \<open>A generator that counts, an ordered map that appends, and a map from two integers to lists.\<close>

definition example_rng :: "u64 as_random" where
  "example_rng =
     \<lparr> next_uint32 = (\<lambda>r. (ucast r, r + 1)), next_uint64 = (\<lambda>r. (max (2 ^ 63) r, r + 1)),
       next_bytes = (\<lambda>n r. (replicate n 7, r + 1)) \<rparr>"

definition example_om :: om_setter where
  "example_om m k v = AList.update k v m"

definition example_spec :: bin_spec where
  "example_spec =
     Bin 1 (K_map 2 [Kv (Bin 2 (K_int 1)) (Bin 1 (K_list 3 [Bin 2 (K_str 30), Bin 1 (K_bytes 100)]))])"

lemma example_ok: "wf_spec example_spec" "bytes_ok_spec example_spec" "om_ok example_om" "rng_ok example_rng" "ratio_ok (Fin 1)"
proof -
  show "wf_spec example_spec" "bytes_ok_spec example_spec" "ratio_ok (Fin 1)"
    by (simp_all add: example_spec_def key_repeats_def ratio_ok_def)
  show "om_ok example_om" by (simp add: om_ok_def example_om_def distinct_update update_conv')
  have "2 ^ 63 \<le> draw (next_uint64 example_rng) r 0" for r
    by (simp add: example_rng_def)
  then show "rng_ok example_rng" unfolding rng_ok_def by (intro conjI allI exI [of _ 0]) (simp_all add: example_rng_def)
qed


section \<open>Long byte arrays\<close>

text \<open>
  A byte array of 16777219 bytes with the compression ratio 1 is not generated: the length is
  rounded to 16777220 in single precision, and one byte more than the buffer holds is written.
\<close>

theorem long_bytes_overflow: "gen_random_bytes rng 16777219 (Fin 1) r = Stuck"
proof -
  have fl: "\<lfloor>16777219 / 2 :: rat\<rfloor> = 8388609" by (rule floor_unique) simp_all
  have "bit_length (nat \<lfloor>16777219 * 2 ^ 149 :: rat\<rfloor>) = 174"
    using bit_length_eqI [of 173 "nat \<lfloor>16777219 * 2 ^ 149 :: rat\<rfloor>"] by simp
  then have "fp_bits 24 149 16777219 = 150 * 2 ^ 23 + 8388610"
    by (simp add: fp_bits_def Let_def round_even_def fl)
  then have l: "f_of_nat 16777219 = Fin 16777220"
    by (simp add: f_of_nat_def to_float_def fp_round_def fp_mag_def Let_def)
  have "is_float (of_nat 8388610 * 2 ^ 150 / 2 ^ 149)" by (rule is_float_intro) simp_all
  then have "to_float 16777220 = Fin 16777220" by (intro to_float_exact) simp
  then have "fp_to_unsigned 32 (f_mul (Fin 1) (f_of_nat 16777219)) = Some 16777220"
    by (simp add: l fp_to_unsigned_def)
  then show ?thesis by (simp add: gen_random_bytes_def)
qed

end
