(* ===== verification/Obj_Parse.thy ===== *)
theory Obj_Parse
  imports Bin_Conform
begin

text \<open>
  The parser of object specifications (\<^verbatim>\<open>_parse_bin_types\<close>, \<^verbatim>\<open>_parse_const_val\<close> and
  \<^verbatim>\<open>obj_spec_parse\<close> of \<^verbatim>\<open>object_spec.c\<close>) as the machine it is: a stack of consumer states, the innermost
  collection first, and the rest of the string; one step is one pass of the \<^verbatim>\<open>for (;;)\<close> loop.  An error
  carries its message and the place it is reported at; a place in the string is what is left from there.

  A collection all of whose parts are constant is turned into a value by \<^verbatim>\<open>bin_spec_random_val\<close> without a
  random generator.  What would dereference the missing generator is the outcome \<open>Crash\<close>.
\<close>

section \<open>Outcomes\<close>

datatype parse_msg =
    Dangling_comma | Map_value_empty | Map_value_multiplier | Multiplier_zero | Multiplier_too_large
  | Key_boolean | Key_double | Key_list | Key_map | Key_const_multiplier | Key_repeated
  | String_no_number | String_length | Bytes_no_number | Bytes_length
  | List_too_long | List_separator | Map_too_long | Map_colon | Map_end
  | Invalid_float | Invalid_integer | Expect_specifier

datatype 'a parse = Parsed 'a | Parse_error parse_msg string | Crash

fun bind_parse :: "'a parse \<Rightarrow> ('a \<Rightarrow> 'b parse) \<Rightarrow> 'b parse" where
  "bind_parse (Parsed a) f = f a"
| "bind_parse (Parse_error m loc) f = Parse_error m loc"
| "bind_parse Crash f = Crash"

section \<open>Consumer states\<close>

text \<open>
  What a state has built: the bin specifications of a list, or the pairs of a map together with what
  the map expects next (\<^verbatim>\<open>MAP_KEY\<close>, \<^verbatim>\<open>MAP_VAL\<close> with the key already read, \<^verbatim>\<open>MAP_DONE\<close>).
\<close>

datatype building =
    List_of "bin_spec list"
  | Map_key "kv_pair list"
  | Map_val "kv_pair list" bin_spec
  | Map_done "kv_pair list"

text \<open>
  \<open>target\<close> stands for the pointer to the bin specification a collection becomes, of which only the
  repetitions are set so far; the root has none.
\<close>

record consumer_state =
  delimiter :: char
  is_const :: bool
  target :: "u32 option"
  built :: building
  list_len :: u32

definition begin_state :: consumer_state where
  "begin_state = \<lparr> delimiter = NUL, is_const = False, target = None, built = List_of [], list_len = 0 \<rparr>"

definition list_state :: "u32 \<Rightarrow> consumer_state" where
  "list_state n = \<lparr> delimiter = CHR '']'', is_const = True, target = Some n, built = List_of [], list_len = 0 \<rparr>"

definition map_state :: "u32 \<Rightarrow> consumer_state" where
  "map_state n = \<lparr> delimiter = CHR ''}'', is_const = True, target = Some n, built = Map_key [], list_len = 0 \<rparr>"

definition expects_key :: "consumer_state \<Rightarrow> bool" where
  "expects_key st = (case built st of Map_key kvs \<Rightarrow> True | _ \<Rightarrow> False)"

definition expects_val :: "consumer_state \<Rightarrow> bool" where
  "expects_val st = (case built st of Map_val kvs k \<Rightarrow> True | _ \<Rightarrow> False)"

definition skip_space :: "string \<Rightarrow> string" where
  "skip_space s = (if peek s = CHR '' '' then tl s else s)"

section \<open>Constant values\<close>

definition parse_bool_const :: "consumer_state \<Rightarrow> bool \<Rightarrow> string \<Rightarrow> nat \<Rightarrow> (bin_kind \<times> string) parse" where
  "parse_bool_const st b str n =
     (if expects_key st then Parse_error Key_boolean str else Parsed (C_bool b, drop n str))"

definition parse_number :: "consumer_state \<Rightarrow> string \<Rightarrow> (bin_kind \<times> string) parse" where
  "parse_number st str =
     (let upto = min (length (before_char (CHR '','') str)) (length (before_char (delimiter st) str))
      in if CHR ''.'' \<in> set (take upto str) then
           let (val, endptr, err) = strtod str
           in if err \<or> endptr = str then Parse_error Invalid_float str
              else if expects_key st then Parse_error Key_double str
              else Parsed (C_double val, if peek endptr = CHR ''f'' then tl endptr else endptr)
         else
           let (val, endptr, err) =
                 (if peek str = CHR ''0'' \<and> (char_at str 1 = CHR ''x'' \<or> char_at str 1 = CHR ''X'')
                  then strtoul str 16 else strtol str 10)
           in if err \<or> endptr = str then Parse_error Invalid_integer str
              else Parsed (C_int val, endptr))"

definition parse_const_val :: "consumer_state \<Rightarrow> string \<Rightarrow> (bin_kind \<times> string) parse" where
  "parse_const_val st str =
     (let c = peek str
      in if c = CHR ''T'' \<and> \<not> isalpha (char_at str 1) then parse_bool_const st True str 1
         else if c = CHR ''T'' \<or> c = CHR ''t'' then
           if strncaseeq str ''true'' 4 \<and> \<not> isalpha (char_at str 4) then parse_bool_const st True str 4
           else Parse_error Expect_specifier str
         else if c = CHR ''F'' \<and> \<not> isalpha (char_at str 1) then parse_bool_const st False str 1
         else if c = CHR ''F'' \<or> c = CHR ''f'' then
           if strncaseeq str ''false'' 5 \<and> \<not> isalpha (char_at str 5) then parse_bool_const st False str 5
           else Parse_error Expect_specifier str
         else if c = CHR 0x22 then
           case parse_string_literal str of
             Inl _ \<Rightarrow> Parse_error Expect_specifier str
           | Inr (s, endptr) \<Rightarrow> Parsed (C_str (cstr s), endptr)
         else parse_number st str)"

text \<open>Whether a constant key occurs among the pairs of a map.\<close>

definition double_eq :: "u64 \<Rightarrow> u64 \<Rightarrow> bool" where
  "double_eq a b \<longleftrightarrow>
     (let mag = \<lambda>d. d AND 0x7fffffffffffffff; inf = 0x7ff0000000000000 :: u64
      in mag a \<le> inf \<and> mag b \<le> inf \<and> (a = b \<or> mag a = 0 \<and> mag b = 0))"

fun same_const :: "bin_kind \<Rightarrow> bin_kind \<Rightarrow> bool" where
  "same_const (C_bool a) (C_bool b) \<longleftrightarrow> a = b"
| "same_const (C_int a) (C_int b) \<longleftrightarrow> a = b"
| "same_const (C_str a) (C_str b) \<longleftrightarrow> a = b"
| "same_const (C_double a) (C_double b) \<longleftrightarrow> double_eq a b"
| "same_const _ _ \<longleftrightarrow> False"

definition map_repeat_const_key :: "consumer_state \<Rightarrow> bin_kind \<Rightarrow> bool" where
  "map_repeat_const_key st k =
     (case built st of
        Map_key kvs \<Rightarrow> list_ex (\<lambda>kv. same_const (kind (key_spec kv)) k) kvs
      | _ \<Rightarrow> False)"

section \<open>One bin type\<close>

text \<open>The multiplier before a bin type and where the type begins.\<close>

definition parse_mult :: "consumer_state \<Rightarrow> string \<Rightarrow> (u64 \<times> string) parse" where
  "parse_mult st str =
     (let (mult, endptr, err) = strtoul str 10
      in if \<not> err \<and> isdigit (peek str) then
           let e = skip_space endptr
           in if peek e = CHR ''*'' then
                if expects_val st \<and> mult \<noteq> 1 then Parse_error Map_value_multiplier str
                else if mult = 0 then Parse_error Multiplier_zero str
                else if ucast (ucast mult :: u32) \<noteq> mult then Parse_error Multiplier_too_large str
                else Parsed (mult, skip_space (tl e))
              else Parsed (1, str)
         else Parsed (1, str))"

text \<open>What a bin type is: a scalar or constant with what follows it, or the start of a collection.\<close>

datatype item = Scalar bin_kind bool string | Open_list string | Open_map string

definition parse_int_type :: "string \<Rightarrow> bin_kind \<times> string" where
  "parse_int_type str =
     (let next_char = of_nat (cc (char_at str 1)) - 49 :: u8
      in if next_char > 7 then (K_int 3, tl str) else (K_int next_char, drop 2 str))"

definition parse_length :: "parse_msg \<Rightarrow> parse_msg \<Rightarrow> string \<Rightarrow> (u32 \<times> string) parse" where
  "parse_length no_number too_long str =
     (let (len, endptr, err) = strtoul (tl str) 10
      in if endptr = tl str then Parse_error no_number (tl str)
         else if len \<noteq> ucast (ucast len :: u32) then Parse_error too_long (tl str)
         else Parsed (ucast len, endptr))"

definition parse_const_item :: "consumer_state \<Rightarrow> u64 \<Rightarrow> string \<Rightarrow> item parse" where
  "parse_const_item st mult str =
     bind_parse (parse_const_val st str) (\<lambda>(k, str').
       if expects_key st \<and> mult \<noteq> 1 then Parse_error Key_const_multiplier str
       else if expects_key st \<and> map_repeat_const_key st k then Parse_error Key_repeated str
       else Parsed (Scalar k True str'))"

definition parse_type :: "consumer_state \<Rightarrow> u64 \<Rightarrow> string \<Rightarrow> item parse" where
  "parse_type st mult str =
     (let c = peek str
      in if c = CHR ''b'' then
           if expects_key st then Parse_error Key_boolean str else Parsed (Scalar K_bool False (tl str))
         else if c = CHR ''I'' then (let (k, str') = parse_int_type str in Parsed (Scalar k False str'))
         else if c = CHR ''S'' then
           bind_parse (parse_length String_no_number String_length str) (\<lambda>(len, str'). Parsed (Scalar (K_str len) False str'))
         else if c = CHR ''B'' then
           bind_parse (parse_length Bytes_no_number Bytes_length str) (\<lambda>(len, str'). Parsed (Scalar (K_bytes len) False str'))
         else if c = CHR ''D'' then
           if expects_key st then Parse_error Key_double str else Parsed (Scalar K_double False (tl str))
         else if c = CHR ''['' then
           if expects_key st then Parse_error Key_list str else Parsed (Open_list (skip_space (tl str)))
         else if c = CHR ''{'' then
           if expects_key st then Parse_error Key_map str else Parsed (Open_map (skip_space (tl str)))
         else parse_const_item st mult str)"

section \<open>After a bin specification\<close>

text \<open>
  The switch at the end of the loop: the specification is counted, the separator is read, and a map
  goes to its next state.
\<close>

definition add_to_list :: "consumer_state \<Rightarrow> bin_spec list \<Rightarrow> bin_spec \<Rightarrow> string \<Rightarrow> (consumer_state \<times> string) parse" where
  "add_to_list st bs b str =
     (let len = list_len st + n_repeats b;
          st' = st\<lparr> built := List_of (bs @ [b]), list_len := len \<rparr>
      in if len < n_repeats b then Parse_error List_too_long str
         else if peek str = CHR '','' then Parsed (st', skip_space (tl str))
         else let str' = skip_space str
              in if peek str' \<noteq> delimiter st then Parse_error List_separator str' else Parsed (st', str'))"

definition add_key :: "consumer_state \<Rightarrow> kv_pair list \<Rightarrow> bin_spec \<Rightarrow> string \<Rightarrow> (consumer_state \<times> string) parse" where
  "add_key st kvs k str =
     (let len = list_len st + n_repeats k;
          str' = skip_space str
      in if len < n_repeats k then Parse_error Map_too_long str
         else if peek str' \<noteq> CHR '':'' then Parse_error Map_colon str'
         else Parsed (st\<lparr> built := Map_val kvs k, list_len := len \<rparr>, skip_space (tl str')))"

definition add_val :: "consumer_state \<Rightarrow> kv_pair list \<Rightarrow> bin_spec \<Rightarrow> bin_spec \<Rightarrow> string \<Rightarrow> (consumer_state \<times> string) parse" where
  "add_val st kvs k v str =
     (let str' = skip_space str
      in if peek str' = CHR '','' then
           Parsed (st\<lparr> built := Map_key (kvs @ [Kv k v]) \<rparr>, skip_space (tl str'))
         else if peek str' \<noteq> delimiter st then Parse_error Map_end str'
         else Parsed (st\<lparr> built := Map_done (kvs @ [Kv k v]) \<rparr>, str'))"

definition advance :: "consumer_state \<Rightarrow> bin_spec \<Rightarrow> string \<Rightarrow> (consumer_state \<times> string) parse" where
  "advance st b str =
     (case built st of
        List_of bs \<Rightarrow> add_to_list st bs b str
      | Map_key kvs \<Rightarrow> add_key st kvs b str
      | Map_val kvs k \<Rightarrow> add_val st kvs k b str
      | Map_done kvs \<Rightarrow> Crash)"

section \<open>Closing a collection\<close>

text \<open>\<^verbatim>\<open>_as_val_copy\<close>, which has no case for byte arrays.\<close>

definition merge_map :: "om_setter \<Rightarrow> (as_val \<times> as_val) list \<Rightarrow> (as_val \<times> as_val) list" where
  "merge_map om m = foldl (\<lambda>acc (k, v). om acc k v) [] m"

fun as_val_copy :: "om_setter \<Rightarrow> as_val \<Rightarrow> as_val option" where
  "as_val_copy om (As_bytes bs) = None"
| "as_val_copy om (As_map m) = Some (As_map (merge_map om m))"
| "as_val_copy om v = Some v"

definition copy_pair :: "om_setter \<Rightarrow> as_val \<times> as_val \<Rightarrow> (as_val \<times> as_val) option" where
  "copy_pair om kv =
     (case (as_val_copy om (fst kv), as_val_copy om (snd kv)) of
        (Some k, Some v) \<Rightarrow> Some (k, v)
      | _ \<Rightarrow> None)"

text \<open>A value drawn with a NULL generator.\<close>

definition null_random :: "unit as_random" where
  "null_random = \<lparr> next_uint32 = (\<lambda>r. (0, r)), next_uint64 = (\<lambda>r. (0, r)), next_bytes = (\<lambda>n r. ([], r)) \<rparr>"

definition const_val :: "om_setter \<Rightarrow> bin_kind \<Rightarrow> as_val option" where
  "const_val om k =
     (case bin_kind_random_val om null_random (Fin 1) k None of Gen v _ \<Rightarrow> Some v | _ \<Rightarrow> None)"

definition const_list :: "om_setter \<Rightarrow> bin_kind \<Rightarrow> bin_kind parse" where
  "const_list om k =
     (case const_val om k of
        Some (As_list vs) \<Rightarrow>
          (case those (map (as_val_copy om) vs) of Some vs' \<Rightarrow> Parsed (C_list vs') | None \<Rightarrow> Crash)
      | _ \<Rightarrow> Crash)"

definition const_map :: "om_setter \<Rightarrow> bin_kind \<Rightarrow> bin_kind parse" where
  "const_map om k =
     (case const_val om k of
        Some (As_map m) \<Rightarrow>
          (case those (map (copy_pair om) m) of Some m' \<Rightarrow> Parsed (C_map (merge_map om m')) | None \<Rightarrow> Crash)
      | _ \<Rightarrow> Crash)"

definition close_collection :: "om_setter \<Rightarrow> consumer_state \<Rightarrow> string \<Rightarrow> bin_kind parse" where
  "close_collection om st str =
     (case built st of
        List_of bs \<Rightarrow>
          let k = K_list (list_len st) bs in if is_const st then const_list om k else Parsed k
      | Map_key kvs \<Rightarrow>
          if kvs = [] then let k = K_map 0 [] in if is_const st then const_map om k else Parsed k
          else Parse_error Dangling_comma str
      | Map_val kvs key \<Rightarrow> Parse_error Map_value_empty str
      | Map_done kvs \<Rightarrow>
          let k = K_map (list_len st) kvs in if is_const st then const_map om k else Parsed k)"

section \<open>The loop\<close>

datatype loop_pass = Next "consumer_state list" string | Finish "bin_spec list" u32

text \<open>
  One pass.  The stack is never empty and only its last state is the root; a map that is done is
  followed by its delimiter, and the root is a list.  What the source rules out as unreachable, and
  moving past the terminator of the string, is a crash here.
\<close>

definition finish_state :: "om_setter \<Rightarrow> consumer_state \<Rightarrow> consumer_state list \<Rightarrow> string \<Rightarrow> loop_pass parse" where
  "finish_state om st stack str =
     (case (target st, stack) of
        (None, _) \<Rightarrow> (case built st of List_of bs \<Rightarrow> Parsed (Finish bs (list_len st)) | _ \<Rightarrow> Crash)
      | (Some n, parent # stack') \<Rightarrow>
          if str = [] then Crash
          else bind_parse (close_collection om st str) (\<lambda>k.
               bind_parse (advance (parent\<lparr> is_const := is_const st \<and> is_const parent \<rparr>) (Bin n k) (tl str)) (\<lambda>(parent', str').
                 Parsed (Next (parent' # stack') str')))
      | _ \<Rightarrow> Crash)"

definition consume_item :: "consumer_state \<Rightarrow> consumer_state list \<Rightarrow> string \<Rightarrow> loop_pass parse" where
  "consume_item st stack str =
     bind_parse (parse_mult st str) (\<lambda>(mult, str).
     bind_parse (parse_type st mult str) (\<lambda>it.
       case it of
         Open_list str' \<Rightarrow> Parsed (Next (list_state (ucast mult) # st # stack) str')
       | Open_map str' \<Rightarrow> Parsed (Next (map_state (ucast mult) # st # stack) str')
       | Scalar k c str' \<Rightarrow>
           bind_parse (advance (st\<lparr> is_const := c \<and> is_const st \<rparr>) (Bin (ucast mult) k) str') (\<lambda>(st', str').
             Parsed (Next (st' # stack) str'))))"

fun parse_step :: "om_setter \<Rightarrow> consumer_state list \<Rightarrow> string \<Rightarrow> loop_pass parse" where
  "parse_step om [] str = Crash"
| "parse_step om (st # stack) str =
     (if peek str = delimiter st then finish_state om st stack str else consume_item st stack str)"

text \<open>Every pass that goes on has consumed something.\<close>

lemma length_skip_space: "length (skip_space s) \<le> length s"
  by (simp add: skip_space_def)

lemma peek_nonempty: "peek s = c \<Longrightarrow> c \<noteq> NUL \<Longrightarrow> s \<noteq> []"
  by (cases s) auto

lemma parse_string_literal_progress: "parse_string_literal s = Inr (v, r) \<Longrightarrow> length r < length s"
  by (cases s) (auto simp: parse_string_literal_def less_Suc_eq_le split: if_splits sum.splits dest!: scan_literal_length)

lemma parse_number_progress: "parse_number st s = Parsed (k, r) \<Longrightarrow> length r < length s"
  by (auto simp: parse_number_def Let_def split: if_splits prod.splits
      dest: strtod_progress strtoul_progress strtol_progress intro: le_less_trans [of _ "length _ - 1"])

lemma parse_const_val_progress: "parse_const_val st s = Parsed (k, r) \<Longrightarrow> length r < length s"
proof (cases s)
  case Nil
  assume "parse_const_val st s = Parsed (k, r)"
  then show ?thesis using Nil parse_number_progress [of st s k r] by (simp add: parse_const_val_def)
next
  case (Cons c t)
  assume "parse_const_val st s = Parsed (k, r)"
  then show ?thesis
    using Cons parse_number_progress [of st s k r]
    by (auto simp: parse_const_val_def parse_bool_const_def split: if_splits sum.splits dest: parse_string_literal_progress)
qed

lemma parse_mult_length: "parse_mult st s = Parsed (m, r) \<Longrightarrow> length r \<le> length s"
proof -
  obtain v e err where s: "strtoul s 10 = (v, e, err)" by (cases "strtoul s 10")
  have "length (skip_space (tl (skip_space e))) \<le> length s"
    using strtoul_length [OF s] length_skip_space [of "tl (skip_space e)"] length_skip_space [of e]
    by (simp add: le_diff_conv)
  then show "parse_mult st s = Parsed (m, r) \<Longrightarrow> length r \<le> length s"
    using s by (auto simp: parse_mult_def Let_def split: if_splits)
qed

fun item_rest :: "item \<Rightarrow> string" where
  "item_rest (Scalar k c r) = r"
| "item_rest (Open_list r) = r"
| "item_rest (Open_map r) = r"

lemma parse_length_progress: "parse_length a b s = Parsed (n, r) \<Longrightarrow> s \<noteq> [] \<Longrightarrow> length r < length s"
proof -
  obtain v e err where "strtoul (tl s) 10 = (v, e, err)" by (cases "strtoul (tl s) 10")
  moreover have "length (tl s) \<le> length s" by simp
  ultimately show "parse_length a b s = Parsed (n, r) \<Longrightarrow> s \<noteq> [] \<Longrightarrow> length r < length s"
    using strtoul_progress [of "tl s" 10 v e err] by (auto simp: parse_length_def Let_def split: if_splits)
qed

lemma parsed_bind: "bind_parse p f = Parsed b \<longleftrightarrow> (\<exists>a. p = Parsed a \<and> f a = Parsed b)"
  by (cases p) auto

lemma parse_type_progress:
  assumes "parse_type st mult s = Parsed it"
  shows "length (item_rest it) < length s"
proof (cases "s = []")
  case True
  then show ?thesis
    using assms parse_const_val_progress [of st s]
    by (auto simp: parse_type_def Let_def parse_const_item_def parsed_bind split: if_splits)
next
  case False
  then have l: "length (skip_space (tl s)) < length s" using length_skip_space [of "tl s"] by (cases s) auto
  have "length (snd (parse_int_type s)) < length s" using False by (cases s) (auto simp: parse_int_type_def Let_def)
  then show ?thesis
    using False assms l parse_const_val_progress [of st s]
    by (auto simp: parse_type_def Let_def parse_const_item_def parsed_bind split: if_splits prod.splits dest: parse_length_progress)
qed

lemma advance_length: "advance st b s = Parsed (st', r) \<Longrightarrow> length r \<le> length s"
proof -
  have 1: "length (skip_space (tl s)) \<le> length s" "length (skip_space (tl (skip_space s))) \<le> length s"
    using length_skip_space [of "tl s"] length_skip_space [of "tl (skip_space s)"] length_skip_space [of s] by auto
  then show "advance st b s = Parsed (st', r) \<Longrightarrow> length r \<le> length s"
    using length_skip_space [of s]
    by (auto simp: advance_def add_to_list_def add_key_def add_val_def Let_def split: building.splits if_splits)
qed

lemma parse_step_progress:
  assumes "parse_step om stack s = Parsed (Next stack' s')"
  shows "length s' < length s"
proof -
  obtain st stack0 where st: "stack = st # stack0" using assms by (cases stack) auto
  show ?thesis
  proof (cases "peek s = delimiter st")
    case True
    then have f: "finish_state om st stack0 s = Parsed (Next stack' s')" using assms st by simp
    then obtain n parent stack1 where t: "target st = Some n" "stack0 = parent # stack1"
      by (auto simp: finish_state_def split: option.splits list.splits building.splits)
    then have "s \<noteq> []" using f by (auto simp: finish_state_def)
    then show ?thesis
      using f t by (cases s) (auto simp: finish_state_def parsed_bind split: if_splits dest!: advance_length)
  next
    case False
    then have "consume_item st stack0 s = Parsed (Next stack' s')" using assms st by simp
    then obtain m r it where it: "parse_mult st s = Parsed (m, r)" "parse_type st m r = Parsed it"
      "(case it of
         Open_list str' \<Rightarrow> Parsed (Next (list_state (ucast m) # st # stack0) str')
       | Open_map str' \<Rightarrow> Parsed (Next (map_state (ucast m) # st # stack0) str')
       | Scalar k c str' \<Rightarrow>
           bind_parse (advance (st\<lparr> is_const := c \<and> is_const st \<rparr>) (Bin (ucast m) k) str') (\<lambda>(st', str').
             Parsed (Next (st' # stack0) str'))) = Parsed (Next stack' s')"
      by (auto simp: consume_item_def parsed_bind)
    then have "length s' \<le> length (item_rest it)" by (cases it) (auto simp: parsed_bind dest!: advance_length)
    then show ?thesis using parse_mult_length [OF it(1)] parse_type_progress [OF it(2)] by simp
  qed
qed

function parse_loop :: "om_setter \<Rightarrow> consumer_state list \<Rightarrow> string \<Rightarrow> (bin_spec list \<times> u32) parse" where
  "parse_loop om stack str =
     (case parse_step om stack str of
        Parsed (Next stack' str') \<Rightarrow> parse_loop om stack' str'
      | Parsed (Finish bs n) \<Rightarrow> Parsed (bs, n)
      | Parse_error m loc \<Rightarrow> Parse_error m loc
      | Crash \<Rightarrow> Crash)"
  by pat_completeness auto

termination
  by (relation "measure (\<lambda>(om, stack, str). length str)") (auto dest: parse_step_progress)

declare parse_loop.simps [simp del]

definition parse_bin_types :: "om_setter \<Rightarrow> string \<Rightarrow> (bin_spec list \<times> u32) parse" where
  "parse_bin_types om str = parse_loop om [begin_state] str"

section \<open>Object specifications\<close>

text \<open>
  \<^verbatim>\<open>obj_spec_parse\<close> on the bytes of a buffer: what the specification becomes, and the error when there is
  one, after which only the \<^verbatim>\<open>valid\<close> field of the specification is written.
\<close>

definition obj_spec_parse :: "om_setter \<Rightarrow> obj_spec \<Rightarrow> string \<Rightarrow> obj_spec parse \<times> obj_spec" where
  "obj_spec_parse om base buf =
     (case parse_bin_types om (cstr buf) of
        Parsed (bs, n) \<Rightarrow>
          let o1 = \<lparr> bin_specs = bs, n_bin_specs = n, valid = True \<rparr> in (Parsed o1, o1)
      | Parse_error m loc \<Rightarrow> (Parse_error m loc, base\<lparr> valid := False \<rparr>)
      | Crash \<Rightarrow> (Crash, base))"

definition obj_spec_is_valid :: "obj_spec \<Rightarrow> bool" where
  "obj_spec_is_valid o1 = valid o1"

text \<open>Moving from a specification that is not valid fails an assertion.\<close>

definition obj_spec_move :: "obj_spec \<Rightarrow> (obj_spec \<times> obj_spec) option" where
  "obj_spec_move src = (if valid src then Some (src\<lparr> valid := True \<rparr>, src\<lparr> valid := False \<rparr>) else None)"

definition obj_spec_shallow_copy :: "obj_spec \<Rightarrow> obj_spec" where
  "obj_spec_shallow_copy src = src\<lparr> valid := False \<rparr>"

definition obj_spec_n_bins :: "obj_spec \<Rightarrow> u32" where
  "obj_spec_n_bins o1 = n_bin_specs o1"

definition obj_spec_bin_name_compatible :: "nat \<Rightarrow> obj_spec \<Rightarrow> string \<Rightarrow> bool" where
  "obj_spec_bin_name_compatible sz o1 bin_name = (\<not> bin_name_too_large sz (of_nat (length bin_name)) (n_bin_specs o1))"

end
