(* ===== verification/Obj_Wf.thy ===== *)
theory Obj_Wf
  imports Obj_Parse
begin

text \<open>
  What the parser promises: constant collections become the values they spell out, without the missing
  random generator ever being used, and every specification that is parsed is well-formed, so that values
  can be generated from it.
\<close>

section \<open>Constant specifications\<close>

fun const_kind :: "bin_kind \<Rightarrow> bool" where
  "const_kind (C_bool b) = True"
| "const_kind (C_int i) = True"
| "const_kind (C_str s) = True"
| "const_kind (C_double d) = True"
| "const_kind (C_list vs) = True"
| "const_kind (C_map m) = True"
| "const_kind _ = False"

fun cval :: "bin_kind \<Rightarrow> as_val" where
  "cval (C_bool b) = As_bool b"
| "cval (C_int i) = As_int i"
| "cval (C_str s) = As_str s"
| "cval (C_double d) = As_dbl d"
| "cval (C_list vs) = As_list vs"
| "cval (C_map m) = As_map m"
| "cval _ = As_bool False"

abbreviation const_spec :: "bin_spec \<Rightarrow> bool" where
  "const_spec b \<equiv> const_kind (kind b)"

abbreviation const_pair :: "kv_pair \<Rightarrow> bool" where
  "const_pair kv \<equiv> const_spec (key_spec kv) \<and> const_spec (val_spec kv)"

definition pair_val :: "kv_pair \<Rightarrow> as_val \<times> as_val" where
  "pair_val kv = (cval (kind (key_spec kv)), cval (kind (val_spec kv)))"

lemma const_random_val: "const_spec b \<Longrightarrow> bin_spec_random_val om rng ratio b = Gen (cval (kind b))"
  by (cases b; cases "kind b") auto

text \<open>A constant list is its elements with their repetitions.\<close>

definition list_vals :: "bin_spec list \<Rightarrow> as_val list" where
  "list_vals bs = concat (map (\<lambda>b. replicate (unat (n_repeats b)) (cval (kind b))) bs)"

lemma gen_repeat_const: "gen_repeat n (Gen v) s = Gen (replicate n v) s"
  by (induction n) auto

lemma const_elements:
  assumes "list_all const_spec bs"
  shows "gen_elements (\<Sum>b\<leftarrow>bs. unat (n_repeats b)) (zip (map n_repeats bs) (map (bin_spec_random_val om rng ratio) bs)) s
    = Gen (list_vals bs) s"
  using assms
proof (induction bs)
  case (Cons b bs)
  show ?case
  proof (cases "unat (n_repeats b) + (\<Sum>b\<leftarrow>bs. unat (n_repeats b)) = 0")
    case True
    then show ?thesis by (auto simp: list_vals_def)
  next
    case False
    then show ?thesis using Cons by (auto simp: list_vals_def const_random_val gen_repeat_const)
  qed
qed (simp add: list_vals_def)

text \<open>A constant map with distinct keys has its pairs, each once.\<close>

lemma gen_key_new: "map_of m k = None \<Longrightarrow> gen_key (Gen k) m 0 s = Gen (Some k, 0) s"
  by (subst gen_key.simps) (simp add: MAX_KEY_ENTRY_RETRIES_def)

definition set_pairs :: "om_setter \<Rightarrow> (as_val \<times> as_val) list \<Rightarrow> (as_val \<times> as_val) list \<Rightarrow> (as_val \<times> as_val) list" where
  "set_pairs om m ps = foldl (\<lambda>acc (k, v). om acc k v) m ps"

lemma set_pairs_simps [simp]:
  "set_pairs om m [] = m" "set_pairs om m ((k, v) # ps) = set_pairs om (om m k v) ps"
  by (simp_all add: set_pairs_def)

lemma merge_map_eq: "merge_map om ps = set_pairs om [] ps"
  by (simp add: merge_map_def set_pairs_def)

lemma set_pairs_ok:
  assumes "om_ok om" and "distinct (map fst m)" and "distinct (map fst ps)" and "fst ` set m \<inter> fst ` set ps = {}"
  shows "distinct (map fst (set_pairs om m ps)) \<and> set (set_pairs om m ps) = set m \<union> set ps"
  using assms(2-4)
proof (induction ps arbitrary: m)
  case (Cons p ps)
  obtain k v where p: "p = (k, v)" by fastforce
  have "map_of m k = None" using Cons.prems(3) p by (simp add: map_of_eq_None_iff)
  note new = set_new_key [OF assms(1) Cons.prems(1) this, of v]
  have "distinct (map fst (set_pairs om (om m k v) ps)) \<and> set (set_pairs om (om m k v) ps) = set (om m k v) \<union> set ps"
    using Cons.prems p new by (intro Cons.IH) auto
  then show ?case using p new(3) by auto
qed simp

lemma const_entries:
  assumes "om_ok om" and "distinct (map fst m)" and "list_all const_pair kvs" and "list_all (\<lambda>kv. key_repeats kv = 1) kvs"
    and "distinct (map (fst \<circ> pair_val) kvs)" and "fst ` set m \<inter> fst ` set (map pair_val kvs) = {}"
  shows "gen_entries om (map (kv_generators om rng ratio) kvs) m s = Gen (set_pairs om m (map pair_val kvs)) s"
  using assms(2-6)
proof (induction kvs arbitrary: m)
  case (Cons kv kvs)
  obtain k v where kv: "kv = Kv k v" by (cases kv)
  have "map_of m (cval (kind k)) = None"
    using Cons.prems(5) kv by (auto simp: map_of_eq_None_iff pair_val_def)
  note new = set_new_key [OF assms(1) Cons.prems(1) this, of "cval (kind v)"] and key = gen_key_new [OF this, of s]
  have "gen_entries om (map (kv_generators om rng ratio) kvs) (om m (cval (kind k)) (cval (kind v))) s =
    Gen (set_pairs om (om m (cval (kind k)) (cval (kind v))) (map pair_val kvs)) s"
    using Cons.prems new kv by (intro Cons.IH) (auto simp: pair_val_def image_iff)
  moreover have "unat (n_repeats k) = Suc 0" using Cons.prems(3) kv by (simp add: key_repeats_def)
  ultimately show ?case
    using kv Cons.prems(2) key by (simp add: const_random_val pair_val_def [of "Kv k v"])
qed simp

lemma const_list_val:
  assumes "list_all const_spec bs" and "unat len = (\<Sum>b\<leftarrow>bs. unat (n_repeats b))"
  shows "const_val om (K_list len bs) = Some (As_list (list_vals bs))"
  using const_elements [OF assms(1), of om null_random "Fin 1" None] assms(2)
  by (simp add: const_val_def gen_random_list_def)

lemma const_map_val:
  assumes "om_ok om" and "list_all const_pair kvs" and "list_all (\<lambda>kv. key_repeats kv = 1) kvs"
    and "distinct (map (fst \<circ> pair_val) kvs)"
  shows "const_val om (K_map len kvs) = Some (As_map (merge_map om (map pair_val kvs)))"
  using const_entries [OF assms(1) _ assms(2-4), of "[]" null_random "Fin 1" None]
  by (simp add: const_val_def gen_random_map_def merge_map_eq)

lemma copy_cval: "const_kind k \<Longrightarrow> \<exists>v. as_val_copy om (cval k) = Some v"
  by (cases k) auto

text \<open>Copying changes nothing but the order in which the map keeps its pairs.\<close>

fun same_val :: "as_val \<Rightarrow> as_val \<Rightarrow> bool" where
  "same_val (As_map m) (As_map m') \<longleftrightarrow> distinct (map fst m') \<and> set m' = set m"
| "same_val v w \<longleftrightarrow> v = w"

lemma merge_map_ok: "om_ok om \<Longrightarrow> distinct (map fst ps) \<Longrightarrow> distinct (map fst (merge_map om ps)) \<and> set (merge_map om ps) = set ps"
  using set_pairs_ok [of om "[]" ps] by (simp add: merge_map_eq)

section \<open>What every consumer state keeps\<close>

definition keys_ok :: "kv_pair list \<Rightarrow> bool" where
  "keys_ok kvs \<longleftrightarrow>
     distinct (map (kind \<circ> key_spec) (filter (const_spec \<circ> key_spec) kvs)) \<and>
     list_all (\<lambda>kv. const_spec (key_spec kv) \<longrightarrow> n_repeats (key_spec kv) = 1) kvs"

definition pairs_ok :: "bool \<Rightarrow> kv_pair list \<Rightarrow> bool" where
  "pairs_ok c kvs \<longleftrightarrow> list_all wf_kv kvs \<and> keys_ok kvs \<and> (c \<longrightarrow> list_all const_pair kvs)"

text \<open>A pending key: like the key of a pair whose value is still to come.\<close>

definition key_ok :: "bool \<Rightarrow> kv_pair list \<Rightarrow> bin_spec \<Rightarrow> bool" where
  "key_ok c kvs k \<longleftrightarrow>
     wf_spec k \<and> scalar_key (kind k) \<and> (c \<longrightarrow> const_spec k) \<and>
     (const_spec k \<longrightarrow> n_repeats k = 1 \<and> kind k \<notin> kind ` key_spec ` set kvs)"

definition content_ok :: "consumer_state \<Rightarrow> bool" where
  "content_ok st =
     (case built st of
        List_of bs \<Rightarrow> list_all wf_spec bs \<and> unat (list_len st) = (\<Sum>b\<leftarrow>bs. unat (n_repeats b)) \<and>
                      (is_const st \<longrightarrow> list_all const_spec bs)
      | Map_key kvs \<Rightarrow> pairs_ok (is_const st) kvs \<and> unat (list_len st) = (\<Sum>kv\<leftarrow>kvs. key_repeats kv)
      | Map_val kvs k \<Rightarrow> pairs_ok (is_const st) kvs \<and> key_ok (is_const st) kvs k \<and>
                         unat (list_len st) = (\<Sum>kv\<leftarrow>kvs. key_repeats kv) + unat (n_repeats k)
      | Map_done kvs \<Rightarrow> pairs_ok (is_const st) kvs \<and> unat (list_len st) = (\<Sum>kv\<leftarrow>kvs. key_repeats kv))"

definition is_map :: "consumer_state \<Rightarrow> bool" where
  "is_map st = (case built st of List_of bs \<Rightarrow> False | _ \<Rightarrow> True)"

definition frame_ok :: "consumer_state \<Rightarrow> bool" where
  "frame_ok st \<longleftrightarrow>
     content_ok st \<and>
     (case target st of
        None \<Rightarrow> delimiter st = NUL \<and> \<not> is_map st \<and> \<not> is_const st
      | Some n \<Rightarrow> n \<noteq> 0 \<and> delimiter st = (if is_map st then CHR ''}'' else CHR '']''))"

text \<open>A state with a collection inside it expects a list element or a value.\<close>

definition open_inside :: "consumer_state \<Rightarrow> bool" where
  "open_inside st = (case built st of List_of bs \<Rightarrow> True | Map_val kvs k \<Rightarrow> True | _ \<Rightarrow> False)"

fun parents_ok :: "consumer_state list \<Rightarrow> bool" where
  "parents_ok [] = False"
| "parents_ok [st] \<longleftrightarrow> target st = None"
| "parents_ok (st # parent # stack) \<longleftrightarrow>
     target st \<noteq> None \<and> open_inside parent \<and> (expects_val parent \<longrightarrow> target st = Some 1) \<and> parents_ok (parent # stack)"

definition stack_ok :: "consumer_state list \<Rightarrow> string \<Rightarrow> bool" where
  "stack_ok stack str \<longleftrightarrow>
     parents_ok stack \<and> list_all frame_ok stack \<and>
     (case built (hd stack) of Map_done kvs \<Rightarrow> peek str = delimiter (hd stack) | _ \<Rightarrow> True)"

text \<open>A collection that is closed becomes a well-formed specification, a constant one if the state says so.\<close>

lemma cval_inj: "scalar_key k \<Longrightarrow> scalar_key k' \<Longrightarrow> const_kind k \<Longrightarrow> const_kind k' \<Longrightarrow> cval k = cval k' \<Longrightarrow> k = k'"
  by (cases k; cases k') auto

lemma const_pairs:
  assumes "pairs_ok True kvs"
  shows "list_all const_pair kvs" "list_all (\<lambda>kv. key_repeats kv = 1) kvs" "distinct (map (fst \<circ> pair_val) kvs)"
proof -
  show c: "list_all const_pair kvs" using assms by (simp add: pairs_ok_def)
  then have f: "filter (const_spec \<circ> key_spec) kvs = kvs" by (induction kvs) auto
  show "list_all (\<lambda>kv. key_repeats kv = 1) kvs"
    using assms c by (auto simp: pairs_ok_def keys_ok_def key_repeats_def list_all_iff)
  have d: "distinct (map (kind \<circ> key_spec) kvs)" using assms f by (simp add: pairs_ok_def keys_ok_def)
  have w: "list_all (\<lambda>kv. scalar_key (kind (key_spec kv))) kvs"
    using assms by (auto simp: pairs_ok_def list_all_iff) (metis kv_pair.exhaust_sel wf_kv.simps)
  have "inj_on cval ((kind \<circ> key_spec) ` set kvs)"
    using c w by (auto simp: inj_on_def list_all_iff intro: cval_inj)
  then have "distinct (map cval (map (kind \<circ> key_spec) kvs))" using d by (simp add: distinct_map inj_on_def)
  then show "distinct (map (fst \<circ> pair_val) kvs)" by (simp add: pair_val_def comp_def)
qed

lemma those_Some: "list_all (\<lambda>x. \<exists>y. f x = Some y) xs \<Longrightarrow> \<exists>ys. those (map f xs) = Some ys"
  by (induction xs) auto

lemma those_eq_Some: "those xs = Some ys \<Longrightarrow> xs = map Some ys"
  by (induction xs arbitrary: ys) (auto split: option.splits)

lemma copy_key: "scalar_key k \<Longrightarrow> const_kind k \<Longrightarrow> as_val_copy om (cval k) = Some (cval k)"
  by (cases k) auto

lemma const_list_ok:
  assumes "list_all const_spec bs" and "unat len = (\<Sum>b\<leftarrow>bs. unat (n_repeats b))"
  shows "\<exists>vs. const_list om (K_list len bs) = Parsed (C_list vs)"
proof -
  have "list_all (\<lambda>v. \<exists>w. as_val_copy om v = Some w) (list_vals bs)"
    using assms(1) copy_cval by (fastforce simp: list_vals_def list_all_iff)
  then show ?thesis using those_Some const_list_val [OF assms, of om] by (fastforce simp: const_list_def)
qed

lemma const_map_ok:
  assumes "om_ok om" and "pairs_ok True kvs"
  shows "\<exists>m. const_map om (K_map len kvs) = Parsed (C_map m)"
proof -
  note c = const_pairs [OF assms(2)]
  have "distinct (map fst (map pair_val kvs))" using c(3) by simp
  then have "set (merge_map om (map pair_val kvs)) = pair_val ` set kvs" using merge_map_ok [OF assms(1)] by simp
  moreover have "\<exists>w. copy_pair om (pair_val kv) = Some w" if "kv \<in> set kvs" for kv
    using c(1) that copy_cval [of "kind (key_spec kv)" om] copy_cval [of "kind (val_spec kv)" om]
    by (auto simp: list_all_iff copy_pair_def pair_val_def)
  ultimately have "list_all (\<lambda>p. \<exists>w. copy_pair om p = Some w) (merge_map om (map pair_val kvs))"
    by (auto simp: list_all_iff)
  then show ?thesis using those_Some const_map_val [OF assms(1) c, of len] by (fastforce simp: const_map_def)
qed

lemma close_collection_ok:
  assumes om: "om_ok om" and st: "content_ok st"
  shows "(\<exists>m loc. close_collection om st str = Parse_error m loc) \<or>
    (\<exists>k. close_collection om st str = Parsed k \<and> wf_kind k \<and> \<not> scalar_key k \<and> (is_const st \<longrightarrow> const_kind k))"
proof (cases "built st")
  case (List_of bs)
  then show ?thesis
    using st const_list_ok [of bs "list_len st" om]
    by (cases "is_const st") (auto simp: close_collection_def Let_def content_ok_def comp_def list_all_iff)
next
  case (Map_key kvs)
  have "pairs_ok True []" by (simp add: pairs_ok_def keys_ok_def)
  then show ?thesis
    using Map_key st const_map_ok [OF om, of "[]" 0] by (cases "is_const st") (auto simp: close_collection_def Let_def)
next
  case (Map_val kvs k)
  then show ?thesis by (simp add: close_collection_def)
next
  case (Map_done kvs)
  then show ?thesis
    using st const_map_ok [OF om, of kvs "list_len st"]
    by (cases "is_const st") (auto simp: close_collection_def Let_def content_ok_def pairs_ok_def list_all_iff)
qed

text \<open>What may come next in a state.\<close>

definition fits :: "consumer_state \<Rightarrow> bin_spec \<Rightarrow> bool" where
  "fits st b \<longleftrightarrow>
     wf_spec b \<and> (is_const st \<longrightarrow> const_spec b) \<and>
     (case built st of
        List_of bs \<Rightarrow> True
      | Map_key kvs \<Rightarrow> key_ok (is_const st) kvs b
      | Map_val kvs k \<Rightarrow> n_repeats b = 1
      | Map_done kvs \<Rightarrow> False)"

lemma sum_no_overflow:
  fixes a b :: u32
  shows "\<not> a + b < b \<Longrightarrow> unat (a + b) = unat a + unat b"
  by (metis add.commute not_less unat_plus_simple)

lemma pairs_ok_snoc:
  assumes "pairs_ok c kvs" and "key_ok c kvs k" and "wf_spec v" and "c \<longrightarrow> const_spec v" and "n_repeats v = 1"
  shows "pairs_ok c (kvs @ [Kv k v])"
  using assms by (auto simp: pairs_ok_def keys_ok_def key_ok_def)

lemma advance_ok:
  assumes "content_ok st" and "fits st b"
  shows "(\<exists>m loc. advance st b s = Parse_error m loc) \<or>
    (\<exists>st' r. advance st b s = Parsed (st', r) \<and> content_ok st' \<and> target st' = target st \<and> delimiter st' = delimiter st \<and>
       is_const st' = is_const st \<and> is_map st' = is_map st \<and>
       (case built st' of Map_done kvs \<Rightarrow> peek r = delimiter st' | _ \<Rightarrow> True))"
proof (cases "built st")
  case (List_of bs)
  then show ?thesis
    using assms by (auto simp: advance_def add_to_list_def Let_def content_ok_def fits_def is_map_def sum_no_overflow not_less)
next
  case (Map_key kvs)
  then show ?thesis
    using assms by (auto simp: advance_def add_key_def Let_def content_ok_def fits_def is_map_def sum_no_overflow not_less)
next
  case (Map_val kvs k)
  then have "pairs_ok (is_const st) (kvs @ [Kv k b])"
    using assms by (intro pairs_ok_snoc) (auto simp: content_ok_def fits_def)
  then show ?thesis
    using assms Map_val by (auto simp: advance_def add_val_def Let_def content_ok_def is_map_def key_repeats_def)
next
  case (Map_done kvs)
  then show ?thesis using assms(2) by (simp add: fits_def)
qed

lemma content_ok_const: "content_ok st \<Longrightarrow> content_ok (st\<lparr> is_const := c \<and> is_const st \<rparr>)"
  by (auto simp: content_ok_def pairs_ok_def key_ok_def split: building.splits)

lemma parse_mult_ok:
  "parse_mult st s = Parsed (m, r) \<Longrightarrow> m \<noteq> 0 \<and> ucast (ucast m :: u32) = m \<and> (expects_val st \<longrightarrow> m = 1)"
  by (auto simp: parse_mult_def Let_def split: if_splits prod.splits)

lemma parse_mult_no_crash: "parse_mult st s \<noteq> Crash"
  by (auto simp: parse_mult_def Let_def split: if_splits prod.splits)

lemma same_const_refl: "scalar_key k \<Longrightarrow> const_kind k \<Longrightarrow> same_const k k"
  by (cases k) auto

lemma parse_const_val_ok:
  assumes "parse_const_val st s = Parsed (k, r)"
  shows "wf_kind k \<and> const_kind k \<and> (expects_key st \<longrightarrow> scalar_key k)"
proof -
  have "parse_number st s = Parsed (k, r) \<Longrightarrow> ?thesis"
    by (auto simp: parse_number_def Let_def split: if_splits prod.splits)
  then show ?thesis
    using assms by (auto simp: parse_const_val_def parse_bool_const_def Let_def split: if_splits sum.splits)
qed

lemma parse_const_val_no_crash: "parse_const_val st s \<noteq> Crash"
proof -
  have "parse_number st s \<noteq> Crash" by (auto simp: parse_number_def Let_def split: if_splits prod.splits)
  then show ?thesis by (auto simp: parse_const_val_def parse_bool_const_def Let_def split: if_splits sum.splits)
qed

lemma bind_crash: "bind_parse p f = Crash \<longleftrightarrow> p = Crash \<or> (\<exists>a. p = Parsed a \<and> f a = Crash)"
  by (cases p) auto

lemma parse_length_no_crash: "parse_length a b s \<noteq> Crash"
  by (auto simp: parse_length_def Let_def split: if_splits prod.splits)

lemma parse_type_no_crash: "parse_type st m s \<noteq> Crash"
  by (auto simp: parse_type_def parse_const_item_def Let_def bind_crash parse_length_no_crash parse_const_val_no_crash
      split: if_splits prod.splits)

lemma parse_type_scalar:
  assumes "parse_type st m s = Parsed (Scalar k c r)"
  shows "wf_kind k \<and> c = const_kind k \<and>
    (\<forall>kvs. built st = Map_key kvs \<longrightarrow> scalar_key k \<and> (c \<longrightarrow> m = 1 \<and> k \<notin> kind ` key_spec ` set kvs))"
proof -
  have int: "parse_int_type s = (k, r) \<Longrightarrow> \<exists>rg. k = K_int rg \<and> rg \<le> 7"
    by (auto simp: parse_int_type_def Let_def not_less split: if_splits)
  have const: ?thesis if "parse_const_item st m s = Parsed (Scalar k c r)"
    using that parse_const_val_ok [of st s k r] same_const_refl [of k]
    by (auto simp: parse_const_item_def parsed_bind map_repeat_const_key_def expects_key_def list_ex_iff split: if_splits)
  show ?thesis
    using assms int const
    by (auto simp: parse_type_def parsed_bind Let_def expects_key_def split: if_splits prod.splits)
qed

lemma parse_type_open:
  assumes "parse_type st m s = Parsed (Open_list r) \<or> parse_type st m s = Parsed (Open_map r)"
  shows "\<not> expects_key st"
  using assms by (auto simp: parse_type_def parse_const_item_def parsed_bind Let_def split: if_splits prod.splits)

lemma is_map_update [simp]: "is_map (st\<lparr> is_const := c \<rparr>) = is_map st"
  by (simp add: is_map_def)

lemma advance_stack:
  assumes "frame_ok st" and "parents_ok (st # stack)" and "list_all frame_ok stack"
    and "fits (st\<lparr> is_const := c \<and> is_const st \<rparr>) b"
  shows "(\<exists>m loc. advance (st\<lparr> is_const := c \<and> is_const st \<rparr>) b s = Parse_error m loc) \<or>
    (\<exists>st' r. advance (st\<lparr> is_const := c \<and> is_const st \<rparr>) b s = Parsed (st', r) \<and> stack_ok (st' # stack) r)"
proof -
  let ?st = "st\<lparr> is_const := c \<and> is_const st \<rparr>"
  have "content_ok ?st" using assms(1) content_ok_const by (simp add: frame_ok_def)
  from advance_ok [OF this assms(4), of s] consider
    (err) m loc where "advance ?st b s = Parse_error m loc"
    | (more) st' r where "advance ?st b s = Parsed (st', r)" "content_ok st'" "target st' = target st" "delimiter st' = delimiter st"
       "is_const st' = (c \<and> is_const st)" "is_map st' = is_map st"
       "case built st' of Map_done kvs \<Rightarrow> peek r = delimiter st' | _ \<Rightarrow> True"
    by auto
  then show ?thesis
  proof cases
    case (more st' r)
    have "frame_ok st'" using assms(1) more(2-6) by (cases "target st") (auto simp: frame_ok_def)
    moreover have "parents_ok (st' # stack)" using assms(2) more(3) by (cases stack) auto
    ultimately have "stack_ok (st' # stack) r" using assms(3) more(7) by (auto simp: stack_ok_def split: building.splits)
    then show ?thesis using more(1) by blast
  qed blast
qed

text \<open>One pass keeps the stack in order and never crashes.\<close>

lemma delimiter_nonempty: "frame_ok st \<Longrightarrow> target st = Some n \<Longrightarrow> peek s = delimiter st \<Longrightarrow> s \<noteq> []"
  by (cases s) (auto simp: frame_ok_def split: if_splits)

lemma finish_state_ok:
  assumes om: "om_ok om" and ok: "stack_ok (st # stack) s" and d: "peek s = delimiter st"
  shows "(\<exists>m loc. finish_state om st stack s = Parse_error m loc) \<or>
    (\<exists>stack' r. finish_state om st stack s = Parsed (Next stack' r) \<and> stack_ok stack' r) \<or>
    (\<exists>bs n. finish_state om st stack s = Parsed (Finish bs n) \<and> list_all wf_spec bs \<and> unat n = (\<Sum>b\<leftarrow>bs. unat (n_repeats b)))"
proof (cases "target st")
  case None
  have "frame_ok st" using ok by (simp add: stack_ok_def)
  then obtain bs where "built st = List_of bs" using None by (cases "built st") (auto simp: frame_ok_def is_map_def)
  then show ?thesis using None \<open>frame_ok st\<close> by (simp add: finish_state_def frame_ok_def content_ok_def)
next
  case (Some n)
  then obtain parent stack' where st: "stack = parent # stack'" using ok by (cases stack) (auto simp: stack_ok_def)
  have f: "frame_ok st" "frame_ok parent" "open_inside parent" "expects_val parent \<longrightarrow> n = 1" "parents_ok (parent # stack')"
    "list_all frame_ok stack'"
    using ok st Some by (auto simp: stack_ok_def)
  have s: "s \<noteq> []" using delimiter_nonempty [OF f(1) Some d] .
  have n: "n \<noteq> 0" using f(1) Some by (simp add: frame_ok_def)
  from close_collection_ok [OF om, of st s] f(1) consider
    (err) m loc where "close_collection om st s = Parse_error m loc"
    | (ok) k where "close_collection om st s = Parsed k" "wf_kind k" "is_const st \<longrightarrow> const_kind k"
    by (auto simp: frame_ok_def)
  then show ?thesis
  proof cases
    case err
    then show ?thesis using Some st s by (simp add: finish_state_def)
  next
    case (ok k)
    have "fits (parent\<lparr> is_const := is_const st \<and> is_const parent \<rparr>) (Bin n k)"
      using f(3,4) ok n by (auto simp: fits_def open_inside_def expects_val_def word_neq_0_conv split: building.splits)
    from advance_stack [OF f(2,5,6) this, of "tl s"] show ?thesis
      using Some st s ok(1) by (auto simp: finish_state_def)
  qed
qed

lemma consume_item_ok:
  assumes ok: "stack_ok (st # stack) s" and d: "peek s \<noteq> delimiter st"
  shows "(\<exists>m loc. consume_item st stack s = Parse_error m loc) \<or>
    (\<exists>stack' r. consume_item st stack s = Parsed (Next stack' r) \<and> stack_ok stack' r)"
proof -
  have f: "frame_ok st" "parents_ok (st # stack)" "list_all frame_ok stack" "\<And>kvs. built st \<noteq> Map_done kvs"
    using ok d by (auto simp: stack_ok_def)
  consider (err) m loc where "consume_item st stack s = Parse_error m loc"
    | (item) m r it where "parse_mult st s = Parsed (m, r)" "parse_type st m r = Parsed it"
  proof (cases "parse_mult st s")
    case (Parsed mr)
    moreover obtain m r where "mr = (m, r)" by fastforce
    ultimately show thesis
      using that parse_type_no_crash [of st m r] by (cases "parse_type st m r") (auto simp: consume_item_def)
  qed (use that parse_mult_no_crash [of st s] in \<open>auto simp: consume_item_def\<close>)
  then show ?thesis
  proof cases
    case (item m r it)
    have n: "(ucast m :: u32) \<noteq> 0" "expects_val st \<longrightarrow> (ucast m :: u32) = 1" "m = 1 \<longrightarrow> (ucast m :: u32) = 1"
      using parse_mult_ok [OF item(1)] by auto
    have opened: "stack_ok (new # st # stack) r'"
      if "\<not> expects_key st" "frame_ok new" "target new = Some (ucast m)" "\<And>kvs. built new \<noteq> Map_done kvs" for new r'
    proof -
      have "open_inside st" using that(1) f(4) by (cases "built st") (auto simp: open_inside_def expects_key_def)
      then show ?thesis using that f n(2) by (auto simp: stack_ok_def split: building.splits)
    qed
    show ?thesis
    proof (cases it)
      case (Open_list r')
      have "frame_ok (list_state (ucast m))"
        using n(1) by (simp add: frame_ok_def list_state_def content_ok_def is_map_def)
      moreover have "\<not> expects_key st" using parse_type_open [of st m r r'] item(2) Open_list by simp
      ultimately show ?thesis
        using opened [of "list_state (ucast m)" r'] item Open_list by (simp add: consume_item_def list_state_def)
    next
      case (Open_map r')
      have "frame_ok (map_state (ucast m))"
        using n(1) by (simp add: frame_ok_def map_state_def content_ok_def is_map_def pairs_ok_def keys_ok_def)
      moreover have "\<not> expects_key st" using parse_type_open [of st m r r'] item(2) Open_map by simp
      ultimately show ?thesis
        using opened [of "map_state (ucast m)" r'] item Open_map by (simp add: consume_item_def map_state_def)
    next
      case (Scalar k c r')
      let ?st = "st\<lparr> is_const := c \<and> is_const st \<rparr>"
      note k = parse_type_scalar [OF item(2) [unfolded Scalar]]
      have "fits ?st (Bin (ucast m) k)"
        using k n f(4) by (auto simp: fits_def key_ok_def expects_val_def word_neq_0_conv split: building.splits)
      from advance_stack [OF f(1-3) this, of r'] show ?thesis
        using item Scalar by (auto simp: consume_item_def)
    qed
  qed blast
qed

lemma parse_loop_ok:
  assumes "om_ok om" and "stack_ok stack s"
  shows "(\<exists>m loc. parse_loop om stack s = Parse_error m loc) \<or>
    (\<exists>bs n. parse_loop om stack s = Parsed (bs, n) \<and> list_all wf_spec bs \<and> unat n = (\<Sum>b\<leftarrow>bs. unat (n_repeats b)))"
  using assms(2)
proof (induction "length s" arbitrary: stack s rule: less_induct)
  case less
  obtain st rest where st: "stack = st # rest" using less.prems by (cases stack) (auto simp: stack_ok_def)
  have ok: "stack_ok (st # rest) s" using less.prems st by simp
  consider (err) m loc where "parse_step om stack s = Parse_error m loc"
    | (more) stack' r where "parse_step om stack s = Parsed (Next stack' r)" "stack_ok stack' r"
    | (fin) bs n where "parse_step om stack s = Parsed (Finish bs n)" "list_all wf_spec bs" "unat n = (\<Sum>b\<leftarrow>bs. unat (n_repeats b))"
    using finish_state_ok [OF assms(1) ok] consume_item_ok [OF ok] st by (cases "peek s = delimiter st") auto
  then show ?case
  proof cases
    case more
    then show ?thesis
      using less.hyps [OF parse_step_progress [OF more(1)] more(2)] by (subst (1 2) parse_loop.simps) simp
  qed (subst (1 2) parse_loop.simps, simp)+
qed

section \<open>The parser as a whole\<close>

lemma close_constant_map:
  assumes om: "om_ok om" and ok: "pairs_ok True kvs" and "is_const st" and b: "built st = Map_done kvs"
  shows "\<exists>m. close_collection om st str = Parsed (C_map m) \<and> distinct (map fst m) \<and> Some ` set m = copy_pair om ` pair_val ` set kvs"
proof -
  note c = const_pairs [OF ok]
  let ?m = "merge_map om (map pair_val kvs)"
  have m: "distinct (map fst ?m)" "set ?m = pair_val ` set kvs"
    using merge_map_ok [OF om, of "map pair_val kvs"] c(3) by simp_all
  obtain m' where k: "const_map om (K_map (list_len st) kvs) = Parsed (C_map m')" using const_map_ok [OF om ok] by blast
  then obtain m'' where m'': "those (map (copy_pair om) ?m) = Some m''" "m' = merge_map om m''"
    using const_map_val [OF om c, of "list_len st"] by (auto simp: const_map_def split: option.splits)
  have e: "map (copy_pair om) ?m = map Some m''" using m''(1) by (rule those_eq_Some)
  have keep: "fst q = fst p" if p: "p \<in> set ?m" and q: "copy_pair om p = Some q" for p q
  proof -
    obtain kv where kv: "kv \<in> set kvs" "p = pair_val kv" using p m(2) by auto
    have "wf_kv kv" using ok kv(1) by (auto simp: pairs_ok_def list_all_iff)
    then have "scalar_key (kind (key_spec kv))" by (cases kv) auto
    then have "as_val_copy om (fst p) = Some (fst p)" using c(1) kv copy_key by (simp add: pair_val_def list_all_iff)
    then show ?thesis using q by (auto simp: copy_pair_def split: option.splits)
  qed
  have l: "length m'' = length ?m" using arg_cong [OF e, of length] by simp
  have "map fst m'' = map fst ?m"
  proof (rule nth_equalityI)
    fix i
    assume i: "i < length (map fst m'')"
    then have "copy_pair om (?m ! i) = Some (m'' ! i)" using arg_cong [OF e, of "\<lambda>xs. xs ! i"] l by simp
    then show "map fst m'' ! i = map fst ?m ! i" using keep i l by simp
  qed (simp add: l)
  then have "distinct (map fst m') \<and> set m' = set m''" using merge_map_ok [OF om, of m''] m(1) m''(2) by simp
  moreover have "Some ` set m'' = copy_pair om ` pair_val ` set kvs"
    using arg_cong [OF e, of set] m(2) by simp
  ultimately show ?thesis using k b assms(3) by (simp add: close_collection_def)
qed

lemma begin_state_ok: "stack_ok [begin_state] s"
  by (simp add: stack_ok_def frame_ok_def begin_state_def content_ok_def is_map_def)

text \<open>
  C2. Parsing always ends, without using the NULL random generator and without reaching any of the
  cases the source marks unreachable: either with an error, the specification marked invalid and
  otherwise unchanged, or with a valid specification whose bins are all well-formed and whose number of
  bins is the sum of the repetitions, with no wrap-around.
\<close>

theorem obj_spec_parse_wf:
  assumes "om_ok om"
  shows "case obj_spec_parse om base buf of
           (Parsed o1, o2) \<Rightarrow> o2 = o1 \<and> valid o1 \<and> list_all wf_spec (bin_specs o1) \<and>
              unat (n_bin_specs o1) = (\<Sum>b\<leftarrow>bin_specs o1. unat (n_repeats b))
         | (Parse_error m loc, o2) \<Rightarrow> o2 = base\<lparr> valid := False \<rparr>
         | (Crash, o2) \<Rightarrow> False"
  using parse_loop_ok [OF assms begin_state_ok, of "cstr buf"]
  by (auto simp: obj_spec_parse_def parse_bin_types_def Let_def)

text \<open>
  Closing a list or a map of constants only: the list becomes the value with each element as often
  as it is repeated, in order, nested maps being copied; the map becomes a map with exactly the pairs
  that were given, whose keys are distinct.
\<close>

theorem close_constant_collection:
  assumes "om_ok om" and "content_ok st" and "is_const st"
  shows "(\<forall>bs. built st = List_of bs \<longrightarrow>
            (\<exists>vs. close_collection om st str = Parsed (C_list vs) \<and>
                  map Some vs = map (as_val_copy om) (concat (map (\<lambda>b. replicate (unat (n_repeats b)) (cval (kind b))) bs)))) \<and>
         (\<forall>kvs. built st = Map_done kvs \<longrightarrow>
            (\<exists>m. close_collection om st str = Parsed (C_map m) \<and> distinct (map fst m) \<and>
                 Some ` set m = copy_pair om ` pair_val ` set kvs))"
proof (intro conjI allI impI)
  fix bs
  assume b: "built st = List_of bs"
  then have c: "list_all const_spec bs" "unat (list_len st) = (\<Sum>b\<leftarrow>bs. unat (n_repeats b))"
    using assms by (simp_all add: content_ok_def)
  obtain vs where vs: "const_list om (K_list (list_len st) bs) = Parsed (C_list vs)" using const_list_ok [OF c] by blast
  then have "those (map (as_val_copy om) (list_vals bs)) = Some vs"
    using const_list_val [OF c, of om] by (simp add: const_list_def split: option.splits)
  then have "map (as_val_copy om) (list_vals bs) = map Some vs" by (rule those_eq_Some)
  then show "\<exists>vs. close_collection om st str = Parsed (C_list vs) \<and>
    map Some vs = map (as_val_copy om) (concat (map (\<lambda>b. replicate (unat (n_repeats b)) (cval (kind b))) bs))"
    using vs b assms(3) by (simp add: close_collection_def list_vals_def)
next
  fix kvs
  assume b: "built st = Map_done kvs"
  show "\<exists>m. close_collection om st str = Parsed (C_map m) \<and> distinct (map fst m) \<and> Some ` set m = copy_pair om ` pair_val ` set kvs"
    using close_constant_map [OF assms(1) _ assms(3) b] assms(2) b by (simp add: content_ok_def assms(3))
qed

section \<open>A value with a point after an integer key\<close>

lemmas parse_defs = parse_bin_types_def parse_loop.simps begin_state_def finish_state_def consume_item_def parse_mult_def
  parse_type_def parse_const_item_def parse_const_val_def parse_number_def parse_int_type_def parse_length_def
  expects_key_def expects_val_def list_state_def map_state_def advance_def add_to_list_def add_key_def add_val_def
  close_collection_def skip_space_def Let_def

lemmas char_defs = strtoul_def strtol_def split_sign_def skip_0x_def is_base_digit_def digit_val_def isdigit_def
  isspace_def isalpha_def before_char_def base_val_def

lemma one_bits: "fp_bits 53 1074 1 = 1023 * 2 ^ 52"
proof -
  have "nat \<lfloor>1 * 2 ^ 1074 :: rat\<rfloor> = 2 ^ 1074"
    using floor_of_int [of "2 ^ 1074", where ?'a = rat]
    by (simp only: mult_1 of_int_power of_int_numeral nat_power_eq) (simp only: nat_power_eq zero_le_numeral nat_numeral)
  moreover have "bit_length (2 ^ 1074) = Suc 1074" by (rule bit_length_eqI) (simp_all only: order_refl power_Suc, simp)
  moreover have "(1 :: rat) * 2 ^ 1074 / 2 ^ (Suc 1074 - 53) = of_nat (2 ^ 52)"
    using power_add [of "2 :: rat" 52 1022] by simp
  ultimately show ?thesis unfolding fp_bits_def Let_def by (simp only: round_even_nat) simp
qed

text \<open>
  The map \<^verbatim>\<open>{1:2.5}\<close> is rejected with the message that a key cannot be a double: the search for a
  decimal point in the key runs up to the next comma or brace, past the colon, into the value.
\<close>

theorem double_value_rejected: "parse_bin_types om ''{1:2.5}'' = Parse_error Key_double ''1:2.5}''"
proof -
  have "strtod ''1:2.5}'' = strtod_finite False 1 '':2.5}''"
    by (simp add: strtod_def strncaseeq_def tolower_def fp_number_def fp_digits_def fp_exponent_def scale_def char_defs)
  also have "\<dots> = (double_word False (1023 * 2 ^ 52), '':2.5}'', False)"
    by (simp add: strtod_finite_def one_bits double_inf_def)
  finally show ?thesis by (simp add: parse_defs char_defs)
qed

section \<open>Witnesses\<close>

definition example_obj :: obj_spec where
  "example_obj = \<lparr> bin_specs = [], n_bin_specs = 0, valid = True \<rparr>"

theorem obj_spec_parse_wf_witness:
  "\<exists>o1. obj_spec_parse example_om example_obj ''I2,3*b'' = (Parsed o1, o1) \<and> valid o1 \<and>
     list_all wf_spec (bin_specs o1) \<and> unat (n_bin_specs o1) = 4"
proof -
  let ?o = "\<lparr> bin_specs = [Bin 1 (K_int 1), Bin 3 K_bool], n_bin_specs = 4, valid = True \<rparr>"
  have "parse_bin_types example_om ''I2,3*b'' = Parsed ([Bin 1 (K_int 1), Bin 3 K_bool], 4)"
    by (simp add: parse_defs char_defs)
  then have "obj_spec_parse example_om example_obj ''I2,3*b'' = (Parsed ?o, ?o)"
    by (simp add: obj_spec_parse_def cstr_def Let_def)
  then show ?thesis using obj_spec_parse_wf [OF example_ok(3), of example_obj "''I2,3*b''"] by auto
qed

definition example_map_state :: consumer_state where
  "example_map_state = (map_state 1)\<lparr> list_len := 2,
     built := Map_done [Kv (Bin 1 (C_int 1)) (Bin 1 (C_str ''a'')), Kv (Bin 1 (C_str ''k'')) (Bin 1 (C_list []))] \<rparr>"

theorem close_constant_collection_witness:
  "\<exists>m. close_collection example_om example_map_state ''}'' = Parsed (C_map m) \<and> distinct (map fst m) \<and>
     Some ` set m = {Some (As_int 1, As_str ''a''), Some (As_str ''k'', As_list [])}"
proof -
  let ?kvs = "[Kv (Bin 1 (C_int 1)) (Bin 1 (C_str ''a'')), Kv (Bin 1 (C_str ''k'')) (Bin 1 (C_list []))]"
  have "content_ok example_map_state" "is_const example_map_state" "built example_map_state = Map_done ?kvs"
    by (simp_all add: example_map_state_def map_state_def content_ok_def pairs_ok_def keys_ok_def key_repeats_def)
  with close_constant_collection [OF example_ok(3), of example_map_state "''}''"]
  have "\<exists>m. close_collection example_om example_map_state ''}'' = Parsed (C_map m) \<and> distinct (map fst m) \<and>
     Some ` set m = copy_pair example_om ` pair_val ` set ?kvs" by blast
  then show ?thesis by (simp add: pair_val_def copy_pair_def)
qed

end
