(* ===== verification/Obj_Populate.thy ===== *)
theory Obj_Populate
  imports Obj_Wf
begin

text \<open>
  Filling records: \<^verbatim>\<open>obj_spec_populate_bins\<close>, \<^verbatim>\<open>obj_spec_gen_value\<close> and
  \<^verbatim>\<open>obj_spec_gen_compressible_value\<close> of \<^verbatim>\<open>object_spec.c\<close>, and the macro \<^verbatim>\<open>FOR_EACH_WRITE_BIN\<close> they share.

  The record belongs to the client library.  It is a record of the operations the code calls, setting a
  bin and the capacity, together with what the laws speak of, looking a bin up and the number of bins used.
\<close>

section \<open>Bins to write\<close>

text \<open>
  All bins: the nested loops over the specifications and their repetitions, as the list of indices with
  their specifications.  Reading past the array of specifications is \<open>None\<close>.
\<close>

fun all_bins :: "u32 \<Rightarrow> u32 \<Rightarrow> bin_spec list \<Rightarrow> (u32 \<times> bin_spec) list option" where
  "all_bins n cnt [] = (if cnt < n then None else Some [])"
| "all_bins n cnt (b # bs) =
     (if cnt < n then
        map_option (\<lambda>ps. map (\<lambda>j. (cnt + of_nat j, b)) [0..<unat (n_repeats b)] @ ps) (all_bins n (cnt + n_repeats b) bs)
      else Some [])"

text \<open>
  The selected bins: \<^verbatim>\<open>FOR_EACH_WRITE_BIN\<close> goes through the indices and the specifications together.
  Reading past the indices, or running out of specifications, is \<open>None\<close>.  The array of indices ends with a
  slot that holds 0; this is what the macro reads when no index is selected.
\<close>

definition write_array :: "u32 list \<Rightarrow> u32 list" where
  "write_array idxs = (if idxs = [] then [0] else idxs)"

fun for_each_write_bin :: "u32 \<Rightarrow> u32 \<Rightarrow> bin_spec list \<Rightarrow> u32 list \<Rightarrow> (u32 \<times> bin_spec) list option" where
  "for_each_write_bin n tot bs [] = None"
| "for_each_write_bin n tot [] (idx # idxs) = None"
| "for_each_write_bin n tot (b # bs) (idx # idxs) =
     (if \<not> tot < n then None
      else if tot + n_repeats b \<le> idx then for_each_write_bin n (tot + n_repeats b) bs (idx # idxs)
      else if idxs = [] then Some [(idx, b)]
      else map_option ((#) (idx, b)) (for_each_write_bin n tot (b # bs) idxs))"

section \<open>Records\<close>

record 'rec record_api =
  as_record_set :: "'rec \<Rightarrow> string \<Rightarrow> as_val \<Rightarrow> 'rec option"
  bins_capacity :: "'rec \<Rightarrow> nat"
  as_record_get :: "'rec \<Rightarrow> string \<Rightarrow> as_val option"
  bins_used :: "'rec \<Rightarrow> nat"

text \<open>One bin: \<open>Gen\<close> with the new record is a return of 0 so far, \<open>Null_val\<close> a return of -1.\<close>

definition populate_bin ::
  "om_setter \<Rightarrow> 'r as_random \<Rightarrow> fp \<Rightarrow> 'rec record_api \<Rightarrow> nat \<Rightarrow> string \<Rightarrow> u32 \<times> bin_spec \<Rightarrow> 'rec \<Rightarrow> 'r option \<Rightarrow> ('rec, 'r option) gen" where
  "populate_bin om rng ratio api sz bin_name p r s =
     bind_gen (bin_spec_random_val om rng ratio (snd p) s) (\<lambda>v s.
       case as_record_set api r (gen_bin_name sz bin_name (fst p)) v of None \<Rightarrow> Null_val s | Some r' \<Rightarrow> Gen r' s)"

fun populate_list ::
  "om_setter \<Rightarrow> 'r as_random \<Rightarrow> fp \<Rightarrow> 'rec record_api \<Rightarrow> nat \<Rightarrow> string \<Rightarrow> (u32 \<times> bin_spec) list \<Rightarrow> 'rec \<Rightarrow> 'r option \<Rightarrow> ('rec, 'r option) gen" where
  "populate_list om rng ratio api sz bin_name [] r s = Gen r s"
| "populate_list om rng ratio api sz bin_name (p # ps) r s =
     bind_gen (populate_bin om rng ratio api sz bin_name p r s) (populate_list om rng ratio api sz bin_name ps)"

definition bins_to_write :: "obj_spec \<Rightarrow> u32 list option \<Rightarrow> (u32 \<times> bin_spec) list option" where
  "bins_to_write o1 write_bins =
     (case write_bins of
        None \<Rightarrow> all_bins (n_bin_specs o1) 0 (bin_specs o1)
      | Some idxs \<Rightarrow> for_each_write_bin (n_bin_specs o1) 0 (bin_specs o1) (write_array idxs))"

definition obj_spec_populate_bins ::
  "om_setter \<Rightarrow> 'r as_random \<Rightarrow> 'rec record_api \<Rightarrow> nat \<Rightarrow> obj_spec \<Rightarrow> string \<Rightarrow> u32 list option \<Rightarrow> fp \<Rightarrow>
   'rec \<Rightarrow> 'r option \<Rightarrow> ('rec, 'r option) gen" where
  "obj_spec_populate_bins om rng api sz o1 bin_name write_bins ratio r s =
     (let n = (case write_bins of None \<Rightarrow> unat (n_bin_specs o1) | Some idxs \<Rightarrow> length idxs)
      in if n > bins_capacity api r then Null_val s
         else case bins_to_write o1 write_bins of
                None \<Rightarrow> Stuck
              | Some ps \<Rightarrow> populate_list om rng ratio api sz bin_name ps r s)"

section \<open>Values\<close>

fun gen_list :: "('s \<Rightarrow> (as_val, 's) gen) list \<Rightarrow> 's \<Rightarrow> (as_val list, 's) gen" where
  "gen_list [] s = Gen [] s"
| "gen_list (g # gs) s = bind_gen (g s) (\<lambda>v s. bind_gen (gen_list gs s) (\<lambda>vs s. Gen (v # vs) s))"

definition obj_spec_gen_compressible_value ::
  "om_setter \<Rightarrow> 'r as_random \<Rightarrow> obj_spec \<Rightarrow> u32 list option \<Rightarrow> fp \<Rightarrow> 'r option \<Rightarrow> (as_val, 'r option) gen" where
  "obj_spec_gen_compressible_value om rng o1 write_bins ratio s =
     (case write_bins of
        None \<Rightarrow> bin_kind_random_val om rng ratio (K_list (n_bin_specs o1) (bin_specs o1)) s
      | Some idxs \<Rightarrow>
          (case for_each_write_bin (n_bin_specs o1) 0 (bin_specs o1) (write_array idxs) of
             None \<Rightarrow> Stuck
           | Some ps \<Rightarrow>
               bind_gen (gen_list (map (\<lambda>p. bin_spec_random_val om rng ratio (snd p)) ps) s) (\<lambda>vs s. Gen (As_list vs) s)))"

definition obj_spec_gen_value ::
  "om_setter \<Rightarrow> 'r as_random \<Rightarrow> obj_spec \<Rightarrow> u32 list option \<Rightarrow> 'r option \<Rightarrow> (as_val, 'r option) gen" where
  "obj_spec_gen_value om rng o1 write_bins s = obj_spec_gen_compressible_value om rng o1 write_bins (Fin 1) s"

section \<open>Which bins are visited\<close>

text \<open>The specification of every bin, in order.\<close>

definition expand :: "bin_spec list \<Rightarrow> bin_spec list" where
  "expand bs = concat (map (\<lambda>b. replicate (unat (n_repeats b)) b) bs)"

lemma length_expand: "length (expand bs) = (\<Sum>b\<leftarrow>bs. unat (n_repeats b))"
  by (simp add: expand_def length_concat comp_def)

lemma expand_Cons: "expand (b # bs) = replicate (unat (n_repeats b)) b @ expand bs"
  by (simp add: expand_def)

lemma set_expand: "set (expand bs) \<subseteq> set bs"
  by (auto simp: expand_def)

lemma all_bins_eq:
  assumes "unat n = unat cnt + length (expand bs)" and "list_all wf_spec bs"
  shows "all_bins n cnt bs = Some (map (\<lambda>i. (cnt + of_nat i, expand bs ! i)) [0..<length (expand bs)])"
  using assms
proof (induction bs arbitrary: cnt)
  case Nil
  then show ?case by (simp add: expand_def word_less_nat_alt)
next
  case (Cons b bs)
  let ?k = "unat (n_repeats b)"
  have b: "0 < ?k" using Cons.prems(2) by (cases b) (auto simp: unat_gt_0)
  have sum: "unat n = unat cnt + ?k + length (expand bs)" using Cons.prems(1) by (simp add: expand_Cons)
  then have c: "unat (cnt + n_repeats b) = unat cnt + ?k" using unat_u32_lt [of n] by (intro unat_add_no_overflow) simp
  have IH: "all_bins n (cnt + n_repeats b) bs =
      Some (map (\<lambda>i. (cnt + n_repeats b + of_nat i, expand bs ! i)) [0..<length (expand bs)])"
    using Cons.IH [of "cnt + n_repeats b"] Cons.prems sum c by simp
  have "cnt < n" using sum b by (simp add: word_less_nat_alt)
  moreover have "map (\<lambda>j. (cnt + of_nat j, b)) [0..<?k] @ map (\<lambda>i. (cnt + n_repeats b + of_nat i, expand bs ! i)) [0..<length (expand bs)]
      = map (\<lambda>i. (cnt + of_nat i, expand (b # bs) ! i)) [0..<length (expand (b # bs))]"
    by (rule nth_equalityI) (auto simp: expand_Cons nth_append algebra_simps)
  ultimately show ?case using IH by simp
qed

lemma for_each_eq:
  assumes "sorted idxs" and "idxs \<noteq> []" and "\<forall>i \<in> set idxs. tot \<le> i \<and> i < n"
    and "unat n = unat tot + length (expand bs)" and "list_all wf_spec bs"
  shows "for_each_write_bin n tot bs idxs = Some (map (\<lambda>i. (i, expand bs ! (unat i - unat tot))) idxs)"
  using assms
proof (induction n tot bs idxs rule: for_each_write_bin.induct)
  case (1 n tot bs)
  then show ?case by simp
next
  case (2 n tot idx idxs)
  then show ?case by (auto simp: expand_def word_le_nat_alt word_less_nat_alt)
next
  case (3 n tot b bs idx idxs)
  let ?k = "unat (n_repeats b)"
  have i: "tot \<le> idx" "idx < n" using 3(5) by auto
  have sum: "unat n = unat tot + ?k + length (expand bs)" using 3(6) by (simp add: expand_Cons)
  then have c: "unat (tot + n_repeats b) = unat tot + ?k" using unat_u32_lt [of n] by (intro unat_add_no_overflow) simp
  have lt: "tot < n" using i by (rule le_less_trans)
  show ?case
  proof (cases "tot + n_repeats b \<le> idx")
    case True
    have all: "\<forall>i \<in> set (idx # idxs). tot + n_repeats b \<le> i \<and> i < n"
      using 3(3,5) True by auto
    have "for_each_write_bin n (tot + n_repeats b) bs (idx # idxs) =
        Some (map (\<lambda>i. (i, expand bs ! (unat i - unat (tot + n_repeats b)))) (idx # idxs))"
      using lt True 3 all sum c by (intro 3(1)) auto
    moreover have "expand (b # bs) ! (unat i - unat tot) = expand bs ! (unat i - unat (tot + n_repeats b))" if "i \<in> set (idx # idxs)" for i
    proof -
      have "unat (tot + n_repeats b) \<le> unat i" using all that by (auto simp: word_le_nat_alt)
      then show ?thesis by (auto simp: expand_Cons nth_append c)
    qed
    ultimately show ?thesis using lt True by simp
  next
    case False
    then have "unat idx < unat tot + ?k" using c by (simp add: word_le_nat_alt)
    then have here: "expand (b # bs) ! (unat idx - unat tot) = b"
      using i(1) by (auto simp: expand_Cons nth_append word_le_nat_alt)
    have "for_each_write_bin n tot (b # bs) idxs = Some (map (\<lambda>i. (i, expand (b # bs) ! (unat i - unat tot))) idxs)" if "idxs \<noteq> []"
      using lt False that 3 by (intro 3(2)) auto
    then show ?thesis using lt False here by (cases "idxs = []") auto
  qed
qed

section \<open>Filling a record\<close>

text \<open>While a record has room, setting a bin succeeds, is seen by later lookups and takes at most one slot.\<close>

definition record_ok :: "'rec record_api \<Rightarrow> bool" where
  "record_ok api \<longleftrightarrow>
     (\<forall>r name v. bins_used api r < bins_capacity api r \<longrightarrow>
        (\<exists>r'. as_record_set api r name v = Some r' \<and> as_record_get api r' = (as_record_get api r)(name \<mapsto> v) \<and>
              bins_capacity api r' = bins_capacity api r \<and> bins_used api r' \<le> Suc (bins_used api r)))"

lemma populate_list_ok:
  assumes "record_ok api"
    and "\<forall>p \<in> set ps. yields (bin_spec_random_val om rng ratio (snd p)) (conf_spec (snd p))"
    and "distinct (map (gen_bin_name sz name \<circ> fst) ps)"
    and "bins_used api r + length ps \<le> bins_capacity api r"
  shows "\<exists>r' t. populate_list om rng ratio api sz name ps r (Some s) = Gen r' (Some t) \<and>
    (\<forall>p \<in> set ps. \<exists>v. as_record_get api r' (gen_bin_name sz name (fst p)) = Some v \<and> conf_spec (snd p) v) \<and>
    (\<forall>nm. nm \<notin> gen_bin_name sz name ` fst ` set ps \<longrightarrow> as_record_get api r' nm = as_record_get api r nm)"
  using assms(2-4)
proof (induction ps arbitrary: r s)
  case (Cons p ps)
  let ?nm = "gen_bin_name sz name (fst p)"
  obtain v t where v: "bin_spec_random_val om rng ratio (snd p) (Some s) = Gen v (Some t)" "conf_spec (snd p) v"
    using Cons.prems(1) by (auto intro: yieldsE)
  have "bins_used api r < bins_capacity api r" using Cons.prems(3) by simp
  then obtain r1 where r1: "as_record_set api r ?nm v = Some r1" "as_record_get api r1 = (as_record_get api r)(?nm \<mapsto> v)"
    "bins_capacity api r1 = bins_capacity api r" "bins_used api r1 \<le> Suc (bins_used api r)"
    using assms(1) unfolding record_ok_def by blast
  obtain r' t' where r': "populate_list om rng ratio api sz name ps r1 (Some t) = Gen r' (Some t')"
    "\<forall>p \<in> set ps. \<exists>v. as_record_get api r' (gen_bin_name sz name (fst p)) = Some v \<and> conf_spec (snd p) v"
    "\<forall>nm. nm \<notin> gen_bin_name sz name ` fst ` set ps \<longrightarrow> as_record_get api r' nm = as_record_get api r1 nm"
    using Cons.IH [of r1 t] Cons.prems r1(3,4) by auto
  have "?nm \<notin> gen_bin_name sz name ` fst ` set ps" using Cons.prems(2) by (auto simp: image_iff)
  then have "as_record_get api r' ?nm = Some v" using r'(3) r1(2) by simp
  then show ?case using v r1 r' by (auto simp: populate_bin_def)
qed simp

text \<open>The indices of the bins that are written.\<close>

definition write_indices :: "obj_spec \<Rightarrow> u32 list option \<Rightarrow> u32 list" where
  "write_indices o1 write_bins =
     (case write_bins of None \<Rightarrow> map of_nat [0..<unat (n_bin_specs o1)] | Some idxs \<Rightarrow> idxs)"

definition write_bins_ok :: "obj_spec \<Rightarrow> u32 list option \<Rightarrow> bool" where
  "write_bins_ok o1 write_bins =
     (case write_bins of
        None \<Rightarrow> True
      | Some idxs \<Rightarrow> idxs \<noteq> [] \<and> sorted idxs \<and> distinct idxs \<and> (\<forall>i \<in> set idxs. i < n_bin_specs o1))"

definition obj_ok :: "obj_spec \<Rightarrow> bool" where
  "obj_ok o1 \<longleftrightarrow>
     list_all wf_spec (bin_specs o1) \<and> list_all bytes_ok_spec (bin_specs o1) \<and>
     unat (n_bin_specs o1) = (\<Sum>b\<leftarrow>bin_specs o1. unat (n_repeats b))"

lemma bins_to_write_eq:
  assumes "obj_ok o1" and "write_bins_ok o1 wb"
  shows "bins_to_write o1 wb = Some (map (\<lambda>i. (i, expand (bin_specs o1) ! unat i)) (write_indices o1 wb))"
proof -
  have len: "unat (n_bin_specs o1) = length (expand (bin_specs o1))" and wf: "list_all wf_spec (bin_specs o1)"
    using assms(1) by (auto simp: obj_ok_def length_expand)
  show ?thesis
  proof (cases wb)
    case None
    have "unat (of_nat i :: u32) = i" if "i < unat (n_bin_specs o1)" for i
      using that unat_u32_lt [of "n_bin_specs o1"] by (intro unat_of_nat_32) simp
    then show ?thesis
      using all_bins_eq [of "n_bin_specs o1" 0 "bin_specs o1"] len wf None
      by (simp add: bins_to_write_def write_indices_def)
  next
    case (Some idxs)
    then show ?thesis
      using for_each_eq [of idxs 0 "n_bin_specs o1" "bin_specs o1"] assms(2) len wf
      by (simp add: bins_to_write_def write_indices_def write_bins_ok_def write_array_def)
  qed
qed

lemma write_indices_ok:
  assumes "write_bins_ok o1 wb"
  shows "distinct (write_indices o1 wb)" "\<forall>i \<in> set (write_indices o1 wb). i < n_bin_specs o1"
proof -
  have u: "unat (of_nat i :: u32) = i" if "i < unat (n_bin_specs o1)" for i
    using that unat_u32_lt [of "n_bin_specs o1"] by (intro unat_of_nat_32) simp
  then have "inj_on (of_nat :: nat \<Rightarrow> u32) {0..<unat (n_bin_specs o1)}"
    by (intro inj_onI) (metis atLeastLessThan_iff)
  then show "distinct (write_indices o1 wb)" using assms by (cases wb) (simp_all add: write_indices_def write_bins_ok_def distinct_map)
  show "\<forall>i \<in> set (write_indices o1 wb). i < n_bin_specs o1"
    using assms u by (cases wb) (auto simp: write_indices_def write_bins_ok_def word_less_nat_alt)
qed

lemma populated:
  assumes "obj_ok o1" and "write_bins_ok o1 wb" and "obj_spec_bin_name_compatible sz o1 name"
    and "unat (n_bin_specs o1) < 2 ^ 31" and "sz < 2 ^ 32" and "length name < 2 ^ 32"
    and "om_ok om" and "rng_ok rng" and "ratio_ok ratio" and "record_ok api"
    and "bins_used api r + length (write_indices o1 wb) \<le> bins_capacity api r"
  shows "\<exists>r' t. obj_spec_populate_bins om rng api sz o1 name wb ratio r (Some s) = Gen r' (Some t) \<and>
    (\<forall>i \<in> set (write_indices o1 wb). \<exists>v. as_record_get api r' (gen_bin_name sz name i) = Some v \<and>
        conf_spec (expand (bin_specs o1) ! unat i) v) \<and>
    (\<forall>nm. nm \<notin> gen_bin_name sz name ` set (write_indices o1 wb) \<longrightarrow> as_record_get api r' nm = as_record_get api r nm)"
proof -
  let ?is = "write_indices o1 wb"
  let ?ps = "map (\<lambda>i. (i, expand (bin_specs o1) ! unat i)) ?is"
  note ix = write_indices_ok [OF assms(2)]
  have y: "\<forall>p \<in> set ?ps. yields (bin_spec_random_val om rng ratio (snd p)) (conf_spec (snd p))"
  proof
    fix p
    assume "p \<in> set ?ps"
    then obtain i where i: "p = (i, expand (bin_specs o1) ! unat i)" "i < n_bin_specs o1" using ix(2) by auto
    then have "unat i < length (expand (bin_specs o1))"
      using assms(1) by (simp add: obj_ok_def length_expand word_less_nat_alt)
    then have "snd p \<in> set (bin_specs o1)" using i set_expand [of "bin_specs o1"] nth_mem by fastforce
    then show "yields (bin_spec_random_val om rng ratio (snd p)) (conf_spec (snd p))"
      using assms(1) random_val_ok(1) [OF assms(7-9)] by (auto simp: obj_ok_def list_all_iff)
  qed
  have "inj_on (gen_bin_name sz name) (set ?is)"
    using ix(2) gen_bin_name_inj [OF _ _ _ assms(4-6)] assms(3) by (auto simp: inj_on_def obj_spec_bin_name_compatible_def)
  then have d: "distinct (map (gen_bin_name sz name \<circ> fst) ?ps)" using ix(1) by (simp add: distinct_map comp_def)
  have n: "(case wb of None \<Rightarrow> unat (n_bin_specs o1) | Some idxs \<Rightarrow> length idxs) = length ?is"
    by (cases wb) (simp_all add: write_indices_def)
  show ?thesis
    using populate_list_ok [OF assms(10) y d, of r s] assms(11) bins_to_write_eq [OF assms(1,2)] n
    by (auto simp: obj_spec_populate_bins_def image_image)
qed


text \<open>A record as an association list of at most eight bins, and a specification of three bins.\<close>

definition example_api :: "(string \<times> as_val) list record_api" where
  "example_api =
     \<lparr> as_record_set = (\<lambda>r n v. if length r < 8 then Some (AList.update n v r) else None),
       bins_capacity = (\<lambda>r. 8), as_record_get = map_of, bins_used = length \<rparr>"

lemma example_api_ok: "record_ok example_api"
proof -
  have "length (AList.update n v r) \<le> Suc (length r)" for n v and r :: "(string \<times> as_val) list" by (induction r) auto
  then show ?thesis by (simp add: record_ok_def example_api_def update_conv')
qed

definition example_bins :: obj_spec where
  "example_bins = \<lparr> bin_specs = [Bin 2 (K_int 1), Bin 1 K_bool], n_bin_specs = 3, valid = True \<rparr>"


end
