(* ===== verification/Obj_Free.thy ===== *)
theory Obj_Free
  imports Obj_Wf "HOL-Library.Multiset"
begin

text \<open>
  The memory of specifications: the heap blocks a specification owns, what \<^verbatim>\<open>bin_spec_free\<close> and
  \<^verbatim>\<open>obj_spec_free\<close> release, and the \<^verbatim>\<open>valid\<close> flag as the mark of ownership.
\<close>

section \<open>Blocks\<close>

datatype block =
    Str_block string
  | Spec_array "bin_spec list"
  | Pair_array "kv_pair list"
  | List_block "as_val list"
  | Map_block "(as_val \<times> as_val) list"

primrec owned_spec :: "bin_spec \<Rightarrow> block list" and owned_kind :: "bin_kind \<Rightarrow> block list" and owned_kv :: "kv_pair \<Rightarrow> block list" where
  "owned_spec (Bin n k) = owned_kind k"
| "owned_kind K_bool = []"
| "owned_kind (C_bool b) = []"
| "owned_kind (K_int rg) = []"
| "owned_kind (C_int i) = []"
| "owned_kind (K_str len) = []"
| "owned_kind (C_str s) = [Str_block s]"
| "owned_kind (K_bytes len) = []"
| "owned_kind K_double = []"
| "owned_kind (C_double d) = []"
| "owned_kind (K_list len es) = concat (map owned_spec es) @ [Spec_array es]"
| "owned_kind (C_list vs) = [List_block vs]"
| "owned_kind (K_map len kvs) = concat (map owned_kv kvs) @ [Pair_array kvs]"
| "owned_kind (C_map m) = [Map_block m]"
| "owned_kv (Kv k v) = owned_spec k @ owned_spec v"

section \<open>Releasing\<close>

text \<open>
  The loops over an array of parts: each part has its repetitions and what releasing it releases; the
  loop goes on while the repetitions seen are fewer than \<open>limit\<close>.  Reading past the array is \<open>None\<close>.
\<close>

fun free_loop :: "u32 \<Rightarrow> u32 \<Rightarrow> (u32 \<times> block list option) list \<Rightarrow> block list option" where
  "free_loop limit cnt [] = (if cnt < limit then None else Some [])"
| "free_loop limit cnt ((n, freed) # ps) =
     (if cnt < limit then
        case freed of
          None \<Rightarrow> None
        | Some bs \<Rightarrow> map_option ((@) bs) (free_loop limit (cnt + n) ps)
      else Some [])"

definition free_both :: "block list option \<Rightarrow> block list option \<Rightarrow> block list option" where
  "free_both x y = (case (x, y) of (Some a, Some b) \<Rightarrow> Some (a @ b) | _ \<Rightarrow> None)"

text \<open>
  The loop over the pairs of a map is bounded by the first field of the union read as the length of a
  list, which for a map is the number of its entries.
\<close>

primrec bin_spec_free :: "bin_spec \<Rightarrow> block list option" and bin_kind_free :: "bin_kind \<Rightarrow> block list option"
  and kv_free :: "kv_pair \<Rightarrow> u32 \<times> block list option" where
  "bin_spec_free (Bin n k) = bin_kind_free k"
| "bin_kind_free K_bool = Some []"
| "bin_kind_free (C_bool b) = Some []"
| "bin_kind_free (K_int rg) = Some []"
| "bin_kind_free (C_int i) = Some []"
| "bin_kind_free (K_str len) = Some []"
| "bin_kind_free (C_str s) = Some [Str_block s]"
| "bin_kind_free (K_bytes len) = Some []"
| "bin_kind_free K_double = Some []"
| "bin_kind_free (C_double d) = Some []"
| "bin_kind_free (K_list len es) =
     map_option (\<lambda>bs. bs @ [Spec_array es]) (free_loop len 0 (zip (map n_repeats es) (map bin_spec_free es)))"
| "bin_kind_free (C_list vs) = Some [List_block vs]"
| "bin_kind_free (K_map len kvs) =
     map_option (\<lambda>bs. bs @ [Pair_array kvs]) (free_loop (of_nat (length kvs)) 0 (map kv_free kvs))"
| "bin_kind_free (C_map m) = Some [Map_block m]"
| "kv_free (Kv k v) = (n_repeats k, free_both (bin_spec_free k) (bin_spec_free v))"

definition obj_spec_free :: "obj_spec \<Rightarrow> (block list \<times> obj_spec) option" where
  "obj_spec_free o1 =
     (if valid o1 then
        map_option (\<lambda>bs. (bs @ [Spec_array (bin_specs o1)], o1\<lparr> valid := False \<rparr>))
          (free_loop (n_bin_specs o1) 0 (zip (map n_repeats (bin_specs o1)) (map bin_spec_free (bin_specs o1))))
      else Some ([], o1))"

definition obj_owned :: "obj_spec \<Rightarrow> block list" where
  "obj_owned o1 = concat (map owned_spec (bin_specs o1)) @ [Spec_array (bin_specs o1)]"

section \<open>Lemmas\<close>

text \<open>With a limit that is at least the number of parts and at most the sum of their repetitions, the loop stays in the array.\<close>

lemma free_loop_safe:
  assumes "list_all2 (\<lambda>(n, f) o1. 0 < n \<and> (\<exists>bs. f = Some bs \<and> mset bs \<subseteq># mset o1)) ps os"
    and "unat limit \<le> unat cnt + (\<Sum>p\<leftarrow>ps. unat (fst p))"
    and "unat cnt + (\<Sum>p\<leftarrow>ps. unat (fst p)) < 2 ^ 32"
  shows "\<exists>bs. free_loop limit cnt ps = Some bs \<and> mset bs \<subseteq># mset (concat os)"
  using assms
proof (induction ps os arbitrary: cnt rule: list_all2_induct)
  case Nil
  then show ?case by (simp add: word_less_nat_alt)
next
  case (Cons p ps ow os)
  obtain n bs where p: "p = (n, Some bs)" "mset bs \<subseteq># mset ow" using Cons.hyps(1) by (cases p) auto
  have c: "unat (cnt + n) = unat cnt + unat n" using Cons.prems(2) p by (intro unat_add_no_overflow) simp
  obtain cs where cs: "free_loop limit (cnt + n) ps = Some cs" "mset cs \<subseteq># mset (concat os)"
    using Cons.IH [of "cnt + n"] Cons.prems p c by auto
  show ?case using p cs by (auto simp: subset_mset.add_mono)
qed

text \<open>With the sum of the repetitions as its limit, the loop visits every part.\<close>

lemma free_loop_all:
  assumes "list_all2 (\<lambda>(n, f) o1. 0 < n \<and> f = Some o1) ps os"
    and "unat limit = unat cnt + (\<Sum>p\<leftarrow>ps. unat (fst p))"
  shows "free_loop limit cnt ps = Some (concat os)"
  using assms
proof (induction ps os arbitrary: cnt rule: list_all2_induct)
  case Nil
  then show ?case by (simp add: word_less_nat_alt)
next
  case (Cons p ps ow os)
  obtain n where p: "p = (n, Some ow)" "0 < n" using Cons.hyps(1) by (cases p) auto
  have "unat cnt + unat n < 2 ^ 32" using Cons.prems p unat_u32_lt [of limit] by simp
  then have c: "unat (cnt + n) = unat cnt + unat n" by (intro unat_add_no_overflow) simp
  moreover have "cnt < limit" using Cons.prems p by (simp add: word_less_nat_alt)
  ultimately show ?case using Cons.IH [of "cnt + n"] Cons.prems p by simp
qed

lemma sum_repeats: "(\<Sum>p\<leftarrow>zip (map n_repeats es) fs. unat (fst p)) = (\<Sum>e\<leftarrow>es. unat (n_repeats e))" if "length fs = length es"
proof -
  have "map (\<lambda>p. unat (fst p)) (zip (map n_repeats es) fs) = map (\<lambda>e. unat (n_repeats e)) es"
    using that by (intro nth_equalityI) auto
  then show ?thesis by simp
qed

lemma fst_kv_free: "fst (kv_free kv) = n_repeats (key_spec kv)"
  by (cases kv) simp

lemma key_repeats_pos: "list_all wf_kv kvs \<Longrightarrow> length kvs \<le> (\<Sum>kv\<leftarrow>kvs. key_repeats kv)"
proof (induction kvs)
  case (Cons kv kvs)
  then have "0 < key_repeats kv" by (cases kv; cases "key_spec kv") (auto simp: key_repeats_def unat_gt_0)
  then show ?case using Cons by simp
qed simp

lemma wf_repeats: "wf_spec b \<Longrightarrow> 0 < n_repeats b"
  by (cases b) simp

lemma free_safe:
  shows "wf_spec b \<Longrightarrow> \<exists>bs. bin_spec_free b = Some bs \<and> mset bs \<subseteq># mset (owned_spec b)"
    and "wf_kind k \<Longrightarrow> \<exists>bs. bin_kind_free k = Some bs \<and> mset bs \<subseteq># mset (owned_kind k)"
    and "wf_kv kv \<Longrightarrow> \<exists>bs. snd (kv_free kv) = Some bs \<and> mset bs \<subseteq># mset (owned_kv kv)"
proof (induction b and k and kv)
  case (K_list len es)
  let ?ps = "zip (map n_repeats es) (map bin_spec_free es)"
  have "list_all2 (\<lambda>(n, f) o1. 0 < n \<and> (\<exists>bs. f = Some bs \<and> mset bs \<subseteq># mset o1)) ?ps (map owned_spec es)"
    using K_list by (auto simp: list_all2_conv_all_nth list_all_length wf_repeats)
  moreover have "unat len = (\<Sum>p\<leftarrow>?ps. unat (fst p))" using K_list.prems by (simp add: sum_repeats comp_def)
  ultimately obtain bs where "free_loop len 0 ?ps = Some bs" "mset bs \<subseteq># mset (concat (map owned_spec es))"
    using free_loop_safe [of ?ps "map owned_spec es" len 0] unat_u32_lt [of len] by auto
  then show ?case by (simp del: mset_concat)
next
  case (K_map len kvs)
  have wf: "list_all wf_kv kvs" "unat len = (\<Sum>kv\<leftarrow>kvs. key_repeats kv)" using K_map.prems by (auto simp: list_all_iff)
  have len: "length kvs \<le> unat len" using key_repeats_pos [OF wf(1)] wf(2) by simp
  then have "unat (of_nat (length kvs) :: u32) = length kvs" using unat_u32_lt [of len] by (simp add: unat_of_nat_32)
  moreover have "(\<Sum>p\<leftarrow>map kv_free kvs. unat (fst p)) = unat len" using wf(2) by (simp add: fst_kv_free key_repeats_def comp_def)
  moreover have "list_all2 (\<lambda>(n, f) o1. 0 < n \<and> (\<exists>bs. f = Some bs \<and> mset bs \<subseteq># mset o1)) (map kv_free kvs) (map owned_kv kvs)"
  proof -
    have "0 < fst (kv_free kv) \<and> (\<exists>bs. snd (kv_free kv) = Some bs \<and> mset bs \<subseteq># mset (owned_kv kv))" if "kv \<in> set kvs" for kv
      using K_map.IH [OF that] wf(1) that by (cases kv) (auto simp: list_all_iff dest!: wf_repeats)
    then show ?thesis by (force simp: list_all2_conv_all_nth split_beta)
  qed
  ultimately obtain bs where "free_loop (of_nat (length kvs)) 0 (map kv_free kvs) = Some bs" "mset bs \<subseteq># mset (concat (map owned_kv kvs))"
    using free_loop_safe [of "map kv_free kvs" "map owned_kv kvs" "of_nat (length kvs)" 0] len unat_u32_lt [of len] by auto
  then show ?case by (simp del: mset_concat)
next
  case (Kv k v)
  then show ?case by (auto simp: free_both_def subset_mset.add_mono)
qed auto

text \<open>Specifications in which no map entry is repeated.\<close>

primrec unrep_spec :: "bin_spec \<Rightarrow> bool" and unrep_kind :: "bin_kind \<Rightarrow> bool" and unrep_kv :: "kv_pair \<Rightarrow> bool" where
  "unrep_spec (Bin n k) = unrep_kind k"
| "unrep_kind K_bool = True"
| "unrep_kind (C_bool b) = True"
| "unrep_kind (K_int rg) = True"
| "unrep_kind (C_int i) = True"
| "unrep_kind (K_str len) = True"
| "unrep_kind (C_str s) = True"
| "unrep_kind (K_bytes len) = True"
| "unrep_kind K_double = True"
| "unrep_kind (C_double d) = True"
| "unrep_kind (K_list len es) = list_all id (map unrep_spec es)"
| "unrep_kind (C_list vs) = True"
| "unrep_kind (K_map len kvs) = list_all id (map unrep_kv kvs)"
| "unrep_kind (C_map m) = True"
| "unrep_kv (Kv k v) = (n_repeats k = 1 \<and> unrep_spec k \<and> unrep_spec v)"

lemma free_all:
  shows "wf_spec b \<Longrightarrow> unrep_spec b \<Longrightarrow> bin_spec_free b = Some (owned_spec b)"
    and "wf_kind k \<Longrightarrow> unrep_kind k \<Longrightarrow> bin_kind_free k = Some (owned_kind k)"
    and "wf_kv kv \<Longrightarrow> unrep_kv kv \<Longrightarrow> kv_free kv = (1, Some (owned_kv kv))"
proof (induction b and k and kv)
  case (K_list len es)
  let ?ps = "zip (map n_repeats es) (map bin_spec_free es)"
  have "list_all2 (\<lambda>(n, f) o1. 0 < n \<and> f = Some o1) ?ps (map owned_spec es)"
    using K_list by (auto simp: list_all2_conv_all_nth list_all_length wf_repeats)
  moreover have "unat len = unat 0 + (\<Sum>p\<leftarrow>?ps. unat (fst p))" using K_list.prems by (simp add: sum_repeats comp_def)
  ultimately show ?case using free_loop_all [of ?ps "map owned_spec es" len 0] by simp
next
  case (K_map len kvs)
  have parts: "kv_free kv = (1, Some (owned_kv kv))" if "kv \<in> set kvs" for kv
    using K_map that by (auto simp: list_all_iff)
  have wf: "list_all wf_kv kvs" "unat len = (\<Sum>kv\<leftarrow>kvs. key_repeats kv)" using K_map.prems by (auto simp: list_all_iff)
  have len: "length kvs \<le> unat len" using key_repeats_pos [OF wf(1)] wf(2) by simp
  have "unat (of_nat (length kvs) :: u32) = length kvs" using len unat_u32_lt [of len] by (simp add: unat_of_nat_32)
  moreover have "(\<Sum>p\<leftarrow>map kv_free kvs. unat (fst p)) = length kvs"
  proof -
    have "map (\<lambda>kv. unat (fst (kv_free kv))) kvs = replicate (length kvs) 1"
      using parts by (induction kvs) auto
    then show ?thesis by (simp add: comp_def sum_list_replicate)
  qed
  moreover have "list_all2 (\<lambda>(n, f) o1. 0 < n \<and> f = Some o1) (map kv_free kvs) (map owned_kv kvs)"
    using parts by (simp add: list_all2_conv_all_nth)
  ultimately show ?case
    using free_loop_all [of "map kv_free kvs" "map owned_kv kvs" "of_nat (length kvs)" 0] by simp
next
  case (Kv k v)
  then show ?case by (simp add: free_both_def)
qed auto

text \<open>The array of the bins of a specification.\<close>

lemma free_specs_safe:
  assumes "list_all wf_spec es" and "unat n = (\<Sum>b\<leftarrow>es. unat (n_repeats b))"
  shows "\<exists>bs. free_loop n 0 (zip (map n_repeats es) (map bin_spec_free es)) = Some bs \<and>
           mset bs \<subseteq># mset (concat (map owned_spec es))"
proof -
  let ?ps = "zip (map n_repeats es) (map bin_spec_free es)"
  have "list_all2 (\<lambda>(n, f) o1. 0 < n \<and> (\<exists>bs. f = Some bs \<and> mset bs \<subseteq># mset o1)) ?ps (map owned_spec es)"
    using assms(1) free_safe(1) by (auto simp: list_all2_conv_all_nth list_all_length wf_repeats)
  then show ?thesis
    using free_loop_safe [of ?ps "map owned_spec es" n 0] assms(2) unat_u32_lt [of n] by (simp add: sum_repeats)
qed

section \<open>Properties\<close>

text \<open>
  C32. Freeing a specification that was parsed reads no array past its end, releases only blocks the
  specification owns and none of them twice, and releases all of them when no map entry is repeated; a
  second call, or a call on the specification it was moved from, releases nothing.
\<close>

theorem obj_spec_free_safe:
  assumes "om_ok om" and "obj_spec_parse om base buf = (Parsed o1, o2)"
  shows "\<exists>bs o3. obj_spec_free o1 = Some (bs, o3) \<and> mset bs \<subseteq># mset (obj_owned o1) \<and>
           (list_all unrep_spec (bin_specs o1) \<longrightarrow> bs = obj_owned o1) \<and>
           obj_spec_free o3 = Some ([], o3) \<and>
           (\<exists>dst src. obj_spec_move o1 = Some (dst, src) \<and> obj_spec_free src = Some ([], src) \<and>
                      obj_spec_free dst = Some (bs, o3))"
proof -
  let ?es = "bin_specs o1"
  let ?ps = "zip (map n_repeats ?es) (map bin_spec_free ?es)"
  have ok: "valid o1" "list_all wf_spec ?es" "unat (n_bin_specs o1) = (\<Sum>b\<leftarrow>?es. unat (n_repeats b))"
    using parse_loop_ok [OF assms(1) begin_state_ok, of "cstr buf"] assms(2)
    by (auto simp: obj_spec_parse_def parse_bin_types_def Let_def)
  obtain bs where bs: "free_loop (n_bin_specs o1) 0 ?ps = Some bs" "mset bs \<subseteq># mset (concat (map owned_spec ?es))"
    using free_specs_safe [OF ok(2,3)] by blast
  have len: "unat (n_bin_specs o1) = (\<Sum>p\<leftarrow>?ps. unat (fst p))" using ok(3) by (simp add: sum_repeats)
  have "bs = concat (map owned_spec ?es)" if "list_all unrep_spec ?es"
  proof -
    have "list_all2 (\<lambda>(n, f) o1. 0 < n \<and> f = Some o1) ?ps (map owned_spec ?es)"
      using ok(2) that free_all(1) by (auto simp: list_all2_conv_all_nth list_all_length wf_repeats)
    then show ?thesis using free_loop_all [of ?ps "map owned_spec ?es" "n_bin_specs o1" 0] len bs(1) by simp
  qed
  then show ?thesis
    using bs ok(1) by (simp add: obj_spec_free_def obj_owned_def obj_spec_move_def del: mset_concat)
qed

theorem obj_spec_free_safe_witness:
  "\<exists>o1 bs o3. obj_spec_parse example_om example_obj ''I2,3*b'' = (Parsed o1, o1) \<and>
     obj_spec_free o1 = Some (bs, o3) \<and> mset bs \<subseteq># mset (obj_owned o1)"
proof -
  let ?o = "\<lparr> bin_specs = [Bin 1 (K_int 1), Bin 3 K_bool], n_bin_specs = 4, valid = True \<rparr>"
  have "parse_bin_types example_om ''I2,3*b'' = Parsed ([Bin 1 (K_int 1), Bin 3 K_bool], 4)"
    by (simp add: parse_defs char_defs)
  then have p: "obj_spec_parse example_om example_obj ''I2,3*b'' = (Parsed ?o, ?o)"
    by (simp add: obj_spec_parse_def cstr_def Let_def)
  show ?thesis using obj_spec_free_safe [OF example_ok(3) p] p by blast
qed

text \<open>
  With repeated map entries memory is lost: from the map written \<^verbatim>\<open>{2*I1:b,1:"x"}\<close> the constant
  string of the second entry is never released, because the loop stops at the number of entries while it
  counts repetitions.
\<close>

theorem repeated_entry_leaks:
  "\<exists>b bs. wf_spec b \<and> bin_spec_free b = Some bs \<and> Str_block ''x'' \<in> set (owned_spec b) \<and> Str_block ''x'' \<notin> set bs"
  by (intro exI [of _ "Bin 1 (K_map 3 [Kv (Bin 2 (K_int 0)) (Bin 1 K_bool), Kv (Bin 1 (C_int 1)) (Bin 1 (C_str ''x''))])"])
    (simp add: key_repeats_def free_both_def)

end
