(* ===== verification/Workload.thy ===== *)
theory Workload
  imports Obj_Populate Obj_Free
begin

text \<open>
  Workloads and stages (\<^verbatim>\<open>workload.h\<close> and \<^verbatim>\<open>workload.c\<close>): parsing workload strings, percentages and bin
  selections, setting the defaults of the stages of a run, ownership of the stages, random keys and pauses.
  Reading the YAML file belongs to the library \<^verbatim>\<open>cyaml\<close>; what it produces, the stage definitions, is the
  input here.
\<close>

section \<open>Workload types\<close>

datatype workload_type =
    WORKLOAD_TYPE_I | WORKLOAD_TYPE_RU | WORKLOAD_TYPE_RR | WORKLOAD_TYPE_D | WORKLOAD_TYPE_RUF | WORKLOAD_TYPE_RUD

record workload =
  wtype :: workload_type
  read_pct :: fp
  write_pct :: fp
  read_all_pct :: fp
  write_all_pct :: fp

definition WORKLOAD_UNSET_PCT :: fp where "WORKLOAD_UNSET_PCT = Fin (- 1)"
definition DEFAULT_RANDOM_DURATION :: u64 where "DEFAULT_RANDOM_DURATION = 10"

text \<open>Equality and order of floating point numbers; a NaN is equal to nothing.\<close>

fun fp_eq :: "fp \<Rightarrow> fp \<Rightarrow> bool" where
  "fp_eq NaN y \<longleftrightarrow> False"
| "fp_eq x NaN \<longleftrightarrow> False"
| "fp_eq x y \<longleftrightarrow> x = y"

definition fp_ge :: "fp \<Rightarrow> fp \<Rightarrow> bool" where
  "fp_ge x y \<longleftrightarrow> fp_less y x \<or> fp_eq x y"

text \<open>The value of a double, and its conversion to \<^verbatim>\<open>float\<close>.\<close>

definition double_fp :: "u64 \<Rightarrow> fp" where
  "double_fp d =
     (let b = unat d mod 2 ^ 63; neg = 2 ^ 63 \<le> unat d
      in if b < double_inf then Fin (if neg then - fp_mag 53 1074 b else fp_mag 53 1074 b)
         else if b = double_inf then Inf neg else NaN)"

fun fp_to_float :: "fp \<Rightarrow> fp" where
  "fp_to_float (Fin x) = to_float x"
| "fp_to_float v = v"

definition workload_is_random :: "workload \<Rightarrow> bool" where
  "workload_is_random w \<longleftrightarrow> wtype w \<in> {WORKLOAD_TYPE_RU, WORKLOAD_TYPE_RR, WORKLOAD_TYPE_RUF, WORKLOAD_TYPE_RUD}"

definition workload_contains_reads :: "workload \<Rightarrow> bool" where
  "workload_contains_reads w \<longleftrightarrow>
     wtype w \<in> {WORKLOAD_TYPE_RU, WORKLOAD_TYPE_RR, WORKLOAD_TYPE_RUF, WORKLOAD_TYPE_RUD} \<and> \<not> fp_eq (read_pct w) (Fin 0)"

definition workload_contains_writes :: "workload \<Rightarrow> bool" where
  "workload_contains_writes w \<longleftrightarrow>
     (wtype w \<noteq> WORKLOAD_TYPE_RU \<or> \<not> fp_eq (read_pct w) (Fin 100)) \<and>
     (wtype w \<noteq> WORKLOAD_TYPE_RR \<or> \<not> fp_eq (read_pct w) (Fin 100)) \<and>
     (wtype w \<noteq> WORKLOAD_TYPE_RUF \<or> \<not> fp_eq (write_pct w) (Fin 0)) \<and>
     (wtype w \<noteq> WORKLOAD_TYPE_RUD \<or> \<not> fp_eq (write_pct w) (Fin 0))"

definition workload_contains_deletes :: "workload \<Rightarrow> bool" where
  "workload_contains_deletes w \<longleftrightarrow> wtype w = WORKLOAD_TYPE_D \<or> wtype w = WORKLOAD_TYPE_RUD"

definition workload_contains_udfs :: "workload \<Rightarrow> bool" where
  "workload_contains_udfs w \<longleftrightarrow> wtype w = WORKLOAD_TYPE_RUF"

definition workload_is_infinite :: "workload \<Rightarrow> bool" where
  "workload_is_infinite w \<longleftrightarrow> wtype w \<in> {WORKLOAD_TYPE_RU, WORKLOAD_TYPE_RR, WORKLOAD_TYPE_RUF, WORKLOAD_TYPE_RUD}"

section \<open>Parsing a workload\<close>

datatype workload_error =
    Pct_no_number | Pct_out_of_range | Pct_separator | Pct_count nat | Pct_total | Unknown_workload

text \<open>The list of percentages.\<close>

function parse_workload_distr :: "string \<Rightarrow> fp list \<Rightarrow> workload_error + fp list" where
  "parse_workload_distr str pcts =
     (if str = [] then Inr pcts
      else let (val, endptr, err) = strtod str; pct = fp_to_float (double_fp val)
           in if endptr = str then Inl Pct_no_number
              else if fp_less pct (Fin 0) \<or> fp_less (Fin 100) pct then Inl Pct_out_of_range
              else if peek endptr = CHR '','' then parse_workload_distr (tl endptr) (pcts @ [pct])
              else if endptr \<noteq> [] then Inl Pct_separator
              else parse_workload_distr endptr (pcts @ [pct]))"
  by pat_completeness auto

termination
proof (relation "measure (\<lambda>(str, pcts). length str)", goal_cases)
  case (2 str pcts x val y endptr err pct)
  then have "length endptr < length str" using strtod_progress [of str val endptr err] by auto
  then show ?case by simp
next
  case (3 str pcts x val y endptr err pct)
  then have "length endptr < length str" using strtod_progress [of str val endptr err] by auto
  then show ?case by simp
qed simp

declare parse_workload_distr.simps [simp del]

text \<open>What follows \<^verbatim>\<open>RUF\<close> and \<^verbatim>\<open>RUD\<close>: read and write percentages and, if given, the percentages of whole reads and writes.\<close>

definition opt_pct :: "fp list \<Rightarrow> nat \<Rightarrow> fp" where
  "opt_pct pcts i = (if i < length pcts then pcts ! i else WORKLOAD_UNSET_PCT)"

definition parse_three_way :: "workload_type \<Rightarrow> workload \<Rightarrow> string \<Rightarrow> workload_error + workload" where
  "parse_three_way ty w str =
     (if char_at str 3 = NUL then
        Inr (w\<lparr> wtype := ty, read_pct := Fin 40, write_pct := Fin 40, read_all_pct := WORKLOAD_UNSET_PCT,
                write_all_pct := WORKLOAD_UNSET_PCT \<rparr>)
      else if char_at str 3 = CHR '','' then
        (case parse_workload_distr (drop 4 str) [] of
           Inl e \<Rightarrow> Inl e
         | Inr pcts \<Rightarrow>
             if length pcts < 2 \<or> length pcts > 4 then Inl (Pct_count (length pcts))
             else if fp_ge (f_add (pcts ! 0) (pcts ! 1)) (Fin 100) then Inl Pct_total
             else Inr (w\<lparr> wtype := ty, read_pct := pcts ! 0, write_pct := pcts ! 1,
                          read_all_pct := opt_pct pcts 2, write_all_pct := opt_pct pcts 3 \<rparr>))
      else Inl Unknown_workload)"

definition parse_two_way :: "workload \<Rightarrow> string \<Rightarrow> workload_error + workload" where
  "parse_two_way w str =
     (let ty = (if char_at str 1 = CHR ''U'' then WORKLOAD_TYPE_RU else WORKLOAD_TYPE_RR)
      in if char_at str 2 = NUL then
           Inr (w\<lparr> wtype := ty, read_pct := Fin 50, read_all_pct := WORKLOAD_UNSET_PCT, write_all_pct := WORKLOAD_UNSET_PCT \<rparr>)
         else if char_at str 2 = CHR '','' then
           (case parse_workload_distr (drop 3 str) [] of
              Inl e \<Rightarrow> Inl e
            | Inr pcts \<Rightarrow>
                if length pcts < 1 \<or> length pcts > 3 then Inl (Pct_count (length pcts))
                else Inr (w\<lparr> wtype := ty, read_pct := pcts ! 0,
                             read_all_pct := opt_pct pcts 1, write_all_pct := opt_pct pcts 2 \<rparr>))
         else Inl Unknown_workload)"

text \<open>The fields a type does not set keep what the memory held.\<close>

definition parse_workload_type :: "workload \<Rightarrow> string \<Rightarrow> workload_error + workload" where
  "parse_workload_type w str =
     (if str = ''I'' then Inr (w\<lparr> wtype := WORKLOAD_TYPE_I, write_all_pct := WORKLOAD_UNSET_PCT \<rparr>)
      else if strneq str ''RUF'' 3 then parse_three_way WORKLOAD_TYPE_RUF w str
      else if strneq str ''RUD'' 3 then parse_three_way WORKLOAD_TYPE_RUD w str
      else if strneq str ''RU'' 2 \<or> strneq str ''RR'' 2 then parse_two_way w str
      else if str = ''DB'' then Inr (w\<lparr> wtype := WORKLOAD_TYPE_D, write_all_pct := WORKLOAD_UNSET_PCT \<rparr>)
      else Inl Unknown_workload)"

section \<open>Bin selections\<close>

datatype bins_error = Not_a_number nat | Bin_zero | No_such_bin u64 | Not_ascending u64 u64

text \<open>The indices of a comma-separated list of 1-based bin numbers.\<close>

function parse_bins_loop :: "u32 \<Rightarrow> string \<Rightarrow> u64 \<Rightarrow> u64 list \<Rightarrow> bins_error + u64 list" where
  "parse_bins_loop n_bins str prev idxs =
     (if str = [] then Inr idxs
      else let (bin_num, endptr, err) = strtoul str 10
           in if endptr \<noteq> [] \<and> peek endptr \<noteq> CHR '','' \<or> endptr = str then Inl (Not_a_number (length idxs + 1))
              else if bin_num = 0 then Inl Bin_zero
              else if bin_num > ucast n_bins then Inl (No_such_bin bin_num)
              else if bin_num \<le> prev then Inl (Not_ascending bin_num prev)
              else parse_bins_loop n_bins (if peek endptr = CHR '','' then tl endptr else endptr) bin_num (idxs @ [bin_num - 1]))"
  by pat_completeness auto

termination
proof (relation "measure (\<lambda>(n, str, prev, idxs). length str)", goal_cases)
  case (2 n_bins str prev idxs x bin_num y endptr err)
  then have "length endptr < length str" using strtoul_progress [of str 10 bin_num endptr err] by auto
  then show ?case by auto
qed simp

declare parse_bins_loop.simps [simp del]

text \<open>The two modes of \<^verbatim>\<open>_parse_bins_selection\<close>: bin names and bin indices.\<close>

definition parse_read_bins :: "nat \<Rightarrow> string \<Rightarrow> obj_spec \<Rightarrow> string \<Rightarrow> bins_error + string list" where
  "parse_read_bins sz bins_str o1 bin_name =
     map_sum id (map (\<lambda>i. gen_bin_name sz bin_name (ucast i))) (parse_bins_loop (obj_spec_n_bins o1) bins_str 0 [])"

definition parse_write_bins :: "string \<Rightarrow> obj_spec \<Rightarrow> bins_error + u32 list" where
  "parse_write_bins bins_str o1 = map_sum id (map ucast) (parse_bins_loop (obj_spec_n_bins o1) bins_str 0 [])"

section \<open>Stages\<close>

record stage_def =
  sd_duration :: u64
  sd_desc :: "string option"
  sd_tps :: u64
  sd_ttl :: u64
  sd_key_start :: u64
  sd_key_end :: u64
  sd_pause :: u64
  sd_batch_size :: u32
  sd_batch_read_size :: u32
  sd_batch_write_size :: u32
  sd_batch_delete_size :: u32
  sd_async :: bool
  sd_random :: bool
  sd_stage_idx :: "16 word"
  sd_workload_str :: string
  sd_obj_spec_str :: "string option"
  sd_read_bins_str :: "string option"
  sd_write_bins_str :: "string option"
  sd_udf_package_name :: "string option"
  sd_udf_fn_name :: "string option"
  sd_udf_fn_args :: "string option"

text \<open>A pointer to an array of bins: not initialised, NULL, or the elements.\<close>

datatype 'a bins_ptr = Wild | Null_bins | Bins "'a list"

record stage =
  duration :: u64
  desc :: "string option"
  tps :: u64
  ttl :: u64
  key_start :: u64
  key_end :: u64
  pause :: u64
  batch_size :: u32
  batch_read_size :: u32
  batch_write_size :: u32
  batch_delete_size :: u32
  async :: bool
  random :: bool
  stage_workload :: workload
  stage_obj :: obj_spec
  read_bins :: "string bins_ptr"
  write_bins :: "u32 bins_ptr"
  udf_package_name :: string
  udf_fn_name :: string
  udf_args :: "obj_spec option"

record stages =
  stage_list :: "stage list"
  stages_valid :: bool

text \<open>The global settings that stages fall back on: \<^verbatim>\<open>start_key\<close>, \<^verbatim>\<open>keys\<close>, \<^verbatim>\<open>bin_name\<close> and the sizes of the name types.\<close>

record stage_env =
  env_start_key :: u64
  env_keys :: u64
  env_bin_name :: string
  bin_name_size :: nat
  module_name_size :: nat
  function_name_size :: nat

subsection \<open>The defaults of one stage, in the order of the code\<close>

text \<open>Plain fields and keys; the flag tells whether there has been no error so far.\<close>

definition set_keys :: "stage_env \<Rightarrow> stage_def \<Rightarrow> stage \<Rightarrow> bool \<Rightarrow> stage \<times> bool" where
  "set_keys env sd st ok =
     (let ks = (if sd_key_start sd = - 1 then env_start_key env else sd_key_start sd);
          ke = (if sd_key_end sd = - 1 then ks + env_keys env else sd_key_end sd)
      in (st\<lparr> desc := sd_desc sd, tps := sd_tps sd, pause := sd_pause sd, async := sd_async sd, random := sd_random sd,
              ttl := sd_ttl sd, key_start := ks, key_end := ke \<rparr>,
          ok \<and> \<not> ke \<le> ks))"

definition set_batches :: "nat \<Rightarrow> stage_def \<Rightarrow> stage \<times> bool \<Rightarrow> stage \<times> bool" where
  "set_batches i sd p =
     (let (st, ok) = p; bs = max (sd_batch_size sd) 1; pick = \<lambda>n. if n \<noteq> 0 then n else bs
      in (st\<lparr> batch_size := bs, batch_read_size := pick (sd_batch_read_size sd),
              batch_write_size := pick (sd_batch_write_size sd), batch_delete_size := pick (sd_batch_delete_size sd) \<rparr>,
          ok \<and> unat (sd_stage_idx sd) = i + 1))"

definition default_all_pct :: "string option \<Rightarrow> fp" where
  "default_all_pct bins_str = (if bins_str = None then Fin 100 else Fin 0)"

definition set_workload :: "stage_def \<Rightarrow> stage \<times> bool \<Rightarrow> stage \<times> bool" where
  "set_workload sd p =
     (let (st, ok) = p;
          (w, ok) = (case parse_workload_type (stage_workload st) (sd_workload_str sd) of
                       Inl e \<Rightarrow> (stage_workload st, False)
                     | Inr w \<Rightarrow> (w, ok));
          ok = (ok \<and> \<not> (wtype w = WORKLOAD_TYPE_D \<and> random st));
          w = (if workload_contains_reads w \<and> fp_eq (read_all_pct w) WORKLOAD_UNSET_PCT
               then w\<lparr> read_all_pct := default_all_pct (sd_read_bins_str sd) \<rparr> else w);
          w = (if workload_contains_writes w \<and> fp_eq (write_all_pct w) WORKLOAD_UNSET_PCT
               then w\<lparr> write_all_pct := default_all_pct (sd_write_bins_str sd) \<rparr> else w);
          d = (if sd_duration sd = - 1 then if workload_is_infinite w then DEFAULT_RANDOM_DURATION else 0
               else sd_duration sd)
      in (st\<lparr> stage_workload := w, duration := d \<rparr>, ok))"

text \<open>The object specification, given or inherited; the third component is what the next stage inherits.\<close>

definition set_obj_spec :: "om_setter \<Rightarrow> stage_def \<Rightarrow> obj_spec \<Rightarrow> stage \<times> bool \<Rightarrow> stage \<times> bool \<times> obj_spec" where
  "set_obj_spec om sd prev p =
     (let (st, ok) = p
      in case sd_obj_spec_str sd of
           None \<Rightarrow> (st\<lparr> stage_obj := obj_spec_shallow_copy prev \<rparr>, ok, prev)
         | Some s \<Rightarrow>
             if ok then
               (case obj_spec_parse om (stage_obj st) s of
                  (Parsed o1, _) \<Rightarrow> (st\<lparr> stage_obj := o1 \<rparr>, True, o1)
                | (_, o2) \<Rightarrow> (st\<lparr> stage_obj := o2\<lparr> valid := False \<rparr> \<rparr>, False, prev))
             else (st\<lparr> stage_obj := (stage_obj st)\<lparr> valid := False \<rparr> \<rparr>, False, prev))"

text \<open>The bins that are selected when a list is given, when only the first one is meant, or none.\<close>

definition bins_choice :: "string option \<Rightarrow> bool \<Rightarrow> fp \<Rightarrow> string option" where
  "bins_choice given contains all_pct =
     (case given of
        Some s \<Rightarrow> Some s
      | None \<Rightarrow> if contains \<and> fp_less all_pct (Fin 100) then Some ''1'' else None)"

definition set_read_bins :: "stage_env \<Rightarrow> stage_def \<Rightarrow> stage \<times> bool \<Rightarrow> stage \<times> bool" where
  "set_read_bins env sd p =
     (let (st, ok) = p; w = stage_workload st; reads = workload_contains_reads w
      in case bins_choice (sd_read_bins_str sd) reads (read_all_pct w) of
           None \<Rightarrow> (st\<lparr> read_bins := Null_bins \<rparr>, ok)
         | Some s \<Rightarrow>
             if \<not> reads then (st, False)
             else case parse_read_bins (bin_name_size env) s (stage_obj st) (env_bin_name env) of
                    Inl e \<Rightarrow> (st\<lparr> read_bins := Null_bins \<rparr>, False)
                  | Inr names \<Rightarrow> (st\<lparr> read_bins := Bins names \<rparr>, ok))"

definition set_write_bins :: "stage_def \<Rightarrow> stage \<times> bool \<Rightarrow> stage \<times> bool" where
  "set_write_bins sd p =
     (let (st, ok) = p; w = stage_workload st; writes = workload_contains_writes w
      in case bins_choice (sd_write_bins_str sd) writes (write_all_pct w) of
           None \<Rightarrow> (st\<lparr> write_bins := Null_bins \<rparr>, ok)
         | Some s \<Rightarrow>
             if \<not> writes then (st, False)
             else case parse_write_bins s (stage_obj st) of
                    Inl e \<Rightarrow> (st\<lparr> write_bins := Null_bins \<rparr>, False)
                  | Inr idxs \<Rightarrow> (st\<lparr> write_bins := Bins idxs \<rparr>, ok))"

definition empty_obj :: obj_spec where
  "empty_obj = \<lparr> bin_specs = [], n_bin_specs = 0, valid = False \<rparr>"

definition set_udf :: "om_setter \<Rightarrow> stage_env \<Rightarrow> stage_def \<Rightarrow> stage \<times> bool \<Rightarrow> stage \<times> bool" where
  "set_udf om env sd p =
     (let (st, ok) = p
      in if workload_contains_udfs (stage_workload st) then
           case (sd_udf_fn_name sd, sd_udf_package_name sd) of
             (None, _) \<Rightarrow> (st\<lparr> udf_args := Some empty_obj \<rparr>, False)
           | (_, None) \<Rightarrow> (st\<lparr> udf_args := Some empty_obj \<rparr>, False)
           | (Some fname, Some pname) \<Rightarrow>
               if ok then
                 let st = st\<lparr> udf_package_name := take (module_name_size env) pname, udf_fn_name := take (function_name_size env) fname \<rparr>;
                     (r, o2) = obj_spec_parse om empty_obj (case sd_udf_fn_args sd of None \<Rightarrow> [] | Some s \<Rightarrow> s)
                 in (st\<lparr> udf_args := Some o2 \<rparr>, case r of Parsed _ \<Rightarrow> True | _ \<Rightarrow> False)
               else (st, False)
         else (st, ok \<and> sd_udf_package_name sd = None \<and> sd_udf_fn_name sd = None \<and> sd_udf_fn_args sd = None))"

definition set_stage ::
  "om_setter \<Rightarrow> stage_env \<Rightarrow> nat \<Rightarrow> stage_def \<Rightarrow> stage \<Rightarrow> bool \<Rightarrow> obj_spec \<Rightarrow> stage \<times> bool \<times> obj_spec" where
  "set_stage om env i sd st ok prev =
     (let (st, ok, prev) = set_obj_spec om sd prev (set_workload sd (set_batches i sd (set_keys env sd st ok)));
          (st, ok) = set_udf om env sd (set_write_bins sd (set_read_bins env sd (st, ok)))
      in (st, ok, prev))"

fun set_stages ::
  "om_setter \<Rightarrow> stage_env \<Rightarrow> nat \<Rightarrow> (stage_def \<times> stage) list \<Rightarrow> bool \<Rightarrow> obj_spec \<Rightarrow> stage list \<times> bool" where
  "set_stages om env i [] ok prev = ([], ok)"
| "set_stages om env i ((sd, st) # ps) ok prev =
     (let (st, ok, prev) = set_stage om env i sd st ok prev;
          (sts, ok) = set_stages om env (Suc i) ps ok prev
      in (st # sts, ok))"

subsection \<open>Releasing stages\<close>

text \<open>The heap blocks that stages own.\<close>

datatype stage_block = Text_block string | Obj_block block | Read_array "string list" | Write_array "u32 list" | Stages_array

text \<open>Freeing a pointer that was never initialised is undefined, \<open>None\<close>.\<close>

fun free_bins :: "('a list \<Rightarrow> stage_block list) \<Rightarrow> 'a bins_ptr \<Rightarrow> stage_block list option" where
  "free_bins blocks Wild = None"
| "free_bins blocks Null_bins = Some []"
| "free_bins blocks (Bins xs) = Some (blocks xs)"

definition free_obj :: "obj_spec \<Rightarrow> stage_block list option" where
  "free_obj o1 = map_option (\<lambda>(bs, o2). map Obj_block bs) (obj_spec_free o1)"

text \<open>The names are freed up to the terminating NULL, then the array.\<close>

definition free_stage :: "stage \<Rightarrow> stage_block list option" where
  "free_stage st =
     map_option concat (those
       [Some (case desc st of None \<Rightarrow> [] | Some d \<Rightarrow> [Text_block d]),
        free_obj (stage_obj st),
        free_bins (\<lambda>names. map Text_block names @ [Read_array names]) (read_bins st),
        free_bins (\<lambda>idxs. [Write_array idxs]) (write_bins st),
        if workload_contains_udfs (stage_workload st) then Option.bind (udf_args st) free_obj else Some []])"

definition free_workload_config :: "stages \<Rightarrow> stage_block list option" where
  "free_workload_config ss =
     (if stages_valid ss then map_option (\<lambda>bs. concat bs @ [Stages_array]) (those (map free_stage (stage_list ss))) else Some [])"

text \<open>
  \<^verbatim>\<open>stages_set_defaults_and_parse\<close>: the stages are built in freshly allocated memory, \<open>mem\<close>; after an error
  they are released and marked invalid.  The flag is a return of 0.
\<close>

definition stages_set_defaults_and_parse ::
  "om_setter \<Rightarrow> stage_env \<Rightarrow> obj_spec \<Rightarrow> stage list \<Rightarrow> stage_def list \<Rightarrow> (stages \<times> bool) option" where
  "stages_set_defaults_and_parse om env global_obj mem defs =
     (let (sts, ok) = set_stages om env 0 (zip defs mem) True global_obj;
          ss = \<lparr> stage_list = sts, stages_valid = True \<rparr>
      in if ok then Some (ss, True)
         else map_option (\<lambda>bs. (ss\<lparr> stages_valid := False \<rparr>, False)) (free_workload_config ss))"

definition stages_move :: "stages \<Rightarrow> (stages \<times> stages) option" where
  "stages_move src = (if stages_valid src then Some (src\<lparr> stages_valid := True \<rparr>, src\<lparr> stages_valid := False \<rparr>) else None)"

definition stages_shallow_copy :: "stages \<Rightarrow> stages" where
  "stages_shallow_copy src = src\<lparr> stages_valid := False \<rparr>"

definition stages_contain_writes :: "stages \<Rightarrow> bool" where
  "stages_contain_writes ss = list_ex (\<lambda>st. workload_contains_writes (stage_workload st)) (stage_list ss)"

definition stages_contain_reads :: "stages \<Rightarrow> bool" where
  "stages_contain_reads ss = list_ex (\<lambda>st. workload_contains_reads (stage_workload st)) (stage_list ss)"

definition stages_contain_udfs :: "stages \<Rightarrow> bool" where
  "stages_contain_udfs ss = list_ex (\<lambda>st. workload_contains_udfs (stage_workload st)) (stage_list ss)"

definition stages_contain_async :: "stages \<Rightarrow> bool" where
  "stages_contain_async ss = list_ex async (stage_list ss)"

definition stages_contain_random :: "stages \<Rightarrow> bool" where
  "stages_contain_random ss = list_ex random (stage_list ss)"

section \<open>Random keys and pauses\<close>

definition stage_gen_random_key :: "'r as_random \<Rightarrow> stage \<Rightarrow> 'r \<Rightarrow> (u64 \<times> 'r) option" where
  "stage_gen_random_key rng st r =
     map_option (\<lambda>(x, r'). (x + key_start st, r')) (gen_rand_range_64 (next_uint64 rng) r (key_end st - key_start st))"

text \<open>The number of milliseconds slept, with the generator afterwards.\<close>

definition stage_random_pause :: "'r as_random \<Rightarrow> stage \<Rightarrow> 'r \<Rightarrow> (u64 \<times> 'r) option" where
  "stage_random_pause rng st r =
     (let p = ucast (pause st) :: u32
      in if p \<noteq> 0 then map_option (\<lambda>(x, r'). (ucast (x + 1) * 1000, r')) (gen_rand_range (next_uint32 rng) r p)
         else Some (0, r))"

end
