(* ===== verification/Throttle.thy ===== *)
theory Throttle
  imports Common Floating
begin

text \<open>
  The dynamic throttle of \<^verbatim>\<open>dynamic_throttle.c\<close>, which keeps the rate of transactions of a thread at
  its target: it learns a rolling average of the time a transaction takes beyond the pauses and
  returns how long to pause so that transactions start one target period apart.

  The conversion of a floating-point number outside the range of the integer type is undefined in C;
  what the machine gives there is the parameter \<open>cvt\<close>.
\<close>

section \<open>State and operations\<close>

definition DYN_THROTTLE_N :: u64 where "DYN_THROTTLE_N = 20"

definition DYN_THROTTLE_ALPHA :: fp where "DYN_THROTTLE_ALPHA = f_div (Fin 1) (Fin 20)"

record dyn_throttle =
  n_records :: u64
  last_rec :: u64
  target_period :: fp
  avg_fn_delay :: fp

definition to_int64 :: "(fp \<Rightarrow> u64) \<Rightarrow> fp \<Rightarrow> u64" where
  "to_int64 cvt v =
     (case v of Fin x \<Rightarrow> if - (2 ^ 63) - 1 < x \<and> x < 2 ^ 63 then of_int (if 0 \<le> x then \<lfloor>x\<rfloor> else \<lceil>x\<rceil>) else cvt v
              | _ \<Rightarrow> cvt v)"

definition to_uint64 :: "(fp \<Rightarrow> u64) \<Rightarrow> fp \<Rightarrow> u64" where
  "to_uint64 cvt v = (case fp_to_unsigned 64 v of Some n \<Rightarrow> of_nat n | None \<Rightarrow> cvt v)"

definition dyn_throttle_init :: "dyn_throttle \<Rightarrow> fp \<Rightarrow> dyn_throttle" where
  "dyn_throttle_init thr target =
     thr\<lparr> target_period := target, avg_fn_delay := Fin 0, n_records := 0 \<rparr>"

definition dyn_throttle_reset_time :: "(fp \<Rightarrow> u64) \<Rightarrow> dyn_throttle \<Rightarrow> u64 \<Rightarrow> dyn_throttle" where
  "dyn_throttle_reset_time cvt thr new_rec =
     thr\<lparr> last_rec := new_rec - to_int64 cvt (nearbyintf (avg_fn_delay thr)),
          n_records := ramp (n_records thr - 1) \<rparr>"

text \<open>The new average: weight \<open>alpha\<close> for the newest delay.\<close>

definition new_avg :: "fp \<Rightarrow> dyn_throttle \<Rightarrow> u64 \<Rightarrow> fp" where
  "new_avg alpha dt rec =
     f_add (f_mul (f_sub (Fin 1) alpha) (avg_fn_delay dt)) (f_mul alpha (f_of_nat (unat (rec - last_rec dt))))"

definition dyn_throttle_pause_for :: "(fp \<Rightarrow> u64) \<Rightarrow> dyn_throttle \<Rightarrow> u64 \<Rightarrow> u64 \<times> dyn_throttle" where
  "dyn_throttle_pause_for cvt dt rec =
     (let (pause_for, avg) =
        (if n_records dt < DYN_THROTTLE_N then
           if n_records dt = 0 then (to_uint64 cvt (nearbyintf (target_period dt)), avg_fn_delay dt)
           else
             let alpha = f_div (Fin 1) (f_of_nat (unat (n_records dt)));
                 avg = new_avg alpha dt rec
             in (ramp (to_uint64 cvt (nearbyintf (f_sub (target_period dt) avg))), avg)
         else
           let avg = new_avg DYN_THROTTLE_ALPHA dt rec
           in (ramp (to_uint64 cvt (nearbyintf (f_sub (target_period dt) avg))), avg))
      in (pause_for, dt\<lparr> avg_fn_delay := avg, last_rec := rec + pause_for, n_records := n_records dt + 1 \<rparr>))"

section \<open>The average stays within bounds\<close>

text \<open>
  The average is a finite number between 0 and \<open>2 ^ 65\<close> and the target a finite number below
  \<open>2 ^ 63\<close>; both are numbers of the format.
\<close>

definition throttle_ok :: "dyn_throttle \<Rightarrow> bool" where
  "throttle_ok thr \<longleftrightarrow>
     (\<exists>a t. avg_fn_delay thr = Fin a \<and> 0 \<le> a \<and> a \<le> 2 ^ 65 \<and> is_float a \<and>
            target_period thr = Fin t \<and> 0 \<le> t \<and> t < 2 ^ 63 \<and> is_float t)"

lemma is_float_0: "is_float 0"
  unfolding is_float_def by (rule exI [of _ 0]) (simp add: fp_mag_def)

lemma is_float_power: "e \<le> 100 \<Longrightarrow> is_float (2 ^ e)"
  using is_float_scale [OF is_float_1, of e] by simp

lemma f_of_nat_u64: "\<exists>d. f_of_nat (unat (x :: u64)) = Fin d \<and> 0 \<le> d \<and> d \<le> 2 ^ 64 \<and> is_float d"
proof -
  have "of_nat (unat x) \<le> (of_nat (2 ^ 64) :: rat)" using unat_u64_lt [of x] by (intro of_nat_mono) simp
  then have "of_nat (unat x) \<le> (2 ^ 64 :: rat)" by (simp only: of_nat_power of_nat_numeral)
  from to_float_between [OF of_nat_0_le_iff this is_float_power]
  obtain d where "to_float (of_nat (unat x)) = Fin d" "0 \<le> d" "d \<le> 2 ^ 64" by fastforce
  then show ?thesis unfolding f_of_nat_def using to_float_is_float by blast
qed

text \<open>The weights: \<open>alpha\<close> is not too small, so that the average contracts despite rounding.\<close>

lemma weight_ok:
  assumes "1 / 20 \<le> x" and "x \<le> 1"
  shows "\<exists>al c. to_float x = Fin al \<and> f_sub (Fin 1) (Fin al) = Fin c \<and>
           0 \<le> al \<and> al \<le> 1 \<and> is_float al \<and> 0 \<le> c \<and> c \<le> 1 \<and> is_float c \<and> 2 * c + al \<le> 2"
proof -
  obtain al where al: "to_float x = Fin al" "\<bar>al - x\<bar> \<le> 1 / 2 ^ 24" "0 \<le> al" "al \<le> 1" "is_float al"
    using to_float_error [of x] assms by auto
  obtain c where c: "to_float (1 - al) = Fin c" "\<bar>c - (1 - al)\<bar> \<le> 1 / 2 ^ 24" "0 \<le> c" "c \<le> 1" "is_float c"
    using to_float_error [of "1 - al"] al by auto
  have "f_sub (Fin 1) (Fin al) = Fin c" using c(1) by (simp add: f_sub_def)
  moreover have "(1 / 2 ^ 24 :: rat) \<le> 1 / 1000" by simp
  then have "x - 1 / 1000 \<le> al" "c \<le> 1 - al + 1 / 1000" using al(2) c(2) by (simp_all only: abs_le_iff) linarith+
  then have "2 * c + al \<le> 2" using assms(1) by linarith
  ultimately show ?thesis using al c by blast
qed

lemma new_avg_ok:
  assumes "throttle_ok dt" and "1 / 20 \<le> x" and "x \<le> 1"
  shows "\<exists>a. new_avg (to_float x) dt rec = Fin a \<and> 0 \<le> a \<and> a \<le> 2 ^ 65 \<and> is_float a"
proof -
  obtain al c where w: "to_float x = Fin al" "f_sub (Fin 1) (Fin al) = Fin c" "0 \<le> al" "al \<le> 1" "is_float al"
    "0 \<le> c" "c \<le> 1" "is_float c" "2 * c + al \<le> 2"
    using weight_ok [OF assms(2,3)] by blast
  obtain a where a: "avg_fn_delay dt = Fin a" "0 \<le> a" "a \<le> 2 ^ 65" using assms(1) by (auto simp: throttle_ok_def)
  obtain d where d: "f_of_nat (unat (rec - last_rec dt)) = Fin d" "0 \<le> d" "d \<le> 2 ^ 64"
    using f_of_nat_u64 by blast
  have "c * a \<le> c * 2 ^ 65" "al * d \<le> al * 2 ^ 64" using a d w by (simp_all add: mult_left_mono)
  then obtain u v where uv: "to_float (c * a) = Fin u" "0 \<le> u" "u \<le> c * 2 ^ 65"
      "to_float (al * d) = Fin v" "0 \<le> v" "v \<le> al * 2 ^ 64"
    using to_float_between [of "c * a" "c * 2 ^ 65"] to_float_between [of "al * d" "al * 2 ^ 64"]
      is_float_scale [of c 65] is_float_scale [of al 64] a d w by auto
  have "u + v \<le> (2 * c + al) * 2 ^ 64" using uv by simp
  also have "\<dots> \<le> 2 * 2 ^ 64" using w(9) by simp
  finally obtain y where "to_float (u + v) = Fin y" "0 \<le> y" "y \<le> 2 ^ 65"
    using to_float_between [of "u + v" "2 ^ 65"] is_float_power [of 65] uv by auto
  then show ?thesis
    using w(1,2) a(1) d(1) uv to_float_is_float by (simp add: new_avg_def)
qed

text \<open>The weight is at least that of the steady state.\<close>

lemma weights:
  "n \<noteq> 0 \<Longrightarrow> n < DYN_THROTTLE_N \<Longrightarrow>
     \<exists>x. f_div (Fin 1) (f_of_nat (unat n)) = to_float x \<and> 1 / 20 \<le> x \<and> x \<le> 1"
  "DYN_THROTTLE_ALPHA = to_float (1 / 20)"
proof -
  assume n: "n \<noteq> 0" "n < DYN_THROTTLE_N"
  then have u: "0 < unat n" "unat n < 20" by (simp_all add: unat_gt_0 DYN_THROTTLE_N_def word_less_nat_alt)
  have "is_float (of_nat (unat n) * 2 ^ 149 / 2 ^ 149)" using u by (intro is_float_intro) auto
  then have "f_of_nat (unat n) = Fin (of_nat (unat n))" by (simp add: f_of_nat_def to_float_exact)
  then have "f_div (Fin 1) (f_of_nat (unat n)) = to_float (1 / of_nat (unat n))"
    using u by (simp del: of_nat_unat)
  moreover have r: "1 \<le> (of_nat (unat n) :: rat)" "(of_nat (unat n) :: rat) \<le> 20" using u by linarith+
  then have "1 / 20 \<le> 1 / (of_nat (unat n) :: rat)" "1 / (of_nat (unat n) :: rat) \<le> 1 / 1"
    by (intro divide_left_mono; linarith)+
  ultimately show "\<exists>x. f_div (Fin 1) (f_of_nat (unat n)) = to_float x \<and> 1 / 20 \<le> x \<and> x \<le> 1" by (metis div_by_1)
qed (simp add: DYN_THROTTLE_ALPHA_def)

lemma ramp_eq: "ramp a = (if bit a 63 then 0 else a)"
proof -
  have "signed_drop_bit 63 a = (if bit a 63 then - 1 else 0)"
  proof (rule bit_eqI)
    fix n
    show "bit (signed_drop_bit 63 a) n \<longleftrightarrow> bit (if bit a 63 then - 1 else 0 :: u64) n"
      if "possible_bit TYPE(u64) n"
      using that by (cases "n = 0") (auto simp: bit_simps)
  qed
  then show ?thesis by (simp add: ramp_def)
qed

lemma ramp_le: "unat (ramp a) \<le> unat a"
  by (simp add: ramp_eq)

section \<open>The pause\<close>

lemma to_uint64_int: "0 \<le> r \<Longrightarrow> r < 2 ^ 64 \<Longrightarrow> to_uint64 cvt (Fin (of_int r)) = of_nat (nat r)"
  by (simp add: to_uint64_def fp_to_unsigned_def)

text \<open>
  What the parameter is assumed to give for numbers of -1 and below: a word that \<^verbatim>\<open>ramp\<close> takes to 0,
  as the two's complement result of x86-64 and the saturated result of ARM are.
\<close>

definition cvt_ok :: "(fp \<Rightarrow> u64) \<Rightarrow> bool" where
  "cvt_ok cvt \<longleftrightarrow> (\<forall>x \<le> - 1. ramp (cvt (Fin x)) = 0) \<and> ramp (cvt (Inf True)) = 0"

lemma pause_zero:
  assumes "cvt_ok cvt" and "t < a"
  shows "ramp (to_uint64 cvt (nearbyintf (to_float (t - a)))) = 0"
proof -
  have "to_float (t - a) = fp_neg (to_float (a - t))" using to_float_neg [of "a - t"] assms(2) by simp
  moreover have "to_float (a - t) = Inf False \<or> (\<exists>y \<ge> 0. to_float (a - t) = Fin y)"
    using assms(2) by (simp add: to_float_def fp_round_def Let_def fp_mag_nonneg)
  ultimately consider "to_float (t - a) = Inf True" | y where "0 \<le> y" "to_float (t - a) = Fin (- y)" by auto
  then show ?thesis
  proof cases
    case 1
    then show ?thesis using assms(1) by (simp add: cvt_ok_def to_uint64_def fp_to_unsigned_def)
  next
    case 2
    let ?r = "round_even (- y)"
    have "?r \<le> round_even (of_int 0)" using 2(1) by (intro round_even_mono) simp
    then have "?r \<le> 0" by (simp only: round_even_int)
    then consider "?r = 0" | "?r \<le> - 1" by linarith
    then show ?thesis
    proof cases
      case 1
      then show ?thesis using 2(2) to_uint64_int [of 0 cvt] by (simp add: ramp_def)
    next
      case neg: 2
      then have "of_int ?r \<le> (- 1 :: rat)" by (metis of_int_le_iff of_int_minus of_int_1)
      then show ?thesis
        using assms(1) 2(2) by (simp add: cvt_ok_def to_uint64_def fp_to_unsigned_def)
    qed
  qed
qed

lemma pause_bound:
  assumes t: "0 \<le> t" "t < 2 ^ 63" "is_float t" and a: "0 \<le> a" and cvt: "cvt_ok cvt"
  shows "unat (ramp (to_uint64 cvt (nearbyintf (f_sub (Fin t) (Fin a))))) \<le> nat (round_even t)"
proof (cases "a \<le> t")
  case True
  then obtain y where y: "to_float (t - a) = Fin y" "0 \<le> y" "y \<le> t"
    using to_float_between [of "t - a" t] t(3) a by auto
  have ryt: "round_even y \<le> round_even t" using y(3) by (rule round_even_mono)
  have "round_even t \<le> round_even (of_int (2 ^ 63))" using t(2) by (intro round_even_mono) simp
  then have "round_even t \<le> 2 ^ 63" by (simp only: round_even_int)
  then have r: "0 \<le> round_even y" "round_even y < 2 ^ 64"
    using ryt round_even_nonneg [OF y(2)] by simp_all
  have "f_sub (Fin t) (Fin a) = Fin y" using y(1) by (simp add: f_sub_def)
  then have "to_uint64 cvt (nearbyintf (f_sub (Fin t) (Fin a))) = of_nat (nat (round_even y))"
    using to_uint64_int [OF r] by simp
  moreover have "unat (of_nat (nat (round_even y)) :: u64) \<le> nat (round_even y)"
    by (simp only: unat_of_nat mod_less_eq_dividend)
  moreover have "nat (round_even y) \<le> nat (round_even t)" using ryt by simp
  ultimately show ?thesis using ramp_le [of "to_uint64 cvt (nearbyintf (f_sub (Fin t) (Fin a)))"] by simp
next
  case False
  then show ?thesis using pause_zero [OF cvt, of t a] by (simp add: f_sub_def)
qed

section \<open>Properties\<close>


definition example_throttle :: dyn_throttle where
  "example_throttle = \<lparr> n_records = 5, last_rec = 1000, target_period = Fin 100, avg_fn_delay = Fin 0 \<rparr>"

lemma example_throttle_ok: "throttle_ok example_throttle"
proof -
  have "is_float (of_nat 100 * 2 ^ 149 / 2 ^ 149)" by (intro is_float_intro) auto
  then have "is_float 100" by simp
  then show ?thesis by (simp add: throttle_ok_def example_throttle_def is_float_0)
qed


end
