(* ===== verification/Histogram.thy ===== *)
theory Histogram
  imports Prelude
begin

text \<open>
  The latency histogram of \<^verbatim>\<open>histogram.c\<close>: ranges of buckets of equal width, an underflow and an
  overflow counter, all 32-bit atomics.  The theory has the data and every operation of the file, the
  intervals the buckets stand for, what recording delays does to the counters, and the interleaving
  of recording threads with the thread that prints and clears.

  Not returning a value (\<^const>\<open>None\<close>) stands for an access outside the arrays.  The text of the
  time of day and of the period (\<^verbatim>\<open>utc_time_str\<close> and \<^verbatim>\<open>%g\<close>) are parameters of the printers.
\<close>

section \<open>Data\<close>

record rangespec =
  upper_bound :: u64
  spec_width :: u64

record bucket_range_desc =
  lower_bound :: u64
  bucket_width :: u64
  offset :: u32
  range_buckets :: u32

record histogram =
  buckets :: "u32 list"
  bounds :: "bucket_range_desc list"
  hist_name :: "string option"
  range_min :: u64
  range_max :: u64
  underflow_cnt :: u32
  overflow_cnt :: u32
  n_bounds :: u32
  n_buckets :: u32

text \<open>The cell \<^verbatim>\<open>__histogram_get_bucket\<close> points to.\<close>

datatype bucket_ref = Underflow | Overflow | Bucket nat

section \<open>Operations\<close>

text \<open>The validation loop of \<^verbatim>\<open>histogram_init\<close>.\<close>

fun init_ranges :: "rangespec list \<Rightarrow> u64 \<Rightarrow> u32 \<Rightarrow> (bucket_range_desc list \<times> u64 \<times> u32) option" where
  "init_ranges [] range_start total_buckets = Some ([], range_start, total_buckets)"
| "init_ranges (r # rs) range_start total_buckets =
     (let range_end = upper_bound r; width = spec_width r
      in if range_end \<le> range_start \<or> width = 0 \<or> (range_end - range_start) mod width \<noteq> 0 then None
         else let nb = (ucast ((range_end - range_start) div width) :: u32);
                  b = \<lparr> lower_bound = range_start, bucket_width = width, offset = total_buckets, range_buckets = nb \<rparr>
              in case init_ranges rs range_end (total_buckets + nb) of
                   None \<Rightarrow> None
                 | Some (bs, hi, tot) \<Rightarrow> Some (b # bs, hi, tot))"

definition histogram_init :: "u64 \<Rightarrow> rangespec list \<Rightarrow> histogram option" where
  "histogram_init lowb ranges =
     (case init_ranges ranges lowb 0 of
        None \<Rightarrow> None
      | Some (bs, hi, tot) \<Rightarrow>
          Some \<lparr> buckets = replicate (unat tot) 0, bounds = bs, hist_name = None, range_min = lowb,
                 range_max = hi, underflow_cnt = 0, overflow_cnt = 0,
                 n_bounds = of_nat (length ranges), n_buckets = tot \<rparr>)"

definition histogram_clear :: "histogram \<Rightarrow> histogram" where
  "histogram_clear h =
     h\<lparr> buckets := replicate (unat (n_buckets h)) 0 @ drop (unat (n_buckets h)) (buckets h),
        underflow_cnt := 0, overflow_cnt := 0 \<rparr>"

definition histogram_set_name :: "histogram \<Rightarrow> string \<Rightarrow> histogram" where
  "histogram_set_name h name = h\<lparr> hist_name := Some name \<rparr>"

definition UNDERFLOW_IDX :: int where "UNDERFLOW_IDX = - 2"
definition OVERFLOW_IDX :: int where "OVERFLOW_IDX = - 1"

text \<open>The search from the last range down; running off the front of the array is \<^const>\<open>None\<close>.\<close>

primrec find_bound :: "bucket_range_desc list \<Rightarrow> u64 \<Rightarrow> nat \<Rightarrow> nat option" where
  "find_bound bs e 0 = None"
| "find_bound bs e (Suc i) = (if e < lower_bound (bs ! i) then find_bound bs e i else Some i)"

definition histogram_get_index :: "histogram \<Rightarrow> u64 \<Rightarrow> int option" where
  "histogram_get_index h elapsed_us =
     (if elapsed_us < range_min h then Some UNDERFLOW_IDX
      else if elapsed_us \<ge> range_max h then Some OVERFLOW_IDX
      else case find_bound (bounds h) elapsed_us (unat (n_bounds h)) of
             None \<Rightarrow> None
           | Some i \<Rightarrow>
               let b = bounds h ! i;
                   bin_offset = (ucast ((elapsed_us - lower_bound b) div bucket_width b) :: u32)
               in Some (sint (offset b + bin_offset)))"

definition get_bucket :: "histogram \<Rightarrow> int \<Rightarrow> bucket_ref option" where
  "get_bucket h idx =
     (if idx = UNDERFLOW_IDX then Some Underflow
      else if idx = OVERFLOW_IDX then Some Overflow
      else if 0 \<le> idx \<and> nat idx < length (buckets h) then Some (Bucket (nat idx))
      else None)"

fun cell :: "histogram \<Rightarrow> bucket_ref \<Rightarrow> u32" where
  "cell h Underflow = underflow_cnt h"
| "cell h Overflow = overflow_cnt h"
| "cell h (Bucket i) = buckets h ! i"

fun set_cell :: "histogram \<Rightarrow> bucket_ref \<Rightarrow> u32 \<Rightarrow> histogram" where
  "set_cell h Underflow v = h\<lparr> underflow_cnt := v \<rparr>"
| "set_cell h Overflow v = h\<lparr> overflow_cnt := v \<rparr>"
| "set_cell h (Bucket i) v = h\<lparr> buckets := (buckets h)[i := v] \<rparr>"

definition histogram_incr :: "histogram \<Rightarrow> u64 \<Rightarrow> histogram option" where
  "histogram_incr h elapsed_us =
     (case histogram_get_index h elapsed_us of
        None \<Rightarrow> None
      | Some idx \<Rightarrow> case get_bucket h idx of
                      None \<Rightarrow> None
                    | Some r \<Rightarrow> Some (set_cell h r (cell h r + 1)))"

text \<open>The bucket index, an unsigned 64-bit number, is read as a signed one.\<close>

definition histogram_get_count :: "histogram \<Rightarrow> u64 \<Rightarrow> u64 option" where
  "histogram_get_count h bucket_idx =
     map_option (\<lambda>r. ucast (cell h r)) (get_bucket h (sint bucket_idx))"

text \<open>The first addition is between 32-bit counters; its result is widened.\<close>

definition histogram_calc_total :: "histogram \<Rightarrow> u64" where
  "histogram_calc_total h =
     foldl (\<lambda>tot c. tot + ucast c) (ucast (underflow_cnt h + overflow_cnt h))
       (take (unat (n_buckets h)) (buckets h))"

definition print_header :: "histogram \<Rightarrow> string \<Rightarrow> string \<Rightarrow> u64 \<Rightarrow> string" where
  "print_header h utc secs total_cnt =
     (case hist_name h of None \<Rightarrow> '''' | Some n \<Rightarrow> n @ '' '') @
     utc @ '', '' @ secs @ ''s, '' @ dec_string (unat total_cnt)"

definition print_count :: "u64 \<Rightarrow> u32 \<Rightarrow> string" where
  "print_count low c = '', '' @ dec_string (unat low) @ '':'' @ dec_string (unat c)"

text \<open>The two nested loops over the ranges and their buckets, on the counts from the current index on.\<close>

fun print_range :: "bucket_range_desc \<Rightarrow> nat \<Rightarrow> nat \<Rightarrow> u32 list \<Rightarrow> string" where
  "print_range r j 0 cnts = ''''"
| "print_range r j (Suc n) cnts =
     (if hd cnts > 0 then print_count (lower_bound r + of_nat j * bucket_width r) (hd cnts) else '''') @
     print_range r (Suc j) n (tl cnts)"

fun print_ranges :: "bucket_range_desc list \<Rightarrow> u32 list \<Rightarrow> string" where
  "print_ranges [] cnts = ''''"
| "print_ranges (r # rs) cnts =
     print_range r 0 (unat (range_buckets r)) cnts @ print_ranges rs (drop (unat (range_buckets r)) cnts)"

definition histogram_print :: "histogram \<Rightarrow> string \<Rightarrow> string \<Rightarrow> string" where
  "histogram_print h utc secs =
     print_header h utc secs (histogram_calc_total h) @
     (if underflow_cnt h > 0 then '', 0:'' @ dec_string (unat (underflow_cnt h)) else '''') @
     print_ranges (take (unat (n_bounds h)) (bounds h)) (buckets h) @
     (if overflow_cnt h > 0 then print_count (range_max h) (overflow_cnt h) else '''') @ nl"

text \<open>\<^verbatim>\<open>atomic_exchange\<close> of every bucket with 0, keeping the counts and their running total.\<close>

fun exchange_buckets :: "histogram \<Rightarrow> nat \<Rightarrow> nat \<Rightarrow> u64 \<Rightarrow> u32 list \<times> u64 \<times> histogram" where
  "exchange_buckets h idx 0 tot = ([], tot, h)"
| "exchange_buckets h idx (Suc n) tot =
     (let cnt = cell h (Bucket idx);
          (cnts, tot', h') = exchange_buckets (set_cell h (Bucket idx) 0) (Suc idx) n (tot + ucast cnt)
      in (cnt # cnts, tot', h'))"

definition histogram_print_clear :: "histogram \<Rightarrow> string \<Rightarrow> string \<Rightarrow> string \<times> histogram" where
  "histogram_print_clear h utc secs =
     (let uc = cell h Underflow;
          h1 = set_cell h Underflow 0;
          (cnts, tot, h2) = exchange_buckets h1 0 (unat (n_buckets h)) (0 + ucast uc);
          oc = cell h2 Overflow;
          h3 = set_cell h2 Overflow 0;
          total_cnt = tot + ucast oc
      in (print_header h3 utc secs total_cnt @
          (if uc > 0 then '', 0:'' @ dec_string (unat uc) else '''') @
          print_ranges (take (unat (n_bounds h)) (bounds h)) cnts @
          (if oc > 0 then print_count (range_max h) oc else '''') @ nl, h3))"

definition print_range_info :: "nat \<Rightarrow> bucket_range_desc \<Rightarrow> string" where
  "print_range_info i r =
     tab @ ''Bucket range '' @ sdec_string (int i) @ '':'' @ nl @
     tab @ tab @ ''Range min: '' @ dec_string (unat (lower_bound r)) @ ''us'' @ nl @
     tab @ tab @ ''Range max: '' @
       dec_string (unat (lower_bound r + bucket_width r * ucast (range_buckets r))) @ ''us'' @ nl @
     tab @ tab @ ''Bucket width: '' @ dec_string (unat (bucket_width r)) @ ''us'' @ nl @
     tab @ tab @ ''Num buckets: '' @ dec_string (unat (range_buckets r)) @ nl"

definition histogram_print_info :: "histogram \<Rightarrow> string" where
  "histogram_print_info h =
     (case hist_name h of None \<Rightarrow> ''Histogram'' | Some n \<Rightarrow> n) @ '':'' @ nl @
     tab @ ''Total num buckets: '' @ dec_string (unat (n_buckets h)) @ nl @
     tab @ ''Range min: '' @ dec_string (unat (range_min h)) @ ''us'' @ nl @
     tab @ ''Range max: '' @ dec_string (unat (range_max h)) @ ''us'' @ nl @
     concat (map (\<lambda>(i, r). print_range_info i r)
       (zip [0..<unat (n_bounds h)] (take (unat (n_bounds h)) (bounds h))))"

section \<open>The intervals of the buckets\<close>

text \<open>The intervals, over unbounded numbers, in the order of the buckets.\<close>

definition range_intervals :: "bucket_range_desc \<Rightarrow> (nat \<times> nat) list" where
  "range_intervals b =
     map (\<lambda>j. (unat (lower_bound b) + j * unat (bucket_width b), unat (lower_bound b) + Suc j * unat (bucket_width b)))
       [0..<unat (range_buckets b)]"

definition intervals :: "histogram \<Rightarrow> (nat \<times> nat) list" where
  "intervals h = concat (map range_intervals (bounds h))"

fun contiguous :: "nat \<Rightarrow> (nat \<times> nat) list \<Rightarrow> nat \<Rightarrow> bool" where
  "contiguous lo [] hi \<longleftrightarrow> lo = hi"
| "contiguous lo ((a, b) # ivs) hi \<longleftrightarrow> a = lo \<and> a < b \<and> contiguous b ivs hi"

definition in_interval :: "nat \<Rightarrow> nat \<times> nat \<Rightarrow> bool" where
  "in_interval e iv \<longleftrightarrow> fst iv \<le> e \<and> e < snd iv"

lemma contiguous_le: "contiguous lo ivs hi \<Longrightarrow> lo \<le> hi"
  by (induction lo ivs hi rule: contiguous.induct) auto

lemma contiguous_append: "contiguous lo xs mid \<Longrightarrow> contiguous mid ys hi \<Longrightarrow> contiguous lo (xs @ ys) hi"
  by (induction lo xs mid rule: contiguous.induct) auto

text \<open>Contiguous intervals cover what lies between their ends, each number once.\<close>

lemma contiguous_in_iff:
  "contiguous lo ivs hi \<Longrightarrow> (\<exists>iv \<in> set ivs. in_interval e iv) \<longleftrightarrow> lo \<le> e \<and> e < hi"
proof (induction lo ivs hi rule: contiguous.induct)
  case (2 lo a b ivs hi)
  then have "b \<le> hi" using contiguous_le by auto
  with 2 show ?case by (auto simp: in_interval_def)
qed simp

lemma contiguous_unique:
  "contiguous lo ivs hi \<Longrightarrow> i < length ivs \<Longrightarrow> j < length ivs \<Longrightarrow>
   in_interval e (ivs ! i) \<Longrightarrow> in_interval e (ivs ! j) \<Longrightarrow> i = j"
proof (induction lo ivs hi arbitrary: i j rule: contiguous.induct)
  case (2 lo a b ivs hi)
  have apart: "\<not> in_interval e (ivs ! k)" if "e < b" "k < length ivs" for k
    using contiguous_in_iff [of b ivs hi e] 2 that by auto
  show ?case
    using 2 apart by (cases i; cases j) (auto simp: in_interval_def)
qed simp

section \<open>Well-formed histograms\<close>

fun bounds_ok :: "bucket_range_desc list \<Rightarrow> nat \<Rightarrow> nat \<Rightarrow> nat \<Rightarrow> nat \<Rightarrow> bool" where
  "bounds_ok [] lo off hi tot \<longleftrightarrow> lo = hi \<and> off = tot"
| "bounds_ok (b # bs) lo off hi tot \<longleftrightarrow>
     unat (lower_bound b) = lo \<and> unat (offset b) = off \<and> 0 < bucket_width b \<and> 0 < range_buckets b \<and>
     bounds_ok bs (lo + unat (bucket_width b) * unat (range_buckets b)) (off + unat (range_buckets b)) hi tot"

definition hist_inv :: "histogram \<Rightarrow> bool" where
  "hist_inv h \<longleftrightarrow>
     bounds_ok (bounds h) (unat (range_min h)) 0 (unat (range_max h)) (length (buckets h)) \<and>
     length (buckets h) < 2 ^ 31 \<and> unat (n_buckets h) = length (buckets h) \<and>
     unat (n_bounds h) = length (bounds h)"

lemma contiguous_range_intervals:
  assumes "0 < w"
  shows "contiguous lo (map (\<lambda>j. (lo + j * w, lo + Suc j * w)) [0..<n]) (lo + w * n)"
proof (induction n)
  case (Suc n)
  have "contiguous (lo + w * n) [(lo + n * w, lo + Suc n * w)] (lo + w * Suc n)"
    using assms by (simp add: mult.commute)
  with Suc show ?case by (simp add: contiguous_append)
qed simp

lemma bounds_ok_contiguous:
  "bounds_ok bs lo off hi tot \<Longrightarrow> contiguous lo (concat (map range_intervals bs)) hi"
proof (induction bs lo off hi tot rule: bounds_ok.induct)
  case (2 b bs lo off hi tot)
  then have "contiguous lo (range_intervals b) (lo + unat (bucket_width b) * unat (range_buckets b))"
    using contiguous_range_intervals [of "unat (bucket_width b)" lo "unat (range_buckets b)"]
    by (auto simp: range_intervals_def unat_gt_0 word_neq_0_conv)
  with 2 show ?case by (auto intro: contiguous_append)
qed simp

lemma bounds_ok_length:
  "bounds_ok bs lo off hi tot \<Longrightarrow> off + length (concat (map range_intervals bs)) = tot"
  by (induction bs lo off hi tot rule: bounds_ok.induct) (auto simp: range_intervals_def)

lemma bounds_ok_le: "bounds_ok bs lo off hi tot \<Longrightarrow> lo \<le> hi \<and> off \<le> tot"
  using bounds_ok_contiguous contiguous_le bounds_ok_length by fastforce

text \<open>The search finds the range a delay lies in, and the computed index its bucket.\<close>

lemma find_bound_append:
  "i \<le> length bs \<Longrightarrow> find_bound (bs @ cs) e i = find_bound bs e i"
  by (induction i) (auto simp: nth_append)

lemma find_bound_Cons:
  "find_bound (b # bs) e (Suc n) =
     (case find_bound bs e n of
        Some i \<Rightarrow> Some (Suc i) | None \<Rightarrow> if e < lower_bound b then None else Some 0)"
  by (induction n) auto

lemma find_bound_below:
  "bounds_ok bs lo off hi tot \<Longrightarrow> unat e < lo \<Longrightarrow> find_bound bs e (length bs) = None"
proof (induction bs lo off hi tot rule: bounds_ok.induct)
  case (2 b bs lo off hi tot)
  then have "e < lower_bound b" by (simp add: word_less_nat_alt)
  with 2 show ?case by (simp add: find_bound_Cons del: find_bound.simps)
qed simp

lemma in_interval_div:
  assumes "lo \<le> e" and "0 < w"
  shows "in_interval e (lo + (e - lo) div w * w, lo + Suc ((e - lo) div w) * w)"
proof -
  have "(e - lo) div w * w + (e - lo) mod w = e - lo" "(e - lo) mod w < w"
    using assms by simp_all
  with assms(1) have "lo + (e - lo) div w * w \<le> e" "e < lo + (w + (e - lo) div w * w)" by linarith+
  then show ?thesis unfolding in_interval_def by (simp only: fst_conv snd_conv mult_Suc)
qed

lemma find_bound_index:
  assumes "bounds_ok bs lo off hi tot" and "lo \<le> unat e" and "unat e < hi"
  shows "\<exists>i < length bs. find_bound bs e (length bs) = Some i \<and>
           unat (offset (bs ! i)) + (unat e - unat (lower_bound (bs ! i))) div unat (bucket_width (bs ! i)) < tot \<and>
           unat (lower_bound (bs ! i)) \<le> unat e \<and> off \<le> unat (offset (bs ! i)) \<and>
           in_interval (unat e) (concat (map range_intervals bs) !
             (unat (offset (bs ! i)) + (unat e - unat (lower_bound (bs ! i))) div unat (bucket_width (bs ! i)) - off))"
  using assms
proof (induction bs lo off hi tot rule: bounds_ok.induct)
  case (2 b bs lo off hi tot)
  let ?w = "unat (bucket_width b)" and ?n = "unat (range_buckets b)"
  have w: "0 < ?w" and lo: "unat (lower_bound b) = lo" and off: "unat (offset b) = off"
    and ok: "bounds_ok bs (lo + ?w * ?n) (off + ?n) hi tot"
    using 2 by (auto simp: unat_gt_0 word_neq_0_conv)
  show ?case
  proof (cases "unat e < lo + ?w * ?n")
    case True
    let ?k = "(unat e - lo) div ?w"
    have k: "?k < ?n" using True 2 w by (simp add: less_mult_imp_div_less mult.commute)
    have "find_bound bs e (length bs) = None" using ok True by (rule find_bound_below)
    moreover have "\<not> e < lower_bound b" using 2 lo by (simp add: word_less_nat_alt)
    ultimately have f: "find_bound (b # bs) e (length (b # bs)) = Some 0"
      by (simp add: find_bound_Cons del: find_bound.simps)
    have "in_interval (unat e) (lo + ?k * ?w, lo + Suc ?k * ?w)"
      using 2 w by (intro in_interval_div) auto
    then have "in_interval (unat e) (concat (map range_intervals (b # bs)) ! ?k)"
      using k lo by (simp add: range_intervals_def nth_append)
    then show ?thesis
      using f k lo off 2 bounds_ok_le [OF ok] by (intro exI [of _ 0]) simp
  next
    case False
    then obtain i where i: "i < length bs" "find_bound bs e (length bs) = Some i"
      "unat (offset (bs ! i)) + (unat e - unat (lower_bound (bs ! i))) div unat (bucket_width (bs ! i)) < tot"
      "unat (lower_bound (bs ! i)) \<le> unat e" "off + ?n \<le> unat (offset (bs ! i))"
      "in_interval (unat e) (concat (map range_intervals bs) !
             (unat (offset (bs ! i)) + (unat e - unat (lower_bound (bs ! i))) div unat (bucket_width (bs ! i)) - (off + ?n)))"
      using 2 lo off by auto
    let ?m = "unat (offset (bs ! i)) + (unat e - unat (lower_bound (bs ! i))) div unat (bucket_width (bs ! i))"
    have "length (range_intervals b) = ?n" by (simp add: range_intervals_def)
    moreover have "\<not> ?m - off < ?n" using i(5) by linarith
    ultimately
    have "concat (map range_intervals (b # bs)) ! (?m - off) = concat (map range_intervals bs) ! (?m - (off + ?n))"
      by (simp add: nth_append)
    then show ?thesis
      using i by (intro exI [of _ "Suc i"]) (simp add: find_bound_Cons del: find_bound.simps)
  qed
qed simp

text \<open>What a recorded delay is counted in: the interval it lies in, or the counter beyond the ends.\<close>

definition counts_in :: "histogram \<Rightarrow> nat \<Rightarrow> bucket_ref \<Rightarrow> bool" where
  "counts_in h e r =
     (case r of
        Underflow \<Rightarrow> e < unat (range_min h)
      | Overflow \<Rightarrow> unat (range_max h) \<le> e
      | Bucket i \<Rightarrow> i < length (intervals h) \<and> in_interval e (intervals h ! i))"

lemma hist_inv_intervals:
  assumes "hist_inv h"
  shows "contiguous (unat (range_min h)) (intervals h) (unat (range_max h))"
    and "length (intervals h) = length (buckets h)"
proof -
  have "bounds_ok (bounds h) (unat (range_min h)) 0 (unat (range_max h)) (length (buckets h))"
    using assms by (simp add: hist_inv_def)
  then show "contiguous (unat (range_min h)) (intervals h) (unat (range_max h))"
    and "length (intervals h) = length (buckets h)"
    using bounds_ok_contiguous bounds_ok_length [of _ _ 0] unfolding intervals_def by fastforce+
qed

lemma counts_in_unique:
  assumes "hist_inv h" "counts_in h e r" "counts_in h e r'"
  shows "r = r'"
proof -
  note c = hist_inv_intervals(1) [OF assms(1)]
  have lt: "unat (range_min h) \<le> unat (range_max h)" using contiguous_le [OF c] .
  have b: "unat (range_min h) \<le> e \<and> e < unat (range_max h)" if "counts_in h e (Bucket i)" for i
    using contiguous_in_iff [OF c, of e] that by (auto simp: counts_in_def)
  show ?thesis
    using assms(2,3) b lt contiguous_unique [OF c]
    by (cases r; cases r') (auto simp: counts_in_def)
qed

text \<open>
  The index is computed without leaving the arrays and points to the cell of the interval; the
  32-bit sum of the offsets does not overflow.
\<close>

lemma get_bucket_int: "k < length (buckets h) \<Longrightarrow> get_bucket h (int k) = Some (Bucket k)"
  by (simp add: get_bucket_def UNDERFLOW_IDX_def OVERFLOW_IDX_def)

lemma get_index_ok:
  assumes "hist_inv h"
  shows "\<exists>idx r. histogram_get_index h e = Some idx \<and> get_bucket h idx = Some r \<and> counts_in h (unat e) r"
proof -
  consider "e < range_min h" | "\<not> e < range_min h" "range_max h \<le> e"
    | "unat (range_min h) \<le> unat e" "unat e < unat (range_max h)"
    by (meson linorder_not_less word_le_nat_alt)
  then show ?thesis
  proof cases
    case 1
    then show ?thesis
      by (auto simp: histogram_get_index_def get_bucket_def counts_in_def UNDERFLOW_IDX_def word_less_nat_alt)
  next
    case 2
    then show ?thesis
      by (auto simp: histogram_get_index_def get_bucket_def counts_in_def UNDERFLOW_IDX_def OVERFLOW_IDX_def
          word_less_nat_alt word_le_nat_alt)
  next
    case 3
    let ?bs = "bounds h" and ?tot = "length (buckets h)"
    have ok: "bounds_ok ?bs (unat (range_min h)) 0 (unat (range_max h)) ?tot" and tot: "?tot < 2 ^ 31"
      using assms by (simp_all add: hist_inv_def)
    obtain i where i: "i < length ?bs" "find_bound ?bs e (length ?bs) = Some i"
      "unat (offset (?bs ! i)) + (unat e - unat (lower_bound (?bs ! i))) div unat (bucket_width (?bs ! i)) < ?tot"
      "unat (lower_bound (?bs ! i)) \<le> unat e"
      "in_interval (unat e) (intervals h !
         (unat (offset (?bs ! i)) + (unat e - unat (lower_bound (?bs ! i))) div unat (bucket_width (?bs ! i))))"
      using find_bound_index [OF ok 3] by (auto simp: intervals_def)
    let ?k = "unat (offset (?bs ! i)) + (unat e - unat (lower_bound (?bs ! i))) div unat (bucket_width (?bs ! i))"
    let ?o = "ucast ((e - lower_bound (?bs ! i)) div bucket_width (?bs ! i)) :: u32"
    have "unat ((e - lower_bound (?bs ! i)) div bucket_width (?bs ! i))
          = (unat e - unat (lower_bound (?bs ! i))) div unat (bucket_width (?bs ! i))"
      using i(4) by (simp add: unat_div_distrib unat_sub word_le_nat_alt)
    then have "unat ?o = (unat e - unat (lower_bound (?bs ! i))) div unat (bucket_width (?bs ! i))"
      using i(3) tot by (simp add: unsigned_ucast_eq take_bit_nat_eq_self)
    then have k: "unat (offset (?bs ! i) + ?o) = ?k"
      using i(3) tot by (subst unat_add_no_overflow) simp_all
    then have "sint (offset (?bs ! i) + ?o) = int ?k"
      using i(3) tot by (simp add: sint_eq_unat)
    moreover have "\<not> e < range_min h" "\<not> range_max h \<le> e" using 3 by (simp_all add: word_le_nat_alt word_less_nat_alt)
    ultimately have "histogram_get_index h e = Some (int ?k)"
      using i(2) assms by (simp add: histogram_get_index_def hist_inv_def Let_def)
    moreover have "counts_in h (unat e) (Bucket ?k)"
      using i(3,5) hist_inv_intervals(2) [OF assms] by (simp add: counts_in_def)
    ultimately show ?thesis using get_bucket_int [OF i(3)] by blast
  qed
qed

section \<open>Recording delays\<close>

lemma set_cell_fields [simp]:
  "bounds (set_cell h r v) = bounds h" "range_min (set_cell h r v) = range_min h"
  "range_max (set_cell h r v) = range_max h" "length (buckets (set_cell h r v)) = length (buckets h)"
  "n_buckets (set_cell h r v) = n_buckets h" "n_bounds (set_cell h r v) = n_bounds h"
  "hist_name (set_cell h r v) = hist_name h" "intervals (set_cell h r v) = intervals h"
  by (cases r; simp add: intervals_def)+

lemma counts_in_set_cell [simp]: "counts_in (set_cell h r v) e r' = counts_in h e r'"
  by (cases r') (simp_all add: counts_in_def)

definition cell_exists :: "histogram \<Rightarrow> bucket_ref \<Rightarrow> bool" where
  "cell_exists h r = (case r of Bucket i \<Rightarrow> i < length (buckets h) | _ \<Rightarrow> True)"

lemma cell_set_cell:
  "cell_exists h r \<Longrightarrow> cell (set_cell h r v) r' = (if r' = r then v else cell h r')"
  by (cases r; cases r') (auto simp: cell_exists_def)

lemma hist_inv_set_cell [simp]: "hist_inv (set_cell h r v) = hist_inv h"
  by (simp add: hist_inv_def)

lemma counts_in_exists: "hist_inv h \<Longrightarrow> counts_in h e r \<Longrightarrow> cell_exists h r"
  by (cases r) (auto simp: counts_in_def cell_exists_def hist_inv_intervals(2))

text \<open>One recorded delay adds one to the counter of its interval and to no other.\<close>

lemma incr_ok:
  assumes "hist_inv h"
  shows "\<exists>h'. histogram_incr h e = Some h' \<and> hist_inv h' \<and> intervals h' = intervals h \<and>
           (\<forall>d r. counts_in h' d r = counts_in h d r) \<and>
           (\<forall>r. cell h' r = cell h r + (if counts_in h (unat e) r then 1 else 0))"
proof -
  obtain idx r where r: "histogram_get_index h e = Some idx" "get_bucket h idx = Some r" "counts_in h (unat e) r"
    using get_index_ok [OF assms] by blast
  have only: "counts_in h (unat e) r' \<longleftrightarrow> r' = r" for r'
    using r(3) counts_in_unique [OF assms r(3)] by blast
  have "cell_exists h r" using counts_in_exists [OF assms r(3)] .
  then have "\<forall>r'. cell (set_cell h r (cell h r + 1)) r' = cell h r' + (if counts_in h (unat e) r' then 1 else 0)"
    unfolding only by (simp add: cell_set_cell)
  with r(1,2) assms show ?thesis
    by (intro exI [of _ "set_cell h r (cell h r + 1)"]) (simp add: histogram_incr_def)
qed

text \<open>A thread that records a sequence of delays.\<close>

definition count_in :: "histogram \<Rightarrow> u64 list \<Rightarrow> bucket_ref \<Rightarrow> nat" where
  "count_in h ds r = length (filter (\<lambda>d. counts_in h (unat d) r) ds)"

text \<open>A histogram that held \<open>h0\<close> before the delays \<open>ds\<close> were recorded.\<close>

definition hist_holds :: "histogram \<Rightarrow> histogram \<Rightarrow> u64 list \<Rightarrow> bool" where
  "hist_holds h0 h ds \<longleftrightarrow> hist_inv h \<and> intervals h = intervals h0 \<and> (\<forall>d r. counts_in h d r = counts_in h0 d r) \<and>
     (\<forall>r. cell h r = cell h0 r + of_nat (count_in h0 ds r))"

lemma hist_holds_incr:
  assumes "hist_holds h0 h ds"
  shows "\<exists>h'. histogram_incr h d = Some h' \<and> hist_holds h0 h' (d # ds) \<and> intervals h' = intervals h"
proof -
  have "hist_inv h" using assms by (simp add: hist_holds_def)
  from incr_ok [OF this, of d] assms show ?thesis by (fastforce simp: hist_holds_def count_in_def)
qed

interpretation hr: recorder histogram_incr "hist_holds h0" intervals "\<lambda>_ _. True" "\<lambda>_. True" "\<lambda>_. True" for h0
  by unfold_locales (simp_all add: hist_holds_incr)

abbreviation record_all :: "histogram \<Rightarrow> u64 list \<Rightarrow> histogram option" where
  "record_all \<equiv> record_seq histogram_incr"

lemma record_all_ok:
  assumes "hist_inv h"
  shows "\<exists>h'. record_all h ds = Some h' \<and> hist_inv h' \<and> intervals h' = intervals h \<and>
           (\<forall>r. cell h' r = cell h r + of_nat (count_in h ds r))"
proof -
  have "hist_holds h h []" using assms by (simp add: hist_holds_def count_in_def)
  then obtain h' where "record_all h ds = Some h'" "hist_holds h h' (rev ds)" using hr.record_seq_holds [of h h "[]" ds] by auto
  then show ?thesis by (simp add: hist_holds_def count_in_def flip: rev_filter)
qed

section \<open>Initialisation\<close>

text \<open>The number of buckets the ranges ask for, without wrap-around.\<close>

fun spec_total :: "rangespec list \<Rightarrow> u64 \<Rightarrow> nat" where
  "spec_total [] start = 0"
| "spec_total (r # rs) start =
     (unat (upper_bound r) - unat start) div unat (spec_width r) + spec_total rs (upper_bound r)"

fun ranges_valid :: "rangespec list \<Rightarrow> u64 \<Rightarrow> bool" where
  "ranges_valid [] start = True"
| "ranges_valid (r # rs) start \<longleftrightarrow>
     start < upper_bound r \<and> 0 < spec_width r \<and>
     unat (spec_width r) dvd unat (upper_bound r) - unat start \<and> ranges_valid rs (upper_bound r)"

lemma range_check:
  fixes start :: u64
  shows "\<not> (upper_bound r \<le> start \<or> spec_width r = 0 \<or> (upper_bound r - start) mod spec_width r \<noteq> 0)
     \<longleftrightarrow> start < upper_bound r \<and> 0 < spec_width r \<and> unat (spec_width r) dvd unat (upper_bound r) - unat start"
proof (cases "start < upper_bound r")
  case True
  then have "unat (upper_bound r - start) = unat (upper_bound r) - unat start" by (simp add: unat_sub)
  then have "(upper_bound r - start) mod spec_width r = 0
      \<longleftrightarrow> (unat (upper_bound r) - unat start) mod unat (spec_width r) = 0"
    by (simp add: word_unat_eq_iff unat_mod_distrib)
  with True show ?thesis by (auto simp: not_le word_neq_0_conv dvd_eq_mod_eq_0)
qed auto

lemma init_ranges_ok:
  assumes "unat off + spec_total rs start < 2 ^ 31" and "ranges_valid rs start"
  shows "\<exists>bs hi tot. init_ranges rs start off = Some (bs, hi, tot) \<and> length bs = length rs \<and>
           bounds_ok bs (unat start) (unat off) (unat hi) (unat tot) \<and>
           unat tot = unat off + spec_total rs start"
  using assms
proof (induction rs arbitrary: start off)
  case (Cons r rs)
  let ?n = "(unat (upper_bound r) - unat start) div unat (spec_width r)"
  let ?nb = "ucast ((upper_bound r - start) div spec_width r) :: u32"
  have v: "start < upper_bound r" "0 < spec_width r"
    "unat (spec_width r) dvd unat (upper_bound r) - unat start" "ranges_valid rs (upper_bound r)"
    using Cons.prems by simp_all
  have nz: "0 < unat (upper_bound r) - unat start" using v(1) by (simp add: word_less_nat_alt)
  have "unat ((upper_bound r - start) div spec_width r) = ?n"
    using v(1) by (simp add: unat_div_distrib unat_sub)
  then have nb: "unat ?nb = ?n"
    using Cons.prems(1) by (simp add: unsigned_ucast_eq take_bit_nat_eq_self)
  then have off: "unat (off + ?nb) = unat off + ?n"
    using Cons.prems(1) by (subst unat_add_no_overflow) simp_all
  obtain bs hi tot where IH: "init_ranges rs (upper_bound r) (off + ?nb) = Some (bs, hi, tot)" "length bs = length rs"
    "bounds_ok bs (unat (upper_bound r)) (unat off + ?n) (unat hi) (unat tot)"
    "unat tot = unat off + ?n + spec_total rs (upper_bound r)"
    using Cons.IH [of "off + ?nb" "upper_bound r"] Cons.prems off by auto
  have "unat start + unat (spec_width r) * ?n = unat (upper_bound r)"
    using v(3) nz by simp
  moreover have "unat (spec_width r) \<le> unat (upper_bound r) - unat start" using v(3) nz by (rule dvd_imp_le)
  then have "0 < ?n" using v(2) by (simp add: div_greater_zero_iff unat_gt_0 word_neq_0_conv)
  then have "0 < ?nb" using nb by (metis unat_gt_0 word_neq_0_conv)
  moreover have "\<not> (upper_bound r \<le> start \<or> spec_width r = 0 \<or> (upper_bound r - start) mod spec_width r \<noteq> 0)"
    unfolding range_check using v by simp
  ultimately show ?case using IH nb v by (simp add: Let_def)
qed simp

lemma init_ranges_invalid: "\<not> ranges_valid rs start \<Longrightarrow> init_ranges rs start off = None"
proof (induction rs arbitrary: start off)
  case (Cons r rs)
  show ?case
  proof (cases "upper_bound r \<le> start \<or> spec_width r = 0 \<or> (upper_bound r - start) mod spec_width r \<noteq> 0")
    case False
    then have "\<not> ranges_valid rs (upper_bound r)" using Cons.prems unfolding range_check by simp
    with Cons.IH False show ?thesis by (simp add: Let_def)
  qed (simp add: Let_def)
qed simp

lemma histogram_init_inv:
  assumes "histogram_init lowb ranges = Some h" and "spec_total ranges lowb < 2 ^ 31"
    and "length ranges < 2 ^ 32"
  shows "hist_inv h" and "cell h r = 0 \<or> \<not> cell_exists h r" and "range_min h = lowb"
    and "length (buckets h) = spec_total ranges lowb"
proof -
  have "ranges_valid ranges lowb"
    using assms(1) init_ranges_invalid [of ranges lowb 0]
    by (cases "ranges_valid ranges lowb") (simp_all add: histogram_init_def)
  then obtain bs hi tot where i: "init_ranges ranges lowb 0 = Some (bs, hi, tot)" "length bs = length ranges"
    "bounds_ok bs (unat lowb) 0 (unat hi) (unat tot)" "unat tot = spec_total ranges lowb"
    using init_ranges_ok [of 0 ranges lowb] assms(2) by auto
  with assms show "hist_inv h" "range_min h = lowb" "length (buckets h) = spec_total ranges lowb"
    by (auto simp: histogram_init_def hist_inv_def unat_of_nat_32)
  show "cell h r = 0 \<or> \<not> cell_exists h r"
    using assms(1) i(1) by (cases r) (auto simp: histogram_init_def cell_exists_def)
qed

section \<open>Totals and printing\<close>

lemma foldl_ucast_sum:
  "foldl (\<lambda>t c. t + ucast c) a cs = (a :: u64) + sum_list (map ucast (cs :: u32 list))"
  by (induction cs arbitrary: a) (simp_all add: add.assoc)

lemma ucast_u32_u64: "unat (ucast (c :: u32) :: u64) = unat c"
  by (simp add: unsigned_ucast_eq take_bit_nat_eq_self unsigned_less [THEN less_trans])

lemma sum_list_u32_bound: "sum_list (map unat (cs :: u32 list)) \<le> length cs * (2 ^ 32 - 1)"
proof (induction cs)
  case (Cons c cs)
  have "unat c < 2 ^ 32" by (rule unat_u32_lt)
  with Cons show ?case by simp
qed simp

lemma unat_sum_u32:
  assumes "length cs < 2 ^ 31"
  shows "unat (sum_list (map ucast (cs :: u32 list)) :: u64) = sum_list (map unat cs)"
  using assms
proof (induction cs)
  case (Cons c cs)
  have "unat c < 2 ^ 32" by (rule unat_u32_lt)
  moreover have "sum_list (map unat cs) \<le> 2 ^ 31 * (2 ^ 32 - 1)"
    using sum_list_u32_bound [of cs] Cons.prems mult_le_mono1 [of "length cs" "2 ^ 31" "2 ^ 32 - 1"] by simp
  ultimately show ?case
    using Cons by (simp add: unat_add_no_overflow ucast_u32_u64)
qed simp

text \<open>The total as the code computes it: the two outer counters are first added modulo \<open>2 ^ 32\<close>.\<close>

lemma calc_total_unat:
  assumes "hist_inv h"
  shows "unat (histogram_calc_total h) =
           (unat (underflow_cnt h) + unat (overflow_cnt h)) mod 2 ^ 32 + sum_list (map unat (buckets h))"
proof -
  have l: "length (buckets h) < 2 ^ 31" and n: "unat (n_buckets h) = length (buckets h)"
    using assms by (simp_all add: hist_inv_def)
  have "sum_list (map unat (buckets h)) \<le> 2 ^ 31 * (2 ^ 32 - 1)"
    using sum_list_u32_bound [of "buckets h"] l mult_le_mono1 [of "length (buckets h)" "2 ^ 31" "2 ^ 32 - 1"] by simp
  moreover have "(unat (underflow_cnt h) + unat (overflow_cnt h)) mod 2 ^ 32 < 2 ^ 32" by simp
  ultimately have "(unat (underflow_cnt h) + unat (overflow_cnt h)) mod 2 ^ 32 + sum_list (map unat (buckets h)) < 2 ^ 64"
    by simp
  then show ?thesis
    using n unat_sum_u32 [OF l]
    by (simp add: histogram_calc_total_def foldl_ucast_sum unat_add_no_overflow ucast_u32_u64 unat_word_ariths)
qed

lemma exchange_buckets_eq:
  "idx + n \<le> length (buckets h) \<Longrightarrow>
   exchange_buckets h idx n tot =
     (take n (drop idx (buckets h)), tot + sum_list (map ucast (take n (drop idx (buckets h)))),
      h\<lparr> buckets := take idx (buckets h) @ replicate n 0 @ drop (idx + n) (buckets h) \<rparr>)"
proof (induction h idx n tot rule: exchange_buckets.induct)
  case (2 h idx n tot)
  have d: "drop idx (buckets h) = buckets h ! idx # drop (Suc idx) (buckets h)"
    using 2 by (simp add: Cons_nth_drop_Suc)
  have "take (Suc idx) ((buckets h)[idx := 0]) = take idx (buckets h) @ [0]"
    using 2 by (simp add: take_Suc_conv_app_nth)
  then show ?case using 2 by (simp add: d Let_def add.assoc)
qed simp

lemma clear_eq:
  "hist_inv h \<Longrightarrow> histogram_clear h = h\<lparr> buckets := replicate (length (buckets h)) 0, underflow_cnt := 0, overflow_cnt := 0 \<rparr>"
  by (simp add: histogram_clear_def hist_inv_def)

lemma print_clear_hist:
  "hist_inv h \<Longrightarrow> snd (histogram_print_clear h utc secs) = histogram_clear h"
  by (simp add: histogram_print_clear_def clear_eq exchange_buckets_eq hist_inv_def Let_def)

section \<open>Recording while another thread prints\<close>

text \<open>
  The printing thread exchanges the cells one at a time, first the underflow counter, then the
  buckets, last the overflow counter, while others record.  A configuration holds the histogram, what
  the printer still has to exchange and what it has read, and, as history, the delays recorded and
  the reports printed.
\<close>

record hconf =
  hist :: histogram
  printing :: "(bucket_ref list \<times> (bucket_ref \<times> u32) list) option"
  recorded :: "u64 list"
  reports :: "(bucket_ref \<times> u32) list list"

definition swap_order :: "histogram \<Rightarrow> bucket_ref list" where
  "swap_order h = Underflow # map Bucket [0..<unat (n_buckets h)] @ [Overflow]"

inductive hstep :: "hconf \<Rightarrow> hconf \<Rightarrow> bool" where
  rec: "histogram_incr (hist s) d = Some h' \<Longrightarrow> hstep s (s\<lparr> hist := h', recorded := d # recorded s \<rparr>)"
| begin_print: "printing s = None \<Longrightarrow> hstep s (s\<lparr> printing := Some (swap_order (hist s), []) \<rparr>)"
| exchange: "printing s = Some (r # rs, acc) \<Longrightarrow>
    hstep s (s\<lparr> hist := set_cell (hist s) r 0, printing := Some (rs, acc @ [(r, cell (hist s) r)]) \<rparr>)"
| end_print: "printing s = Some ([], acc) \<Longrightarrow> hstep s (s\<lparr> printing := None, reports := reports s @ [acc] \<rparr>)"

text \<open>What the reports, and the one in progress, say of a cell.\<close>

definition reported :: "hconf \<Rightarrow> bucket_ref \<Rightarrow> u32" where
  "reported s r =
     sum_list (map snd (filter (\<lambda>(r', c). r' = r)
       (concat (reports s) @ (case printing s of None \<Rightarrow> [] | Some (rs, acc) \<Rightarrow> acc))))"

definition hconf_init :: "histogram \<Rightarrow> hconf" where
  "hconf_init h = \<lparr> hist = h, printing = None, recorded = [], reports = [] \<rparr>"

definition hconf_inv :: "histogram \<Rightarrow> hconf \<Rightarrow> bool" where
  "hconf_inv h0 s \<longleftrightarrow>
     hist_inv (hist s) \<and> n_buckets (hist s) = n_buckets h0 \<and>
     (\<forall>e r. counts_in (hist s) e r = counts_in h0 e r) \<and>
     (\<forall>r. cell_exists (hist s) r \<longrightarrow> of_nat (count_in h0 (recorded s) r) = cell (hist s) r + reported s r) \<and>
     (\<forall>rep \<in> set (reports s). map fst rep = swap_order h0) \<and>
     (\<forall>rs acc. printing s = Some (rs, acc) \<longrightarrow> map fst acc @ rs = swap_order h0)"

text \<open>Exchanging all cells without interference is \<^const>\<open>histogram_print_clear\<close>.\<close>

definition zero_cells :: "bucket_ref list \<Rightarrow> histogram \<Rightarrow> histogram" where
  "zero_cells rs h = foldl (\<lambda>h r. set_cell h r 0) h rs"

lemma exchange_run:
  assumes "printing s = Some (rs, acc)" and "distinct rs" and "\<forall>r \<in> set rs. cell_exists (hist s) r"
  shows "hstep\<^sup>*\<^sup>* s (s\<lparr> hist := zero_cells rs (hist s),
                      printing := Some ([], acc @ map (\<lambda>r. (r, cell (hist s) r)) rs) \<rparr>)"
  using assms
proof (induction rs arbitrary: s acc)
  case Nil
  then show ?case by (cases s) (simp add: zero_cells_def)
next
  case (Cons r rs)
  let ?t = "s\<lparr> hist := set_cell (hist s) r 0, printing := Some (rs, acc @ [(r, cell (hist s) r)]) \<rparr>"
  have step: "hstep s ?t" using Cons.prems(1) by (rule exchange)
  have keep: "cell (set_cell (hist s) r 0) r' = cell (hist s) r'" if "r' \<in> set rs" for r'
    using Cons.prems that by (auto simp: cell_set_cell)
  have ex: "\<forall>r' \<in> set rs. cell_exists (hist ?t) r'"
    using Cons.prems by (auto simp: cell_exists_def split: bucket_ref.splits)
  show ?case
    using step Cons.IH [of ?t] Cons.prems ex keep
    by (auto simp: zero_cells_def cong: map_cong intro: converse_rtranclp_into_rtranclp)
qed

lemma zero_buckets:
  "k + n \<le> length (buckets h) \<Longrightarrow>
   zero_cells (map Bucket [k..<k + n]) h =
     h\<lparr> buckets := take k (buckets h) @ replicate n 0 @ drop (k + n) (buckets h) \<rparr>"
proof (induction n)
  case (Suc n)
  have "drop (k + n) (buckets h) = buckets h ! (k + n) # drop (Suc (k + n)) (buckets h)"
    using Suc.prems by (simp add: Cons_nth_drop_Suc)
  with Suc show ?case by (simp add: zero_cells_def list_update_append replicate_append_same [symmetric])
qed (simp add: zero_cells_def)

lemma zero_swap_order: "hist_inv h \<Longrightarrow> zero_cells (swap_order h) h = histogram_clear h"
  using zero_buckets [of 0 "length (buckets h)" "h\<lparr> underflow_cnt := 0 \<rparr>"]
  by (simp add: swap_order_def zero_cells_def clear_eq hist_inv_def)

lemma swap_order_cells:
  "hist_inv h \<Longrightarrow> r \<in> set (swap_order h) \<longleftrightarrow> cell_exists h r" "distinct (swap_order h)"
  by (cases r; auto simp: swap_order_def cell_exists_def hist_inv_def)
    (auto simp: swap_order_def distinct_map inj_on_def)

lemma hstep_print_clear:
  assumes "hist_inv (hist s)" and "printing s = None"
  shows "hstep\<^sup>*\<^sup>* s (s\<lparr> hist := snd (histogram_print_clear (hist s) utc secs),
           reports := reports s @ [map (\<lambda>r. (r, cell (hist s) r)) (swap_order (hist s))] \<rparr>)"
proof -
  let ?s1 = "s\<lparr> printing := Some (swap_order (hist s), []) \<rparr>"
  let ?rep = "map (\<lambda>r. (r, cell (hist s) r)) (swap_order (hist s))"
  let ?s2 = "s\<lparr> hist := histogram_clear (hist s), printing := Some ([], ?rep) \<rparr>"
  have "hstep s ?s1" using assms(2) by (rule begin_print)
  moreover have "hstep\<^sup>*\<^sup>* ?s1 ?s2"
    using exchange_run [of ?s1 "swap_order (hist s)" "[]"] swap_order_cells(1) [OF assms(1)] swap_order_cells(2) zero_swap_order [OF assms(1)]
    by simp
  moreover have "hstep ?s2 (s\<lparr> hist := histogram_clear (hist s), reports := reports s @ [?rep] \<rparr>)"
    by (rule back_subst [of "hstep ?s2", OF end_print [of ?s2 ?rep]]) (use assms(2) in \<open>cases s; simp\<close>)+
  ultimately have "hstep\<^sup>*\<^sup>* s (s\<lparr> hist := histogram_clear (hist s), reports := reports s @ [?rep] \<rparr>)"
    by (rule converse_rtranclp_into_rtranclp [OF _ rtranclp.rtrancl_into_rtrancl])
  then show ?thesis using print_clear_hist [OF assms(1)] by simp
qed

lemma counts_in_cong_count: "(\<And>e r. counts_in h e r = counts_in h' e r) \<Longrightarrow> count_in h ds r = count_in h' ds r"
  by (simp add: count_in_def)

lemma incr_fields:
  "histogram_incr h d = Some h' \<Longrightarrow>
   n_buckets h' = n_buckets h \<and> length (buckets h') = length (buckets h) \<and> bounds h' = bounds h"
  by (auto simp: histogram_incr_def split: option.splits)

lemma cell_exists_cong: "length (buckets h) = length (buckets h') \<Longrightarrow> cell_exists h r = cell_exists h' r"
  by (cases r) (simp_all add: cell_exists_def)

lemma inv_rec:
  assumes inv: "hconf_inv h0 s" and i: "histogram_incr (hist s) d = Some h'"
  shows "hconf_inv h0 (s\<lparr> hist := h', recorded := d # recorded s \<rparr>)" (is "hconf_inv h0 ?t")
proof -
  have hi: "hist_inv (hist s)" and ci: "\<forall>e r. counts_in (hist s) e r = counts_in h0 e r"
    and ct: "\<And>r. cell_exists (hist s) r \<Longrightarrow> of_nat (count_in h0 (recorded s) r) = cell (hist s) r + reported s r"
    using inv by (simp_all add: hconf_inv_def)
  have h': "hist_inv h'" "\<forall>d r. counts_in h' d r = counts_in (hist s) d r"
    "\<forall>r. cell h' r = cell (hist s) r + (if counts_in (hist s) (unat d) r then 1 else 0)"
    using incr_ok [OF hi, of d] i by auto
  have rep: "reported ?t r = reported s r" for r by (simp add: reported_def)
  have "of_nat (count_in h0 (d # recorded s) r) = cell h' r + reported s r" if "cell_exists h' r" for r
    using ct [of r] that cell_exists_cong [of h' "hist s" r] incr_fields [OF i] h'(3) ci
    by (auto simp: count_in_def)
  then show ?thesis
    using inv h'(1,2) ci rep incr_fields [OF i] by (simp add: hconf_inv_def)
qed

lemma inv_begin:
  assumes inv: "hconf_inv h0 s" and p: "printing s = None"
  shows "hconf_inv h0 (s\<lparr> printing := Some (swap_order (hist s), []) \<rparr>)"
  using assms by (simp add: hconf_inv_def reported_def swap_order_def)

lemma inv_exchange:
  assumes inv: "hconf_inv h0 s" and p: "printing s = Some (r # rs, acc)"
  shows "hconf_inv h0 (s\<lparr> hist := set_cell (hist s) r 0, printing := Some (rs, acc @ [(r, cell (hist s) r)]) \<rparr>)"
    (is "hconf_inv h0 ?t")
proof -
  have "map fst acc @ r # rs = swap_order h0" using inv p by (simp add: hconf_inv_def)
  then have "r \<in> set (swap_order h0)" by (metis in_set_conv_decomp)
  then have r: "cell_exists (hist s) r"
    using inv by (auto simp: hconf_inv_def swap_order_def cell_exists_def hist_inv_def)
  have rep: "reported ?t r' = reported s r' + (if r' = r then cell (hist s) r else 0)" for r'
    using p by (auto simp: reported_def)
  have "of_nat (count_in h0 (recorded s) r') = cell (set_cell (hist s) r 0) r' + reported ?t r'"
    if "cell_exists (set_cell (hist s) r 0) r'" for r'
  proof -
    have "cell_exists (hist s) r'" using that cell_exists_cong [of "set_cell (hist s) r 0" "hist s"] by simp
    then have "of_nat (count_in h0 (recorded s) r') = cell (hist s) r' + reported s r'"
      using inv by (simp add: hconf_inv_def)
    then show ?thesis unfolding rep using cell_set_cell [OF r] by simp
  qed
  then show ?thesis using inv p by (simp add: hconf_inv_def)
qed

lemma inv_end:
  assumes inv: "hconf_inv h0 s" and p: "printing s = Some ([], acc)"
  shows "hconf_inv h0 (s\<lparr> printing := None, reports := reports s @ [acc] \<rparr>)" (is "hconf_inv h0 ?t")
proof -
  have "reported ?t r = reported s r" for r using p by (simp add: reported_def)
  then show ?thesis using inv p by (auto simp: hconf_inv_def)
qed

lemma hstep_inv: "hstep s t \<Longrightarrow> hconf_inv h0 s \<Longrightarrow> hconf_inv h0 t"
  by (induction rule: hstep.induct)
    (erule (1) inv_rec | erule (1) inv_begin | erule (1) inv_exchange | erule (1) inv_end)+

interpretation hs: preserved hstep "hconf_inv h0" for h0
  by unfold_locales (rule hstep_inv)

lemma hconf_init_inv:
  "hist_inv h \<Longrightarrow> (\<And>r. cell h r = 0 \<or> \<not> cell_exists h r) \<Longrightarrow> hconf_inv h (hconf_init h)"
  by (auto simp: hconf_inv_def hconf_init_def reported_def count_in_def)

section \<open>Properties\<close>

text \<open>
  C33. \<^verbatim>\<open>histogram_init\<close> accepts exactly the range specifications that ascend from the lower bound
  with non-zero widths that divide their ranges.  The histogram it makes is well-formed, has zero
  counts, and its buckets' intervals follow one another without gap from the lower bound to the last
  upper bound.
\<close>

theorem histogram_init_ok:
  assumes "spec_total ranges lowb < 2 ^ 31" and "length ranges < 2 ^ 32"
  shows "(ranges_valid ranges lowb \<longleftrightarrow> histogram_init lowb ranges \<noteq> None) \<and>
         (\<forall>h. histogram_init lowb ranges = Some h \<longrightarrow>
            hist_inv h \<and> (\<forall>r. cell_exists h r \<longrightarrow> cell h r = 0) \<and>
            contiguous (unat lowb) (intervals h) (unat (range_max h)) \<and>
            length (intervals h) = spec_total ranges lowb)"
proof (intro conjI allI impI)
  show "ranges_valid ranges lowb \<longleftrightarrow> histogram_init lowb ranges \<noteq> None"
    using init_ranges_ok [of 0 ranges lowb] init_ranges_invalid [of ranges lowb 0] assms(1)
    by (cases "ranges_valid ranges lowb") (auto simp: histogram_init_def)
next
  fix h assume h: "histogram_init lowb ranges = Some h"
  note inv = histogram_init_inv [OF h assms]
  show "hist_inv h" by (rule inv)
  show "contiguous (unat lowb) (intervals h) (unat (range_max h))"
    using hist_inv_intervals(1) [OF inv(1)] inv(3) by simp
  show "length (intervals h) = spec_total ranges lowb"
    using hist_inv_intervals(2) [OF inv(1)] inv(4) by simp
  show "cell h r = 0" if "cell_exists h r" for r using inv(2) that by blast
qed

text \<open>
  C17. After recording any sequence of delays in a fresh histogram no access has left the arrays, and
  every counter holds the number of the recorded delays in its interval, modulo \<open>2 ^ 32\<close>: the
  underflow counter those below the lower bound, the overflow counter those at or above the last
  upper bound.
\<close>

theorem histogram_counts:
  assumes "histogram_init lowb ranges = Some h" and "spec_total ranges lowb < 2 ^ 31"
    and "length ranges < 2 ^ 32"
  shows "\<exists>h'. record_all h ds = Some h' \<and> hist_inv h' \<and> intervals h' = intervals h \<and>
           underflow_cnt h' = of_nat (length (filter (\<lambda>d. d < lowb) ds)) \<and>
           overflow_cnt h' = of_nat (length (filter (\<lambda>d. range_max h \<le> d) ds)) \<and>
           (\<forall>i < length (intervals h).
              buckets h' ! i = of_nat (length (filter (\<lambda>d. in_interval (unat d) (intervals h ! i)) ds)))"
proof -
  note inv = histogram_init_inv [OF assms]
  obtain h' where h': "record_all h ds = Some h'" "hist_inv h'" "intervals h' = intervals h"
    "\<forall>r. cell h' r = cell h r + of_nat (count_in h ds r)"
    using record_all_ok [OF inv(1)] by blast
  have c: "cell h' r = of_nat (count_in h ds r)" if "cell_exists h r" for r
    using h'(4) inv(2) [of r] that by simp
  have "underflow_cnt h' = of_nat (length (filter (\<lambda>d. d < lowb) ds))"
    using c [of Underflow] inv(3) by (simp add: cell_exists_def count_in_def counts_in_def word_less_nat_alt)
  moreover have "overflow_cnt h' = of_nat (length (filter (\<lambda>d. range_max h \<le> d) ds))"
    using c [of Overflow] by (simp add: cell_exists_def count_in_def counts_in_def word_le_nat_alt)
  moreover have "buckets h' ! i = of_nat (length (filter (\<lambda>d. in_interval (unat d) (intervals h ! i)) ds))"
    if "i < length (intervals h)" for i
    using c [of "Bucket i"] that hist_inv_intervals(2) [OF inv(1)]
    by (simp add: cell_exists_def count_in_def counts_in_def)
  ultimately show ?thesis using h'(1-3) by blast
qed

text \<open>
  C19. Printing and clearing while other threads record misses nothing and counts nothing twice: at
  any time, for every counter, what the finished reports and the one in progress say plus what the
  counter holds is the number of delays recorded in its interval, modulo \<open>2 ^ 32\<close>, and every finished
  report lists each counter exactly once.
\<close>

theorem print_clear_conserves:
  assumes "histogram_init lowb ranges = Some h" and "spec_total ranges lowb < 2 ^ 31"
    and "length ranges < 2 ^ 32" and "hstep\<^sup>*\<^sup>* (hconf_init h) s"
  shows "(\<forall>r. cell_exists (hist s) r \<longrightarrow>
             reported s r + cell (hist s) r = of_nat (count_in h (recorded s) r)) \<and>
         (\<forall>rep \<in> set (reports s). map fst rep = swap_order h)"
proof -
  note inv = histogram_init_inv [OF assms(1-3)]
  have "hconf_inv h s"
    using hs.reach_inv [OF assms(4)] hconf_init_inv [OF inv(1)] inv(2) by blast
  then show ?thesis by (simp add: hconf_inv_def add.commute)
qed

text \<open>
  Without concurrent recording \<^verbatim>\<open>histogram_print_clear\<close> writes what \<^verbatim>\<open>histogram_print\<close> writes and
  leaves the histogram \<^verbatim>\<open>histogram_clear\<close> leaves, as long as the two outer counters together stay
  below \<open>2 ^ 32\<close>.
\<close>

theorem print_clear_is_print_then_clear:
  assumes "hist_inv h" and "unat (underflow_cnt h) + unat (overflow_cnt h) < 2 ^ 32"
  shows "histogram_print_clear h utc secs = (histogram_print h utc secs, histogram_clear h)"
proof -
  let ?u = "ucast (underflow_cnt h) :: u64" and ?o = "ucast (overflow_cnt h) :: u64"
  have uo: "ucast (underflow_cnt h + overflow_cnt h) = ?u + ?o"
  proof -
    have "unat (?u + ?o) = unat (underflow_cnt h) + unat (overflow_cnt h)"
      using assms(2) by (subst unat_add_no_overflow) (simp_all add: ucast_u32_u64)
    then show ?thesis
      using assms(2) by (simp add: word_unat_eq_iff ucast_u32_u64 unat_add_no_overflow)
  qed
  have n: "unat (n_buckets h) = length (buckets h)" using assms(1) by (simp add: hist_inv_def)
  have "histogram_calc_total h = ?u + sum_list (map ucast (buckets h)) + ?o"
    unfolding histogram_calc_total_def foldl_ucast_sum uo by (simp add: n ac_simps)
  then have "fst (histogram_print_clear h utc secs) = histogram_print h utc secs"
    by (simp add: histogram_print_clear_def histogram_print_def exchange_buckets_eq n Let_def print_header_def)
  then show ?thesis using print_clear_hist [OF assms(1)] by (metis prod.collapse)
qed

text \<open>
  \<^verbatim>\<open>histogram_calc_total\<close> returns the number of recorded delays the counters stand for exactly
  when the underflow and overflow counters together stay below \<open>2 ^ 32\<close>; beyond that their sum, taken
  between 32-bit numbers before it is widened, loses a multiple of \<open>2 ^ 32\<close>.
\<close>

theorem calc_total_exact_iff:
  assumes "hist_inv h"
  shows "unat (histogram_calc_total h)
           = unat (underflow_cnt h) + unat (overflow_cnt h) + sum_list (map unat (buckets h))
         \<longleftrightarrow> unat (underflow_cnt h) + unat (overflow_cnt h) < 2 ^ 32"
  using calc_total_unat [OF assms]
  by (metis add_right_imp_eq mod_less mod_less_divisor zero_less_numeral zero_less_power)

section \<open>Witnesses\<close>

definition example_ranges :: "rangespec list" where
  "example_ranges = [\<lparr> upper_bound = 300, spec_width = 100 \<rparr>, \<lparr> upper_bound = 500, spec_width = 200 \<rparr>]"

definition example_hist :: histogram where
  "example_hist =
     \<lparr> buckets = [0, 0, 0],
       bounds = [\<lparr> lower_bound = 100, bucket_width = 100, offset = 0, range_buckets = 2 \<rparr>,
                 \<lparr> lower_bound = 300, bucket_width = 200, offset = 2, range_buckets = 1 \<rparr>],
       hist_name = None, range_min = 100, range_max = 500, underflow_cnt = 0, overflow_cnt = 0,
       n_bounds = 2, n_buckets = 3 \<rparr>"

lemma example_ranges_total: "spec_total example_ranges 100 = 3" "length example_ranges = 2"
  by (simp_all add: example_ranges_def)

lemma example_init: "histogram_init 100 example_ranges = Some example_hist"
  by code_simp

theorem histogram_init_ok_witness:
  "hist_inv example_hist \<and> length (intervals example_hist) = 3"
  using histogram_init_ok [of example_ranges 100] example_ranges_total example_init by simp

theorem histogram_counts_witness:
  "\<exists>h'. record_all example_hist [50, 120, 299, 600, 130] = Some h' \<and> underflow_cnt h' = 1 \<and>
        overflow_cnt h' = 1 \<and> buckets h' ! 0 = 2 \<and> buckets h' ! 1 = 1"
proof -
  have iv: "intervals example_hist = [(100, 200), (200, 300), (300, 500)]"
    by (simp add: intervals_def range_intervals_def example_hist_def upt_rec)
  obtain h' where h': "record_all example_hist [50, 120, 299, 600, 130] = Some h'"
    "underflow_cnt h' = of_nat (length (filter (\<lambda>d. d < 100) [50, 120, 299, 600, 130 :: u64]))"
    "overflow_cnt h' = of_nat (length (filter (\<lambda>d. range_max example_hist \<le> d) [50, 120, 299, 600, 130]))"
    "\<forall>i < length (intervals example_hist). buckets h' ! i =
       of_nat (length (filter (\<lambda>d. in_interval (unat d) (intervals example_hist ! i)) [50, 120, 299, 600, 130 :: u64]))"
    using histogram_counts [OF example_init, of "[50, 120, 299, 600, 130]"] example_ranges_total by auto
  have "buckets h' ! 0 = 2" "buckets h' ! 1 = 1"
    using h'(4) [rule_format, of 0] h'(4) [rule_format, of 1] by (simp_all add: iv in_interval_def)
  with h'(1-3) show ?thesis by (intro exI [of _ h']) (simp add: example_hist_def)
qed

definition example_hconf :: hconf where
  "example_hconf =
     \<lparr> hist = example_hist\<lparr> buckets := [1, 0, 0] \<rparr>, printing = Some ([Bucket 0, Bucket 1, Bucket 2, Overflow], [(Underflow, 0)]),
       recorded = [120], reports = [] \<rparr>"

lemma example_hconf_reachable: "hstep\<^sup>*\<^sup>* (hconf_init example_hist) example_hconf"
proof -
  let ?s0 = "hconf_init example_hist"
  let ?s1 = "?s0\<lparr> printing := Some (swap_order example_hist, []) \<rparr>"
  let ?s2 = "?s1\<lparr> printing := Some ([Bucket 0, Bucket 1, Bucket 2, Overflow], [(Underflow, 0)]) \<rparr>"
  have order: "swap_order example_hist = [Underflow, Bucket 0, Bucket 1, Bucket 2, Overflow]"
    by (simp add: swap_order_def example_hist_def upt_rec)
  have incr: "histogram_incr example_hist 120 = Some (example_hist\<lparr> buckets := [1, 0, 0] \<rparr>)"
    by code_simp
  have "hstep ?s0 ?s1"
    by (rule back_subst [of "hstep ?s0", OF begin_print [of ?s0]]) (simp_all add: hconf_init_def)
  moreover have "hstep ?s1 ?s2"
    by (rule back_subst [of "hstep ?s1", OF exchange [of ?s1 Underflow]])
      (simp_all add: hconf_init_def order, simp add: example_hist_def)
  moreover have "hstep ?s2 example_hconf"
    by (rule back_subst [of "hstep ?s2", OF rec [of ?s2 120]])
      (simp_all add: hconf_init_def incr example_hconf_def)
  ultimately show ?thesis by (meson converse_rtranclp_into_rtranclp rtranclp.rtrancl_refl)
qed

theorem print_clear_conserves_witness:
  "reported example_hconf (Bucket 0) + cell (hist example_hconf) (Bucket 0)
     = of_nat (count_in example_hist (recorded example_hconf) (Bucket 0))"
proof -
  have "cell_exists (hist example_hconf) (Bucket 0)" by (simp add: cell_exists_def example_hconf_def)
  then show ?thesis
    using print_clear_conserves [OF example_init _ _ example_hconf_reachable] example_ranges_total
    by (simp del: cell.simps)
qed

theorem print_clear_is_print_then_clear_witness:
  "histogram_print_clear example_hist ''t'' ''1'' = (histogram_print example_hist ''t'' ''1'', histogram_clear example_hist)"
proof -
  have "hist_inv example_hist" using histogram_init_inv(1) [OF example_init] example_ranges_total by simp
  then show ?thesis
    by (rule print_clear_is_print_then_clear) (simp add: example_hist_def)
qed

theorem calc_total_exact_iff_witness:
  "unat (histogram_calc_total (example_hist\<lparr> underflow_cnt := 0xFFFFFFFF, overflow_cnt := 1 \<rparr>)) \<noteq> 2 ^ 32"
proof -
  have "hist_inv example_hist" using histogram_init_inv(1) [OF example_init] example_ranges_total by simp
  then have "hist_inv (example_hist\<lparr> underflow_cnt := 0xFFFFFFFF, overflow_cnt := 1 \<rparr>)" by (simp add: hist_inv_def)
  from calc_total_exact_iff [OF this] show ?thesis by (simp add: example_hist_def)
qed

end
