(* ===== verification/Queue.thy ===== *)
theory Queue
  imports Prelude "HOL-Library.Sublist"
begin

text \<open>
  The lock-free queue of \<^verbatim>\<open>queue.c\<close>: several threads push, one thread pops.  It hands the
  records that are ready for their next transaction from the event loops back to the worker thread.

  The theory has the queue's record and its operations on a queue no other thread touches, the
  interface \<^verbatim>\<open>bounded_fifo\<close> that they implement, and a step relation in which the atomic accesses
  of concurrent pushers and of the popper interleave.
\<close>

section \<open>The queue and its operations\<close>

text \<open>A NULL pointer is \<^const>\<open>None\<close>.\<close>

record 'a queue =
  items :: "'a option list"
  len_mask :: u32
  pos :: u32
  head :: u32

datatype queue_error =
    Queue_length_zero
  | Queue_length_undefined

text \<open>
  \<^verbatim>\<open>next_pow2\<close> shifts \<^verbatim>\<open>0x80000000LU\<close> right by one less than the number of leading zero bits;
  without leading zero bits the shift count wraps and the shift is undefined, as
  \<^verbatim>\<open>__builtin_clz(0)\<close> is.
\<close>

definition next_pow2 :: "u32 \<Rightarrow> u32 option" where
  "next_pow2 n =
     (if n = 0 \<or> clz n = 0 then None
      else Some (ucast (drop_bit (clz n - 1) (0x80000000 :: u64))))"

definition queue_init :: "u32 \<Rightarrow> queue_error + 'a queue" where
  "queue_init q_len =
     (if q_len = 0 then Inl Queue_length_zero
      else case next_pow2 q_len of
             None \<Rightarrow> Inl Queue_length_undefined
           | Some len \<Rightarrow> Inr \<lparr> items = replicate (unat len) None, len_mask = len - 1, pos = 0, head = 0 \<rparr>)"

definition queue_slot :: "'a queue \<Rightarrow> u32 \<Rightarrow> nat" where
  "queue_slot q p = unat (p AND len_mask q)"

definition queue_push :: "'a queue \<Rightarrow> 'a \<Rightarrow> 'a queue" where
  "queue_push q item =
     q\<lparr> pos := pos q + 1, items := (items q)[queue_slot q (pos q) := Some item] \<rparr>"

definition queue_pop :: "'a queue \<Rightarrow> 'a option \<times> 'a queue" where
  "queue_pop q =
     (if head q \<noteq> pos q then
        let item = items q ! queue_slot q (head q)
        in (item, q\<lparr> items := (items q)[queue_slot q (head q) := None],
                     head := head q + (if item \<noteq> None then 1 else 0) \<rparr>)
      else (None, q))"

section \<open>Positions modulo the length\<close>

lemma unat_and_mask:
  fixes w :: u32
  shows "unat (w AND (2 ^ k - 1)) = unat w mod 2 ^ k"
  by (metis mask_eq_exp_minus_1 take_bit_eq_mask take_bit_eq_mod unsigned_take_bit_eq)

lemma slot_of_nat:
  assumes "k \<le> 32"
  shows "unat ((of_nat i :: u32) AND (2 ^ k - 1)) = i mod 2 ^ k"
proof -
  have "(2::nat) ^ k dvd 2 ^ 32" using assms by (rule le_imp_power_dvd)
  then have "i mod 2 ^ 32 mod 2 ^ k = i mod 2 ^ k" by (rule mod_mod_cancel)
  then show ?thesis by (simp add: unat_and_mask unsigned_of_nat take_bit_eq_mod)
qed

lemma of_nat_u32_window:
  assumes "(of_nat i :: u32) = of_nat j" and "a \<le> i" "i < a + n" "a \<le> j" "j < a + n" and "n \<le> 2 ^ 32"
  shows "i = j"
proof -
  have "i mod 2 ^ 32 = j mod 2 ^ 32" using assms(1) by (simp add: word_of_nat_eq_iff take_bit_eq_mod)
  then show ?thesis using assms by (intro mod_window_inj' [of i "2 ^ 32" j a]) auto
qed

lemma next_pow2_eq:
  assumes "n \<noteq> 0" and "unat n < 2 ^ 31"
  shows "next_pow2 n = Some (2 ^ bit_length (unat n))"
    and "bit_length (unat n) \<le> 31"
proof -
  let ?b = "bit_length (unat n)"
  show le: "?b \<le> 31" using assms(2) by (simp add: bit_length_le_iff)
  have "0 < ?b" using assms(1) by (simp add: unat_gt_0)
  have clz: "clz n = 32 - ?b" by (simp add: clz_def)
  have "(2::nat) ^ 31 = 2 ^ (31 - ?b) * 2 ^ ?b" using le by (simp flip: power_add)
  then have "(2::nat) ^ 31 div 2 ^ (31 - ?b) = 2 ^ ?b" by (simp only: div_mult_self1_is_m zero_less_power zero_less_numeral)
  then have "(2147483648::nat) div 2 ^ (31 - ?b) = 2 ^ ?b" by simp
  moreover have "unat (2 ^ ?b :: u64) = 2 ^ ?b" using le by (simp add: unat_power_2)
  ultimately have "drop_bit (31 - ?b) (0x80000000 :: u64) = 2 ^ ?b"
    by (simp only: word_unat_eq_iff unat_drop_bit_eq) (simp add: drop_bit_eq_div)
  moreover have "(ucast (2 ^ ?b :: u64) :: u32) = 2 ^ ?b"
    using le power_strict_increasing [of ?b 32 "2::nat"]
    by (simp add: word_unat_eq_iff unsigned_ucast_eq unat_power_2 take_bit_eq_mod)
  ultimately show "next_pow2 n = Some (2 ^ ?b)"
    using assms(1) le clz by (simp add: next_pow2_def)
qed

section \<open>What the array holds\<close>

text \<open>
  The slots of the positions from \<open>R\<close> to \<open>P\<close> hold what \<open>f\<close> says, and the others are empty.
  Positions are unbounded here; the code keeps them modulo \<open>2 ^ 32\<close>.
\<close>

definition window :: "nat \<Rightarrow> 'a queue \<Rightarrow> nat \<Rightarrow> nat \<Rightarrow> (nat \<Rightarrow> 'a option) \<Rightarrow> bool" where
  "window k q R P f \<longleftrightarrow>
     k \<le> 31 \<and> length (items q) = 2 ^ k \<and> len_mask q = 2 ^ k - 1 \<and> R \<le> P \<and> P \<le> R + 2 ^ k \<and>
     (\<forall>i. R \<le> i \<and> i < P \<longrightarrow> items q ! (i mod 2 ^ k) = f i) \<and>
     (\<forall>i. P \<le> i \<and> i < R + 2 ^ k \<longrightarrow> items q ! (i mod 2 ^ k) = None)"

lemma window_slot: "window k q R P f \<Longrightarrow> queue_slot q (of_nat i) = i mod 2 ^ k"
  by (simp add: window_def queue_slot_def slot_of_nat)

lemma window_cong:
  "window k q R P f \<Longrightarrow> (\<And>i. R \<le> i \<Longrightarrow> i < P \<Longrightarrow> f i = g i) \<Longrightarrow> window k q R P g"
  by (simp add: window_def)

lemma window_change:
  "window k q R P f \<Longrightarrow> items q' = items q \<Longrightarrow> len_mask q' = len_mask q \<Longrightarrow>
   (\<And>i. R \<le> i \<Longrightarrow> i < P \<Longrightarrow> f i = g i) \<Longrightarrow> window k q' R P g"
  by (simp add: window_def)

lemma window_extend: "window k q R P f \<Longrightarrow> P < R + 2 ^ k \<Longrightarrow> f P = None \<Longrightarrow> window k q R (Suc P) f"
  by (auto simp: window_def less_Suc_eq)

text \<open>An emptied slot at the front is free again: it is the slot of position \<open>R + 2 ^ k\<close>.\<close>

lemma window_shrink: "window k q R P f \<Longrightarrow> R < P \<Longrightarrow> f R = None \<Longrightarrow> window k q (Suc R) P f"
  unfolding window_def by (auto simp: less_Suc_eq)

lemma window_update:
  assumes w: "window k q R P f" and i: "R \<le> i" "i < P"
  shows "window k (q\<lparr> items := (items q)[i mod 2 ^ k := v] \<rparr>) R P (f(i := v))"
proof -
  have other: "j mod 2 ^ k = i mod 2 ^ k \<longleftrightarrow> j = i" if "R \<le> j" "j < R + 2 ^ k" for j
    using mod_window_inj' [of j "2 ^ k" i R] that i w by (auto simp: window_def)
  have "(items q)[i mod 2 ^ k := v] ! (j mod 2 ^ k) = (if j = i then v else items q ! (j mod 2 ^ k))"
    if "R \<le> j" "j < R + 2 ^ k" for j
    using that other [of j] w by (auto simp: window_def nth_list_update)
  moreover have "P \<le> R + 2 ^ k" using w by (simp add: window_def)
  ultimately show ?thesis using w i by (auto simp: window_def)
qed

lemma window_lookup: "window k q R P f \<Longrightarrow> R \<le> i \<Longrightarrow> i < P \<Longrightarrow> items q ! (i mod 2 ^ k) = f i"
  by (simp add: window_def)

text \<open>The test \<^verbatim>\<open>head != pos\<close> on wrapped positions is exact.\<close>

lemma window_empty_iff: "window k q R P f \<Longrightarrow> (of_nat R :: u32) = of_nat P \<longleftrightarrow> R = P"
  using of_nat_u32_window [of R P R "2 ^ 31 + 1"] power_increasing [of k 31 "2::nat"]
  by (auto simp: window_def)

section \<open>The queue without concurrency\<close>

definition queue_rel :: "nat \<Rightarrow> 'a queue \<Rightarrow> nat \<Rightarrow> 'a list \<Rightarrow> bool" where
  "queue_rel k q R xs \<longleftrightarrow>
     head q = of_nat R \<and> pos q = of_nat (R + length xs) \<and>
     window k q R (R + length xs) (\<lambda>i. Some (xs ! (i - R)))"

definition queue_inv :: "'a queue \<Rightarrow> bool" where
  "queue_inv q \<longleftrightarrow> (\<exists>k R xs. queue_rel k q R xs)"

definition contents :: "'a queue \<Rightarrow> 'a list" where
  "contents q = map (\<lambda>i. the (items q ! queue_slot q (head q + of_nat i))) [0..<unat (pos q - head q)]"

definition capacity :: "'a queue \<Rightarrow> nat" where
  "capacity q = length (items q)"

lemma queue_rel_contents:
  assumes "queue_rel k q R xs"
  shows "contents q = xs"
proof -
  have w: "window k q R (R + length xs) (\<lambda>i. Some (xs ! (i - R)))"
    and hp: "head q = of_nat R" "pos q = of_nat (R + length xs)"
    using assms by (simp_all add: queue_rel_def)
  have "length xs \<le> 2 ^ k" "k \<le> 31" using w by (simp_all add: window_def)
  then have "length xs < 2 ^ 32" using power_increasing [of k 31 "2::nat"] by simp
  then have "unat (pos q - head q) = length xs" by (simp add: hp unat_of_nat_32)
  moreover have "items q ! queue_slot q (head q + of_nat i) = Some (xs ! i)" if "i < length xs" for i
    using that window_slot [OF w, of "R + i"] window_lookup [OF w, of "R + i"] by (simp add: hp)
  ultimately show ?thesis by (auto simp: contents_def intro: nth_equalityI)
qed

lemma queue_rel_push:
  assumes r: "queue_rel k q R xs" and room: "length xs < 2 ^ k"
  shows "queue_rel k (queue_push q x) R (xs @ [x])"
proof -
  let ?P = "R + length xs"
  let ?f = "(\<lambda>i. Some (xs ! (i - R)))(?P := None)"
  have w: "window k q R ?P (\<lambda>i. Some (xs ! (i - R)))" and p: "pos q = of_nat ?P"
    using r by (simp_all add: queue_rel_def)
  then have "window k q R ?P ?f" by (rule_tac window_cong) auto
  then have "window k q R (Suc ?P) ?f" using room by (intro window_extend) auto
  then have "window k (q\<lparr> items := (items q)[?P mod 2 ^ k := Some x] \<rparr>) R (Suc ?P) (?f(?P := Some x))"
    by (rule window_update) auto
  then have "window k (queue_push q x) R (Suc ?P) (\<lambda>i. Some ((xs @ [x]) ! (i - R)))"
    by (rule window_change) (use p window_slot [OF w, of ?P] in \<open>auto simp: queue_push_def nth_append\<close>)
  with r show ?thesis by (simp add: queue_rel_def queue_push_def add.commute)
qed

lemma queue_rel_pop_empty: "queue_rel k q R [] \<Longrightarrow> queue_pop q = (None, q)"
  by (simp add: queue_rel_def queue_pop_def)

lemma queue_rel_pop:
  assumes r: "queue_rel k q R (x # xs)"
  shows "fst (queue_pop q) = Some x" and "queue_rel k (snd (queue_pop q)) (Suc R) xs"
proof -
  let ?P = "R + length (x # xs)"
  let ?f = "\<lambda>i. Some ((x # xs) ! (i - R))"
  have w: "window k q R ?P ?f" and hp: "head q = of_nat R" "pos q = of_nat ?P"
    using r by (simp_all add: queue_rel_def)
  have slot: "queue_slot q (head q) = R mod 2 ^ k" using window_slot [OF w] hp by simp
  have ne: "head q \<noteq> pos q" using window_empty_iff [OF w] hp by simp
  have item: "items q ! queue_slot q (head q) = Some x" using window_lookup [OF w, of R] slot by simp
  then show "fst (queue_pop q) = Some x" using ne by (simp add: queue_pop_def Let_def)
  have "window k (q\<lparr> items := (items q)[R mod 2 ^ k := None] \<rparr>) R ?P (?f(R := None))"
    using w by (rule window_update) auto
  then have "window k (q\<lparr> items := (items q)[R mod 2 ^ k := None] \<rparr>) (Suc R) ?P (?f(R := None))"
    by (rule window_shrink) auto
  then have "window k (snd (queue_pop q)) (Suc R) ?P (\<lambda>i. Some (xs ! (i - Suc R)))"
    by (rule window_change) (use ne item slot in \<open>auto simp: queue_pop_def Let_def nth_Cons'\<close>)
  then show "queue_rel k (snd (queue_pop q)) (Suc R) xs"
    using ne item hp by (simp add: queue_rel_def queue_pop_def Let_def)
qed

lemma queue_rel_capacity: "queue_rel k q R xs \<Longrightarrow> capacity q = 2 ^ k"
  by (simp add: queue_rel_def window_def capacity_def)

lemma capacity_push [simp]: "capacity (queue_push q x) = capacity q"
  by (simp add: capacity_def queue_push_def)

lemma capacity_pop [simp]: "capacity (snd (queue_pop q)) = capacity q"
  by (simp add: capacity_def queue_pop_def Let_def)

section \<open>The interface of a bounded first-in first-out queue\<close>

datatype 'a queue_op = Enq 'a | Deq

text \<open>
  A sequence of operations: the items taken out, in order, and the queue at the end; and whether
  the sequence keeps the queue, of length \<open>n\<close> before it, within the capacity.
\<close>

fun run_ops :: "('q \<Rightarrow> 'a \<Rightarrow> 'q) \<Rightarrow> ('q \<Rightarrow> 'a option \<times> 'q) \<Rightarrow> 'q \<Rightarrow> 'a queue_op list \<Rightarrow> 'a list \<times> 'q" where
  "run_ops enq deq q [] = ([], q)"
| "run_ops enq deq q (Enq x # ops) = run_ops enq deq (enq q x) ops"
| "run_ops enq deq q (Deq # ops) =
     (let (it, q') = deq q; (xs, q'') = run_ops enq deq q' ops
      in (case it of None \<Rightarrow> xs | Some x \<Rightarrow> x # xs, q''))"

fun fits :: "nat \<Rightarrow> nat \<Rightarrow> 'a queue_op list \<Rightarrow> bool" where
  "fits cap n [] = True"
| "fits cap n (Enq x # ops) = (n < cap \<and> fits cap (Suc n) ops)"
| "fits cap n (Deq # ops) = fits cap (n - 1) ops"

fun enqueued :: "'a queue_op list \<Rightarrow> 'a list" where
  "enqueued [] = []"
| "enqueued (Enq x # ops) = x # enqueued ops"
| "enqueued (Deq # ops) = enqueued ops"

lemma fits_mono: "fits c n ops \<Longrightarrow> c \<le> d \<Longrightarrow> fits d n ops"
  by (induction c n ops rule: fits.induct) auto

locale bounded_fifo =
  fixes inv :: "'q \<Rightarrow> bool" and cont :: "'q \<Rightarrow> 'a list" and cap :: "'q \<Rightarrow> nat"
    and enq :: "'q \<Rightarrow> 'a \<Rightarrow> 'q" and deq :: "'q \<Rightarrow> 'a option \<times> 'q"
  assumes enq_inv: "inv q \<Longrightarrow> length (cont q) < cap q \<Longrightarrow> inv (enq q x)"
    and enq_cont: "inv q \<Longrightarrow> length (cont q) < cap q \<Longrightarrow> cont (enq q x) = cont q @ [x]"
    and enq_cap: "cap (enq q x) = cap q"
    and deq_empty: "inv q \<Longrightarrow> cont q = [] \<Longrightarrow> deq q = (None, q)"
    and deq_inv: "inv q \<Longrightarrow> inv (snd (deq q))"
    and deq_item: "inv q \<Longrightarrow> cont q = x # xs \<Longrightarrow> fst (deq q) = Some x"
    and deq_cont: "inv q \<Longrightarrow> cont (snd (deq q)) = tl (cont q)"
    and deq_cap: "cap (snd (deq q)) = cap q"
begin

lemma run_conserves:
  assumes "inv q" and "fits (cap q) (length (cont q)) ops"
  shows "inv (snd (run_ops enq deq q ops)) \<and>
         fst (run_ops enq deq q ops) @ cont (snd (run_ops enq deq q ops)) = cont q @ enqueued ops"
  using assms
proof (induction ops arbitrary: q)
  case (Cons op ops)
  show ?case
  proof (cases op)
    case (Enq x)
    with Cons show ?thesis by (simp add: enq_inv enq_cont enq_cap)
  next
    case Deq
    have IH: "inv (snd (run_ops enq deq (snd (deq q)) ops)) \<and>
      fst (run_ops enq deq (snd (deq q)) ops) @ cont (snd (run_ops enq deq (snd (deq q)) ops))
        = tl (cont q) @ enqueued ops"
      using Cons.IH [of "snd (deq q)"] Cons.prems Deq by (simp add: deq_inv deq_cont deq_cap)
    show ?thesis
    proof (cases "cont q")
      case Nil
      with IH Deq Cons.prems deq_empty [of q] show ?thesis by (simp split: prod.splits)
    next
      case (Cons x xs)
      with IH Deq Cons.prems deq_item [of q x xs] show ?thesis by (simp add: split_beta)
    qed
  qed
qed simp

lemma drain:
  "inv q \<Longrightarrow> \<exists>q'. run_ops enq deq q (replicate (length (cont q)) Deq) = (cont q, q') \<and> inv q' \<and> cont q' = []"
proof (induction "length (cont q)" arbitrary: q)
  case (Suc n)
  obtain x xs where q: "cont q = x # xs" using Suc.hyps(2) by (cases "cont q") auto
  then have c: "cont (snd (deq q)) = xs" and d: "fst (deq q) = Some x"
    using Suc.prems by (simp_all add: deq_cont deq_item)
  then show ?case
    using Suc.hyps(1) [of "snd (deq q)"] Suc.hyps(2) Suc.prems q
    by (auto simp: deq_inv split_beta)
qed simp

end

interpretation lq: bounded_fifo queue_inv contents capacity queue_push queue_pop
proof
  fix q :: "'a queue" and x :: 'a and xs
  show "capacity (queue_push q x) = capacity q" "capacity (snd (queue_pop q)) = capacity q" by simp_all
  assume "queue_inv q"
  then obtain k R ys where r: "queue_rel k q R ys" by (auto simp: queue_inv_def)
  then have c: "contents q = ys" by (rule queue_rel_contents)
  {
    assume "length (contents q) < capacity q"
    then have "queue_rel k (queue_push q x) R (ys @ [x])"
      using r c queue_rel_capacity [OF r] by (auto intro: queue_rel_push)
    then show "queue_inv (queue_push q x)" "contents (queue_push q x) = contents q @ [x]"
      using c queue_rel_contents by (auto simp: queue_inv_def)
  next
    assume "contents q = []"
    then show "queue_pop q = (None, q)" using r c queue_rel_pop_empty by auto
  next
    assume "contents q = x # xs"
    then show "fst (queue_pop q) = Some x" using r c queue_rel_pop(1) by auto
  next
    show "queue_inv (snd (queue_pop q))" "contents (snd (queue_pop q)) = tl (contents q)"
      using r c queue_rel_pop_empty queue_rel_pop(2) queue_rel_contents
      by (cases ys; fastforce simp: queue_inv_def)+
  }
qed

text \<open>A fresh queue.\<close>

lemma queue_init_rel:
  assumes "n \<noteq> 0" and "unat n < 2 ^ 31"
  shows "\<exists>q. queue_init n = Inr q \<and> queue_rel (bit_length (unat n)) q 0 []"
  using next_pow2_eq [OF assms] assms(1)
  by (auto simp: queue_init_def queue_rel_def window_def unat_power_2)

section \<open>Concurrent pushers and one popper\<close>

text \<open>
  Each push makes two atomic accesses, the \<^verbatim>\<open>atomic_fetch_add\<close> that reserves a position and the
  store of the item, and a pop three, the load of \<^verbatim>\<open>pos\<close>, the \<^verbatim>\<open>atomic_exchange\<close> of the slot and
  the update of \<^verbatim>\<open>head\<close>.  A configuration holds the queue, the pushes between their two accesses,
  where the popper stands, and, as history, the items pushed in the order of their reservations and
  the items popped.
\<close>

datatype 'a popper = Pop_Idle | Pop_Checked | Pop_Swapped "'a option"

record 'a qconf =
  que :: "'a queue"
  pend :: "(u32 \<times> 'a) list"
  popper :: "'a popper"
  pushed :: "'a list"
  popped :: "'a list"

definition conf_init :: "'a queue \<Rightarrow> 'a qconf" where
  "conf_init q = \<lparr> que = q, pend = [], popper = Pop_Idle, pushed = [], popped = [] \<rparr>"

text \<open>
  Pushing to a full queue is undefined according to \<^verbatim>\<open>queue.h\<close>; a push starts only while fewer items
  than the capacity are pushed and not popped.
\<close>

inductive qstep :: "'a qconf \<Rightarrow> 'a qconf \<Rightarrow> bool" where
  push_reserve:
    "length (pushed s) - length (popped s) < capacity (que s) \<Longrightarrow>
     qstep s (s\<lparr> que := (que s)\<lparr> pos := pos (que s) + 1 \<rparr>,
                 pend := (pos (que s), x) # pend s,
                 pushed := pushed s @ [x] \<rparr>)"
| push_store:
    "(p, x) \<in> set (pend s) \<Longrightarrow>
     qstep s (s\<lparr> que := (que s)\<lparr> items := (items (que s))[queue_slot (que s) p := Some x] \<rparr>,
                 pend := remove1 (p, x) (pend s) \<rparr>)"
| pop_check:
    "popper s = Pop_Idle \<Longrightarrow> head (que s) \<noteq> pos (que s) \<Longrightarrow> qstep s (s\<lparr> popper := Pop_Checked \<rparr>)"
| pop_swap:
    "popper s = Pop_Checked \<Longrightarrow> it = items (que s) ! queue_slot (que s) (head (que s)) \<Longrightarrow>
     qstep s (s\<lparr> que := (que s)\<lparr> items := (items (que s))[queue_slot (que s) (head (que s)) := None] \<rparr>,
                 popper := Pop_Swapped it,
                 popped := popped s @ (case it of None \<Rightarrow> [] | Some x \<Rightarrow> [x]) \<rparr>)"
| pop_return:
    "popper s = Pop_Swapped it \<Longrightarrow>
     qstep s (s\<lparr> que := (que s)\<lparr> head := head (que s) + (if it \<noteq> None then 1 else 0) \<rparr>,
                 popper := Pop_Idle \<rparr>)"

text \<open>
  A pop whose accesses are not interleaved with others is \<^const>\<open>queue_pop\<close>, and likewise for a push.
\<close>

lemma qstep_push:
  assumes "length (pushed s) - length (popped s) < capacity (que s)"
  shows "qstep\<^sup>*\<^sup>* s (s\<lparr> que := queue_push (que s) x, pushed := pushed s @ [x] \<rparr>)"
proof -
  let ?t = "s\<lparr> que := (que s)\<lparr> pos := pos (que s) + 1 \<rparr>, pend := (pos (que s), x) # pend s, pushed := pushed s @ [x] \<rparr>"
  have "qstep s ?t" using assms by (rule push_reserve)
  moreover have "qstep ?t (s\<lparr> que := queue_push (que s) x, pushed := pushed s @ [x] \<rparr>)"
    by (rule back_subst [of "qstep ?t", OF push_store [of "pos (que s)" x ?t]])
      (simp_all add: queue_push_def queue_slot_def)
  ultimately show ?thesis by (rule converse_rtranclp_into_rtranclp [OF _ r_into_rtranclp])
qed

lemma qstep_pop:
  assumes "popper s = Pop_Idle" and "queue_pop (que s) = (it, q')"
  shows "qstep\<^sup>*\<^sup>* s (s\<lparr> que := q', popped := popped s @ (case it of None \<Rightarrow> [] | Some x \<Rightarrow> [x]) \<rparr>)"
proof (cases "head (que s) = pos (que s)")
  case True
  with assms(2) show ?thesis by (auto simp: queue_pop_def)
next
  case False
  let ?h = "queue_slot (que s) (head (que s))"
  let ?t = "s\<lparr> popper := Pop_Checked \<rparr>"
  let ?u = "s\<lparr> que := (que s)\<lparr> items := (items (que s))[?h := None] \<rparr>, popper := Pop_Swapped it,
               popped := popped s @ (case it of None \<Rightarrow> [] | Some x \<Rightarrow> [x]) \<rparr>"
  have it: "it = items (que s) ! ?h" using assms(2) False by (simp add: queue_pop_def Let_def)
  have "qstep s ?t" using assms(1) False by (rule pop_check)
  moreover have "qstep ?t ?u" using pop_swap [of ?t it] it by simp
  moreover have "qstep ?u (s\<lparr> que := q', popped := popped s @ (case it of None \<Rightarrow> [] | Some x \<Rightarrow> [x]) \<rparr>)"
    by (rule back_subst [of "qstep ?u", OF pop_return [of ?u it]])
      (use assms False it in \<open>cases s; auto simp: queue_pop_def Let_def\<close>)+
  ultimately show ?thesis by (intro converse_rtranclp_into_rtranclp [of qstep s ?t] converse_rtranclp_into_rtranclp [of qstep ?t ?u] r_into_rtranclp)
qed

definition slot_value :: "'a qconf \<Rightarrow> nat \<Rightarrow> 'a option" where
  "slot_value s i = (if of_nat i \<in> fst ` set (pend s) then None else Some (pushed s ! i))"

definition head_of :: "'a qconf \<Rightarrow> nat" where
  "head_of s = (case popper s of Pop_Swapped (Some x) \<Rightarrow> length (popped s) - 1 | _ \<Rightarrow> length (popped s))"

text \<open>
  The invariant: every position between the popped and the pushed ones is stored or pending, the
  popped items are the first of the pushed ones, and the wrapped counters count both.
\<close>

definition qconf_inv :: "nat \<Rightarrow> 'a qconf \<Rightarrow> bool" where
  "qconf_inv k s \<longleftrightarrow>
     window k (que s) (length (popped s)) (length (pushed s)) (slot_value s) \<and>
     prefix (popped s) (pushed s) \<and>
     pos (que s) = of_nat (length (pushed s)) \<and> head (que s) = of_nat (head_of s) \<and>
     distinct (map fst (pend s)) \<and>
     (\<forall>(p, x) \<in> set (pend s). \<exists>i. length (popped s) \<le> i \<and> i < length (pushed s) \<and> p = of_nat i \<and> x = pushed s ! i) \<and>
     (popper s = Pop_Checked \<longrightarrow> length (popped s) < length (pushed s)) \<and>
     (\<forall>x. popper s = Pop_Swapped (Some x) \<longrightarrow> popped s \<noteq> [])"

lemma qconf_invI:
  assumes "window k (que t) (length (popped t)) (length (pushed t)) (slot_value t)"
    and "prefix (popped t) (pushed t)" and "pos (que t) = of_nat (length (pushed t))"
    and "head (que t) = of_nat (head_of t)" and "distinct (map fst (pend t))"
    and "\<And>p x. (p, x) \<in> set (pend t) \<Longrightarrow>
           \<exists>i. length (popped t) \<le> i \<and> i < length (pushed t) \<and> p = of_nat i \<and> x = pushed t ! i"
    and "popper t = Pop_Checked \<Longrightarrow> length (popped t) < length (pushed t)"
    and "\<And>x. popper t = Pop_Swapped (Some x) \<Longrightarrow> popped t \<noteq> []"
  shows "qconf_inv k t"
  using assms by (auto simp: qconf_inv_def)

lemma qconf_invD:
  assumes "qconf_inv k s"
  shows "window k (que s) (length (popped s)) (length (pushed s)) (slot_value s)"
    and "prefix (popped s) (pushed s)" and "pos (que s) = of_nat (length (pushed s))"
    and "head (que s) = of_nat (head_of s)" and "distinct (map fst (pend s))"
    and "(p, x) \<in> set (pend s) \<Longrightarrow>
           \<exists>i. length (popped s) \<le> i \<and> i < length (pushed s) \<and> p = of_nat i \<and> x = pushed s ! i"
    and "popper s = Pop_Checked \<Longrightarrow> length (popped s) < length (pushed s)"
    and "popper s = Pop_Swapped (Some x) \<Longrightarrow> popped s \<noteq> []"
  using assms by (auto simp: qconf_inv_def)

lemma window_size: "window k q R P f \<Longrightarrow> 2 ^ k \<le> (2::nat) ^ 31"
  using power_increasing [of k 31 "2::nat"] by (simp add: window_def)

lemma slot_value_inj:
  assumes "window k q R P f" "R \<le> i" "i < P" "R \<le> j" "j < P" "(of_nat i :: u32) = of_nat j"
  shows "i = j"
  using of_nat_u32_window [of i j R "2 ^ k"] window_size [OF assms(1)] assms by (auto simp: window_def)

lemma prefix_snoc_nth: "prefix xs ys \<Longrightarrow> length xs < length ys \<Longrightarrow> prefix (xs @ [ys ! length xs]) ys"
  by (metis append_one_prefix)

lemma slot_value_cong: "pend t = pend s \<Longrightarrow> pushed t = pushed s \<Longrightarrow> slot_value t = slot_value s"
  by (simp add: slot_value_def fun_eq_iff)

lemma inv_reserve:
  assumes inv: "qconf_inv k s" and room: "length (pushed s) - length (popped s) < capacity (que s)"
  shows "qconf_inv k (s\<lparr> que := (que s)\<lparr> pos := pos (que s) + 1 \<rparr>,
                         pend := (pos (que s), x) # pend s, pushed := pushed s @ [x] \<rparr>)"
    (is "qconf_inv k ?t")
proof -
  let ?R = "length (popped s)" and ?P = "length (pushed s)"
  have w: "window k (que s) ?R ?P (slot_value s)" and p: "pos (que s) = of_nat ?P"
    using inv by (simp_all add: qconf_inv_def)
  have RP: "?R \<le> ?P" and lt: "?P < ?R + 2 ^ k" using w room by (auto simp: window_def capacity_def)
  have "window k (que s) ?R (Suc ?P) ((slot_value s)(?P := None))"
    using lt by (intro window_extend window_cong [OF w]) auto
  then have w': "window k (que s) ?R (Suc ?P) ((slot_value s)(?P := None))" .
  have sv: "slot_value ?t i = ((slot_value s)(?P := None)) i" if "?R \<le> i" "i < Suc ?P" for i
  proof (cases "i = ?P")
    case False
    then have "(of_nat i :: u32) \<noteq> of_nat ?P"
      using slot_value_inj [OF w', of i ?P] that RP by auto
    with False that show ?thesis by (auto simp: slot_value_def p nth_append)
  qed (simp add: slot_value_def p)
  have new: "of_nat ?P \<notin> fst ` set (pend s)"
  proof
    assume "of_nat ?P \<in> fst ` set (pend s)"
    then obtain i where "?R \<le> i" "i < ?P" "(of_nat ?P :: u32) = of_nat i"
      using inv by (fastforce simp: qconf_inv_def)
    then show False using slot_value_inj [OF w', of i ?P] RP by auto
  qed
  have "window k (que ?t) (length (popped ?t)) (length (pushed ?t)) (slot_value ?t)"
    using w' by simp (erule window_change; use sv in simp)
  moreover have "prefix (popped ?t) (pushed ?t)"
    using inv RP by (simp add: qconf_inv_def)
  moreover have "distinct (map fst (pend ?t))"
    using inv new p by (simp add: qconf_inv_def)
  moreover have "\<forall>(p, y) \<in> set (pend ?t). \<exists>i. length (popped ?t) \<le> i \<and> i < length (pushed ?t) \<and>
                    p = of_nat i \<and> y = pushed ?t ! i"
    using inv RP p by (fastforce simp: qconf_inv_def nth_append)
  moreover have "head_of ?t = head_of s"
    by (simp add: head_of_def split: popper.splits option.splits)
  ultimately show ?thesis using inv by (simp add: qconf_inv_def less_SucI)
qed

lemma inv_store:
  assumes inv: "qconf_inv k s" and px: "(p, x) \<in> set (pend s)"
  shows "qconf_inv k (s\<lparr> que := (que s)\<lparr> items := (items (que s))[queue_slot (que s) p := Some x] \<rparr>,
                         pend := remove1 (p, x) (pend s) \<rparr>)"
    (is "qconf_inv k ?t")
proof -
  let ?R = "length (popped s)" and ?P = "length (pushed s)"
  have w: "window k (que s) ?R ?P (slot_value s)" and dist: "distinct (map fst (pend s))"
    using inv by (simp_all add: qconf_inv_def)
  obtain i where i: "?R \<le> i" "i < ?P" "p = of_nat i" "x = pushed s ! i"
    using inv px by (fastforce simp: qconf_inv_def)
  have pend': "set (remove1 (p, x) (pend s)) = set (pend s) - {(p, x)}"
    using dist by (simp add: distinct_map)
  have only: "y = x" if "(p, y) \<in> set (pend s)" for y
    using dist px that by (metis distinct_map fst_conv inj_onD prod.inject)
  have sv: "((slot_value s)(i := Some x)) j = slot_value ?t j" if "?R \<le> j" "j < ?P" for j
  proof (cases "j = i")
    case True
    have "p \<notin> fst ` (set (pend s) - {(p, x)})" using only by auto
    with True show ?thesis by (simp add: slot_value_def pend' flip: i(3) i(4))
  next
    case False
    then have "(of_nat j :: u32) \<noteq> p" using slot_value_inj [OF w, of j i] that i by auto
    then have "of_nat j \<in> fst ` set (pend s) \<longleftrightarrow> of_nat j \<in> fst ` (set (pend s) - {(p, x)})" by force
    with False show ?thesis by (simp add: slot_value_def pend')
  qed
  have "window k (que ?t) ?R ?P (slot_value ?t)"
    using window_change [OF window_update [OF w i(1,2), of "Some x"], of "que ?t" "slot_value ?t"]
      sv window_slot [OF w, of i] i(3) by simp
  moreover have "distinct (map fst (pend ?t))"
    using dist by (simp add: distinct_map pend' inj_on_diff)
  moreover have "head_of ?t = head_of s"
    by (simp add: head_of_def split: popper.splits option.splits)
  moreover have "set (pend ?t) \<subseteq> set (pend s)" using pend' by auto
  ultimately show ?thesis using inv unfolding qconf_inv_def by (simp add: pend')
qed

lemma inv_check:
  assumes inv: "qconf_inv k s" and "popper s = Pop_Idle" and "head (que s) \<noteq> pos (que s)"
  shows "qconf_inv k (s\<lparr> popper := Pop_Checked \<rparr>)" (is "qconf_inv k ?t")
proof -
  have "length (popped s) < length (pushed s)"
    using assms by (auto simp: qconf_inv_def window_def head_of_def nat_less_le)
  moreover have "slot_value ?t = slot_value s" by (rule slot_value_cong) simp_all
  moreover have "head_of ?t = head_of s" using assms(2) by (simp add: head_of_def)
  ultimately show ?thesis using inv by (simp add: qconf_inv_def)
qed

lemma inv_swap:
  assumes inv: "qconf_inv k s" and chk: "popper s = Pop_Checked"
    and it: "it = items (que s) ! queue_slot (que s) (head (que s))"
  shows "qconf_inv k (s\<lparr> que := (que s)\<lparr> items := (items (que s))[queue_slot (que s) (head (que s)) := None] \<rparr>,
                         popper := Pop_Swapped it,
                         popped := popped s @ (case it of None \<Rightarrow> [] | Some x \<Rightarrow> [x]) \<rparr>)"
    (is "qconf_inv k ?t")
proof -
  let ?R = "length (popped s)" and ?P = "length (pushed s)"
  have w: "window k (que s) ?R ?P (slot_value s)" and h: "head (que s) = of_nat ?R" and lt: "?R < ?P"
    and pre: "prefix (popped s) (pushed s)"
    using inv chk by (simp_all add: qconf_inv_def head_of_def)
  have slot: "queue_slot (que s) (head (que s)) = ?R mod 2 ^ k" using window_slot [OF w] h by simp
  have item: "it = slot_value s ?R" using it slot window_lookup [OF w, of ?R] lt by simp
  have upd: "window k ((que s)\<lparr> items := (items (que s))[?R mod 2 ^ k := None] \<rparr>) ?R ?P ((slot_value s)(?R := None))"
    using w lt by (intro window_update) auto
  have sv: "slot_value ?t = slot_value s" by (rule slot_value_cong) simp_all
  show ?thesis
  proof (cases it)
    case None
    then have "((slot_value s)(?R := None)) = slot_value s" using item by (simp add: fun_eq_iff)
    with upd None sv slot inv chk show ?thesis by (simp add: qconf_inv_def head_of_def)
  next
    case (Some x)
    then have x: "x = pushed s ! ?R" and np: "of_nat ?R \<notin> fst ` set (pend s)"
      using item by (auto simp: slot_value_def split: if_splits)
    have pending: "\<exists>i. Suc ?R \<le> i \<and> i < ?P \<and> p = of_nat i \<and> y = pushed s ! i"
      if py: "(p, y) \<in> set (pend s)" for p y
    proof -
      obtain i where i: "?R \<le> i" "i < ?P" "p = of_nat i" "y = pushed s ! i"
        using qconf_invD(6) [OF inv py] by blast
      moreover have "i \<noteq> ?R" using np py i(3) by force
      ultimately show ?thesis by (intro exI [of _ i]) auto
    qed
    have "window k (que ?t) (Suc ?R) ?P (slot_value ?t)"
      by (rule window_change [OF window_shrink [OF upd lt]]) (simp_all add: slot slot_value_def)
    then show ?thesis
      using Some prefix_snoc_nth [OF pre lt] x h qconf_invD(3,5) [OF inv] pending
      by (intro qconf_invI) (simp_all add: head_of_def)
  qed
qed

lemma inv_return:
  assumes inv: "qconf_inv k s" and sw: "popper s = Pop_Swapped it"
  shows "qconf_inv k (s\<lparr> que := (que s)\<lparr> head := head (que s) + (if it \<noteq> None then 1 else 0) \<rparr>,
                         popper := Pop_Idle \<rparr>)"
    (is "qconf_inv k ?t")
proof -
  have sv: "slot_value ?t = slot_value s" by (rule slot_value_cong) simp_all
  have "head (que s) = of_nat (head_of s)" "it \<noteq> None \<longrightarrow> popped s \<noteq> []"
    using qconf_invD(4,8) [OF inv] sw by auto
  then have hd: "head (que ?t) = of_nat (length (popped s))"
    using sw by (cases it; cases "popped s") (simp_all add: head_of_def)
  have ht: "head_of ?t = length (popped s)" by (simp add: head_of_def)
  have win: "window k (que ?t) (length (popped s)) (length (pushed s)) (slot_value s)"
    by (rule window_change [OF qconf_invD(1) [OF inv]]) simp_all
  show ?thesis
  proof (rule qconf_invI)
    show "window k (que ?t) (length (popped ?t)) (length (pushed ?t)) (slot_value ?t)"
      unfolding sv using win by simp
    show "head (que ?t) = of_nat (head_of ?t)" unfolding hd ht ..
  qed (use qconf_invD [OF inv] in simp_all)
qed

lemma qstep_inv: "qstep s t \<Longrightarrow> qconf_inv k s \<Longrightarrow> qconf_inv k t"
  by (induction rule: qstep.induct)
    (erule (1) inv_reserve | erule (1) inv_store | erule (2) inv_check | erule (2) inv_swap | erule (1) inv_return)+

interpretation qs: preserved qstep "qconf_inv k" for k
  by unfold_locales (rule qstep_inv)

lemma conf_init_inv: "queue_rel k q 0 [] \<Longrightarrow> qconf_inv k (conf_init q)"
  by (simp add: queue_rel_def qconf_inv_def conf_init_def head_of_def window_def)

text \<open>A quiescent configuration is a queue that holds what has been pushed and not popped.\<close>

lemma quiescent_rel:
  assumes "qconf_inv k s" and "pend s = []" and "popper s = Pop_Idle"
  shows "queue_rel k (que s) (length (popped s)) (drop (length (popped s)) (pushed s))"
proof -
  note w = qconf_invD(1) [OF assms(1)]
  then have "length (popped s) \<le> length (pushed s)" by (simp add: window_def)
  moreover have "window k (que s) (length (popped s)) (length (pushed s))
      (\<lambda>i. Some (drop (length (popped s)) (pushed s) ! (i - length (popped s))))"
    using w by (rule window_cong) (use assms(2) in \<open>simp add: slot_value_def\<close>)
  ultimately show ?thesis
    using qconf_invD(3,4) [OF assms(1)] assms(3) by (simp add: queue_rel_def head_of_def)
qed

lemma queue_reachable_inv:
  assumes "n \<noteq> 0" "unat n < 2 ^ 31" "queue_init n = Inr q" "qstep\<^sup>*\<^sup>* (conf_init q) s"
  shows "qconf_inv (bit_length (unat n)) s"
  using queue_init_rel [OF assms(1,2), where 'a = 'a] assms(3,4) conf_init_inv qs.reach_inv
  by (metis Inr_inject)

section \<open>Properties\<close>

text \<open>
  \<^verbatim>\<open>queue_init\<close> rejects length 0 and otherwise, below \<open>2 ^ 31\<close>, makes an empty, well-formed queue
  whose capacity is the power of two strictly above the requested length and at most twice it.
\<close>

theorem queue_init_ok:
  "queue_init 0 = (Inl Queue_length_zero :: queue_error + 'a queue) \<and>
   (n \<noteq> 0 \<longrightarrow> unat n < 2 ^ 31 \<longrightarrow>
     (\<exists>q :: 'a queue. queue_init n = Inr q \<and> queue_inv q \<and> contents q = [] \<and>
         (\<exists>k. capacity q = 2 ^ k) \<and> unat n < capacity q \<and> capacity q \<le> 2 * unat n))"
proof (intro conjI impI)
  show "queue_init 0 = (Inl Queue_length_zero :: queue_error + 'a queue)" by (simp add: queue_init_def)
  assume n: "n \<noteq> 0" "unat n < 2 ^ 31"
  let ?b = "bit_length (unat n)"
  have "2 ^ (?b - 1) \<le> unat n" "0 < ?b" using n power_bit_length_le by (simp_all add: unat_gt_0)
  then have le: "2 ^ ?b \<le> 2 * unat n" by (cases ?b) auto
  obtain q :: "'a queue" where q: "queue_init n = Inr q" "queue_rel ?b q 0 []"
    using queue_init_rel [OF n] by blast
  then have "queue_inv q" "contents q = []" "capacity q = 2 ^ ?b"
    using queue_rel_contents queue_rel_capacity by (auto simp: queue_inv_def)
  with le q(1) less_2_power_bit_length [of "unat n"]
  show "\<exists>q :: 'a queue. queue_init n = Inr q \<and> queue_inv q \<and> contents q = [] \<and>
         (\<exists>k. capacity q = 2 ^ k) \<and> unat n < capacity q \<and> capacity q \<le> 2 * unat n"
    by (intro exI [of _ q]) auto
qed

theorem queue_init_ok_witness:
  "\<exists>q :: nat queue. queue_init 5 = Inr q \<and> queue_inv q \<and> contents q = [] \<and>
     (\<exists>k. capacity q = 2 ^ k) \<and> 5 < capacity q \<and> capacity q \<le> 10"
  using queue_init_ok [of 5, where 'a = nat] by simp


text \<open>
  C13. Whatever the interleaving of any number of pushers and the popper, as long as the capacity is
  respected: the items popped are the first of the items pushed, in the order of the pushers'
  reservations, so nothing is lost, duplicated or reordered, and at any time every item that is
  neither popped nor about to be stored by its pusher sits in its own slot of the array.
\<close>

theorem queue_concurrent_fifo:
  assumes "n \<noteq> 0" and "unat n < 2 ^ 31" and "queue_init n = Inr q" and "qstep\<^sup>*\<^sup>* (conf_init q) s"
  shows "prefix (popped s) (pushed s) \<and>
         length (pushed s) \<le> length (popped s) + capacity (que s) \<and>
         (\<forall>i. length (popped s) \<le> i \<and> i < length (pushed s) \<and> of_nat i \<notin> fst ` set (pend s) \<longrightarrow>
              items (que s) ! (i mod capacity (que s)) = Some (pushed s ! i))"
proof -
  have inv: "qconf_inv (bit_length (unat n)) s" by (rule queue_reachable_inv [OF assms])
  note w = qconf_invD(1) [OF inv]
  have cap: "capacity (que s) = 2 ^ bit_length (unat n)" using w by (simp add: window_def capacity_def)
  then have "length (pushed s) \<le> length (popped s) + capacity (que s)" using w by (simp add: window_def)
  moreover have "\<forall>i. length (popped s) \<le> i \<and> i < length (pushed s) \<and> of_nat i \<notin> fst ` set (pend s) \<longrightarrow>
      items (que s) ! (i mod capacity (que s)) = Some (pushed s ! i)"
    using window_lookup [OF w] unfolding cap by (auto simp: slot_value_def)
  ultimately show ?thesis using qconf_invD(2) [OF inv] by blast
qed

text \<open>
  C29. Once the pushers have finished, popping returns the items that were pushed and not popped yet,
  all of them and in order, and leaves the queue empty.
\<close>

theorem queue_concurrent_drain:
  assumes "n \<noteq> 0" and "unat n < 2 ^ 31" and "queue_init n = Inr q" and "qstep\<^sup>*\<^sup>* (conf_init q) s"
    and "pend s = []" and "popper s = Pop_Idle"
  shows "\<exists>q'. run_ops queue_push queue_pop (que s) (replicate (length (pushed s) - length (popped s)) Deq)
                = (drop (length (popped s)) (pushed s), q') \<and> contents q' = []"
proof -
  have "queue_rel (bit_length (unat n)) (que s) (length (popped s)) (drop (length (popped s)) (pushed s))"
    using queue_reachable_inv [OF assms(1-4)] assms(5,6) by (rule quiescent_rel)
  then have "queue_inv (que s)" "contents (que s) = drop (length (popped s)) (pushed s)"
    using queue_rel_contents by (auto simp: queue_inv_def)
  then show ?thesis using lq.drain [of "que s"] by auto
qed

section \<open>Witnesses\<close>

definition example_queue :: "nat queue" where
  "example_queue = \<lparr> items = [None, None, None, None], len_mask = 3, pos = 0, head = 0 \<rparr>"

lemma bit_length_2: "bit_length 2 = 2"
  by (simp add: bit_length_pos)

lemma example_queue_init: "queue_init 2 = Inr example_queue"
proof -
  have "next_pow2 2 = Some 4" using next_pow2_eq(1) [of 2] by (simp add: bit_length_2)
  moreover have "replicate 4 None = [None, None, None, None :: nat option]"
    by (simp add: eval_nat_numeral)
  ultimately show ?thesis by (simp add: queue_init_def example_queue_def)
qed


text \<open>Two pushers whose stores come in the opposite order of their reservations.\<close>

definition example_conf :: "nat qconf" where
  "example_conf =
     \<lparr> que = \<lparr> items = [None, Some 8, None, None], len_mask = 3, pos = 2, head = 0 \<rparr>,
       pend = [(0, 7)], popper = Pop_Idle, pushed = [7, 8], popped = [] \<rparr>"

lemma example_conf_reachable: "qstep\<^sup>*\<^sup>* (conf_init example_queue) example_conf"
proof -
  let ?s0 = "conf_init example_queue"
  let ?s1 = "?s0\<lparr> que := (que ?s0)\<lparr> pos := 1 \<rparr>, pend := [(0, 7)], pushed := [7] \<rparr>"
  let ?s2 = "?s1\<lparr> que := (que ?s1)\<lparr> pos := 2 \<rparr>, pend := [(1, 8), (0, 7)], pushed := [7, 8] \<rparr>"
  have "qstep ?s0 ?s1"
    by (rule back_subst [of "qstep ?s0", OF push_reserve [of ?s0 7]])
      (simp_all add: conf_init_def example_queue_def capacity_def)
  moreover have "qstep ?s1 ?s2"
    by (rule back_subst [of "qstep ?s1", OF push_reserve [of ?s1 8]])
      (simp_all add: conf_init_def example_queue_def capacity_def)
  moreover have "qstep ?s2 example_conf"
    by (rule back_subst [of "qstep ?s2", OF push_store [of 1 8 ?s2]])
      (simp_all add: conf_init_def example_queue_def example_conf_def queue_slot_def)
  ultimately show ?thesis by (meson converse_rtranclp_into_rtranclp rtranclp.rtrancl_refl)
qed

theorem queue_concurrent_fifo_witness:
  "prefix (popped example_conf) (pushed example_conf) \<and> items (que example_conf) ! 1 = Some 8"
proof -
  have "\<forall>i. length (popped example_conf) \<le> i \<and> i < length (pushed example_conf) \<and>
      of_nat i \<notin> fst ` set (pend example_conf) \<longrightarrow>
      items (que example_conf) ! (i mod capacity (que example_conf)) = Some (pushed example_conf ! i)"
    and "prefix (popped example_conf) (pushed example_conf)"
    using queue_concurrent_fifo [OF _ _ example_queue_init example_conf_reachable] by simp_all
  then show ?thesis by (auto simp: example_conf_def capacity_def dest: spec [of _ 1])
qed

definition example_stored :: "nat qconf" where
  "example_stored = example_conf\<lparr> que := (que example_conf)\<lparr> items := [Some 7, Some 8, None, None] \<rparr>, pend := [] \<rparr>"

lemma example_stored_reachable: "qstep\<^sup>*\<^sup>* (conf_init example_queue) example_stored"
proof -
  have "qstep example_conf example_stored"
    by (rule back_subst [of "qstep example_conf", OF push_store [of 0 7 example_conf]])
      (simp_all add: example_conf_def example_stored_def queue_slot_def)
  then show ?thesis using example_conf_reachable by (rule rtranclp.rtrancl_into_rtrancl [rotated])
qed

theorem queue_concurrent_drain_witness:
  "\<exists>q'. run_ops queue_push queue_pop (que example_stored) [Deq, Deq] = ([7, 8], q') \<and> contents q' = []"
proof -
  have "replicate (length (pushed example_stored) - length (popped example_stored)) Deq = [Deq, Deq :: nat queue_op]"
    "drop (length (popped example_stored)) (pushed example_stored) = [7, 8]"
    by (simp_all add: example_stored_def example_conf_def)
  then show ?thesis
    using queue_concurrent_drain [OF _ _ example_queue_init example_stored_reachable]
    by (simp add: example_stored_def example_conf_def)
qed

end
