(* ===== verification/Transaction.thy ===== *)
theory Transaction
  imports Workload Throttle Histogram Queue "HOL-Library.Monad_Syntax"
begin

text \<open>
  The worker threads of \<^verbatim>\<open>transaction.c\<close>: what a thread sends to the server, how it counts the results,
  and the records it prepares for a stage.

  The client library, the clock and the other threads are the environment \<open>env\<close>, a record of the
  operations the code calls, on a world \<open>'w\<close>.  Every call to the server is also logged.  An undefined
  result (a record that is not initialised, a percentage that is not a number) is \<open>None\<close>; so is a
  record that cannot be filled, which does not happen for the stages that are accepted.
  Messages of the debug mode are not modelled.
\<close>

section \<open>State\<close>

text \<open>The status codes the code distinguishes.\<close>

datatype as_status =
    AEROSPIKE_OK | AEROSPIKE_ERR_TIMEOUT | AEROSPIKE_ERR_RECORD_NOT_FOUND | AEROSPIKE_ERR_NO_MORE_CONNECTIONS
  | AEROSPIKE_ERR_OTHER nat

record cdata =
  cd_namespace :: string
  cd_set :: string
  cd_bin_name :: string
  read_hit_count :: u64
  read_miss_count :: u64
  read_timeout_count :: u64
  read_error_count :: u64
  write_count :: u64
  write_timeout_count :: u64
  write_error_count :: u64
  udf_count :: u64
  udf_timeout_count :: u64
  udf_error_count :: u64
  hdr_comp_read_output :: bool
  hdr_comp_write_output :: bool
  hdr_comp_udf_output :: bool
  read_hdr :: "u64 list"
  write_hdr :: "u64 list"
  udf_hdr :: "u64 list"
  histogram_output :: bool
  read_histogram :: histogram
  write_histogram :: histogram
  udf_histogram :: histogram
  async_max_commands :: u32
  transaction_worker_threads :: u32
  compression_ratio :: fp
  latency :: bool

text \<open>The memory of a thread is not initialised when it is allocated; what it holds may be destroyed and used again.\<close>

datatype 'a slot = Uninit | Live 'a | Destroyed

datatype policy_exists = AS_POLICY_EXISTS_IGNORE | AS_POLICY_EXISTS_CREATE_OR_REPLACE

record ('r, 'rec) tdata =
  rand :: 'r
  throttle_state :: dyn_throttle
  t_idx :: u32
  fixed_full_record :: "'rec slot"
  fixed_partial_record :: "'rec slot"
  fixed_delete_record :: "'rec slot"
  fixed_udf_fn_args :: "as_val slot"
  write_exists :: policy_exists
  operate_exists :: policy_exists
  batch_write_exists :: policy_exists
  apply_ttl :: u32

text \<open>A key: namespace, set and integer.\<close>

type_synonym as_key = "string \<times> string \<times> u64"

datatype 'rec request =
    Put as_key 'rec
  | Batch_write "(as_key \<times> 'rec) list"
  | Get as_key
  | Select as_key "string list"
  | Batch_read "(as_key \<times> string list option) list"
  | Apply as_key string string as_val

record ('w, 'r, 'rec) env =
  env_om :: om_setter
  env_rng :: "'r as_random"
  env_cvt :: "fp \<Rightarrow> u64"
  name_size :: nat
  rec_api :: "'rec record_api"
  as_record_new :: "u32 \<Rightarrow> 'rec"
  set_ttl :: "u32 \<Rightarrow> 'rec \<Rightarrow> 'rec"
  as_record_set_nil :: "'rec \<Rightarrow> string \<Rightarrow> 'rec"
  cf_getus :: "'w \<Rightarrow> u64 \<times> 'w"
  clock_gettime :: "'w \<Rightarrow> timespec \<times> 'w"
  submit :: "'rec request \<Rightarrow> 'w \<Rightarrow> as_status \<times> 'w"
  thr_coordinator_sleep :: "timespec \<Rightarrow> 'w \<Rightarrow> 'w"
  thr_coordinator_complete :: "'w \<Rightarrow> 'w"
  thr_coordinator_wait :: "'w \<Rightarrow> 'w"
  do_work :: "'w \<Rightarrow> bool \<times> 'w"
  finished :: "'w \<Rightarrow> bool \<times> 'w"
  stage_idx :: "'w \<Rightarrow> u32 \<times> 'w"

text \<open>The state of a thread: the shared data, its own data, the world, and the calls it has made.\<close>

record ('w, 'r, 'rec) tx =
  cd :: cdata
  td :: "('r, 'rec) tdata"
  world :: 'w
  calls :: "('rec request \<times> as_status) list"

section \<open>Random numbers\<close>

text \<open>Percentages with 24 bits of precision; the conversion of what is not in the range of the integer type is undefined.\<close>

definition pct_to_fp :: "fp \<Rightarrow> u32 option" where
  "pct_to_fp pct = map_option of_nat (fp_to_unsigned 32 (f_div (f_mul (Fin 16777216) pct) (Fin 100)))"

definition random_fp :: "('w, 'r, 'rec) env \<Rightarrow> ('w, 'r, 'rec) tx \<Rightarrow> u32 \<times> ('w, 'r, 'rec) tx" where
  "random_fp e s =
     (let (die, r) = next_uint32 (env_rng e) (rand (td s))
      in (die AND 0x00FFFFFF, s\<lparr> td := (td s)\<lparr> rand := r \<rparr> \<rparr>))"

section \<open>Recording latencies\<close>

definition record_read :: "cdata \<Rightarrow> u64 \<Rightarrow> cdata option" where
  "record_read c dt =
     (let c = (if latency c then c\<lparr> read_hdr := read_hdr c @ [dt] \<rparr> else c)
      in do {
        c \<leftarrow> (if histogram_output c \<or> hdr_comp_read_output c
              then do { h \<leftarrow> histogram_incr (read_histogram c) dt; Some (c\<lparr> read_histogram := h \<rparr>) } else Some c);
        Some (c\<lparr> read_hit_count := read_hit_count c + 1 \<rparr>) })"

definition record_write :: "cdata \<Rightarrow> u64 \<Rightarrow> cdata option" where
  "record_write c dt =
     (let c = (if latency c then c\<lparr> write_hdr := write_hdr c @ [dt] \<rparr> else c)
      in do {
        c \<leftarrow> (if histogram_output c \<or> hdr_comp_write_output c
              then do { h \<leftarrow> histogram_incr (write_histogram c) dt; Some (c\<lparr> write_histogram := h \<rparr>) } else Some c);
        Some (c\<lparr> write_count := write_count c + 1 \<rparr>) })"

definition record_udf :: "cdata \<Rightarrow> u64 \<Rightarrow> cdata option" where
  "record_udf c dt =
     (let c = (if latency c then c\<lparr> udf_hdr := udf_hdr c @ [dt] \<rparr> else c)
      in do {
        c \<leftarrow> (if histogram_output c \<or> hdr_comp_udf_output c
              then do { h \<leftarrow> histogram_incr (udf_histogram c) dt; Some (c\<lparr> udf_histogram := h \<rparr>) } else Some c);
        Some (c\<lparr> udf_count := udf_count c + 1 \<rparr>) })"

section \<open>Synchronous calls\<close>

text \<open>A call to the server between two readings of the clock: its status and how long it took.\<close>

definition timed_call :: "('w, 'r, 'rec) env \<Rightarrow> 'rec request \<Rightarrow> ('w, 'r, 'rec) tx \<Rightarrow> as_status \<times> u64 \<times> ('w, 'r, 'rec) tx" where
  "timed_call e rq s =
     (let (start, w) = cf_getus e (world s);
          (status, w) = submit e rq w;
          (stop, w) = cf_getus e w
      in (status, stop - start, s\<lparr> world := w, calls := calls s @ [(rq, status)] \<rparr>))"

text \<open>Called between every two transactions.\<close>

definition throttle :: "('w, 'r, 'rec) env \<Rightarrow> ('w, 'r, 'rec) tx \<Rightarrow> ('w, 'r, 'rec) tx" where
  "throttle e s =
     (if \<not> fp_eq (target_period (throttle_state (td s))) (Fin 0) then
        let (wake_up, w) = clock_gettime e (world s);
            (pause_for, thr) = dyn_throttle_pause_for (env_cvt e) (throttle_state (td s)) (timespec_to_us wake_up)
        in s\<lparr> td := (td s)\<lparr> throttle_state := thr \<rparr>, world := thr_coordinator_sleep e (timespec_add_us wake_up pause_for) w \<rparr>
      else s)"

definition write_outcome :: "as_status \<Rightarrow> u64 \<Rightarrow> cdata \<Rightarrow> cdata option" where
  "write_outcome status dt c =
     (if status = AEROSPIKE_OK then record_write c dt
      else if status = AEROSPIKE_ERR_TIMEOUT then Some (c\<lparr> write_timeout_count := write_timeout_count c + 1 \<rparr>)
      else Some (c\<lparr> write_error_count := write_error_count c + 1 \<rparr>))"

definition read_outcome :: "as_status \<Rightarrow> u64 \<Rightarrow> cdata \<Rightarrow> cdata option" where
  "read_outcome status dt c =
     (if status = AEROSPIKE_OK then record_read c dt
      else if status = AEROSPIKE_ERR_RECORD_NOT_FOUND then Some (c\<lparr> read_miss_count := read_miss_count c + 1 \<rparr>)
      else if status = AEROSPIKE_ERR_TIMEOUT then Some (c\<lparr> read_timeout_count := read_timeout_count c + 1 \<rparr>)
      else Some (c\<lparr> read_error_count := read_error_count c + 1 \<rparr>))"

definition batch_read_outcome :: "as_status \<Rightarrow> u64 \<Rightarrow> cdata \<Rightarrow> cdata option" where
  "batch_read_outcome status dt c =
     (if status = AEROSPIKE_OK then record_read c dt
      else if status = AEROSPIKE_ERR_TIMEOUT then Some (c\<lparr> read_timeout_count := read_timeout_count c + 1 \<rparr>)
      else Some (c\<lparr> read_error_count := read_error_count c + 1 \<rparr>))"

definition udf_outcome :: "as_status \<Rightarrow> u64 \<Rightarrow> cdata \<Rightarrow> cdata option" where
  "udf_outcome status dt c =
     (if status = AEROSPIKE_OK \<or> status = AEROSPIKE_ERR_RECORD_NOT_FOUND then record_udf c dt
      else if status = AEROSPIKE_ERR_TIMEOUT then Some (c\<lparr> udf_timeout_count := udf_timeout_count c + 1 \<rparr>)
      else Some (c\<lparr> udf_error_count := udf_error_count c + 1 \<rparr>))"

text \<open>A call, the accounting of its result, and the pause before the next one.\<close>

definition sync_call ::
  "('w, 'r, 'rec) env \<Rightarrow> 'rec request \<Rightarrow> (as_status \<Rightarrow> u64 \<Rightarrow> cdata \<Rightarrow> cdata option) \<Rightarrow>
   ('w, 'r, 'rec) tx \<Rightarrow> ('w, 'r, 'rec) tx option" where
  "sync_call e rq outcome s =
     (let (status, dt, s) = timed_call e rq s
      in do { c \<leftarrow> outcome status dt (cd s); Some (throttle e (s\<lparr> cd := c \<rparr>)) })"

definition write_record_sync where
  "write_record_sync e key rec = sync_call e (Put key rec) write_outcome"

definition batch_write_record_sync where
  "batch_write_record_sync e batch = sync_call e (Batch_write batch) write_outcome"

definition read_record_sync where
  "read_record_sync e st key s =
     (case read_bins st of
        Wild \<Rightarrow> None
      | Bins names \<Rightarrow> sync_call e (Select key names) read_outcome s
      | Null_bins \<Rightarrow> sync_call e (Get key) read_outcome s)"

definition batch_read_record_sync where
  "batch_read_record_sync e keys = sync_call e (Batch_read keys) batch_read_outcome"

text \<open>The arguments of a UDF: made afresh, or the ones of the stage.\<close>

definition udf_call_args :: "('w, 'r, 'rec) env \<Rightarrow> stage \<Rightarrow> ('w, 'r, 'rec) tx \<Rightarrow> (as_val \<times> ('w, 'r, 'rec) tx) option" where
  "udf_call_args e st s =
     (if random st then
        case udf_args st of
          None \<Rightarrow> None
        | Some o1 \<Rightarrow>
            (case obj_spec_gen_value (env_om e) (env_rng e) o1 None (Some (rand (td s))) of
               Gen v (Some r) \<Rightarrow> Some (v, s\<lparr> td := (td s)\<lparr> rand := r \<rparr> \<rparr>)
             | _ \<Rightarrow> None)
      else case fixed_udf_fn_args (td s) of Live v \<Rightarrow> Some (v, s) | _ \<Rightarrow> None)"

definition apply_udf_sync where
  "apply_udf_sync e st key s = do {
     (args, s) \<leftarrow> udf_call_args e st s;
     sync_call e (Apply key (udf_package_name st) (udf_fn_name st) args) udf_outcome s }"

section \<open>Keys and records\<close>

definition calculate_subrange :: "u64 \<Rightarrow> u64 \<Rightarrow> u32 \<Rightarrow> u32 \<Rightarrow> u64 \<times> u64" where
  "calculate_subrange ks ke t n =
     (let n_keys = ke - ks
      in (ks + (n_keys * ucast t) div ucast n, ks + (n_keys * ucast (t + 1)) div ucast n))"

definition gen_key_val :: "cdata \<Rightarrow> u64 \<Rightarrow> as_key" where
  "gen_key_val c k = (cd_namespace c, cd_set c, k)"

definition random_key :: "('w, 'r, 'rec) env \<Rightarrow> stage \<Rightarrow> ('w, 'r, 'rec) tx \<Rightarrow> (as_key \<times> ('w, 'r, 'rec) tx) option" where
  "random_key e st s = do {
     (k, r) \<leftarrow> stage_gen_random_key (env_rng e) st (rand (td s));
     Some (gen_key_val (cd s) k, s\<lparr> td := (td s)\<lparr> rand := r \<rparr> \<rparr>) }"

text \<open>A record that a call uses: a new one, or one that the thread keeps.\<close>

datatype 'rec rec_ref = New 'rec | Full_ref | Partial_ref | Delete_ref

fun deref :: "('r, 'rec) tdata \<Rightarrow> 'rec rec_ref \<Rightarrow> 'rec option" where
  "deref t (New r) = Some r"
| "deref t Full_ref = (case fixed_full_record t of Live r \<Rightarrow> Some r | _ \<Rightarrow> None)"
| "deref t Partial_ref = (case fixed_partial_record t of Live r \<Rightarrow> Some r | _ \<Rightarrow> None)"
| "deref t Delete_ref = (case fixed_delete_record t of Live r \<Rightarrow> Some r | _ \<Rightarrow> None)"

text \<open>Filling a record with all bins, or with the bins that are selected; the lifetime of the stage is set.\<close>

definition populate ::
  "('w, 'r, 'rec) env \<Rightarrow> stage \<Rightarrow> u32 \<Rightarrow> u32 list option \<Rightarrow> ('w, 'r, 'rec) tx \<Rightarrow> ('rec \<times> ('w, 'r, 'rec) tx) option" where
  "populate e st n bins s =
     (case obj_spec_populate_bins (env_om e) (env_rng e) (rec_api e) (name_size e) (stage_obj st) (cd_bin_name (cd s)) bins
             (compression_ratio (cd s)) (as_record_new e n) (Some (rand (td s))) of
        Gen r (Some g) \<Rightarrow> Some (set_ttl e (ucast (ttl st)) r, s\<lparr> td := (td s)\<lparr> rand := g \<rparr> \<rparr>)
      | _ \<Rightarrow> None)"

definition populate_full where
  "populate_full e st s = populate e st (obj_spec_n_bins (stage_obj st)) None s"

definition populate_partial where
  "populate_partial e st s =
     (case write_bins st of
        Wild \<Rightarrow> None
      | Null_bins \<Rightarrow> populate e st 0 None s
      | Bins idxs \<Rightarrow> populate e st (of_nat (length idxs)) (Some idxs) s)"

definition gen_record :: "('w, 'r, 'rec) env \<Rightarrow> stage \<Rightarrow> ('w, 'r, 'rec) tx \<Rightarrow> ('rec rec_ref \<times> ('w, 'r, 'rec) tx) option" where
  "gen_record e st s = do {
     all_pct \<leftarrow> pct_to_fp (write_all_pct (stage_workload st));
     let (die, s) = random_fp e s in
     if die < all_pct then
       if random st then do { (r, s) \<leftarrow> populate_full e st s; Some (New r, s) } else Some (Full_ref, s)
     else
       if random st then do { (r, s) \<leftarrow> populate_partial e st s; Some (New r, s) } else Some (Partial_ref, s) }"

definition gen_nil_record :: "'rec rec_ref" where
  "gen_nil_record = Delete_ref"

text \<open>With random records the record is destroyed after its use, whichever it is.\<close>

definition destroy_slot :: "'a slot \<Rightarrow> 'a slot option" where
  "destroy_slot x = (case x of Live _ \<Rightarrow> Some Destroyed | _ \<Rightarrow> None)"

fun as_record_destroy :: "'rec rec_ref \<Rightarrow> ('r, 'rec) tdata \<Rightarrow> ('r, 'rec) tdata option" where
  "as_record_destroy (New r) t = Some t"
| "as_record_destroy Full_ref t = map_option (\<lambda>x. t\<lparr> fixed_full_record := x \<rparr>) (destroy_slot (fixed_full_record t))"
| "as_record_destroy Partial_ref t = map_option (\<lambda>x. t\<lparr> fixed_partial_record := x \<rparr>) (destroy_slot (fixed_partial_record t))"
| "as_record_destroy Delete_ref t = map_option (\<lambda>x. t\<lparr> fixed_delete_record := x \<rparr>) (destroy_slot (fixed_delete_record t))"

definition destroy_record :: "stage \<Rightarrow> 'rec rec_ref \<Rightarrow> ('w, 'r, 'rec) tx \<Rightarrow> ('w, 'r, 'rec) tx option" where
  "destroy_record st ref s =
     (if random st then map_option (\<lambda>t. s\<lparr> td := t \<rparr>) (as_record_destroy ref (td s)) else Some s)"

subsection \<open>Batches\<close>

text \<open>
  The keys of a batch are random, or go up from the first.  What is sent are the operations that write the
  bins of the record.
\<close>

definition batch_key ::
  "('w, 'r, 'rec) env \<Rightarrow> stage \<Rightarrow> bool \<Rightarrow> u64 \<Rightarrow> ('w, 'r, 'rec) tx \<Rightarrow> (as_key \<times> u64 \<times> ('w, 'r, 'rec) tx) option" where
  "batch_key e st randomKeys key_val s =
     (if randomKeys then do { (k, s) \<leftarrow> random_key e st s; Some (k, snd (snd k), s) }
      else Some (gen_key_val (cd s) key_val, key_val + 1, s))"

fun gen_batch_writes ::
  "('w, 'r, 'rec) env \<Rightarrow> stage \<Rightarrow> bool \<Rightarrow> nat \<Rightarrow> u64 \<Rightarrow> ('w, 'r, 'rec) tx \<Rightarrow> ((as_key \<times> 'rec) list \<times> ('w, 'r, 'rec) tx) option" where
  "gen_batch_writes e st randomKeys 0 key_val s = Some ([], s)"
| "gen_batch_writes e st randomKeys (Suc n) key_val s = do {
     (ref, s) \<leftarrow> gen_record e st s;
     (k, key_val, s) \<leftarrow> batch_key e st randomKeys key_val s;
     r \<leftarrow> deref (td s) ref;
     s \<leftarrow> destroy_record st ref s;
     (ks, s) \<leftarrow> gen_batch_writes e st randomKeys n key_val s;
     Some ((k, r) # ks, s) }"

fun gen_batch_deletes ::
  "('w, 'r, 'rec) env \<Rightarrow> stage \<Rightarrow> bool \<Rightarrow> nat \<Rightarrow> u64 \<Rightarrow> ('w, 'r, 'rec) tx \<Rightarrow> ((as_key \<times> 'rec) list \<times> ('w, 'r, 'rec) tx) option" where
  "gen_batch_deletes e st randomKeys 0 key_val s = Some ([], s)"
| "gen_batch_deletes e st randomKeys (Suc n) key_val s = do {
     (k, key_val, s) \<leftarrow> batch_key e st randomKeys key_val s;
     r \<leftarrow> deref (td s) gen_nil_record;
     (ks, s) \<leftarrow> gen_batch_deletes e st randomKeys n key_val s;
     Some ((k, r) # ks, s) }"

definition gen_batch_writes_random_keys where
  "gen_batch_writes_random_keys e st s = gen_batch_writes e st True (unat (batch_write_size st)) (key_start st) s"

definition gen_batch_writes_sequential_keys where
  "gen_batch_writes_sequential_keys e st k s = gen_batch_writes e st False (unat (batch_write_size st)) k s"

definition gen_batch_deletes_random_keys where
  "gen_batch_deletes_random_keys e st s = gen_batch_deletes e st True (unat (batch_delete_size st)) (key_start st) s"

definition gen_batch_deletes_sequential_keys where
  "gen_batch_deletes_sequential_keys e st k s = gen_batch_deletes e st False (unat (batch_delete_size st)) k s"

text \<open>The keys of a batch read, with the bins to read.\<close>

definition bins_to_read :: "stage \<Rightarrow> string list option option" where
  "bins_to_read st = (case read_bins st of Wild \<Rightarrow> None | Null_bins \<Rightarrow> Some None | Bins names \<Rightarrow> Some (Some names))"

fun gen_batch_reads ::
  "('w, 'r, 'rec) env \<Rightarrow> stage \<Rightarrow> nat \<Rightarrow> ('w, 'r, 'rec) tx \<Rightarrow> ((as_key \<times> string list option) list \<times> ('w, 'r, 'rec) tx) option" where
  "gen_batch_reads e st 0 s = Some ([], s)"
| "gen_batch_reads e st (Suc n) s = do {
     (k, s) \<leftarrow> random_key e st s;
     bins \<leftarrow> bins_to_read st;
     (ks, s) \<leftarrow> gen_batch_reads e st n s;
     Some ((k, bins) # ks, s) }"

section \<open>Synchronous transactions\<close>

definition random_read where
  "random_read e st s =
     (if batch_read_size st \<le> 1 then do { (k, s) \<leftarrow> random_key e st s; read_record_sync e st k s }
      else do { (ks, s) \<leftarrow> gen_batch_reads e st (unat (batch_read_size st)) s; batch_read_record_sync e ks s })"

text \<open>Writing one record: read it where it is, send it, destroy it.\<close>

definition put_ref ::
  "('w, 'r, 'rec) env \<Rightarrow> as_key \<Rightarrow> 'rec rec_ref \<Rightarrow> ('w, 'r, 'rec) tx \<Rightarrow> ('w, 'r, 'rec) tx option" where
  "put_ref e k ref s = do { r \<leftarrow> deref (td s) ref; write_record_sync e k r s }"

definition random_write where
  "random_write e st s =
     (if batch_write_size st \<le> 1 then do {
        (k, s) \<leftarrow> random_key e st s; (ref, s) \<leftarrow> gen_record e st s; s \<leftarrow> put_ref e k ref s; destroy_record st ref s }
      else do { (batch, s) \<leftarrow> gen_batch_writes_random_keys e st s; batch_write_record_sync e batch s })"

definition random_udf where
  "random_udf e st s = do { (k, s) \<leftarrow> random_key e st s; apply_udf_sync e st k s }"

definition random_delete where
  "random_delete e st s =
     (if batch_delete_size st \<le> 1 then do { (k, s) \<leftarrow> random_key e st s; put_ref e k gen_nil_record s }
      else do { (batch, s) \<leftarrow> gen_batch_deletes_random_keys e st s; batch_write_record_sync e batch s })"

section \<open>Synchronous workloads\<close>

text \<open>The loop over keys: \<open>body\<close> handles a key and gives the next one.\<close>

definition check_work :: "('w, 'r, 'rec) env \<Rightarrow> ('w, 'r, 'rec) tx \<Rightarrow> bool \<times> ('w, 'r, 'rec) tx" where
  "check_work e s = (let (go, w) = do_work e (world s) in (go, s\<lparr> world := w \<rparr>))"

partial_function (option) linear_loop ::
  "('w, 'r, 'rec) env \<Rightarrow> (u64 \<Rightarrow> ('w, 'r, 'rec) tx \<Rightarrow> (u64 \<times> ('w, 'r, 'rec) tx) option) \<Rightarrow> u64 \<Rightarrow> u64 \<Rightarrow>
   ('w, 'r, 'rec) tx \<Rightarrow> ('w, 'r, 'rec) tx option" where
  "linear_loop e body end_key key_val s =
     (let (go, s) = check_work e s
      in if go \<and> key_val < end_key
         then Option.bind (body key_val s) (\<lambda>(key_val, s). linear_loop e body end_key key_val s)
         else Some s)"

partial_function (option) work_loop ::
  "('w, 'r, 'rec) env \<Rightarrow> (('w, 'r, 'rec) tx \<Rightarrow> ('w, 'r, 'rec) tx option) \<Rightarrow> ('w, 'r, 'rec) tx \<Rightarrow> ('w, 'r, 'rec) tx option" where
  "work_loop e body s =
     (let (go, s) = check_work e s
      in if go then Option.bind (body s) (work_loop e body) else Some s)"

definition complete :: "('w, 'r, 'rec) env \<Rightarrow> ('w, 'r, 'rec) tx \<Rightarrow> ('w, 'r, 'rec) tx" where
  "complete e s = s\<lparr> world := thr_coordinator_complete e (world s) \<rparr>"

definition linear_write where
  "linear_write e st key_val s =
     (if batch_write_size st \<le> 1 then do {
        (ref, s') \<leftarrow> gen_record e st s;
        s \<leftarrow> put_ref e (gen_key_val (cd s) key_val) ref s';
        s \<leftarrow> destroy_record st ref s;
        Some (key_val + 1, s) }
      else do {
        (batch, s) \<leftarrow> gen_batch_writes_sequential_keys e st key_val s;
        s \<leftarrow> batch_write_record_sync e batch s;
        Some (key_val + ucast (batch_write_size st), s) })"

definition linear_delete where
  "linear_delete e st key_val s =
     (if batch_delete_size st \<le> 1 then do {
        s \<leftarrow> put_ref e (gen_key_val (cd s) key_val) gen_nil_record s;
        s \<leftarrow> destroy_record st gen_nil_record s;
        Some (key_val + 1, s) }
      else do {
        (batch, s) \<leftarrow> gen_batch_deletes_sequential_keys e st key_val s;
        s \<leftarrow> batch_write_record_sync e batch s;
        Some (key_val + ucast (batch_delete_size st), s) })"

text \<open>Each thread takes its part of the keys.\<close>

definition linear_part where
  "linear_part e st step s =
     (let (start_key, end_key) = calculate_subrange (key_start st) (key_end st) (t_idx (td s)) (transaction_worker_threads (cd s))
      in map_option (complete e) (linear_loop e (step e st) end_key start_key s))"

definition linear_writes where
  "linear_writes e st s = linear_part e st linear_write s"

definition linear_deletes where
  "linear_deletes e st s = linear_part e st linear_delete s"

definition random_read_write where
  "random_read_write e st s = do {
     rd \<leftarrow> pct_to_fp (read_pct (stage_workload st));
     work_loop e (\<lambda>s. let (die, s) = random_fp e s in if die < rd then random_read e st s else random_write e st s) (complete e s) }"

text \<open>Three kinds of transactions; the bounds are cumulative.\<close>

definition random_three where
  "random_three e st other s = do {
     rd \<leftarrow> pct_to_fp (read_pct (stage_workload st));
     wr \<leftarrow> pct_to_fp (write_pct (stage_workload st));
     work_loop e
       (\<lambda>s. let (die, s) = random_fp e s
            in if die < rd then random_read e st s else if die < rd + wr then random_write e st s else other e st s)
       (complete e s) }"

definition random_read_write_udf where
  "random_read_write_udf e st s = random_three e st random_udf s"

definition random_read_write_delete where
  "random_read_write_delete e st s = random_three e st random_delete s"

definition do_sync_workload where
  "do_sync_workload e st s =
     (case wtype (stage_workload st) of
        WORKLOAD_TYPE_I \<Rightarrow> linear_writes e st s
      | WORKLOAD_TYPE_RU \<Rightarrow> random_read_write e st s
      | WORKLOAD_TYPE_RR \<Rightarrow> random_read_write e st s
      | WORKLOAD_TYPE_RUF \<Rightarrow> random_read_write_udf e st s
      | WORKLOAD_TYPE_D \<Rightarrow> linear_deletes e st s
      | WORKLOAD_TYPE_RUD \<Rightarrow> random_read_write_delete e st s)"

section \<open>The beginning and the end of a stage\<close>

definition set_stage_policies :: "stage \<Rightarrow> ('r, 'rec) tdata \<Rightarrow> ('r, 'rec) tdata" where
  "set_stage_policies st t =
     (let p = (if wtype (stage_workload st) = WORKLOAD_TYPE_RR then AS_POLICY_EXISTS_CREATE_OR_REPLACE else AS_POLICY_EXISTS_IGNORE)
      in t\<lparr> write_exists := p, operate_exists := p, batch_write_exists := p, apply_ttl := ucast (ttl st) \<rparr>)"

text \<open>The target delay between two transactions of a thread, in microseconds.\<close>

definition target_delay :: "cdata \<Rightarrow> stage \<Rightarrow> fp" where
  "target_delay c st =
     (if tps st = 0 then Fin 0
      else let n_threads = (if async st then 1 else transaction_worker_threads c)
           in f_div (f_mul (Fin 1000000) (f_of_nat (unat n_threads))) (f_of_nat (unat (tps st))))"

definition init_throttle :: "stage \<Rightarrow> ('w, 'r, 'rec) tx \<Rightarrow> ('w, 'r, 'rec) tx" where
  "init_throttle st s =
     s\<lparr> td := (set_stage_policies st (td s))\<lparr> throttle_state := dyn_throttle_init (throttle_state (td s)) (target_delay (cd s) st) \<rparr> \<rparr>"

definition init_writes :: "('w, 'r, 'rec) env \<Rightarrow> stage \<Rightarrow> ('w, 'r, 'rec) tx \<Rightarrow> ('w, 'r, 'rec) tx option" where
  "init_writes e st s =
     (if workload_contains_writes (stage_workload st) then do {
        s \<leftarrow> (if \<not> fp_eq (write_all_pct (stage_workload st)) (Fin 0) then do {
                (r, s) \<leftarrow> populate_full e st s; Some (s\<lparr> td := (td s)\<lparr> fixed_full_record := Live r \<rparr> \<rparr>) }
              else Some s);
        if \<not> fp_eq (write_all_pct (stage_workload st)) (Fin 100) then do {
          (r, s) \<leftarrow> populate_partial e st s; Some (s\<lparr> td := (td s)\<lparr> fixed_partial_record := Live r \<rparr> \<rparr>) }
        else Some s }
      else Some s)"

definition init_udf :: "('w, 'r, 'rec) env \<Rightarrow> stage \<Rightarrow> ('w, 'r, 'rec) tx \<Rightarrow> ('w, 'r, 'rec) tx option" where
  "init_udf e st s =
     (if workload_contains_udfs (stage_workload st) then
        case udf_args st of
          None \<Rightarrow> None
        | Some o1 \<Rightarrow>
            (case obj_spec_gen_value (env_om e) (env_rng e) o1 None (Some (rand (td s))) of
               Gen v (Some r) \<Rightarrow> Some (s\<lparr> td := (td s)\<lparr> rand := r, fixed_udf_fn_args := Live v \<rparr> \<rparr>)
             | _ \<Rightarrow> None)
      else Some s)"

text \<open>The record that deletes: all bins, or the selected ones, are nil.\<close>

definition nil_record :: "('w, 'r, 'rec) env \<Rightarrow> cdata \<Rightarrow> u32 \<Rightarrow> u32 list \<Rightarrow> 'rec" where
  "nil_record e c n idxs =
     foldl (\<lambda>r i. as_record_set_nil e r (gen_bin_name (name_size e) (cd_bin_name c) i)) (as_record_new e n) idxs"

definition init_deletes :: "('w, 'r, 'rec) env \<Rightarrow> stage \<Rightarrow> ('w, 'r, 'rec) tx \<Rightarrow> ('w, 'r, 'rec) tx option" where
  "init_deletes e st s =
     (let w = stage_workload st; n = obj_spec_n_bins (stage_obj st)
      in if workload_contains_deletes w then
           let s = (if wtype w \<noteq> WORKLOAD_TYPE_D \<or> \<not> fp_eq (write_all_pct w) (Fin 0)
                    then s\<lparr> td := (td s)\<lparr> fixed_delete_record := Live (nil_record e (cd s) n (map of_nat [0..<unat n])) \<rparr> \<rparr> else s)
           in if wtype w = WORKLOAD_TYPE_D \<and> \<not> fp_eq (write_all_pct w) (Fin 100)
              then case write_bins st of
                     Bins idxs \<Rightarrow> do {
                       ps \<leftarrow> for_each_write_bin (n_bin_specs (stage_obj st)) 0 (bin_specs (stage_obj st)) (write_array idxs);
                       Some (s\<lparr> td := (td s)\<lparr> fixed_delete_record := Live (nil_record e (cd s) (of_nat (length idxs)) (map fst ps)) \<rparr> \<rparr>) }
                   | _ \<Rightarrow> None
              else Some s
         else Some s)"

definition init_stage :: "('w, 'r, 'rec) env \<Rightarrow> stage \<Rightarrow> ('w, 'r, 'rec) tx \<Rightarrow> ('w, 'r, 'rec) tx option" where
  "init_stage e st s = do {
     s \<leftarrow> Some (init_throttle st s);
     s \<leftarrow> (if \<not> random st then do { s \<leftarrow> init_writes e st s; init_udf e st s } else Some s);
     init_deletes e st s }"

text \<open>What \<^verbatim>\<open>terminate_stage\<close> destroys; it does not look at whether the workload writes.\<close>

definition destroy_args :: "('r, 'rec) tdata \<Rightarrow> ('r, 'rec) tdata option" where
  "destroy_args t = map_option (\<lambda>x. t\<lparr> fixed_udf_fn_args := x \<rparr>) (destroy_slot (fixed_udf_fn_args t))"

definition terminate_stage :: "stage \<Rightarrow> ('w, 'r, 'rec) tx \<Rightarrow> ('w, 'r, 'rec) tx option" where
  "terminate_stage st s = do {
     t \<leftarrow> (if \<not> random st then do {
             t \<leftarrow> (if \<not> fp_eq (write_all_pct (stage_workload st)) (Fin 0) then as_record_destroy Full_ref (td s) else Some (td s));
             t \<leftarrow> (if \<not> fp_eq (write_all_pct (stage_workload st)) (Fin 100) then as_record_destroy Partial_ref t else Some t);
             if workload_contains_udfs (stage_workload st) then destroy_args t else Some t }
           else Some (td s));
     t \<leftarrow> (if workload_contains_deletes (stage_workload st) then as_record_destroy Delete_ref t else Some t);
     Some (s\<lparr> td := t \<rparr>) }"

section \<open>The worker thread\<close>

text \<open>Stage after stage; an asynchronous stage is run by \<open>run_async\<close>.\<close>

partial_function (option) transaction_worker ::
  "('w, 'r, 'rec) env \<Rightarrow> (stage \<Rightarrow> ('w, 'r, 'rec) tx \<Rightarrow> ('w, 'r, 'rec) tx option) \<Rightarrow> stages \<Rightarrow>
   ('w, 'r, 'rec) tx \<Rightarrow> ('w, 'r, 'rec) tx option" where
  "transaction_worker e run_async ss s =
     (let (fin, w) = finished e (world s); (i, w') = stage_idx e w; s' = s\<lparr> world := w' \<rparr>
      in if fin then Some (s\<lparr> world := w \<rparr>)
         else if length (stage_list ss) \<le> unat i then None
         else let st = stage_list ss ! unat i
              in Option.bind (init_stage e st s') (\<lambda>s.
                   Option.bind (if async st then run_async st s else do_sync_workload e st s) (\<lambda>s.
                     let (fin, w) = finished e (world s); s = s\<lparr> world := w \<rparr>
                     in if fin then Some s
                        else Option.bind (terminate_stage st s) (\<lambda>s.
                               transaction_worker e run_async ss (s\<lparr> world := thr_coordinator_wait e (world s) \<rparr>)))))"

end
