(* ===== verification/Obj_Print.thy ===== *)
theory Obj_Print
  imports Obj_Wf
begin

text \<open>
  Printing specifications (\<^verbatim>\<open>_sprint_bin\<close> and \<^verbatim>\<open>snprint_obj_spec\<close> of \<^verbatim>\<open>object_spec.c\<close>) into a buffer of
  fixed size.  The text of values (\<^verbatim>\<open>as_val_tostring\<close>) belongs to the client library and the text of a
  double (\<^verbatim>\<open>%.10lgf\<close>) to the C library; both are parameters.
\<close>

section \<open>Printing into a buffer\<close>

text \<open>
  The state of the macro \<^verbatim>\<open>sprint\<close>: the bytes up to the write position and the room left.  When the text
  does not fit, \<^verbatim>\<open>snprintf\<close> keeps what fits and a NUL, and the position moves past the NUL.
\<close>

type_synonym out_buf = "string \<times> nat"

definition sprint :: "out_buf \<Rightarrow> string \<Rightarrow> out_buf" where
  "sprint st t =
     (let (buf, size) = st
      in if size > length t then (buf @ t, size - length t)
         else if size = 0 then (buf, 0) else (buf @ take (size - 1) t @ [NUL], 0))"

definition boolstring :: "bool \<Rightarrow> string" where
  "boolstring b = (if b then ''true'' else ''false'')"

text \<open>The loops over list elements, with the separator between them, and over the pairs of a map.\<close>

fun sprint_list :: "string \<Rightarrow> u32 \<Rightarrow> u32 \<Rightarrow> (u32 \<times> (out_buf \<Rightarrow> out_buf)) list \<Rightarrow> out_buf \<Rightarrow> out_buf option" where
  "sprint_list sep len cnt [] st = (if cnt < len then None else Some st)"
| "sprint_list sep len cnt ((n, pr) # ps) st =
     (if cnt < len then
        let st = pr st; cnt = cnt + n; st = (if cnt \<noteq> len then sprint st sep else st)
        in sprint_list sep len cnt ps st
      else Some st)"

fun sprint_pairs :: "((out_buf \<Rightarrow> out_buf) \<times> (out_buf \<Rightarrow> out_buf)) list \<Rightarrow> out_buf \<Rightarrow> out_buf" where
  "sprint_pairs [] st = st"
| "sprint_pairs ((pk, pv) # ps) st =
     (let st = pv (sprint (pk st) '':'') in sprint_pairs ps (if ps \<noteq> [] then sprint st '','' else st))"

text \<open>
  Reading past an array of specifications, which the well-formed ones rule out, leaves the buffer as it is
  in this model.
\<close>

definition or_same :: "(out_buf \<Rightarrow> out_buf option) \<Rightarrow> out_buf \<Rightarrow> out_buf" where
  "or_same f st = (case f st of None \<Rightarrow> st | Some st' \<Rightarrow> st')"

definition sprint_repeats :: "u32 \<Rightarrow> out_buf \<Rightarrow> out_buf" where
  "sprint_repeats n st = (if n \<noteq> 1 then sprint st (sdec_string (sint n) @ ''*'') else st)"

primrec sprint_bin :: "(as_val \<Rightarrow> string) \<Rightarrow> (u64 \<Rightarrow> string) \<Rightarrow> bin_spec \<Rightarrow> out_buf \<Rightarrow> out_buf"
  and sprint_kind :: "(as_val \<Rightarrow> string) \<Rightarrow> (u64 \<Rightarrow> string) \<Rightarrow> bin_kind \<Rightarrow> out_buf \<Rightarrow> out_buf"
  and sprint_kv :: "(as_val \<Rightarrow> string) \<Rightarrow> (u64 \<Rightarrow> string) \<Rightarrow> kv_pair \<Rightarrow> (out_buf \<Rightarrow> out_buf) \<times> (out_buf \<Rightarrow> out_buf)" where
  "sprint_bin vs ds (Bin n k) = (\<lambda>st. sprint_kind vs ds k (sprint_repeats n st))"
| "sprint_kind vs ds K_bool = (\<lambda>st. sprint st ''b'')"
| "sprint_kind vs ds (C_bool b) = (\<lambda>st. sprint st (boolstring b))"
| "sprint_kind vs ds (K_int rg) = (\<lambda>st. sprint st (''I'' @ dec_string (unat rg + 1)))"
| "sprint_kind vs ds (C_int i) = (\<lambda>st. sprint st (sdec_string (sint i)))"
| "sprint_kind vs ds (K_str len) = (\<lambda>st. sprint st (''S'' @ dec_string (unat len)))"
| "sprint_kind vs ds (C_str s) = (\<lambda>st. sprint st ([CHR 0x22] @ s @ [CHR 0x22]))"
| "sprint_kind vs ds (K_bytes len) = (\<lambda>st. sprint st (''B'' @ dec_string (unat len)))"
| "sprint_kind vs ds K_double = (\<lambda>st. sprint st ''D'')"
| "sprint_kind vs ds (C_double d) = (\<lambda>st. sprint st (ds d))"
| "sprint_kind vs ds (K_list len es) =
     (\<lambda>st. sprint (or_same (sprint_list '','' len 0 (zip (map n_repeats es) (map (sprint_bin vs ds) es))) (sprint st ''['')) '']'')"
| "sprint_kind vs ds (C_list l) = (\<lambda>st. sprint st (vs (As_list l)))"
| "sprint_kind vs ds (K_map len kvs) = (\<lambda>st. sprint (sprint_pairs (map (sprint_kv vs ds) kvs) (sprint st ''{'')) ''}'')"
| "sprint_kind vs ds (C_map m) = (\<lambda>st. sprint st (vs (As_map m)))"
| "sprint_kv vs ds (Kv k v) = (sprint_bin vs ds k, sprint_bin vs ds v)"

text \<open>
  \<^verbatim>\<open>snprint_obj_spec\<close>: the bytes written, the final NUL included; the number of bytes tells whether it
  stays within the buffer.
\<close>

definition snprint_obj_spec :: "(as_val \<Rightarrow> string) \<Rightarrow> (u64 \<Rightarrow> string) \<Rightarrow> obj_spec \<Rightarrow> nat \<Rightarrow> string" where
  "snprint_obj_spec vs ds o1 str_size =
     fst (or_same (sprint_list '', '' (n_bin_specs o1) 0 (zip (map n_repeats (bin_specs o1)) (map (sprint_bin vs ds) (bin_specs o1))))
            ([], str_size)) @ [NUL]"

section \<open>The text that is printed\<close>

fun join :: "string \<Rightarrow> string list \<Rightarrow> string" where
  "join sep [] = []"
| "join sep [t] = t"
| "join sep (t # u # ts) = t @ sep @ join sep (u # ts)"

definition text_repeats :: "u32 \<Rightarrow> string" where
  "text_repeats n = (if n \<noteq> 1 then sdec_string (sint n) @ ''*'' else [])"

primrec text_spec :: "(as_val \<Rightarrow> string) \<Rightarrow> (u64 \<Rightarrow> string) \<Rightarrow> bin_spec \<Rightarrow> string"
  and text_kind :: "(as_val \<Rightarrow> string) \<Rightarrow> (u64 \<Rightarrow> string) \<Rightarrow> bin_kind \<Rightarrow> string"
  and text_kv :: "(as_val \<Rightarrow> string) \<Rightarrow> (u64 \<Rightarrow> string) \<Rightarrow> kv_pair \<Rightarrow> string" where
  "text_spec vs ds (Bin n k) = text_repeats n @ text_kind vs ds k"
| "text_kind vs ds K_bool = ''b''"
| "text_kind vs ds (C_bool b) = boolstring b"
| "text_kind vs ds (K_int rg) = ''I'' @ dec_string (unat rg + 1)"
| "text_kind vs ds (C_int i) = sdec_string (sint i)"
| "text_kind vs ds (K_str len) = ''S'' @ dec_string (unat len)"
| "text_kind vs ds (C_str s) = [CHR 0x22] @ s @ [CHR 0x22]"
| "text_kind vs ds (K_bytes len) = ''B'' @ dec_string (unat len)"
| "text_kind vs ds K_double = ''D''"
| "text_kind vs ds (C_double d) = ds d"
| "text_kind vs ds (K_list len es) = ''['' @ join '','' (map (text_spec vs ds) es) @ '']''"
| "text_kind vs ds (C_list l) = vs (As_list l)"
| "text_kind vs ds (K_map len kvs) = ''{'' @ join '','' (map (text_kv vs ds) kvs) @ ''}''"
| "text_kind vs ds (C_map m) = vs (As_map m)"
| "text_kv vs ds (Kv k v) = text_spec vs ds k @ '':'' @ text_spec vs ds v"

lemma sprint_append: "sprint (sprint st t) u = sprint st (t @ u)"
  by (cases st) (auto simp: sprint_def Let_def)

lemma sprint_Nil [simp]: "sprint st [] = st"
  by (cases st) (auto simp: sprint_def)

lemma sprint_list_eq:
  assumes "list_all2 (\<lambda>(n, pr) t. 0 < n \<and> (\<forall>st. pr st = sprint st t)) ps ts"
    and "unat len = unat cnt + (\<Sum>p\<leftarrow>ps. unat (fst p))"
  shows "sprint_list sep len cnt ps st = Some (sprint st (join sep ts))"
  using assms
proof (induction ps ts arbitrary: cnt st rule: list_all2_induct)
  case Nil
  then show ?case by (simp add: word_less_nat_alt)
next
  case (Cons p ps t ts)
  obtain n pr where p: "p = (n, pr)" "0 < n" "\<And>st. pr st = sprint st t" using Cons.hyps(1) by (cases p) auto
  have "unat cnt + unat n < 2 ^ 32" using Cons.prems p unat_u32_lt [of len] by simp
  then have c: "unat (cnt + n) = unat cnt + unat n" by (intro unat_add_no_overflow) simp
  have lt: "cnt < len" using Cons.prems p by (simp add: word_less_nat_alt)
  show ?case
  proof (cases "ps = []")
    case True
    then have "cnt + n = len" using Cons.prems p c by (simp add: word_unat_eq_iff)
    then show ?thesis using True Cons.hyps(2) lt p by (simp add: Let_def)
  next
    case False
    then obtain q qs u us where q: "ps = q # qs" "ts = u # us" "0 < fst q" using Cons.hyps(2) by (cases ps; cases ts) auto
    then have "cnt + n \<noteq> len" using Cons.prems p c by (auto simp: word_less_nat_alt)
    then show ?thesis
      using Cons.IH [of "cnt + n" "sprint (sprint st t) sep"] False Cons.prems lt p c q by (simp add: Let_def sprint_append)
  qed
qed

lemma sprint_pairs_eq:
  assumes "list_all2 (\<lambda>(pk, pv) (a, b). (\<forall>st. pk st = sprint st a) \<and> (\<forall>st. pv st = sprint st b)) ps ts"
  shows "sprint_pairs ps (sprint st t) = sprint st (t @ join '','' (map (\<lambda>(a, b). a @ '':'' @ b) ts))"
  using assms
proof (induction ps ts arbitrary: t rule: list_all2_induct)
  case (Cons p ps ab ts)
  obtain pk pv a b where p: "p = (pk, pv)" "ab = (a, b)" "\<And>st. pk st = sprint st a" "\<And>st. pv st = sprint st b"
    using Cons.hyps(1) by (cases p; cases ab) auto
  have "ps = [] \<longleftrightarrow> ts = []" using Cons.hyps(2) by (auto dest: list_all2_lengthD)
  then show ?case using p Cons.IH [of "t @ a @ '':'' @ b @ '',''"] by (cases ts) (auto simp: sprint_append Let_def)
qed simp

lemma wf_pos: "wf_spec b \<Longrightarrow> 0 < n_repeats b"
  by (cases b) simp

lemma sprint_bin_text:
  shows "wf_spec b \<Longrightarrow> sprint_bin vs ds b st = sprint st (text_spec vs ds b)"
    and "wf_kind k \<Longrightarrow> sprint_kind vs ds k st = sprint st (text_kind vs ds k)"
    and "wf_kv kv \<Longrightarrow> (\<forall>st. fst (sprint_kv vs ds kv) st = sprint st (text_spec vs ds (key_spec kv))) \<and>
      (\<forall>st. snd (sprint_kv vs ds kv) st = sprint st (text_spec vs ds (val_spec kv)))"
proof (induction b and k and kv arbitrary: st and st)
  case (Bin n k)
  then show ?case by (simp add: sprint_repeats_def text_repeats_def sprint_append)
next
  case (K_list len es)
  let ?ps = "zip (map n_repeats es) (map (sprint_bin vs ds) es)"
  have "0 < n_repeats e \<and> (\<forall>st. sprint_bin vs ds e st = sprint st (text_spec vs ds e))" if "e \<in> set es" for e
  proof -
    have "wf_spec e" using K_list.prems that by (auto simp: list_all_iff)
    then show ?thesis using K_list.IH [OF that] wf_pos [of e] by simp
  qed
  then have "list_all2 (\<lambda>(n, pr) t. 0 < n \<and> (\<forall>st. pr st = sprint st t)) ?ps (map (text_spec vs ds) es)"
    by (simp add: list_all2_conv_all_nth)
  moreover have "(\<Sum>p\<leftarrow>?ps. unat (fst p)) = unat len"
  proof -
    have "map (\<lambda>p. unat (fst p)) ?ps = map (unat \<circ> n_repeats) es" by (rule nth_equalityI) auto
    then show ?thesis using K_list.prems by simp
  qed
  ultimately show ?case
    using sprint_list_eq [of ?ps "map (text_spec vs ds) es" len 0] by (simp add: or_same_def sprint_append)
next
  case (K_map len kvs)
  have l: "list_all2 (\<lambda>(pk, pv) (a, b). (\<forall>st. pk st = sprint st a) \<and> (\<forall>st. pv st = sprint st b)) (map (sprint_kv vs ds) kvs)
     (map (\<lambda>kv. (text_spec vs ds (key_spec kv), text_spec vs ds (val_spec kv))) kvs)"
    using K_map by (force simp: list_all2_conv_all_nth list_all_length split_beta)
  have m: "map (\<lambda>(a, b). a @ '':'' @ b) (map (\<lambda>kv. (text_spec vs ds (key_spec kv), text_spec vs ds (val_spec kv))) kvs)
      = map (text_kv vs ds) kvs"
  proof -
    have "text_kv vs ds kv = text_spec vs ds (key_spec kv) @ '':'' @ text_spec vs ds (val_spec kv)" for kv by (cases kv) simp
    then show ?thesis by simp
  qed
  show ?case using sprint_pairs_eq [OF l, of st "''{''", unfolded m] by (simp add: sprint_append)
qed simp_all

text \<open>The text of a whole specification.\<close>

definition text_obj :: "(as_val \<Rightarrow> string) \<Rightarrow> (u64 \<Rightarrow> string) \<Rightarrow> bin_spec list \<Rightarrow> string" where
  "text_obj vs ds bs = join '', '' (map (text_spec vs ds) bs)"

text \<open>
  Printing a parsed specification into a buffer of \<open>str_size\<close> bytes gives its text, the repetitions
  and parts in order; when the text does not fit with its terminator, the first \<open>str_size - 1\<close> characters
  are kept, but then a NUL is written one byte past the end of the buffer.
\<close>

theorem snprint_obj_spec_text:
  assumes "list_all wf_spec (bin_specs o1)" and "unat (n_bin_specs o1) = (\<Sum>b\<leftarrow>bin_specs o1. unat (n_repeats b))"
    and "0 < str_size"
  shows "snprint_obj_spec vs ds o1 str_size =
    (if length (text_obj vs ds (bin_specs o1)) < str_size then text_obj vs ds (bin_specs o1) @ [NUL]
     else take (str_size - 1) (text_obj vs ds (bin_specs o1)) @ [NUL, NUL])"
proof -
  let ?bs = "bin_specs o1"
  let ?ps = "zip (map n_repeats ?bs) (map (sprint_bin vs ds) ?bs)"
  have "0 < n_repeats e \<and> (\<forall>st. sprint_bin vs ds e st = sprint st (text_spec vs ds e))" if "e \<in> set ?bs" for e
    using assms(1) that sprint_bin_text(1) [of e vs ds] wf_pos [of e] by (auto simp: list_all_iff)
  then have "list_all2 (\<lambda>(n, pr) t. 0 < n \<and> (\<forall>st. pr st = sprint st t)) ?ps (map (text_spec vs ds) ?bs)"
    by (simp add: list_all2_conv_all_nth)
  moreover have "(\<Sum>p\<leftarrow>?ps. unat (fst p)) = unat (n_bin_specs o1)"
  proof -
    have "map (\<lambda>p. unat (fst p)) ?ps = map (\<lambda>b. unat (n_repeats b)) ?bs" by (rule nth_equalityI) auto
    then show ?thesis using assms(2) by simp
  qed
  ultimately show ?thesis
    using sprint_list_eq [of ?ps "map (text_spec vs ds) ?bs" "n_bin_specs o1" 0 "'', ''" "([], str_size)"] assms(3)
    by (simp add: snprint_obj_spec_def or_same_def text_obj_def sprint_def)
qed

theorem snprint_obj_spec_text_witness:
  "snprint_obj_spec (\<lambda>_. []) (\<lambda>_. []) \<lparr> bin_specs = [Bin 1 K_bool, Bin 1 K_double], n_bin_specs = 2, valid = True \<rparr> 3
     = ''b,'' @ [NUL, NUL]"
  using snprint_obj_spec_text
    [of "\<lparr> bin_specs = [Bin 1 K_bool, Bin 1 K_double], n_bin_specs = 2, valid = True \<rparr>" 3 "\<lambda>_. []" "\<lambda>_. []"]
  by (simp add: text_obj_def text_repeats_def)

end
