(* ===== verification/Obj_Roundtrip.thy ===== *)
theory Obj_Roundtrip
  imports Obj_Print
begin

text \<open>
  What is printed can be read back: the parser machine, started on the text of a specification, builds that
  specification.  This holds for the specifications whose text the parser's syntax covers, which excludes
  constant doubles and constant collections (whose text the libraries produce) and constant strings with
  quotes, backslashes or decimal points.
\<close>

section \<open>Printable specifications\<close>

definition plain_char :: "char \<Rightarrow> bool" where
  "plain_char c \<longleftrightarrow> c \<noteq> CHR 0x22 \<and> c \<noteq> CHR 0x5C \<and> c \<noteq> NUL \<and> c \<noteq> CHR ''.''"

primrec printable :: "bin_spec \<Rightarrow> bool" and printable_kind :: "bin_kind \<Rightarrow> bool" and printable_kv :: "kv_pair \<Rightarrow> bool" where
  "printable (Bin n k) \<longleftrightarrow> unat n < 2 ^ 31 \<and> printable_kind k"
| "printable_kind K_bool = True"
| "printable_kind (C_bool b) = True"
| "printable_kind (K_int rg) = True"
| "printable_kind (C_int i) = True"
| "printable_kind (K_str len) = True"
| "printable_kind (C_str s) = list_all plain_char s"
| "printable_kind (K_bytes len) = True"
| "printable_kind K_double = True"
| "printable_kind (C_double d) = False"
| "printable_kind (K_list len es) = (list_all id (map printable es) \<and> \<not> list_all const_spec es)"
| "printable_kind (C_list vs) = False"
| "printable_kind (K_map len kvs) = (list_all id (map printable_kv kvs) \<and> \<not> list_all const_pair kvs \<and> keys_ok kvs)"
| "printable_kind (C_map m) = False"
| "printable_kv (Kv k v) = (printable k \<and> printable v)"

text \<open>What may follow a printed specification.\<close>

definition stop :: "char \<Rightarrow> bool" where
  "stop c \<longleftrightarrow> c = CHR '','' \<or> c = CHR '']'' \<or> c = CHR ''}'' \<or> c = CHR '':'' \<or> c = NUL"

lemma stop_props:
  assumes "stop c"
  shows "\<not> isdigit c" "\<not> isalpha c" "c \<noteq> CHR '' ''" "c \<noteq> CHR ''*''" "c \<noteq> CHR ''x''" "c \<noteq> CHR ''X''"
  using assms by (auto simp: stop_def isdigit_def isalpha_def)

text \<open>What a printed specification begins with.\<close>

definition starts :: "char \<Rightarrow> bool" where
  "starts c \<longleftrightarrow> isdigit c \<or> c \<in> {CHR ''-'', CHR ''b'', CHR ''t'', CHR ''f'', CHR ''I'', CHR ''S'', CHR ''B'', CHR ''D'', CHR 0x22,
     CHR ''['', CHR ''{''}"

lemma dec_string_starts: "\<exists>c ds. dec_string n = c # ds \<and> isdigit c"
  by (rule dec_string_Cons [of n]) blast

lemma text_kind_starts: "printable_kind k \<Longrightarrow> \<exists>c t. text_kind vs ds k = c # t \<and> starts c"
proof (cases k)
  case (C_int i)
  then show ?thesis using dec_string_starts [of "nat (sint i)"] by (auto simp: sdec_string_def starts_def)
qed (auto simp: boolstring_def starts_def)

lemma sdec_repeats: "unat (n :: u32) < 2 ^ 31 \<Longrightarrow> sdec_string (sint n) = dec_string (unat n)"
  by (subst sint_eq_unat) (simp, rule sdec_string_int)

lemma text_spec_starts:
  assumes "printable b"
  shows "\<exists>c t. text_spec vs ds b = c # t \<and> starts c"
proof (cases b)
  case (Bin n k)
  show ?thesis
  proof (cases "n = 1")
    case True
    then show ?thesis using text_kind_starts [of k vs ds] assms Bin by (simp add: text_repeats_def)
  next
    case False
    obtain c ds' where "dec_string (unat n) = c # ds'" "isdigit c" by (rule dec_string_Cons)
    then show ?thesis using False assms Bin sdec_repeats [of n] by (simp add: text_repeats_def starts_def)
  qed
qed

lemma starts_props:
  assumes "starts c"
  shows "c \<noteq> CHR '' ''" "c \<noteq> CHR '']''" "c \<noteq> CHR ''}''" "c \<noteq> NUL" "c \<noteq> CHR ''*''"
  using assms by (auto simp: starts_def isdigit_def)

text \<open>Nothing that is printed contains a point.\<close>

lemma join_set: "set (join sep ts) \<subseteq> set sep \<union> (\<Union>t \<in> set ts. set t)"
  by (induction sep ts rule: join.induct) auto

lemma isdigit_no_point: "isdigit c \<Longrightarrow> c \<noteq> CHR ''.''"
  by (auto simp: isdigit_def)

lemma dec_no_point: "CHR ''.'' \<notin> set (dec_string n)" "CHR ''.'' \<notin> set (sdec_string i)"
  by (auto simp: sdec_string_def dest!: dec_string_digits isdigit_no_point)

lemma text_no_point:
  shows "printable b \<Longrightarrow> CHR ''.'' \<notin> set (text_spec vs ds b)"
    and "printable_kind k \<Longrightarrow> CHR ''.'' \<notin> set (text_kind vs ds k)"
    and "printable_kv kv \<Longrightarrow> CHR ''.'' \<notin> set (text_kv vs ds kv)"
proof (induction b and k and kv)
  case (Bin n k)
  then show ?case by (auto simp: text_repeats_def dec_no_point)
next
  case (C_str s)
  then show ?case by (auto simp: list_all_iff plain_char_def)
next
  case (K_list len es)
  then show ?case using join_set [of "'',''" "map (text_spec vs ds) es"] by (fastforce simp: list_all_iff)
next
  case (K_map len kvs)
  then show ?case using join_set [of "'',''" "map (text_kv vs ds) kvs"] by (fastforce simp: list_all_iff)
qed (auto simp: boolstring_def dec_no_point)

section \<open>Reading numbers and strings back\<close>

lemma strtol_dec_string:
  assumes "n < 2 ^ 63" and "\<not> isdigit (peek r)"
  shows "strtol (dec_string n @ r) 10 = (of_nat n, r, False)"
proof -
  obtain c ds where *: "dec_string n = c # ds" "isdigit c" by (rule dec_string_Cons)
  have ws: "dropWhile isspace (dec_string n @ r) = dec_string n @ r" using * by (simp add: isdigit_not_space)
  have sg: "split_sign (dec_string n @ r) = (False, dec_string n @ r)"
    using * isdigit_not_sign [of c] by (simp add: split_sign_def)
  show ?thesis
    using assms unfolding strtol_def ws sg by (simp add: skip_0x_def is_base_digit_10 [abs_def] dec_simps)
qed

lemma strtol_neg_dec_string:
  assumes "n \<le> 2 ^ 63" and "\<not> isdigit (peek r)"
  shows "strtol (CHR ''-'' # dec_string n @ r) 10 = (- of_nat n, r, False)"
  using assms by (simp add: strtol_def isspace_def split_sign_def skip_0x_def is_base_digit_10 [abs_def] dec_simps)

lemma sint_u64_bounds: "- (2 ^ 63) \<le> sint (i :: u64)" "sint (i :: u64) < 2 ^ 63"
  using sint_ge [of i] sint_lt [of i] by simp_all

lemma strtol_sdec:
  assumes "\<not> isdigit (peek r)"
  shows "strtol (sdec_string (sint (i :: u64)) @ r) 10 = (i, r, False)"
proof (cases "sint i < 0")
  case True
  have "nat (- sint i) \<le> 2 ^ 63" using sint_u64_bounds [of i] by simp
  moreover have "- (of_nat (nat (- sint i)) :: u64) = i" using True by simp
  ultimately show ?thesis using True strtol_neg_dec_string [OF _ assms] by (simp add: sdec_string_def)
next
  case False
  have "nat (sint i) < 2 ^ 63" using False sint_u64_bounds [of i] by (simp add: nat_less_iff)
  moreover have "(of_nat (nat (sint i)) :: u64) = i" using False by simp
  ultimately show ?thesis using False strtol_dec_string [OF _ assms] by (simp add: sdec_string_def)
qed

lemma second_char:
  assumes "stop (peek r)"
  shows "char_at (dec_string n @ r) 1 \<noteq> CHR ''x'' \<and> char_at (dec_string n @ r) 1 \<noteq> CHR ''X''"
proof -
  obtain c ds where d: "dec_string n = c # ds" "isdigit c" by (rule dec_string_Cons)
  have "isdigit (peek ds)" if "ds \<noteq> []" using that d dec_string_digits [of "peek ds" n] by (cases ds) auto
  moreover have "char_at (c # ds @ r) 1 = (if ds = [] then peek r else peek ds)" by (cases ds; cases r) auto
  ultimately show ?thesis using d(1) stop_props [OF assms] by (auto simp: isdigit_def)
qed

lemma read_number:
  assumes "stop (peek r)" and "CHR ''.'' \<notin> set r"
  shows "parse_number st (sdec_string (sint i) @ r) = Parsed (C_int i, r)"
proof -
  let ?t = "sdec_string (sint i) @ r"
  have "CHR ''.'' \<notin> set ?t" using assms(2) dec_no_point(2) by simp
  then have "CHR ''.'' \<notin> set (take n ?t)" for n using set_take_subset [of n ?t] by blast
  moreover have "\<not> (peek ?t = CHR ''0'' \<and> (char_at ?t 1 = CHR ''x'' \<or> char_at ?t 1 = CHR ''X''))"
    using second_char [OF assms(1)] by (auto simp: sdec_string_def)
  moreover have "strtol ?t 10 = (i, r, False)" using stop_props(1) [OF assms(1)] by (rule strtol_sdec)
  moreover have "sdec_string (sint i) \<noteq> []" by (simp add: sdec_string_def)
  ultimately show ?thesis by (auto simp: parse_number_def Let_def)
qed

lemma read_string:
  assumes "list_all plain_char s"
  shows "parse_string_literal (CHR 0x22 # s @ CHR 0x22 # r) = Inr (s, r)" "cstr s = s"
proof -
  let ?fcs = "map (\<lambda>c. (Plain, c)) s"
  have w: "\<forall>fc \<in> set ?fcs. writable fc" using assms by (auto simp: list_all_iff plain_char_def)
  have "concat (map write_char ?fcs) = s" by (induction s) auto
  moreover have "map snd ?fcs = s" by (induction s) auto
  ultimately show "parse_string_literal (CHR 0x22 # s @ CHR 0x22 # r) = Inr (s, r)"
    using written_scan [OF w, of r 0] written_emit [OF w, of r] by (simp add: parse_string_literal_def)
  show "cstr s = s" using assms by (auto simp: cstr_def list_all_iff plain_char_def takeWhile_eq_all_conv)
qed

section \<open>One scalar\<close>

lemma skip_space_start: "starts c \<Longrightarrow> skip_space (c # t) = c # t"
  using starts_props(1) [of c] by (simp add: skip_space_def)

lemma skip_space_stop: "stop (peek r) \<Longrightarrow> skip_space r = r"
  using stop_props(3) [of "peek r"] by (simp add: skip_space_def)

lemma ucast_up_down: "ucast (ucast (n :: u32) :: u64) = n" "(of_nat (unat n) :: u64) = ucast n"
  by (simp_all add: unsigned_ucast_eq take_bit_word_eq_self)

text \<open>The multiplier.\<close>

lemma read_mult_none:
  assumes "printable_kind k" and "stop (peek r)"
  shows "parse_mult st (text_kind vs ds k @ r) = Parsed (1, text_kind vs ds k @ r)"
proof (cases "isdigit (peek (text_kind vs ds k @ r))")
  case True
  obtain i where k: "k = C_int i" using True assms(1)
    by (cases k) (auto simp: boolstring_def isdigit_def split: if_splits)
  have pos: "\<not> sint i < 0" using True k by (auto simp: sdec_string_def isdigit_def)
  then have "nat (sint i) < 2 ^ 64" using sint_u64_bounds [of i] by simp
  then have "strtoul (dec_string (nat (sint i)) @ r) 10 = (of_nat (nat (sint i)), r, False)"
    using stop_props(1) [OF assms(2)] by (intro strtoul_dec_string) simp_all
  moreover have "text_kind vs ds k @ r = dec_string (nat (sint i)) @ r" using k pos by (simp add: sdec_string_def)
  ultimately show ?thesis
    using stop_props(4) [OF assms(2)] skip_space_stop [OF assms(2)] by (simp add: parse_mult_def Let_def)
next
  case False
  then show ?thesis by (simp add: parse_mult_def Let_def split: prod.split)
qed

lemma read_mult:
  assumes "printable (Bin n k)" and "n \<noteq> 0" and "stop (peek r)" and "expects_val st \<longrightarrow> n = 1"
  shows "parse_mult st (text_spec vs ds (Bin n k) @ r) = Parsed (ucast n, text_kind vs ds k @ r)"
proof (cases "n = 1")
  case True
  then show ?thesis using read_mult_none assms(1,3) by (simp add: text_repeats_def)
next
  case False
  let ?t = "CHR ''*'' # text_kind vs ds k @ r"
  obtain c t where k: "text_kind vs ds k = c # t" "starts c" using text_kind_starts [of k vs ds] assms(1) by auto
  have "strtoul (dec_string (unat n) @ ?t) 10 = (of_nat (unat n), ?t, False)"
    using unat_u32_lt [of n] by (intro strtoul_dec_string) (simp_all add: isdigit_def)
  then have "strtoul (dec_string (unat n) @ ?t) 10 = (ucast n, ?t, False)" by (simp only: ucast_up_down(2))
  moreover have "text_spec vs ds (Bin n k) @ r = dec_string (unat n) @ ?t"
    using False sdec_repeats [of n] assms(1) by (simp add: text_repeats_def)
  moreover have "isdigit (peek (dec_string (unat n) @ ?t))"
    using dec_string_starts [of "unat n"] by auto
  moreover have "(ucast n :: u64) \<noteq> 0" using assms(2) by (metis ucast_up_down(1) unsigned_0)
  ultimately show ?thesis
    using False assms(4) k skip_space_start [of c "t @ r"] ucast_up_down(1) [of n]
    by (simp add: parse_mult_def Let_def skip_space_def)
qed

text \<open>The scalar types.\<close>

lemma read_length:
  assumes "stop (peek r)"
  shows "parse_length a b (c # dec_string (unat (len :: u32)) @ r) = Parsed (len, r)"
proof -
  have "strtoul (dec_string (unat len) @ r) 10 = (of_nat (unat len), r, False)"
    using unat_u32_lt [of len] stop_props(1) [OF assms] by (intro strtoul_dec_string) simp_all
  then have "strtoul (dec_string (unat len) @ r) 10 = (ucast len, r, False)" by (simp only: ucast_up_down(2))
  moreover have "r \<noteq> dec_string (unat len) @ r" by simp
  ultimately show ?thesis using ucast_up_down(1) [of len] by (simp add: parse_length_def Let_def)
qed

lemma read_int_type:
  assumes "rg \<le> 7"
  shows "parse_int_type (CHR ''I'' # dec_string (unat rg + 1) @ r) = (K_int rg, r)"
proof -
  have u: "unat rg \<le> 7" using assms by (simp add: word_le_nat_alt)
  then have d: "dec_string (unat rg + 1) = [digit_char (unat rg + 1)]" by (simp add: dec_string.simps)
  have "(of_nat (cc (digit_char (unat rg + 1))) - 49 :: u8) = of_nat (49 + unat rg) - of_nat 49"
    using u by (simp add: cc_digit_char)
  also have "\<dots> = rg" by simp
  finally show ?thesis using assms d by (simp add: parse_int_type_def Let_def not_less)
qed

fun is_scalar :: "bin_kind \<Rightarrow> bool" where
  "is_scalar (K_list len es) = False"
| "is_scalar (K_map len kvs) = False"
| "is_scalar k = True"

lemma read_const:
  assumes "printable_kind k" and "const_kind k" and "expects_key st \<longrightarrow> scalar_key k" and "stop (peek r)" and "CHR ''.'' \<notin> set r"
  shows "parse_const_val st (text_kind vs ds k @ r) = Parsed (k, r)"
proof (cases k)
  case (C_bool b)
  have "\<not> isalpha (peek r)" using stop_props [OF assms(4)] by simp
  then have "\<not> isalpha (char_at r 0)" by (cases r) auto
  then show ?thesis
    using C_bool assms(3) by (cases b)
      (simp_all add: parse_const_val_def Let_def boolstring_def parse_bool_const_def strncaseeq_def numeral_eq_Suc)
next
  case (C_int i)
  have "isdigit (peek (sdec_string (sint i) @ r)) \<or> peek (sdec_string (sint i) @ r) = CHR ''-''"
    using dec_string_starts [of "nat (sint i)"] by (auto simp: sdec_string_def)
  then have "peek (sdec_string (sint i) @ r) \<notin> {CHR ''T'', CHR ''t'', CHR ''F'', CHR ''f'', CHR 0x22}"
    by (auto simp: isdigit_def)
  then show ?thesis using C_int read_number [OF assms(4,5)] by (simp add: parse_const_val_def Let_def)
next
  case (C_str s)
  then show ?thesis using read_string(1) [of s r] read_string(2) [of s] assms(1) by (simp add: parse_const_val_def Let_def)
qed (use assms in auto)

lemma const_start:
  assumes "printable_kind k" and "const_kind k"
  shows "peek (text_kind vs ds k @ r) \<notin> {CHR ''b'', CHR ''I'', CHR ''S'', CHR ''B'', CHR ''D'', CHR ''['', CHR ''{''}"
proof (cases k)
  case (C_int i)
  then show ?thesis using dec_string_starts [of "nat (sint i)"] by (auto simp: sdec_string_def isdigit_def)
qed (use assms in \<open>auto simp: boolstring_def\<close>)

lemma read_type:
  assumes "printable_kind k" and "wf_kind k" and "is_scalar k" and "stop (peek r)" and "CHR ''.'' \<notin> set r"
    and "expects_key st \<longrightarrow> scalar_key k \<and> (const_kind k \<longrightarrow> m = 1 \<and> \<not> map_repeat_const_key st k)"
  shows "parse_type st m (text_kind vs ds k @ r) = Parsed (Scalar k (const_kind k) r)"
proof (cases "const_kind k")
  case True
  then show ?thesis
    using const_start [OF assms(1) True, of vs ds r] read_const [OF assms(1) True _ assms(4,5)] assms(6)
    by (simp add: parse_type_def Let_def parse_const_item_def)
next
  case False
  then show ?thesis
    using assms(2,3,6) read_int_type read_length [OF assms(4)]
    by (cases k) (simp_all add: parse_type_def Let_def)
qed

section \<open>Whole specifications\<close>

text \<open>What the machine does once a specification has been read.\<close>

definition resume :: "om_setter \<Rightarrow> consumer_state \<Rightarrow> consumer_state list \<Rightarrow> bin_spec \<Rightarrow> string \<Rightarrow> (bin_spec list \<times> u32) parse" where
  "resume om st stack b r =
     bind_parse (advance (st\<lparr> is_const := const_spec b \<and> is_const st \<rparr>) b r) (\<lambda>(st', r'). parse_loop om (st' # stack) r')"

text \<open>Where a specification may stand.\<close>

definition place_ok :: "consumer_state \<Rightarrow> bin_spec \<Rightarrow> string \<Rightarrow> bool" where
  "place_ok st b r \<longleftrightarrow>
     delimiter st \<in> {NUL, CHR '']'', CHR ''}''} \<and> stop (peek r) \<and> CHR ''.'' \<notin> set r \<and>
     (expects_val st \<longrightarrow> n_repeats b = 1) \<and>
     (expects_key st \<longrightarrow> scalar_key (kind b) \<and>
        (const_spec b \<longrightarrow> n_repeats b = 1 \<and> \<not> map_repeat_const_key st (kind b)))"

definition reads :: "(as_val \<Rightarrow> string) \<Rightarrow> (u64 \<Rightarrow> string) \<Rightarrow> bin_spec \<Rightarrow> bool" where
  "reads vs ds b \<longleftrightarrow>
     (\<forall>om st stack r. place_ok st b r \<longrightarrow> parse_loop om (st # stack) (text_spec vs ds b @ r) = resume om st stack b r)"

lemma loop_next: "parse_step om stack s = Parsed (Next stack' s') \<Longrightarrow> parse_loop om stack s = parse_loop om stack' s'"
  by (subst parse_loop.simps) simp

lemma not_delimiter:
  assumes "printable b" and "place_ok st b r"
  shows "peek (text_spec vs ds b @ r) \<noteq> delimiter st"
proof -
  obtain c t where "text_spec vs ds b = c # t" "starts c" using text_spec_starts [OF assms(1)] by blast
  then show ?thesis using assms(2) starts_props [of c] by (auto simp: place_ok_def)
qed

lemma bind_item: "bind_parse (bind_parse p f) g = bind_parse p (\<lambda>a. bind_parse (f a) g)"
  by (cases p) auto

lemma loop_bind: "parse_loop om stack s = bind_parse (parse_step om stack s)
    (\<lambda>p. case p of Next stack' s' \<Rightarrow> parse_loop om stack' s' | Finish bs n \<Rightarrow> Parsed (bs, n))"
  by (subst parse_loop.simps) (auto split: parse.splits)

lemma reads_scalar:
  assumes "printable (Bin n k)" and "wf_spec (Bin n k)" and "is_scalar k"
  shows "reads vs ds (Bin n k)"
  unfolding reads_def
proof (intro allI impI)
  fix om st stack r
  assume p: "place_ok st (Bin n k) r"
  then have r: "stop (peek r)" "CHR ''.'' \<notin> set r" by (simp_all add: place_ok_def)
  have "parse_mult st (text_spec vs ds (Bin n k) @ r) = Parsed (ucast n, text_kind vs ds k @ r)"
    using assms p r by (intro read_mult) (auto simp: place_ok_def word_neq_0_conv)
  moreover have "parse_type st (ucast n) (text_kind vs ds k @ r) = Parsed (Scalar k (const_kind k) r)"
    using assms p r by (intro read_type) (auto simp: place_ok_def)
  ultimately show "parse_loop om (st # stack) (text_spec vs ds (Bin n k) @ r) = resume om st stack (Bin n k) r"
    using not_delimiter [OF assms(1) p, of vs ds] ucast_up_down(1) [of n]
    by (subst loop_bind) (simp add: consume_item_def resume_def bind_item case_prod_unfold)
qed

subsection \<open>Lists\<close>

definition sep_ok :: "string \<Rightarrow> bool" where
  "sep_ok sep \<longleftrightarrow> sep = '','' \<or> sep = '', ''"

lemma join_starts:
  assumes "list_all printable es" and "es \<noteq> []"
  shows "\<exists>c t. join sep (map (text_spec vs ds) es) = c # t \<and> starts c"
proof -
  obtain e es' where es: "es = e # es'" using assms(2) by (cases es) auto
  obtain c t where "text_spec vs ds e = c # t" "starts c" using text_spec_starts assms(1) es by fastforce
  then show ?thesis using es by (cases es') auto
qed

lemma resume_list_next:
  assumes "built st = List_of bs" and "unat (list_len st) + unat (n_repeats b) < 2 ^ 32" and "sep_ok sep" and "starts c"
  shows "resume om st stack b (sep @ c # t) =
    parse_loop om (st\<lparr> is_const := const_spec b \<and> is_const st, built := List_of (bs @ [b]), list_len := list_len st + n_repeats b \<rparr> # stack) (c # t)"
proof -
  have "unat (list_len st + n_repeats b) = unat (list_len st) + unat (n_repeats b)"
    using assms(2) by (intro unat_add_no_overflow) simp
  then have "\<not> list_len st + n_repeats b < n_repeats b" by (simp add: word_less_nat_alt)
  moreover have "peek (sep @ c # t) = CHR '',''" "skip_space (tl (sep @ c # t)) = c # t"
    using assms(3) starts_props(1) [OF assms(4)] by (auto simp: sep_ok_def skip_space_def)
  ultimately show ?thesis using assms(1) by (simp add: resume_def advance_def add_to_list_def Let_def)
qed

lemma resume_list_last:
  assumes "built st = List_of bs" and "unat (list_len st) + unat (n_repeats b) < 2 ^ 32"
    and "peek r = delimiter st" and "delimiter st \<noteq> CHR '',''" and "delimiter st \<noteq> CHR '' ''"
  shows "resume om st stack b r =
    parse_loop om (st\<lparr> is_const := const_spec b \<and> is_const st, built := List_of (bs @ [b]), list_len := list_len st + n_repeats b \<rparr> # stack) r"
proof -
  have "unat (list_len st + n_repeats b) = unat (list_len st) + unat (n_repeats b)"
    using assms(2) by (intro unat_add_no_overflow) simp
  then have "\<not> list_len st + n_repeats b < n_repeats b" by (simp add: word_less_nat_alt)
  then show ?thesis using assms by (simp add: resume_def advance_def add_to_list_def Let_def skip_space_def)
qed

lemma read_list:
  assumes "es \<noteq> []" and "list_all printable es" and "\<forall>e \<in> set es. reads vs ds e" and "sep_ok sep"
    and "built st = List_of bs" and "unat (list_len st) + (\<Sum>e\<leftarrow>es. unat (n_repeats e)) < 2 ^ 32"
    and "peek r = delimiter st" and "delimiter st \<in> {NUL, CHR '']''}" and "CHR ''.'' \<notin> set r"
  shows "parse_loop om (st # stack) (join sep (map (text_spec vs ds) es) @ r) =
    parse_loop om (st\<lparr> is_const := list_all const_spec es \<and> is_const st, built := List_of (bs @ es),
      list_len := list_len st + (\<Sum>e\<leftarrow>es. n_repeats e) \<rparr> # stack) r"
  using assms(1-3,5-9)
proof (induction es arbitrary: st bs)
  case (Cons e es)
  have nokey: "\<not> expects_key st" "\<not> expects_val st" using Cons.prems(4) by (simp_all add: expects_key_def expects_val_def)
  have pr: "printable e" "reads vs ds e" using Cons.prems(2,3) by simp_all
  show ?case
  proof (cases "es = []")
    case True
    have "place_ok st e r" using Cons.prems nokey by (auto simp: place_ok_def stop_def)
    then have "parse_loop om (st # stack) (text_spec vs ds e @ r) = resume om st stack e r" using pr(2) by (simp add: reads_def)
    also have "\<dots> = parse_loop om (st\<lparr> is_const := const_spec e \<and> is_const st, built := List_of (bs @ [e]),
        list_len := list_len st + n_repeats e \<rparr> # stack) r"
      using Cons.prems by (intro resume_list_last) auto
    finally show ?thesis using True by simp
  next
    case False
    let ?r = "join sep (map (text_spec vs ds) es) @ r"
    let ?st = "st\<lparr> is_const := const_spec e \<and> is_const st, built := List_of (bs @ [e]), list_len := list_len st + n_repeats e \<rparr>"
    obtain c t where ct: "join sep (map (text_spec vs ds) es) = c # t" "starts c"
      using join_starts [of es sep vs ds] Cons.prems(2) False by auto
    have "unat (list_len st + n_repeats e) = unat (list_len st) + unat (n_repeats e)"
      using Cons.prems(5) by (intro unat_add_no_overflow) simp
    then have IH: "parse_loop om (?st # stack) ?r = parse_loop om (?st\<lparr> is_const := list_all const_spec es \<and> is_const ?st,
        built := List_of ((bs @ [e]) @ es), list_len := list_len ?st + (\<Sum>e\<leftarrow>es. n_repeats e) \<rparr> # stack) r"
      using Cons.prems False by (intro Cons.IH) auto
    have j: "join sep (map (text_spec vs ds) (e # es)) @ r = text_spec vs ds e @ sep @ ?r"
      using False by (cases es) auto
    have "CHR ''.'' \<notin> set ?r"
      using join_set [of sep "map (text_spec vs ds) es"] Cons.prems(2,8) text_no_point(1) assms(4)
      by (fastforce simp: list_all_iff sep_ok_def)
    then have "place_ok st e (sep @ ?r)" using Cons.prems nokey assms(4) by (auto simp: place_ok_def stop_def sep_ok_def)
    then have "parse_loop om (st # stack) (text_spec vs ds e @ sep @ ?r) = resume om st stack e (sep @ ?r)"
      using pr(2) by (simp add: reads_def)
    also have "\<dots> = parse_loop om (?st # stack) ?r"
      using resume_list_next [OF Cons.prems(4) _ assms(4) ct(2), of e om stack "t @ r"] Cons.prems(5) ct(1) by simp
    finally show ?thesis unfolding j IH by (simp add: add.assoc conj_ac)
  qed
qed simp

lemma of_nat_sum_unat: "of_nat (\<Sum>x\<leftarrow>xs. unat (f x :: u32)) = (\<Sum>x\<leftarrow>xs. f x)"
  by (induction xs) simp_all

lemma len_is_sum: "unat len = (\<Sum>x\<leftarrow>xs. unat (f x :: u32)) \<Longrightarrow> (\<Sum>x\<leftarrow>xs. f x) = len"
  using of_nat_sum_unat [of f xs] by (metis of_nat_unat ucast_id)

text \<open>Closing a collection that is not constant.\<close>

lemma close_resume:
  assumes "target new = Some n" and "\<not> is_const new" and "close_collection om new (delimiter new # r) = Parsed k"
    and "\<not> const_kind k"
  shows "parse_loop om (new # st # stack) (delimiter new # r) = resume om st stack (Bin n k) r"
  using assms by (subst loop_bind) (simp add: finish_state_def resume_def bind_item case_prod_unfold)

lemma reads_list:
  assumes "printable (Bin n (K_list len es))" and "wf_spec (Bin n (K_list len es))" and "\<forall>e \<in> set es. reads vs ds e"
  shows "reads vs ds (Bin n (K_list len es))"
  unfolding reads_def
proof (intro allI impI)
  fix om st stack r
  let ?b = "Bin n (K_list len es)"
  let ?j = "join '','' (map (text_spec vs ds) es)"
  assume p: "place_ok st ?b r"
  have pr: "list_all printable es" "\<not> list_all const_spec es" "es \<noteq> []" using assms(1) by (auto simp: list_all_iff)
  have len: "unat len = (\<Sum>e\<leftarrow>es. unat (n_repeats e))" using assms(2) by (simp add: comp_def)
  obtain c t where ct: "?j = c # t" "starts c" using join_starts [OF pr(1,3)] by blast
  have "parse_mult st (text_spec vs ds ?b @ r) = Parsed (ucast n, text_kind vs ds (K_list len es) @ r)"
    using assms p by (intro read_mult) (auto simp: place_ok_def word_neq_0_conv)
  moreover have "parse_type st (ucast n) (text_kind vs ds (K_list len es) @ r) = Parsed (Open_list (?j @ '']'' @ r))"
    using p ct skip_space_start [OF ct(2)] by (simp add: parse_type_def place_ok_def)
  ultimately have "parse_loop om (st # stack) (text_spec vs ds ?b @ r) = parse_loop om (list_state n # st # stack) (?j @ '']'' @ r)"
    using not_delimiter [OF assms(1) p, of vs ds] ucast_up_down(1) [of n]
    by (intro loop_next) (simp add: consume_item_def)
  also have "\<dots> = parse_loop om ((list_state n)\<lparr> is_const := list_all const_spec es \<and> is_const (list_state n), built := List_of ([] @ es),
      list_len := list_len (list_state n) + (\<Sum>e\<leftarrow>es. n_repeats e) \<rparr> # st # stack) ('']'' @ r)"
    using p len unat_u32_lt [of len] pr assms(3) by (intro read_list) (auto simp: list_state_def sep_ok_def place_ok_def)
  also have "\<dots> = resume om st stack ?b r"
    using pr(2) len_is_sum [OF len]
      close_resume [of "(list_state n)\<lparr> is_const := False, built := List_of es, list_len := len \<rparr>" n om r "K_list len es"]
    by (simp add: list_state_def close_collection_def)
  finally show "parse_loop om (st # stack) (text_spec vs ds ?b @ r) = resume om st stack ?b r" .
qed

subsection \<open>Maps\<close>

lemma join_kv_starts:
  assumes "list_all printable_kv kvs" and "kvs \<noteq> []"
  shows "\<exists>c t. join '','' (map (text_kv vs ds) kvs) = c # t \<and> starts c"
proof -
  obtain k v kvs' where kvs: "kvs = Kv k v # kvs'" using assms(2) by (metis kv_pair.exhaust list.exhaust)
  obtain c t where "text_spec vs ds k = c # t" "starts c" using text_spec_starts [of k vs ds] assms(1) kvs by auto
  then show ?thesis using kvs by (cases kvs') auto
qed

lemma resume_key:
  assumes "built st = Map_key kvs" and "unat (list_len st) + unat (n_repeats k) < 2 ^ 32" and "starts c"
  shows "resume om st stack k (CHR '':'' # c # t) =
    parse_loop om (st\<lparr> is_const := const_spec k \<and> is_const st, built := Map_val kvs k, list_len := list_len st + n_repeats k \<rparr> # stack) (c # t)"
proof -
  have "unat (list_len st + n_repeats k) = unat (list_len st) + unat (n_repeats k)"
    using assms(2) by (intro unat_add_no_overflow) simp
  then have "\<not> list_len st + n_repeats k < n_repeats k" by (simp add: word_less_nat_alt)
  then show ?thesis
    using assms(1) starts_props(1) [OF assms(3)] by (simp add: resume_def advance_def add_key_def Let_def skip_space_def)
qed

lemma resume_val_next:
  assumes "built st = Map_val kvs k" and "starts c"
  shows "resume om st stack v (CHR '','' # c # t) =
    parse_loop om (st\<lparr> is_const := const_spec v \<and> is_const st, built := Map_key (kvs @ [Kv k v]) \<rparr> # stack) (c # t)"
  using assms(1) starts_props(1) [OF assms(2)] by (simp add: resume_def advance_def add_val_def Let_def skip_space_def)

lemma resume_val_last:
  assumes "built st = Map_val kvs k" and "delimiter st = CHR ''}''"
  shows "resume om st stack v (CHR ''}'' # r) =
    parse_loop om (st\<lparr> is_const := const_spec v \<and> is_const st, built := Map_done (kvs @ [Kv k v]) \<rparr> # stack) (CHR ''}'' # r)"
  using assms by (simp add: resume_def advance_def add_val_def Let_def skip_space_def)

text \<open>A key that is read is new to the map.\<close>

lemma same_const_eq: "same_const a b \<Longrightarrow> scalar_key b \<Longrightarrow> a = b"
  by (cases a; cases b) auto

lemma new_key:
  assumes "keys_ok (kvs0 @ Kv k v # kvs)" and "built st = Map_key kvs0" and "const_spec k" and "scalar_key (kind k)"
  shows "n_repeats k = 1 \<and> \<not> map_repeat_const_key st (kind k)"
proof -
  have "kind k \<notin> (kind \<circ> key_spec) ` {kv \<in> set kvs0. const_spec (key_spec kv)}"
    using assms(1,3) by (auto simp: keys_ok_def)
  moreover have "kind k \<in> (kind \<circ> key_spec) ` {kv \<in> set kvs0. const_spec (key_spec kv)}"
    if "kv \<in> set kvs0" "same_const (kind (key_spec kv)) (kind k)" for kv
    using that(1) same_const_eq [OF that(2) assms(4)] assms(3) by (intro image_eqI [of _ _ kv]) simp_all
  ultimately have "\<not> same_const (kind (key_spec kv)) (kind k)" if "kv \<in> set kvs0" for kv
    using that by blast
  then show ?thesis using assms(1-3) by (auto simp: keys_ok_def map_repeat_const_key_def list_ex_iff)
qed

lemma read_map:
  assumes "kvs \<noteq> []" and "list_all printable_kv kvs" and "list_all wf_kv kvs"
    and "\<forall>kv \<in> set kvs. reads vs ds (key_spec kv) \<and> reads vs ds (val_spec kv)"
    and "keys_ok (kvs0 @ kvs)" and "built st = Map_key kvs0" and "delimiter st = CHR ''}''"
    and "unat (list_len st) + (\<Sum>kv\<leftarrow>kvs. key_repeats kv) < 2 ^ 32" and "CHR ''.'' \<notin> set r"
  shows "parse_loop om (st # stack) (join '','' (map (text_kv vs ds) kvs) @ CHR ''}'' # r) =
    parse_loop om (st\<lparr> is_const := list_all const_pair kvs \<and> is_const st, built := Map_done (kvs0 @ kvs),
      list_len := list_len st + (\<Sum>kv\<leftarrow>kvs. n_repeats (key_spec kv)) \<rparr> # stack) (CHR ''}'' # r)"
  using assms
proof (induction kvs arbitrary: st kvs0)
  case (Cons kv kvs)
  obtain k v where kv: "kv = Kv k v" by (cases kv)
  have pr: "printable k" "printable v" "scalar_key (kind k)" "n_repeats v = 1" "reads vs ds k" "reads vs ds v"
    using Cons.prems(2-4) kv by auto
  let ?rest = "if kvs = [] then CHR ''}'' # r else CHR '','' # join '','' (map (text_kv vs ds) kvs) @ CHR ''}'' # r"
  have j: "join '','' (map (text_kv vs ds) (kv # kvs)) @ CHR ''}'' # r = text_spec vs ds k @ CHR '':'' # text_spec vs ds v @ ?rest"
    using kv by (cases kvs) auto
  have "CHR ''.'' \<notin> set (text_kv vs ds kv')" if "kv' \<in> set kvs" for kv'
    using Cons.prems(2) that by (intro text_no_point(3)) (auto simp: list_all_iff)
  then have "CHR ''.'' \<notin> set (join '','' (map (text_kv vs ds) kvs))" using join_set [of "'',''" "map (text_kv vs ds) kvs"] by auto
  then have np: "CHR ''.'' \<notin> set ?rest" using Cons.prems(9) by auto
  let ?st1 = "st\<lparr> is_const := const_spec k \<and> is_const st, built := Map_val kvs0 k, list_len := list_len st + n_repeats k \<rparr>"
  obtain c t where ct: "text_spec vs ds v = c # t" "starts c" using text_spec_starts [OF pr(2)] by blast
  have "place_ok st k (CHR '':'' # text_spec vs ds v @ ?rest)"
    using Cons.prems(6,7) pr np text_no_point(1) [OF pr(2)] new_key [OF _ Cons.prems(6), of k v kvs] Cons.prems(5) kv
    by (auto simp: place_ok_def stop_def expects_val_def expects_key_def)
  then have "parse_loop om (st # stack) (text_spec vs ds k @ CHR '':'' # text_spec vs ds v @ ?rest) =
      resume om st stack k (CHR '':'' # text_spec vs ds v @ ?rest)" using pr(5) by (simp add: reads_def)
  also have "\<dots> = parse_loop om (?st1 # stack) (text_spec vs ds v @ ?rest)"
    using resume_key [OF Cons.prems(6) _ ct(2), of k om stack "t @ ?rest"] Cons.prems(8) kv ct(1) by (simp add: key_repeats_def)
  also have "\<dots> = resume om ?st1 stack v ?rest"
  proof -
    have "place_ok ?st1 v ?rest" using pr np Cons.prems(7) by (auto simp: place_ok_def stop_def expects_key_def)
    then show ?thesis using pr(6) by (simp add: reads_def)
  qed
  finally have step: "parse_loop om (st # stack) (join '','' (map (text_kv vs ds) (kv # kvs)) @ CHR ''}'' # r) = resume om ?st1 stack v ?rest"
    unfolding j .
  show ?case
  proof (cases "kvs = []")
    case True
    then show ?thesis
      using step resume_val_last [of ?st1 kvs0 k om stack v r] Cons.prems(7) kv by (cases st) (simp add: conj_ac)
  next
    case False
    let ?st2 = "?st1\<lparr> is_const := const_spec v \<and> is_const ?st1, built := Map_key (kvs0 @ [kv]) \<rparr>"
    obtain d u where du: "join '','' (map (text_kv vs ds) kvs) = d # u" "starts d"
      using join_kv_starts [of kvs vs ds] Cons.prems(2) False by auto
    have "unat (list_len st + n_repeats k) = unat (list_len st) + unat (n_repeats k)"
      using Cons.prems(8) kv by (intro unat_add_no_overflow) (simp add: key_repeats_def)
    then have IH: "parse_loop om (?st2 # stack) (join '','' (map (text_kv vs ds) kvs) @ CHR ''}'' # r) =
      parse_loop om (?st2\<lparr> is_const := list_all const_pair kvs \<and> is_const ?st2, built := Map_done ((kvs0 @ [kv]) @ kvs),
        list_len := list_len ?st2 + (\<Sum>kv\<leftarrow>kvs. n_repeats (key_spec kv)) \<rparr> # stack) (CHR ''}'' # r)"
      using Cons.prems False kv by (intro Cons.IH) (auto simp: key_repeats_def)
    have "resume om ?st1 stack v ?rest = parse_loop om (?st2 # stack) (join '','' (map (text_kv vs ds) kvs) @ CHR ''}'' # r)"
      using resume_val_next [of ?st1 kvs0 k d om stack v "u @ CHR ''}'' # r"] du False kv by simp
    then show ?thesis unfolding step IH using kv by (cases st) (simp add: add.assoc conj_ac)
  qed
qed simp

lemma reads_map:
  assumes "printable (Bin n (K_map len kvs))" and "wf_spec (Bin n (K_map len kvs))"
    and "\<forall>kv \<in> set kvs. reads vs ds (key_spec kv) \<and> reads vs ds (val_spec kv)"
  shows "reads vs ds (Bin n (K_map len kvs))"
  unfolding reads_def
proof (intro allI impI)
  fix om st stack r
  let ?b = "Bin n (K_map len kvs)"
  let ?j = "join '','' (map (text_kv vs ds) kvs)"
  assume p: "place_ok st ?b r"
  have pr: "list_all printable_kv kvs" "\<not> list_all const_pair kvs" "kvs \<noteq> []" "keys_ok kvs" "list_all wf_kv kvs"
    using assms(1,2) by (auto simp: list_all_iff)
  have len: "unat len = (\<Sum>kv\<leftarrow>kvs. unat (n_repeats (key_spec kv)))" using assms(2) by (simp add: key_repeats_def [abs_def])
  obtain c t where ct: "?j = c # t" "starts c" using join_kv_starts [OF pr(1,3)] by blast
  have "parse_mult st (text_spec vs ds ?b @ r) = Parsed (ucast n, text_kind vs ds (K_map len kvs) @ r)"
    using assms p by (intro read_mult) (auto simp: place_ok_def word_neq_0_conv)
  moreover have "parse_type st (ucast n) (text_kind vs ds (K_map len kvs) @ r) = Parsed (Open_map (?j @ CHR ''}'' # r))"
    using p ct skip_space_start [OF ct(2)] by (simp add: parse_type_def place_ok_def)
  ultimately have "parse_loop om (st # stack) (text_spec vs ds ?b @ r) = parse_loop om (map_state n # st # stack) (?j @ CHR ''}'' # r)"
    using not_delimiter [OF assms(1) p, of vs ds] ucast_up_down(1) [of n]
    by (intro loop_next) (simp add: consume_item_def)
  also have "\<dots> = parse_loop om ((map_state n)\<lparr> is_const := list_all const_pair kvs \<and> is_const (map_state n), built := Map_done ([] @ kvs),
      list_len := list_len (map_state n) + (\<Sum>kv\<leftarrow>kvs. n_repeats (key_spec kv)) \<rparr> # st # stack) (CHR ''}'' # r)"
    using p len unat_u32_lt [of len] pr assms(3) by (intro read_map) (auto simp: map_state_def place_ok_def key_repeats_def)
  also have "\<dots> = resume om st stack ?b r"
    using pr(2) len_is_sum [OF len]
      close_resume [of "(map_state n)\<lparr> is_const := False, built := Map_done kvs, list_len := len \<rparr>" n om r "K_map len kvs"]
    by (simp add: map_state_def close_collection_def)
  finally show "parse_loop om (st # stack) (text_spec vs ds ?b @ r) = resume om st stack ?b r" .
qed

lemma printable_reads:
  shows "wf_spec b \<Longrightarrow> printable b \<Longrightarrow> reads vs ds b"
    and "wf_kind k \<Longrightarrow> printable_kind k \<Longrightarrow> 0 < n \<Longrightarrow> unat n < 2 ^ 31 \<Longrightarrow> reads vs ds (Bin n k)"
    and "wf_kv kv \<Longrightarrow> printable_kv kv \<Longrightarrow> reads vs ds (key_spec kv) \<and> reads vs ds (val_spec kv)"
proof (induction b and k and kv arbitrary: and n)
  case (K_list len es)
  then show ?case by (intro reads_list) (auto simp: list_all_iff)
next
  case (K_map len kvs)
  then show ?case by (intro reads_map) (auto simp: list_all_iff)
qed (auto intro!: reads_scalar)

section \<open>Round trip\<close>


definition example_printable :: "bin_spec list" where
  "example_printable =
     [Bin 3 (K_int 1), Bin 1 (C_str ''k''),
      Bin 1 (K_map 3 [Kv (Bin 2 (K_str 4)) (Bin 1 (K_list 2 [Bin 2 K_double])), Kv (Bin 1 (C_int 7)) (Bin 1 K_bool)])]"


end
