(* ===== verification/Workload_Ok.thy ===== *)
theory Workload_Ok
  imports Workload Obj_Roundtrip
begin

text \<open>
  What parsing workloads and stages guarantees: percentages in range, bin selections that fit the object
  specification, and stages that are ready to run.
\<close>

section \<open>Percentages\<close>

definition pct_ok :: "fp \<Rightarrow> bool" where
  "pct_ok p \<longleftrightarrow> p = NaN \<or> (\<exists>x. p = Fin x \<and> 0 \<le> x \<and> x \<le> 100)"

lemma pct_okI: "\<not> fp_less p (Fin 0) \<Longrightarrow> \<not> fp_less (Fin 100) p \<Longrightarrow> pct_ok p"
  by (cases p) (auto simp: pct_ok_def)

lemma parse_workload_distr_ok:
  assumes "parse_workload_distr str pcts = Inr res" and "list_all pct_ok pcts"
  shows "list_all pct_ok res"
  using assms
proof (induction str pcts rule: parse_workload_distr.induct)
  case (1 str pcts)
  obtain val endptr err where s: "strtod str = (val, endptr, err)" by (cases "strtod str")
  let ?p = "fp_to_float (double_fp val)"
  show ?case
  proof (cases "str = []")
    case True
    then show ?thesis using "1.prems" by (simp add: parse_workload_distr.simps)
  next
    case False
    then have ne: "endptr \<noteq> str" and rng: "\<not> (fp_less ?p (Fin 0) \<or> fp_less (Fin 100) ?p)"
      using "1.prems"(1) s by (auto simp: parse_workload_distr.simps [of str] Let_def split: if_splits)
    have p: "list_all pct_ok (pcts @ [?p])" using "1.prems"(2) rng pct_okI [of ?p] by simp
    consider (comma) "peek endptr = CHR '',''" "parse_workload_distr (tl endptr) (pcts @ [?p]) = Inr res"
      | (last) "peek endptr \<noteq> CHR '',''" "endptr = []" "parse_workload_distr endptr (pcts @ [?p]) = Inr res"
      using "1.prems"(1) False ne rng s
      by (cases "peek endptr = CHR '',''"; cases "endptr = []") (auto simp: parse_workload_distr.simps [of str] Let_def)
    then show ?thesis
      by cases (use "1.IH"(1) "1.IH"(2) False s ne rng p in \<open>simp_all\<close>)
  qed
qed

lemma list_all_nth: "list_all P xs \<Longrightarrow> i < length xs \<Longrightarrow> P (xs ! i)"
  by (simp add: list_all_length)

lemma opt_pct_ok: "list_all pct_ok pcts \<Longrightarrow> opt_pct pcts i = WORKLOAD_UNSET_PCT \<or> pct_ok (opt_pct pcts i)"
  by (simp add: opt_pct_def list_all_nth)

lemma pct_ok_const: "pct_ok (Fin 40)" "pct_ok (Fin 50)"
  by (simp_all add: pct_ok_def)

text \<open>What a parsed workload satisfies.\<close>

definition workload_ok :: "workload \<Rightarrow> bool" where
  "workload_ok w \<longleftrightarrow>
     (write_all_pct w = WORKLOAD_UNSET_PCT \<or> pct_ok (write_all_pct w)) \<and>
     (wtype w \<notin> {WORKLOAD_TYPE_I, WORKLOAD_TYPE_D} \<longrightarrow>
        pct_ok (read_pct w) \<and> (read_all_pct w = WORKLOAD_UNSET_PCT \<or> pct_ok (read_all_pct w))) \<and>
     (wtype w \<in> {WORKLOAD_TYPE_RUF, WORKLOAD_TYPE_RUD} \<longrightarrow>
        pct_ok (write_pct w) \<and> \<not> fp_ge (f_add (read_pct w) (write_pct w)) (Fin 100))"

lemma forty_forty: "\<not> fp_ge (f_add (Fin 40) (Fin 40)) (Fin 100)"
proof -
  have "is_float (of_nat 80 * 2 ^ 149 / 2 ^ 149)" by (rule is_float_intro) simp_all
  then have "to_float 80 = Fin 80" by (intro to_float_exact) simp
  then show ?thesis by (simp add: fp_ge_def)
qed

lemma parse_three_way_ok:
  assumes "parse_three_way ty w str = Inr w'" and "ty \<in> {WORKLOAD_TYPE_RUF, WORKLOAD_TYPE_RUD}"
  shows "workload_ok w'"
proof -
  consider (default) "w' = w\<lparr> wtype := ty, read_pct := Fin 40, write_pct := Fin 40, read_all_pct := WORKLOAD_UNSET_PCT,
                write_all_pct := WORKLOAD_UNSET_PCT \<rparr>"
    | (given) pcts where "parse_workload_distr (drop 4 str) [] = Inr pcts" "2 \<le> length pcts"
        "\<not> fp_ge (f_add (pcts ! 0) (pcts ! 1)) (Fin 100)"
        "w' = w\<lparr> wtype := ty, read_pct := pcts ! 0, write_pct := pcts ! 1, read_all_pct := opt_pct pcts 2, write_all_pct := opt_pct pcts 3 \<rparr>"
    using assms(1) by (auto simp: parse_three_way_def split: if_splits sum.splits)
  then show ?thesis
  proof cases
    case default
    then show ?thesis using forty_forty pct_ok_const by (simp add: workload_ok_def)
  next
    case given
    have all: "list_all pct_ok pcts" using parse_workload_distr_ok [OF given(1)] by simp
    have "0 < length pcts" "1 < length pcts" using given(2) by linarith+
    then show ?thesis
      using given(3,4) opt_pct_ok [OF all, of 2] opt_pct_ok [OF all, of 3] list_all_nth [OF all] by (simp add: workload_ok_def)
  qed
qed

lemma parse_two_way_ok:
  assumes "parse_two_way w str = Inr w'"
  shows "workload_ok w' \<and> wtype w' \<in> {WORKLOAD_TYPE_RU, WORKLOAD_TYPE_RR}"
proof -
  define ty where "ty = (if char_at str 1 = CHR ''U'' then WORKLOAD_TYPE_RU else WORKLOAD_TYPE_RR)"
  then have ty: "ty \<in> {WORKLOAD_TYPE_RU, WORKLOAD_TYPE_RR}" by simp
  consider (default) "w' = w\<lparr> wtype := ty, read_pct := Fin 50, read_all_pct := WORKLOAD_UNSET_PCT, write_all_pct := WORKLOAD_UNSET_PCT \<rparr>"
    | (given) pcts where "parse_workload_distr (drop 3 str) [] = Inr pcts" "0 < length pcts"
        "w' = w\<lparr> wtype := ty, read_pct := pcts ! 0, read_all_pct := opt_pct pcts 1, write_all_pct := opt_pct pcts 2 \<rparr>"
    using assms unfolding parse_two_way_def ty_def [symmetric] by (auto simp: Let_def split: if_splits sum.splits)
  then show ?thesis
  proof cases
    case default
    then show ?thesis using ty pct_ok_const by (auto simp: workload_ok_def)
  next
    case given
    have all: "list_all pct_ok pcts" using parse_workload_distr_ok [OF given(1)] by simp
    show ?thesis
      using ty given(2,3) opt_pct_ok [OF all, of 1] opt_pct_ok [OF all, of 2] list_all_nth [OF all] by (auto simp: workload_ok_def)
  qed
qed

lemma parse_workload_ok:
  assumes "parse_workload_type w str = Inr w'"
  shows "workload_ok w'"
  using assms parse_three_way_ok parse_two_way_ok
  by (auto simp: parse_workload_type_def workload_ok_def split: if_splits)

section \<open>Bin selections\<close>

text \<open>Everything that is accepted is ascending and within the bins.\<close>

lemma parse_bins_ok:
  assumes "parse_bins_loop n str prev idxs = Inr res"
    and "sorted_wrt (<) idxs" and "\<forall>i \<in> set idxs. i < prev" and "prev \<le> ucast n"
  shows "sorted_wrt (<) res \<and> (\<forall>i \<in> set res. i < ucast n)"
  using assms
proof (induction n str prev idxs rule: parse_bins_loop.induct)
  case (1 n str prev idxs)
  obtain num endptr err where s: "strtoul str 10 = (num, endptr, err)" by (cases "strtoul str 10")
  show ?case
  proof (cases "str = []")
    case True
    then show ?thesis using "1.prems" by (auto simp: parse_bins_loop.simps)
  next
    case False
    let ?r = "if peek endptr = CHR '','' then tl endptr else endptr"
    have c: "\<not> (endptr \<noteq> [] \<and> peek endptr \<noteq> CHR '','' \<or> endptr = str)" "num \<noteq> 0" "\<not> num > ucast n" "\<not> num \<le> prev"
      "parse_bins_loop n ?r num (idxs @ [num - 1]) = Inr res"
      using "1.prems"(1) s False by (auto simp: parse_bins_loop.simps [of n str] Let_def split: if_splits)
    have u: "unat (num - 1) = unat num - 1" "0 < unat num" using c(2) by (simp_all add: unat_minus_one unat_gt_0)
    have lt: "num - 1 < num" using u by (simp add: word_less_nat_alt)
    have ge: "prev \<le> num - 1" using c(4) u by (auto simp: word_le_nat_alt)
    have "sorted_wrt (<) (idxs @ [num - 1])" using "1.prems"(2,3) ge by (auto simp: sorted_wrt_append)
    moreover have "\<forall>i \<in> set (idxs @ [num - 1]). i < num" using "1.prems"(3) c(4) lt by auto
    ultimately show ?thesis using "1.IH" [OF False s [symmetric] _ refl] c by (simp add: not_less)
  qed
qed

text \<open>Every ascending list of bins can be written as a list of numbers.\<close>

lemma parse_bins_complete:
  assumes "sorted_wrt (<) (prev # nums)" and "\<forall>x \<in> set nums. x \<le> ucast n"
  shows "parse_bins_loop n (join '','' (map (\<lambda>x. dec_string (unat x)) nums)) prev idxs = Inr (idxs @ map (\<lambda>x. x - 1) nums)"
  using assms
proof (induction nums arbitrary: prev idxs)
  case Nil
  then show ?case by (simp add: parse_bins_loop.simps)
next
  case (Cons x nums)
  let ?t = "join '','' (map (\<lambda>x. dec_string (unat x)) nums)"
  let ?r = "if nums = [] then [] else CHR '','' # ?t"
  have j: "join '','' (map (\<lambda>x. dec_string (unat x)) (x # nums)) = dec_string (unat x) @ ?r" by (cases nums) auto
  have "strtoul (dec_string (unat x) @ ?r) 10 = (of_nat (unat x), ?r, False)"
    using unat_u64_lt [of x] by (intro strtoul_dec_string) (auto simp: isdigit_def)
  then have st: "strtoul (dec_string (unat x) @ ?r) 10 = (x, ?r, False)" by simp
  have "prev < x" using Cons.prems(1) by simp
  then have x: "x \<noteq> 0" "\<not> x > ucast n" "\<not> x \<le> prev" using Cons.prems(2) by (auto simp: not_less)
  have ne: "?r \<noteq> dec_string (unat x) @ ?r" by simp
  have "parse_bins_loop n (dec_string (unat x) @ ?r) prev idxs = parse_bins_loop n ?t x (idxs @ [x - 1])"
    using st x ne by (subst parse_bins_loop.simps) (auto simp: Let_def)
  then show ?case unfolding j using Cons.IH [of x "idxs @ [x - 1]"] Cons.prems by simp
qed

lemma unat_ucast_up: "unat (ucast (x :: u32) :: u64) = unat x"
  using unat_u32_lt [of x] by (simp add: unsigned_ucast_eq take_bit_nat_eq_self)

lemma ucast_less: "(x :: u64) < ucast (n :: u32) \<Longrightarrow> unat (ucast x :: u32) = unat x \<and> (ucast x :: u32) < n"
proof -
  assume "x < ucast n"
  then have lt: "unat x < unat n" by (simp add: word_less_nat_alt unat_ucast_up)
  then have "unat (ucast x :: u32) = unat x" using unat_u32_lt [of n] by (simp add: unsigned_ucast_eq unsigned_take_bit_eq take_bit_eq_mod)
  then show ?thesis using lt by (simp add: word_less_nat_alt)
qed

lemma write_bins_sound:
  assumes "parse_write_bins str o1 = Inr idxs"
  shows "sorted_wrt (<) idxs \<and> (\<forall>i \<in> set idxs. i < n_bin_specs o1)"
proof -
  obtain res where r: "parse_bins_loop (n_bin_specs o1) str 0 [] = Inr res" "idxs = map ucast res"
    using assms by (auto simp: parse_write_bins_def obj_spec_n_bins_def map_sum_def split: sum.splits)
  have ok: "sorted_wrt (<) res" "\<forall>i \<in> set res. i < ucast (n_bin_specs o1)" using parse_bins_ok [OF r(1)] by auto
  have "(ucast x :: u32) < ucast y" if "x \<in> set res" "y \<in> set res" "x < y" for x y
    using that ok(2) ucast_less [of x "n_bin_specs o1"] ucast_less [of y "n_bin_specs o1"] by (simp add: word_less_nat_alt)
  then have "sorted_wrt (<) (map ucast res :: u32 list)"
    unfolding sorted_wrt_map by (rule sorted_wrt_mono_rel [OF _ ok(1)])
  then show ?thesis using r(2) ok(2) ucast_less by auto
qed

lemma ucast_u64_le: "(x :: u32) < n \<Longrightarrow> (ucast x + 1 :: u64) \<le> ucast n \<and> unat (ucast x + 1 :: u64) = unat x + 1"
proof -
  assume "x < n"
  then have lt: "unat x < unat n" by (simp add: word_less_nat_alt)
  have "unat (ucast x + 1 :: u64) = unat x + 1"
    using unat_u32_lt [of x] by (subst unat_add_no_overflow) (simp_all add: unat_ucast_up)
  then show ?thesis using lt by (simp add: word_le_nat_alt unat_ucast_up)
qed

lemma write_bins_complete:
  assumes "sorted_wrt (<) idxs" and "\<forall>i \<in> set idxs. i < n_bin_specs o1"
  shows "parse_write_bins (join '','' (map (\<lambda>i. dec_string (unat i + 1)) idxs)) o1 = Inr idxs"
proof -
  let ?nums = "map (\<lambda>i. ucast i + 1 :: u64) idxs"
  have s: "sorted_wrt (<) (0 # ?nums)"
  proof -
    have "(ucast i + 1 :: u64) < ucast j + 1" if "i \<in> set idxs" "j \<in> set idxs" "i < j" for i j
      using that ucast_u64_le [of i "n_bin_specs o1"] ucast_u64_le [of j "n_bin_specs o1"] assms(2)
      by (simp add: word_less_nat_alt)
    moreover have "(0 :: u64) < ucast i + 1" if "i \<in> set idxs" for i
      using that ucast_u64_le [of i "n_bin_specs o1"] assms(2) by (simp add: word_less_nat_alt)
    ultimately show ?thesis using assms(1) by (auto simp: sorted_wrt_map intro: sorted_wrt_mono_rel [OF _ assms(1)])
  qed
  have m: "map (\<lambda>i. dec_string (unat i + 1)) idxs = map (\<lambda>x. dec_string (unat x)) ?nums"
    using ucast_u64_le assms(2) by (auto intro!: map_cong)
  have "parse_bins_loop (n_bin_specs o1) (join '','' (map (\<lambda>x. dec_string (unat x)) ?nums)) 0 [] = Inr (map ucast idxs)"
    using parse_bins_complete [OF s, of "n_bin_specs o1" "[]"] ucast_u64_le assms(2) by (simp add: comp_def)
  then show ?thesis unfolding parse_write_bins_def obj_spec_n_bins_def m by (simp add: comp_def ucast_up_down(1))
qed

section \<open>Stages\<close>

definition obj_wf :: "obj_spec \<Rightarrow> bool" where
  "obj_wf o1 \<longleftrightarrow> list_all wf_spec (bin_specs o1) \<and> unat (n_bin_specs o1) = (\<Sum>b\<leftarrow>bin_specs o1. unat (n_repeats b))"

definition stage_pcts_ok :: "workload \<Rightarrow> bool" where
  "stage_pcts_ok w \<longleftrightarrow>
     (workload_contains_reads w \<longrightarrow> pct_ok (read_pct w) \<and> pct_ok (read_all_pct w)) \<and>
     (workload_contains_writes w \<longrightarrow> pct_ok (write_all_pct w)) \<and>
     (wtype w \<in> {WORKLOAD_TYPE_RUF, WORKLOAD_TYPE_RUD} \<longrightarrow> \<not> fp_ge (f_add (read_pct w) (write_pct w)) (Fin 100))"

definition stage_write_ok :: "stage \<Rightarrow> bool" where
  "stage_write_ok st =
     (case write_bins st of
        Wild \<Rightarrow> False
      | Null_bins \<Rightarrow> workload_contains_writes (stage_workload st) \<longrightarrow> \<not> fp_less (write_all_pct (stage_workload st)) (Fin 100)
      | Bins idxs \<Rightarrow> workload_contains_writes (stage_workload st) \<and> sorted_wrt (<) idxs \<and> (\<forall>i \<in> set idxs. i < n_bin_specs (stage_obj st)))"

definition stage_free_ok :: "stage \<Rightarrow> bool" where
  "stage_free_ok st \<longleftrightarrow>
     read_bins st \<noteq> Wild \<and> write_bins st \<noteq> Wild \<and>
     (workload_contains_udfs (stage_workload st) \<longrightarrow> udf_args st \<noteq> None)"

definition stage_ok :: "stage \<Rightarrow> bool" where
  "stage_ok st \<longleftrightarrow>
     key_start st < key_end st \<and>
     1 \<le> batch_size st \<and> 1 \<le> batch_read_size st \<and> 1 \<le> batch_write_size st \<and> 1 \<le> batch_delete_size st \<and>
     stage_pcts_ok (stage_workload st) \<and> obj_wf (stage_obj st) \<and> stage_write_ok st \<and> stage_free_ok st \<and>
     (workload_contains_udfs (stage_workload st) \<longrightarrow> (\<exists>o1. udf_args st = Some o1 \<and> obj_wf o1))"

lemma obj_spec_parse_ok:
  assumes "om_ok om" and "obj_spec_parse om base s = (Parsed o1, o2)"
  shows "obj_wf o1 \<and> o2 = o1"
  using parse_loop_ok [OF assms(1) begin_state_ok, of "cstr s"] assms(2)
  by (auto simp: obj_spec_parse_def parse_bin_types_def Let_def obj_wf_def split: parse.splits)

lemma set_keys_ok:
  "set_keys env sd st ok = (st', True) \<Longrightarrow> ok \<and> key_start st' < key_end st'"
  by (auto simp: set_keys_def Let_def not_le)

lemma one_le_u32: "(1 :: u32) \<le> n \<longleftrightarrow> n \<noteq> 0"
  by (metis word_gt_0 word_le_nat_alt word_less_nat_alt unat_0 unat_1 Suc_le_eq One_nat_def)

lemma set_batches_ok:
  assumes "set_batches i sd (st, ok) = (st', True)"
  shows "ok \<and> key_start st' = key_start st \<and> key_end st' = key_end st \<and>
    1 \<le> batch_size st' \<and> 1 \<le> batch_read_size st' \<and> 1 \<le> batch_write_size st' \<and> 1 \<le> batch_delete_size st'"
proof -
  have m: "(1 :: u32) \<le> max (sd_batch_size sd) 1" by (rule max.cobounded2)
  then have "(1 :: u32) \<le> (if n \<noteq> 0 then n else max (sd_batch_size sd) 1)" for n
    using one_le_u32 [of n] by (cases "n = 0") simp_all
  note p = this
  from m p [of "sd_batch_read_size sd"] p [of "sd_batch_write_size sd"] p [of "sd_batch_delete_size sd"]
  show ?thesis using assms unfolding set_batches_def Let_def by (auto simp del: max.cobounded2)
qed

lemma unset_not_eq: "pct_ok p \<Longrightarrow> \<not> fp_eq p WORKLOAD_UNSET_PCT" "fp_eq WORKLOAD_UNSET_PCT WORKLOAD_UNSET_PCT"
  by (auto simp: pct_ok_def WORKLOAD_UNSET_PCT_def)

lemma default_all_pct_ok: "pct_ok (default_all_pct s)"
  by (simp add: default_all_pct_def pct_ok_def)

lemma contains_all_pct [simp]:
  "workload_contains_reads (w\<lparr> read_all_pct := p \<rparr>) = workload_contains_reads w"
  "workload_contains_writes (w\<lparr> read_all_pct := p \<rparr>) = workload_contains_writes w"
  "workload_contains_reads (w\<lparr> write_all_pct := p \<rparr>) = workload_contains_reads w"
  "workload_contains_writes (w\<lparr> write_all_pct := p \<rparr>) = workload_contains_writes w"
  by (simp_all add: workload_contains_reads_def workload_contains_writes_def)

lemma set_workload_ok:
  assumes "set_workload sd (st, ok) = (st', True)"
  shows "ok \<and> stage_pcts_ok (stage_workload st') \<and> (\<exists>w d. st' = st\<lparr> stage_workload := w, duration := d \<rparr>)"
proof (cases "parse_workload_type (stage_workload st) (sd_workload_str sd)")
  case (Inl e)
  then show ?thesis using assms by (simp add: set_workload_def Let_def)
next
  case (Inr w)
  define w1 where "w1 = (if workload_contains_reads w \<and> fp_eq (read_all_pct w) WORKLOAD_UNSET_PCT
               then w\<lparr> read_all_pct := default_all_pct (sd_read_bins_str sd) \<rparr> else w)"
  define w2 where "w2 = (if workload_contains_writes w1 \<and> fp_eq (write_all_pct w1) WORKLOAD_UNSET_PCT
               then w1\<lparr> write_all_pct := default_all_pct (sd_write_bins_str sd) \<rparr> else w1)"
  have "workload_ok w" using Inr by (rule parse_workload_ok)
  then have "stage_pcts_ok w2"
    using unset_not_eq default_all_pct_ok
    by (auto simp: workload_ok_def stage_pcts_ok_def w1_def w2_def workload_contains_reads_def)
  moreover obtain d where "set_workload sd (st, ok) =
      (st\<lparr> stage_workload := w2, duration := d \<rparr>, ok \<and> \<not> (wtype w = WORKLOAD_TYPE_D \<and> random st))"
    by (simp only: set_workload_def w2_def w1_def Let_def prod.case Inr sum.case)
  ultimately have "st' = st\<lparr> stage_workload := w2, duration := d \<rparr>" "ok" "stage_pcts_ok w2" using assms by auto
  then show ?thesis by auto
qed

lemma set_obj_spec_ok:
  assumes "om_ok om" and "set_obj_spec om sd prev (st, ok) = (st', True, prev')" and "obj_wf prev"
  shows "ok \<and> obj_wf prev' \<and> obj_wf (stage_obj st') \<and> (\<exists>o1. st' = st\<lparr> stage_obj := o1 \<rparr>)"
proof (cases "sd_obj_spec_str sd")
  case None
  then show ?thesis using assms by (auto simp: set_obj_spec_def obj_spec_shallow_copy_def obj_wf_def)
next
  case (Some s)
  obtain r o2 where "obj_spec_parse om (stage_obj st) s = (r, o2)" by fastforce
  then show ?thesis
    using assms Some obj_spec_parse_ok [OF assms(1), of "stage_obj st" s]
    by (cases r) (auto simp: set_obj_spec_def split: if_splits)
qed

lemma set_read_bins_ok:
  assumes "set_read_bins env sd (st, ok) = (st', True)"
  shows "ok \<and> read_bins st' \<noteq> Wild \<and> (\<exists>p. st' = st\<lparr> read_bins := p \<rparr>)"
  using assms by (auto simp: set_read_bins_def Let_def split: option.splits if_splits sum.splits)

lemma set_write_bins_ok:
  assumes "set_write_bins sd (st, ok) = (st', True)"
  shows "ok \<and> stage_write_ok st' \<and> (\<exists>p. st' = st\<lparr> write_bins := p \<rparr>)"
  using assms write_bins_sound
  by (auto simp: set_write_bins_def Let_def stage_write_ok_def bins_choice_def split: option.splits if_splits sum.splits)

lemma set_udf_ok:
  assumes "om_ok om" and "set_udf om env sd (st, ok) = (st', True)"
  shows "ok \<and> (workload_contains_udfs (stage_workload st') \<longrightarrow> (\<exists>o1. udf_args st' = Some o1 \<and> obj_wf o1)) \<and>
    (\<exists>a b c. st' = st\<lparr> udf_package_name := a, udf_fn_name := b, udf_args := c \<rparr>)"
proof (cases "workload_contains_udfs (stage_workload st)")
  case True
  then obtain fname pname where n: "sd_udf_fn_name sd = Some fname" "sd_udf_package_name sd = Some pname" "ok"
    using assms(2) by (auto simp: set_udf_def split: option.splits if_splits)
  obtain r o2 where r: "obj_spec_parse om empty_obj (case sd_udf_fn_args sd of None \<Rightarrow> [] | Some s \<Rightarrow> s) = (r, o2)" by fastforce
  then obtain o1 where o1: "r = Parsed o1" using assms(2) True n by (cases r) (auto simp: set_udf_def)
  then have "obj_wf o2" using obj_spec_parse_ok [OF assms(1) r [unfolded o1]] by simp
  moreover have "st' = st\<lparr> udf_package_name := take (module_name_size env) pname,
      udf_fn_name := take (function_name_size env) fname, udf_args := Some o2 \<rparr>"
    using assms(2) True n r by (simp add: set_udf_def)
  ultimately show ?thesis using n(3) by auto
next
  case False
  then have "st' = st" "ok" using assms(2) by (auto simp: set_udf_def)
  moreover have "st = st\<lparr> udf_package_name := udf_package_name st, udf_fn_name := udf_fn_name st, udf_args := udf_args st \<rparr>" by simp
  ultimately show ?thesis using False by blast
qed

text \<open>One stage, and all of them.\<close>

lemma set_stage_ok:
  assumes "om_ok om" and "obj_wf prev" and "set_stage om env i sd st ok prev = (st', True, prev')"
  shows "ok \<and> obj_wf prev' \<and> stage_ok st'"
proof -
  obtain st1 ok1 where 1: "set_keys env sd st ok = (st1, ok1)" by fastforce
  obtain st2 ok2 where 2: "set_batches i sd (st1, ok1) = (st2, ok2)" by fastforce
  obtain st3 ok3 where 3: "set_workload sd (st2, ok2) = (st3, ok3)" by fastforce
  obtain st4 ok4 prev4 where 4: "set_obj_spec om sd prev (st3, ok3) = (st4, ok4, prev4)" by (metis prod_cases3)
  obtain st5 ok5 where 5: "set_read_bins env sd (st4, ok4) = (st5, ok5)" by fastforce
  obtain st6 ok6 where 6: "set_write_bins sd (st5, ok5) = (st6, ok6)" by fastforce
  have 7: "set_udf om env sd (st6, ok6) = (st', True)" and p: "prev' = prev4"
    using assms(3) by (auto simp: set_stage_def 1 2 3 4 5 6 split: prod.splits)
  note u = set_udf_ok [OF assms(1) 7]
  then have k6: ok6 by blast
  note w = set_write_bins_ok [OF 6 [unfolded eqTrueI [OF k6]]]
  then have k5: ok5 by blast
  note r = set_read_bins_ok [OF 5 [unfolded eqTrueI [OF k5]]]
  then have k4: ok4 by blast
  note ob = set_obj_spec_ok [OF assms(1) 4 [unfolded eqTrueI [OF k4]] assms(2)]
  then have k3: ok3 by blast
  note wl = set_workload_ok [OF 3 [unfolded eqTrueI [OF k3]]]
  then have k2: ok2 by blast
  note ba = set_batches_ok [OF 2 [unfolded eqTrueI [OF k2]]]
  then have k1: ok1 by blast
  note ke = set_keys_ok [OF 1 [unfolded eqTrueI [OF k1]]]
  have "stage_ok st'"
    using u w r ob wl ba ke by (auto simp: stage_ok_def stage_free_ok_def stage_write_ok_def split: bins_ptr.splits)
  then show ?thesis using ke ob p by blast
qed

lemma set_stage_prev:
  assumes "om_ok om" and "obj_wf prev"
  shows "obj_wf (snd (snd (set_stage om env i sd st ok prev)))"
proof -
  have "obj_wf (snd (snd (set_obj_spec om sd prev p)))" for p
  proof (cases "set_obj_spec om sd prev p")
    case (fields st' ok' prev')
    show ?thesis
    proof (cases ok')
      case True
      then show ?thesis using set_obj_spec_ok [OF assms(1) _ assms(2), of sd "fst p" "snd p" st' prev'] fields by simp
    next
      case False
      then show ?thesis using fields assms(2) by (auto simp: set_obj_spec_def split: prod.splits option.splits if_splits parse.splits)
    qed
  qed
  then show ?thesis by (simp add: set_stage_def split_beta)
qed

lemma set_stages_ok:
  assumes "om_ok om" and "obj_wf prev" and "set_stages om env i ps ok prev = (sts, True)"
  shows "ok \<and> list_all stage_ok sts \<and> length sts = length ps"
  using assms(2,3)
proof (induction ps arbitrary: i ok prev sts)
  case Nil
  then show ?case by simp
next
  case (Cons p ps)
  obtain sd st where p: "p = (sd, st)" by fastforce
  obtain st1 ok1 prev1 where 1: "set_stage om env i sd st ok prev = (st1, ok1, prev1)" by (metis prod_cases3)
  obtain sts2 where 2: "set_stages om env (Suc i) ps ok1 prev1 = (sts2, True)" and sts: "sts = st1 # sts2"
    using Cons.prems(2) by (auto simp: p 1 split: prod.splits)
  have "obj_wf prev1" using set_stage_prev [OF assms(1) Cons.prems(1), of env i sd st ok] 1 by simp
  then have ih: "ok1" "list_all stage_ok sts2" "length sts2 = length ps" using Cons.IH [OF _ 2] by blast+
  then show ?case using set_stage_ok [OF assms(1) Cons.prems(1)] 1 sts by simp metis
qed

text \<open>Stages that are ready can be released.\<close>

lemma free_obj_Some: "obj_wf o1 \<Longrightarrow> \<exists>bs. free_obj o1 = Some bs"
  using free_specs_safe [of "bin_specs o1" "n_bin_specs o1"] by (auto simp: obj_wf_def free_obj_def obj_spec_free_def)

lemma free_bins_Some: "p \<noteq> Wild \<Longrightarrow> \<exists>bs. free_bins f p = Some bs"
  by (cases p) simp_all

lemma free_stage_Some:
  assumes "stage_ok st"
  shows "\<exists>bs. free_stage st = Some bs"
proof -
  obtain b1 where "free_obj (stage_obj st) = Some b1" using assms free_obj_Some by (auto simp: stage_ok_def)
  moreover obtain b2 where "free_bins (\<lambda>names. map Text_block names @ [Read_array names]) (read_bins st) = Some b2"
    using assms free_bins_Some by (auto simp: stage_ok_def stage_free_ok_def)
  moreover obtain b3 where "free_bins (\<lambda>idxs. [Write_array idxs]) (write_bins st) = Some b3"
    using assms free_bins_Some by (auto simp: stage_ok_def stage_free_ok_def)
  moreover obtain b4 where "(if workload_contains_udfs (stage_workload st) then Option.bind (udf_args st) free_obj else Some []) = Some b4"
    using assms free_obj_Some by (cases "workload_contains_udfs (stage_workload st)") (fastforce simp: stage_ok_def)+
  ultimately show ?thesis by (simp add: free_stage_def)
qed

text \<open>What each part of setting a stage leaves alone, and that an error stays an error.\<close>

lemma read_bins_kept:
  "read_bins (fst (set_keys env sd st ok)) = read_bins st"
  "read_bins (fst (set_batches i sd p)) = read_bins (fst p)"
  "read_bins (fst (set_workload sd p)) = read_bins (fst p)"
  "read_bins (fst (set_write_bins sd p)) = read_bins (fst p)"
  "read_bins (fst (set_udf om env sd p)) = read_bins (fst p)"
  by (simp_all add: set_keys_def set_batches_def set_workload_def set_write_bins_def set_udf_def Let_def
      split: prod.splits option.splits sum.splits)

lemma set_obj_spec_frame:
  "read_bins (fst (set_obj_spec om sd prev p)) = read_bins (fst p)"
  "stage_workload (fst (set_obj_spec om sd prev p)) = stage_workload (fst p)"
  by (simp_all add: set_obj_spec_def Let_def split: prod.splits option.splits parse.splits)

lemma set_workload_I:
  assumes "sd_workload_str sd = ''I''"
  shows "\<not> workload_contains_reads (stage_workload (fst (set_workload sd p)))"
proof -
  have r: "\<not> workload_contains_reads w" if "wtype w = WORKLOAD_TYPE_I" for w
    using that by (simp add: workload_contains_reads_def)
  show ?thesis
    by (rule r) (simp add: set_workload_def parse_workload_type_def assms Let_def r split: prod.splits)
qed

lemma set_write_bins_err: "snd (set_write_bins sd (st, False)) = False"
  by (simp add: set_write_bins_def Let_def split: option.splits sum.splits)

lemma set_udf_err: "\<not> snd p \<Longrightarrow> \<not> snd (set_udf om env sd p)"
  by (cases p) (simp add: set_udf_def split: option.splits)

text \<open>Stages that were accepted are ready and can be released.\<close>

lemma accepted_stages:
  assumes "om_ok om" and "obj_wf global_obj" and "length mem = length defs"
    and "stages_set_defaults_and_parse om env global_obj mem defs = Some (ss, True)"
  shows "list_all stage_ok (stage_list ss) \<and> length (stage_list ss) = length defs \<and> stages_valid ss"
proof -
  obtain sts ok where s: "set_stages om env 0 (zip defs mem) True global_obj = (sts, ok)" by fastforce
  then have "ok" "ss = \<lparr> stage_list = sts, stages_valid = True \<rparr>"
    using assms(4) by (auto simp: stages_set_defaults_and_parse_def Let_def split: if_splits)
  then show ?thesis using set_stages_ok [OF assms(1,2)] s assms(3) by simp
qed

lemma accepted_released:
  assumes "om_ok om" and "obj_wf global_obj" and "length mem = length defs"
    and "stages_set_defaults_and_parse om env global_obj mem defs = Some (ss, True)"
  shows "\<exists>bs. free_workload_config ss = Some bs"
proof -
  obtain sts ok where s: "set_stages om env 0 (zip defs mem) True global_obj = (sts, ok)" by fastforce
  then have "ok" and ss: "ss = \<lparr> stage_list = sts, stages_valid = True \<rparr>"
    using assms(4) by (auto simp: stages_set_defaults_and_parse_def Let_def split: if_splits)
  then have "list_all stage_ok sts" using set_stages_ok [OF assms(1,2)] s by simp
  then have "list_all (\<lambda>st. \<exists>bs. free_stage st = Some bs) sts" by (simp add: list_all_iff free_stage_Some)
  then show ?thesis using those_Some ss by (fastforce simp: free_workload_config_def)
qed

section \<open>Properties\<close>


text \<open>
  C20. Stages that were accepted can be released: nothing uninitialised is freed and no array is read
  past its end.  Specifications that are inherited are released once, by the stage that parsed them.
\<close>

theorem stages_released:
  assumes "om_ok om" and "obj_wf global_obj" and "length mem = length defs"
    and "stages_set_defaults_and_parse om env global_obj mem defs = Some (ss, True)"
  shows "\<exists>bs. free_workload_config ss = Some bs"
  by (rule accepted_released [OF assms])

text \<open>
  C14. The selections of bins that can be written down are exactly the ascending sequences of indices
  that are below the number of bins.
\<close>

theorem write_bins_iff:
  "(\<exists>str. parse_write_bins str o1 = Inr idxs) \<longleftrightarrow> sorted_wrt (<) idxs \<and> list_all (\<lambda>i. i < n_bin_specs o1) idxs"
  using write_bins_sound write_bins_complete unfolding list_all_iff by blast

text \<open>
  A random key is found, and lies between the first key of the stage and the last, without
  wrapping around.
\<close>

theorem random_key_in_range:
  assumes "rng_ok rng" and "key_start st < key_end st"
  shows "\<exists>k r'. stage_gen_random_key rng st r = Some (k, r') \<and> key_start st \<le> k \<and> k < key_end st"
proof -
  let ?n = "key_end st - key_start st"
  have n: "unat ?n = unat (key_end st) - unat (key_start st)" "?n \<noteq> 0"
    using assms(2) by (auto simp: unat_sub less_imp_le)
  obtain x r' where x: "gen_rand_range_64 (next_uint64 rng) r ?n = Some (x, r')" "x < ?n"
    using draw_range_ok [OF assms(1) n(2), of r] by (auto simp: draw_range_def split: option.splits prod.splits)
  then have lt: "unat x + unat (key_start st) < unat (key_end st)"
    using n(1) assms(2) by (simp add: word_less_nat_alt)
  then have "unat (x + key_start st) = unat x + unat (key_start st)"
    using unat_u64_lt [of "key_end st"] by (intro unat_add_no_overflow) simp
  then have "key_start st \<le> x + key_start st \<and> x + key_start st < key_end st"
    using lt by (simp add: word_less_nat_alt word_le_nat_alt)
  moreover have "stage_gen_random_key rng st r = Some (x + key_start st, r')" by (simp only: stage_gen_random_key_def x(1)) simp
  ultimately show ?thesis by blast
qed

text \<open>
  A percentage that is not a number is accepted, although percentages must be between 0 and 100:
  both comparisons of the range check are false for it.
\<close>

theorem nan_percentage_accepted:
  "parse_workload_type w ''RU,nan'' =
     Inr (w\<lparr> wtype := WORKLOAD_TYPE_RU, read_pct := NaN, read_all_pct := WORKLOAD_UNSET_PCT, write_all_pct := WORKLOAD_UNSET_PCT \<rparr>)"
proof -
  have "strtod ''nan'' = (double_word False double_nan, [], False)"
    by (simp add: strtod_def strncaseeq_def tolower_def char_defs)
  moreover have "double_fp (double_word False double_nan) = NaN"
    by (simp add: double_fp_def double_word_def double_nan_def double_inf_def Let_def)
  ultimately have "parse_workload_distr ''nan'' [] = Inr [NaN]"
    by (simp add: parse_workload_distr.simps)
  then show ?thesis by (simp add: parse_workload_type_def strneq_def parse_two_way_def opt_pct_def char_at_def)
qed

text \<open>
  A stage that selects bins to read with a workload that does not read is an error; when the memory
  of the stage was not initialised, the error path frees the uninitialised pointer to the bins.
\<close>

theorem read_bins_freed_uninitialised:
  assumes "sd_workload_str sd = ''I''" and "sd_read_bins_str sd = Some s" and "read_bins st = Wild"
  shows "stages_set_defaults_and_parse om env global_obj [st] [sd] = None"
proof -
  let ?p = "set_workload sd (set_batches 0 sd (set_keys env sd st True))"
  obtain st1 ok1 prev1 where 1: "set_obj_spec om sd global_obj ?p = (st1, ok1, prev1)" by (metis prod_cases3)
  have "\<not> workload_contains_reads (stage_workload (fst ?p))" "read_bins (fst ?p) = Wild"
    using set_workload_I [OF assms(1)] assms(3) by (simp_all add: read_bins_kept)
  then have "set_read_bins env sd (st1, ok1) = (st1, False)" "read_bins st1 = Wild"
    using set_obj_spec_frame [of om sd global_obj ?p] 1 assms(2) by (simp_all add: set_read_bins_def bins_choice_def)
  moreover have "read_bins (fst (set_udf om env sd (set_write_bins sd (st1, False)))) = Wild"
    "\<not> snd (set_udf om env sd (set_write_bins sd (st1, False)))"
    using calculation(2) set_write_bins_err [of sd st1] by (simp_all add: read_bins_kept set_udf_err)
  ultimately show ?thesis
    by (auto simp: stages_set_defaults_and_parse_def set_stage_def 1 free_workload_config_def free_stage_def Let_def
        split: prod.splits option.splits)
qed

section \<open>Witnesses\<close>

definition example_def :: stage_def where
  "example_def = \<lparr> sd_duration = - 1, sd_desc = None, sd_tps = 0, sd_ttl = 0, sd_key_start = - 1, sd_key_end = - 1, sd_pause = 0,
     sd_batch_size = 0, sd_batch_read_size = 0, sd_batch_write_size = 5, sd_batch_delete_size = 0, sd_async = False,
     sd_random = False, sd_stage_idx = 1, sd_workload_str = ''I'', sd_obj_spec_str = Some ''I2,3*b'', sd_read_bins_str = None,
     sd_write_bins_str = Some ''2,4'', sd_udf_package_name = None, sd_udf_fn_name = None, sd_udf_fn_args = None \<rparr>"

definition example_stage :: stage where
  "example_stage = \<lparr> duration = 0, desc = None, tps = 0, ttl = 0, key_start = 0, key_end = 0, pause = 0, batch_size = 0,
     batch_read_size = 0, batch_write_size = 0, batch_delete_size = 0, async = False, random = False,
     stage_workload = \<lparr> wtype = WORKLOAD_TYPE_RR, read_pct = Fin 0, write_pct = Fin 0, read_all_pct = Fin 0, write_all_pct = Fin 0 \<rparr>,
     stage_obj = empty_obj, read_bins = Wild, write_bins = Wild, udf_package_name = [], udf_fn_name = [], udf_args = None \<rparr>"

definition example_env :: stage_env where
  "example_env = \<lparr> env_start_key = 1, env_keys = 100, env_bin_name = ''b'', bin_name_size = 16, module_name_size = 128,
     function_name_size = 128 \<rparr>"

lemma empty_obj_wf: "obj_wf empty_obj"
  by (simp add: obj_wf_def empty_obj_def)

lemma example_stages_in:
  assumes "env_start_key env < env_start_key env + env_keys env"
  obtains ss where "stages_set_defaults_and_parse example_om env global_obj [example_stage] [example_def] = Some (ss, True)"
    "map write_bins (stage_list ss) = [Bins [1, 3]]"
proof -
  have "parse_bin_types example_om ''I2,3*b'' = Parsed ([Bin 1 (K_int 1), Bin 3 K_bool], 4)"
    by (simp add: parse_defs char_defs)
  then have os: "obj_spec_parse example_om o1 ''I2,3*b'' =
    (Parsed (o1\<lparr> bin_specs := [Bin 1 (K_int 1), Bin 3 K_bool], n_bin_specs := 4, valid := True \<rparr>),
     o1\<lparr> bin_specs := [Bin 1 (K_int 1), Bin 3 K_bool], n_bin_specs := 4, valid := True \<rparr>)" for o1 :: obj_spec
    by (simp add: obj_spec_parse_def cstr_def Let_def)
  have wb: "parse_write_bins ''2,4'' o1 = Inr [1, 3]" if "n_bin_specs o1 = 4" for o1
    using that by (simp add: parse_write_bins_def obj_spec_n_bins_def parse_bins_loop.simps char_defs)
  let ?w = "(stage_workload example_stage)\<lparr> wtype := WORKLOAD_TYPE_I, write_all_pct := Fin 0 \<rparr>"
  obtain st1 where 1: "set_batches 0 example_def (set_keys env example_def example_stage True) = (st1, True)"
    "stage_workload st1 = stage_workload example_stage" "stage_obj st1 = empty_obj"
    using assms by (simp add: set_batches_def set_keys_def example_def_def example_stage_def Let_def not_le [symmetric])
  obtain st2 where 2: "set_workload example_def (st1, True) = (st2, True)" "stage_workload st2 = ?w" "stage_obj st2 = empty_obj"
    by (simp add: set_workload_def 1 example_def_def parse_workload_type_def workload_contains_reads_def
        workload_contains_writes_def WORKLOAD_UNSET_PCT_def default_all_pct_def Let_def)
  obtain st3 prev where 3: "set_obj_spec example_om example_def global_obj (st2, True) = (st3, True, prev)"
    "stage_workload st3 = ?w" "n_bin_specs (stage_obj st3) = 4"
    by (simp add: set_obj_spec_def 2 example_def_def os)
  obtain st4 where 4: "set_read_bins env example_def (st3, True) = (st4, True)"
    "stage_workload st4 = ?w" "n_bin_specs (stage_obj st4) = 4"
    by (simp add: set_read_bins_def bins_choice_def 3 example_def_def workload_contains_reads_def Let_def)
  obtain st5 where 5: "set_write_bins example_def (st4, True) = (st5, True)" "stage_workload st5 = ?w" "write_bins st5 = Bins [1, 3]"
    by (simp add: set_write_bins_def bins_choice_def 4 wb example_def_def workload_contains_writes_def Let_def)
  have 6: "set_udf example_om env example_def (st5, True) = (st5, True)"
    by (simp add: set_udf_def 5 workload_contains_udfs_def example_def_def)
  show ?thesis
    by (rule that [of "\<lparr> stage_list = [st5], stages_valid = True \<rparr>"])
      (simp_all add: stages_set_defaults_and_parse_def set_stage_def 1 2 3 4 5 6 Let_def)
qed

lemma example_stages:
  obtains ss where "stages_set_defaults_and_parse example_om example_env empty_obj [example_stage] [example_def] = Some (ss, True)"
    "map write_bins (stage_list ss) = [Bins [1, 3]]"
  by (rule example_stages_in [of example_env empty_obj]) (simp_all add: example_env_def that)


theorem stages_released_witness:
  "\<exists>ss bs. stages_set_defaults_and_parse example_om example_env empty_obj [example_stage] [example_def] = Some (ss, True) \<and>
     map write_bins (stage_list ss) = [Bins [1, 3]] \<and> free_workload_config ss = Some bs"
proof (rule example_stages)
  fix ss
  assume a: "stages_set_defaults_and_parse example_om example_env empty_obj [example_stage] [example_def] = Some (ss, True)"
    "map write_bins (stage_list ss) = [Bins [1, 3]]"
  show ?thesis using stages_released [OF example_ok(3) empty_obj_wf _ a(1)] a by simp
qed

theorem random_key_in_range_witness:
  "\<exists>k r'. stage_gen_random_key example_rng (example_stage\<lparr> key_start := 5, key_end := 9 \<rparr>) 0 = Some (k, r') \<and> 5 \<le> k \<and> k < 9"
  using random_key_in_range [OF example_ok(4), of "example_stage\<lparr> key_start := 5, key_end := 9 \<rparr>"] by simp

theorem read_bins_freed_uninitialised_witness:
  "stages_set_defaults_and_parse example_om example_env empty_obj [example_stage] [example_def\<lparr> sd_read_bins_str := Some ''1'' \<rparr>] = None"
  by (rule read_bins_freed_uninitialised) (simp_all add: example_def_def example_stage_def)

end
