(* ===== verification/Transaction_Ok.thy ===== *)
theory Transaction_Ok
  imports Transaction Workload_Ok
begin

text \<open>
  What the worker threads guarantee: the parts of the key range that threads take, the keys that linear
  workloads write, the accounting of every call, and the records a stage prepares and destroys.
\<close>

section \<open>Parts of the key range\<close>

lemma concat_intervals:
  fixes f :: "nat \<Rightarrow> nat"
  assumes "\<forall>t < n. f t \<le> f (Suc t)"
  shows "concat (map (\<lambda>t. [f t..<f (Suc t)]) [0..<n]) = [f 0..<f n]"
  using assms
proof (induction n)
  case (Suc n)
  have "f 0 \<le> f n" using Suc.prems by (induction n) (auto intro: le_trans)
  then show ?case using Suc upt_add_eq_append [of "f 0" "f n" "f (Suc n) - f n"] by simp
qed simp

lemma div_step:
  fixes N t n :: nat
  assumes "0 < n"
  shows "N div n \<le> N * Suc t div n - N * t div n \<and> N * Suc t div n - N * t div n \<le> N div n + 1"
proof -
  have "N mod n < n" "N * t mod n < n" using assms by simp_all
  then have "(N * t mod n + N mod n) div n < 2" by (intro less_mult_imp_div_less) linarith
  then show ?thesis using div_add1_eq [of "N * t" N n] by (simp add: add.commute)
qed

lemma subrange_unat:
  assumes "ks \<le> ke" and "unat t < unat n" and "(unat ke - unat ks) * unat n < 2 ^ 64"
  shows "calculate_subrange ks ke t n = (a, b) \<Longrightarrow>
    unat a = unat ks + (unat ke - unat ks) * unat t div unat n \<and> unat b = unat ks + (unat ke - unat ks) * Suc (unat t) div unat n"
proof -
  assume ab: "calculate_subrange ks ke t n = (a, b)"
  let ?N = "unat ke - unat ks"
  have N: "unat (ke - ks) = ?N" using assms(1) by (simp add: unat_sub)
  have t1: "unat (t + 1) = Suc (unat t)"
    using unat_add_no_overflow [of t 1] assms(2) unat_u32_lt [of n] by simp
  have part: "unat (ks + (ke - ks) * ucast i div ucast n) = unat ks + ?N * unat i div unat n" if "unat i \<le> unat n" for i :: u32
  proof -
    have le: "?N * unat i \<le> ?N * unat n" using that by (rule mult_le_mono2)
    have m: "unat ((ke - ks) * ucast i) = ?N * unat i"
      using unat_mult_no_overflow [of "ke - ks" "ucast i"] le_less_trans [OF le assms(3)] by (simp add: N unat_ucast_up)
    have "?N * unat i div unat n \<le> ?N"
      using div_le_mono [OF le, of "unat n"] assms(2) by simp
    then have "unat ks + ?N * unat i div unat n < 2 ^ 64"
      using assms(1) unat_u64_lt [of ke] by (simp add: word_le_nat_alt)
    then show ?thesis
      using unat_add_no_overflow [of ks "(ke - ks) * ucast i div ucast n"] by (simp add: unat_div_distrib m unat_ucast_up)
  qed
  show ?thesis using ab part [of t] part [of "t + 1"] assms(2) t1 by (auto simp: calculate_subrange_def Let_def)
qed

section \<open>Accounting\<close>

text \<open>What a call is counted as.\<close>

datatype tally = Read_hit | Read_miss | Read_timeout | Read_error | Write_ok | Write_timeout | Write_error
  | Udf_ok | Udf_timeout | Udf_error

fun counter_of :: "tally \<Rightarrow> cdata \<Rightarrow> u64" where
  "counter_of Read_hit c = read_hit_count c"
| "counter_of Read_miss c = read_miss_count c"
| "counter_of Read_timeout c = read_timeout_count c"
| "counter_of Read_error c = read_error_count c"
| "counter_of Write_ok c = write_count c"
| "counter_of Write_timeout c = write_timeout_count c"
| "counter_of Write_error c = write_error_count c"
| "counter_of Udf_ok c = udf_count c"
| "counter_of Udf_timeout c = udf_timeout_count c"
| "counter_of Udf_error c = udf_error_count c"

text \<open>The class a result belongs to: a batch read has no misses, and a UDF on a missing record is a success.\<close>

fun tally_of :: "'rec request \<times> as_status \<Rightarrow> tally" where
  "tally_of (Get k, s) = (case s of AEROSPIKE_OK \<Rightarrow> Read_hit | AEROSPIKE_ERR_RECORD_NOT_FOUND \<Rightarrow> Read_miss
     | AEROSPIKE_ERR_TIMEOUT \<Rightarrow> Read_timeout | _ \<Rightarrow> Read_error)"
| "tally_of (Select k bs, s) = (case s of AEROSPIKE_OK \<Rightarrow> Read_hit | AEROSPIKE_ERR_RECORD_NOT_FOUND \<Rightarrow> Read_miss
     | AEROSPIKE_ERR_TIMEOUT \<Rightarrow> Read_timeout | _ \<Rightarrow> Read_error)"
| "tally_of (Batch_read ks, s) = (case s of AEROSPIKE_OK \<Rightarrow> Read_hit | AEROSPIKE_ERR_TIMEOUT \<Rightarrow> Read_timeout | _ \<Rightarrow> Read_error)"
| "tally_of (Put k r, s) = (case s of AEROSPIKE_OK \<Rightarrow> Write_ok | AEROSPIKE_ERR_TIMEOUT \<Rightarrow> Write_timeout | _ \<Rightarrow> Write_error)"
| "tally_of (Batch_write ks, s) = (case s of AEROSPIKE_OK \<Rightarrow> Write_ok | AEROSPIKE_ERR_TIMEOUT \<Rightarrow> Write_timeout | _ \<Rightarrow> Write_error)"
| "tally_of (Apply k p f a, s) = (case s of AEROSPIKE_OK \<Rightarrow> Udf_ok | AEROSPIKE_ERR_RECORD_NOT_FOUND \<Rightarrow> Udf_ok
     | AEROSPIKE_ERR_TIMEOUT \<Rightarrow> Udf_timeout | _ \<Rightarrow> Udf_error)"

text \<open>The counters agree with the calls that were made between two states.\<close>

definition accounted :: "('w, 'r, 'rec) tx \<Rightarrow> ('w, 'r, 'rec) tx \<Rightarrow> bool" where
  "accounted s s' \<longleftrightarrow>
     (\<exists>cs. calls s' = calls s @ cs \<and>
           (\<forall>t. counter_of t (cd s') = counter_of t (cd s) + of_nat (length (filter (\<lambda>c. tally_of c = t) cs))))"

lemma accounted_refl: "calls s' = calls s \<Longrightarrow> cd s' = cd s \<Longrightarrow> accounted s s'"
  by (simp add: accounted_def)

lemma accounted_trans:
  assumes "accounted a b" and "accounted b c"
  shows "accounted a c"
proof -
  obtain cs where cs: "calls b = calls a @ cs"
    "\<And>t. counter_of t (cd b) = counter_of t (cd a) + of_nat (length (filter (\<lambda>c. tally_of c = t) cs))"
    using assms(1) unfolding accounted_def by blast
  obtain ds where ds: "calls c = calls b @ ds"
    "\<And>t. counter_of t (cd c) = counter_of t (cd b) + of_nat (length (filter (\<lambda>c. tally_of c = t) ds))"
    using assms(2) unfolding accounted_def by blast
  have "calls c = calls a @ (cs @ ds)" using cs ds by simp
  moreover have "counter_of t (cd c) = counter_of t (cd a) + of_nat (length (filter (\<lambda>c. tally_of c = t) (cs @ ds)))" for t
    using cs(2) ds(2) by simp
  ultimately show ?thesis unfolding accounted_def by blast
qed

lemma counter_record:
  "record_read c dt = Some c' \<Longrightarrow> counter_of t c' = counter_of t c + (if t = Read_hit then 1 else 0)"
  "record_write c dt = Some c' \<Longrightarrow> counter_of t c' = counter_of t c + (if t = Write_ok then 1 else 0)"
  "record_udf c dt = Some c' \<Longrightarrow> counter_of t c' = counter_of t c + (if t = Udf_ok then 1 else 0)"
  by (cases t; auto simp: record_read_def record_write_def record_udf_def Let_def split: if_splits bind_splits)+

lemma counter_incr:
  "counter_of t (c\<lparr> read_miss_count := read_miss_count c + 1 \<rparr>) = counter_of t c + (if t = Read_miss then 1 else 0)"
  "counter_of t (c\<lparr> read_timeout_count := read_timeout_count c + 1 \<rparr>) = counter_of t c + (if t = Read_timeout then 1 else 0)"
  "counter_of t (c\<lparr> read_error_count := read_error_count c + 1 \<rparr>) = counter_of t c + (if t = Read_error then 1 else 0)"
  "counter_of t (c\<lparr> write_timeout_count := write_timeout_count c + 1 \<rparr>) = counter_of t c + (if t = Write_timeout then 1 else 0)"
  "counter_of t (c\<lparr> write_error_count := write_error_count c + 1 \<rparr>) = counter_of t c + (if t = Write_error then 1 else 0)"
  "counter_of t (c\<lparr> udf_timeout_count := udf_timeout_count c + 1 \<rparr>) = counter_of t c + (if t = Udf_timeout then 1 else 0)"
  "counter_of t (c\<lparr> udf_error_count := udf_error_count c + 1 \<rparr>) = counter_of t c + (if t = Udf_error then 1 else 0)"
  by (cases t; simp)+

lemma counter_outcome:
  "write_outcome st dt c = Some c' \<Longrightarrow> counter_of t c' = counter_of t c + (if t = tally_of (Put k r, st) then 1 else 0)"
  "read_outcome st dt c = Some c' \<Longrightarrow> counter_of t c' = counter_of t c + (if t = tally_of (Get k, st) then 1 else 0)"
  "batch_read_outcome st dt c = Some c' \<Longrightarrow> counter_of t c' = counter_of t c + (if t = tally_of (Batch_read ks, st) then 1 else 0)"
  "udf_outcome st dt c = Some c' \<Longrightarrow> counter_of t c' = counter_of t c + (if t = tally_of (Apply k p f a, st) then 1 else 0)"
  using counter_record [where t = t and c = c and c' = c' and dt = dt]
  by (cases st; auto simp: write_outcome_def read_outcome_def batch_read_outcome_def udf_outcome_def counter_incr)+

text \<open>One call is counted once, by its class.\<close>

lemma throttle_frame: "cd (throttle e s) = cd s" "calls (throttle e s) = calls s"
  by (simp_all add: throttle_def split: prod.splits)

lemma sync_call_accounted:
  assumes "sync_call e rq outcome s = Some s'"
    and "\<And>st dt c c' t. outcome st dt c = Some c' \<Longrightarrow> counter_of t c' = counter_of t c + (if t = tally_of (rq, st) then 1 else 0)"
  shows "accounted s s'"
proof -
  obtain st dt s1 where 1: "timed_call e rq s = (st, dt, s1)" by (metis prod_cases3)
  then have f: "cd s1 = cd s" "calls s1 = calls s @ [(rq, st)]" by (auto simp: timed_call_def split: prod.splits)
  obtain c where c: "outcome st dt (cd s) = Some c" "s' = throttle e (s1\<lparr> cd := c \<rparr>)"
    using assms(1) 1 f by (auto simp: sync_call_def split: bind_splits)
  have "counter_of t (cd s') = counter_of t (cd s) + of_nat (length (filter (\<lambda>c. tally_of c = t) [(rq, st)]))" for t
    using assms(2) [OF c(1), of t] c(2) by (auto simp: throttle_frame)
  moreover have "calls s' = calls s @ [(rq, st)]" using c(2) f by (simp add: throttle_frame)
  ultimately show ?thesis unfolding accounted_def by blast
qed

lemma sync_accounted:
  "write_record_sync e k r s = Some s' \<Longrightarrow> accounted s s'"
  "batch_write_record_sync e b s = Some s' \<Longrightarrow> accounted s s'"
  "read_record_sync e st k s = Some s' \<Longrightarrow> accounted s s'"
  "batch_read_record_sync e ks s = Some s' \<Longrightarrow> accounted s s'"
  unfolding write_record_sync_def batch_write_record_sync_def read_record_sync_def batch_read_record_sync_def
     apply (erule sync_call_accounted, drule counter_outcome(1), simp)
    apply (erule sync_call_accounted, drule counter_outcome(1), simp)
   apply (auto split: bins_ptr.splits elim!: sync_call_accounted dest!: counter_outcome(2)) [1]
  apply (erule sync_call_accounted, drule counter_outcome(3), simp)
  done

text \<open>Steps that send nothing and count nothing.\<close>

definition quiet :: "('w, 'r, 'rec) tx \<Rightarrow> ('w, 'r, 'rec) tx \<Rightarrow> bool" where
  "quiet s s' \<longleftrightarrow> cd s' = cd s \<and> calls s' = calls s"

lemma quiet_accounted: "quiet s s' \<Longrightarrow> accounted s s'"
  by (simp add: quiet_def accounted_refl)

lemma quiet_trans: "quiet a b \<Longrightarrow> quiet b c \<Longrightarrow> quiet a c"
  by (simp add: quiet_def)

lemma quiet_steps:
  "quiet s (snd (random_fp e s))" "quiet s (complete e s)" "quiet s (snd (check_work e s))"
  by (simp_all add: quiet_def random_fp_def complete_def check_work_def split: prod.splits)

lemma random_key_quiet: "random_key e st s = Some (k, s') \<Longrightarrow> quiet s s'"
  by (auto simp: random_key_def quiet_def split: bind_splits)

lemma populate_quiet: "populate e st n bins s = Some (r, s') \<Longrightarrow> quiet s s'"
  by (auto simp: populate_def quiet_def split: gen.splits option.splits)

lemma destroy_record_quiet: "destroy_record st ref s = Some s' \<Longrightarrow> quiet s s'"
  by (auto simp: destroy_record_def quiet_def split: if_splits)

lemma udf_call_args_quiet: "udf_call_args e st s = Some (v, s') \<Longrightarrow> quiet s s'"
  by (auto simp: udf_call_args_def quiet_def split: if_splits option.splits gen.splits slot.splits)

lemma gen_record_quiet:
  assumes "gen_record e st s = Some (ref, s')"
  shows "quiet s s'"
proof -
  obtain die s1 where 1: "random_fp e s = (die, s1)" by fastforce
  have "quiet s s1" using quiet_steps(1) [of s e] 1 by simp
  moreover have "quiet s1 s'"
    using assms 1 by (auto simp: gen_record_def populate_full_def populate_partial_def quiet_def
        split: bind_splits if_splits bins_ptr.splits dest!: populate_quiet)
  ultimately show ?thesis by (rule quiet_trans)
qed

lemma batch_key_quiet: "batch_key e st rnd kv s = Some (k, kv', s') \<Longrightarrow> quiet s s'"
  by (auto simp: batch_key_def quiet_def split: if_splits bind_splits dest!: random_key_quiet)

lemma gen_batch_writes_quiet: "gen_batch_writes e st rnd n kv s = Some (ks, s') \<Longrightarrow> quiet s s'"
proof (induction n arbitrary: kv s ks s')
  case (Suc n)
  then obtain ref s1 k kv' s2 r s3 ks' where
    "gen_record e st s = Some (ref, s1)" "batch_key e st rnd kv s1 = Some (k, kv', s2)"
    "destroy_record st ref s2 = Some s3" "gen_batch_writes e st rnd n kv' s3 = Some (ks', s')"
    by (auto split: bind_splits)
  then show ?case
    using gen_record_quiet batch_key_quiet destroy_record_quiet Suc.IH quiet_trans by metis
qed (simp add: quiet_def)

lemma gen_batch_deletes_quiet: "gen_batch_deletes e st rnd n kv s = Some (ks, s') \<Longrightarrow> quiet s s'"
proof (induction n arbitrary: kv s ks s')
  case (Suc n)
  then obtain k kv' s2 ks' where
    "batch_key e st rnd kv s = Some (k, kv', s2)" "gen_batch_deletes e st rnd n kv' s2 = Some (ks', s')"
    by (auto split: bind_splits)
  then show ?case using batch_key_quiet Suc.IH quiet_trans by metis
qed (simp add: quiet_def)

lemma gen_batch_reads_quiet: "gen_batch_reads e st n s = Some (ks, s') \<Longrightarrow> quiet s s'"
proof (induction n arbitrary: s ks s')
  case (Suc n)
  then obtain k s2 ks' where "random_key e st s = Some (k, s2)" "gen_batch_reads e st n s2 = Some (ks', s')"
    by (auto split: bind_splits)
  then show ?case using random_key_quiet Suc.IH quiet_trans by metis
qed (simp add: quiet_def)

lemmas quiet_accounted_rules = random_key_quiet [THEN quiet_accounted] gen_record_quiet [THEN quiet_accounted]
  destroy_record_quiet [THEN quiet_accounted] udf_call_args_quiet [THEN quiet_accounted]
  gen_batch_writes_quiet [THEN quiet_accounted] gen_batch_deletes_quiet [THEN quiet_accounted]
  gen_batch_reads_quiet [THEN quiet_accounted]

lemma apply_udf_accounted:
  assumes "apply_udf_sync e st k s = Some s'"
  shows "accounted s s'"
proof -
  obtain args s1 where 1: "udf_call_args e st s = Some (args, s1)"
    "sync_call e (Apply k (udf_package_name st) (udf_fn_name st) args) udf_outcome s1 = Some s'"
    using assms by (auto simp: apply_udf_sync_def split: bind_splits)
  have "accounted s1 s'" using 1(2) by (rule sync_call_accounted) (rule counter_outcome(4))
  then show ?thesis using quiet_accounted_rules(4) [OF 1(1)] accounted_trans by blast
qed

lemma put_ref_accounted: "put_ref e k ref s = Some s' \<Longrightarrow> accounted s s'"
  by (auto simp: put_ref_def split: bind_splits intro: sync_accounted)

text \<open>The transactions.\<close>

lemma transaction_accounted:
  "random_read e st s = Some s' \<Longrightarrow> accounted s s'"
  "random_write e st s = Some s' \<Longrightarrow> accounted s s'"
  "random_udf e st s = Some s' \<Longrightarrow> accounted s s'"
  "random_delete e st s = Some s' \<Longrightarrow> accounted s s'"
  "linear_write e st k s = Some (k', s') \<Longrightarrow> accounted s s'"
  "linear_delete e st k s = Some (k', s') \<Longrightarrow> accounted s s'"
  by (auto simp: random_read_def random_write_def random_udf_def random_delete_def linear_write_def linear_delete_def
      gen_batch_writes_random_keys_def gen_batch_deletes_random_keys_def gen_batch_writes_sequential_keys_def
      gen_batch_deletes_sequential_keys_def split: if_splits bind_splits
      dest!: quiet_accounted_rules sync_accounted put_ref_accounted apply_udf_accounted) (meson accounted_trans)+

text \<open>The loops.\<close>

lemma linear_loop_accounted:
  fixes s s' :: "('w, 'r, 'rec) tx"
  assumes "linear_loop e body ek k s = Some s'" and "\<And>k s k' s'. body k s = Some (k', s') \<Longrightarrow> accounted s s'"
  shows "accounted s s'"
proof -
  define P where "P = (\<lambda>e' body' (ek :: u64) (k :: u64) (s :: ('w, 'r, 'rec) tx) s'. e' = e \<and> body' = body \<longrightarrow> accounted s s')"
  have "P e body ek k s s'"
    using assms(1)
  proof (rule linear_loop.raw_induct [where P = P, rotated])
    fix loop e' body' ek k s y
    assume IH: "\<And>e' body' ek k s y. loop e' body' ek k s = Some y \<Longrightarrow> P e' body' ek k s y"
      and y: "(let (go, s) = check_work e' s in if go \<and> k < ek then body' k s \<bind> (\<lambda>(k, s). loop e' body' ek k s) else Some s) = Some y"
    obtain go s1 where c: "check_work e s = (go, s1)" by fastforce
    have q: "accounted s s1" using quiet_accounted [OF quiet_steps(3) [of s e]] c by simp
    show "P e' body' ek k s y"
    proof (cases "e' = e \<and> body' = body \<and> go \<and> k < ek")
      case True
      then obtain k' s2 where l: "body k s1 = Some (k', s2)" "loop e body ek k' s2 = Some y"
        using y c by (auto split: bind_splits)
      then have "accounted s1 s2" "accounted s2 y" using assms(2) IH by (auto simp: P_def)
      then show ?thesis using q accounted_trans unfolding P_def by blast
    next
      case False
      then show ?thesis using y c q by (auto simp: P_def)
    qed
  qed
  then show ?thesis by (simp add: P_def)
qed

lemma work_loop_accounted:
  fixes s s' :: "('w, 'r, 'rec) tx"
  assumes "work_loop e body s = Some s'" and "\<And>s s'. body s = Some s' \<Longrightarrow> accounted s s'"
  shows "accounted s s'"
proof -
  define P where "P = (\<lambda>e' body' (s :: ('w, 'r, 'rec) tx) s'. e' = e \<and> body' = body \<longrightarrow> accounted s s')"
  have "P e body s s'"
    using assms(1)
  proof (rule work_loop.raw_induct [where P = P, rotated])
    fix loop e' body' s y
    assume IH: "\<And>e' body' s y. loop e' body' s = Some y \<Longrightarrow> P e' body' s y"
      and y: "(let (go, s) = check_work e' s in if go then body' s \<bind> loop e' body' else Some s) = Some y"
    obtain go s1 where c: "check_work e s = (go, s1)" by fastforce
    have q: "accounted s s1" using quiet_accounted [OF quiet_steps(3) [of s e]] c by simp
    show "P e' body' s y"
    proof (cases "e' = e \<and> body' = body \<and> go")
      case True
      then obtain s2 where "body s1 = Some s2" "loop e body s2 = Some y" using y c by (auto split: bind_splits)
      then have "accounted s1 s2" "accounted s2 y" using assms(2) IH by (auto simp: P_def)
      then show ?thesis using q accounted_trans unfolding P_def by blast
    next
      case False
      then show ?thesis using y c q by (auto simp: P_def)
    qed
  qed
  then show ?thesis by (simp add: P_def)
qed

lemma complete_accounted: "accounted s (complete e s)"
  by (rule quiet_accounted) (rule quiet_steps)

lemma die_accounted: "random_fp e s = (die, s1) \<Longrightarrow> accounted s1 s' \<Longrightarrow> accounted s s'"
  using quiet_accounted [OF quiet_steps(1) [of s e]] accounted_trans by fastforce

lemma linear_part_accounted:
  assumes "linear_part e st step s = Some s'" and "\<And>k s k' s'. step e st k s = Some (k', s') \<Longrightarrow> accounted s s'"
  shows "accounted s s'"
proof -
  obtain s1 ek k where "linear_loop e (step e st) ek k s = Some s1" "s' = complete e s1"
    using assms(1) by (auto simp: linear_part_def split: prod.splits)
  then show ?thesis using linear_loop_accounted [of e "step e st"] assms(2) complete_accounted accounted_trans by metis
qed

lemma random_read_write_accounted:
  assumes "random_read_write e st s = Some s'"
  shows "accounted s s'"
proof -
  obtain rd where "work_loop e (\<lambda>s. let (die, s) = random_fp e s in if die < rd then random_read e st s else random_write e st s)
      (complete e s) = Some s'"
    using assms by (auto simp: random_read_write_def split: bind_splits)
  from work_loop_accounted [OF this] have "accounted (complete e s) s'"
    using transaction_accounted by (fastforce intro: die_accounted split: prod.splits if_splits)
  then show ?thesis using complete_accounted accounted_trans by metis
qed

lemma random_three_accounted:
  assumes "random_three e st other s = Some s'" and "\<And>s s'. other e st s = Some s' \<Longrightarrow> accounted s s'"
  shows "accounted s s'"
proof -
  obtain rd wr where "work_loop e (\<lambda>s. let (die, s) = random_fp e s
      in if die < rd then random_read e st s else if die < rd + wr then random_write e st s else other e st s) (complete e s) = Some s'"
    using assms(1) by (auto simp: random_three_def split: bind_splits)
  from work_loop_accounted [OF this] have "accounted (complete e s) s'"
    using transaction_accounted assms(2) by (fastforce intro: die_accounted split: prod.splits if_splits)
  then show ?thesis using complete_accounted accounted_trans by metis
qed

text \<open>
  C3. Every call a thread makes in a synchronous stage is counted exactly once, by its kind and its result:
  when the workload returns, each of the ten counters has grown by the number of calls of its class.
\<close>

theorem sync_workload_accounted:
  assumes "do_sync_workload e st s = Some s'"
  shows "\<exists>cs. calls s' = calls s @ cs \<and>
           (\<forall>t. counter_of t (cd s') = counter_of t (cd s) + of_nat (length (filter (\<lambda>c. tally_of c = t) cs)))"
proof -
  have "linear_part e st linear_write s = Some s' \<Longrightarrow> accounted s s'" "linear_part e st linear_delete s = Some s' \<Longrightarrow> accounted s s'"
    by (erule linear_part_accounted, erule transaction_accounted)+
  moreover have "random_three e st random_udf s = Some s' \<Longrightarrow> accounted s s'" "random_three e st random_delete s = Some s' \<Longrightarrow> accounted s s'"
    by (erule random_three_accounted, erule transaction_accounted)+
  ultimately have "accounted s s'"
    using assms random_read_write_accounted [of e st s s']
    by (auto simp: do_sync_workload_def linear_writes_def linear_deletes_def random_read_write_udf_def random_read_write_delete_def
        split: workload_type.splits)
  then show ?thesis by (simp add: accounted_def)
qed

text \<open>
  Without \<^verbatim>\<open>--latency\<close> nothing is recorded in the HDR histograms, although \<^verbatim>\<open>--hdr-hist\<close> alone initialises
  them and writes them out at the end; the output file of the HDR histogram decides whether the other histogram
  is used instead.
\<close>

theorem hdr_needs_latency:
  assumes "\<not> latency c"
  shows "record_read c dt = Some c1 \<Longrightarrow> read_hdr c1 = read_hdr c"
    and "record_write c dt = Some c2 \<Longrightarrow> write_hdr c2 = write_hdr c"
    and "record_udf c dt = Some c3 \<Longrightarrow> udf_hdr c3 = udf_hdr c"
  using assms by (auto simp: record_read_def record_write_def record_udf_def Let_def split: if_splits bind_splits)

section \<open>Linear workloads\<close>

text \<open>The keys that calls write, in order.\<close>

fun keys_of :: "'rec request \<Rightarrow> as_key list" where
  "keys_of (Put k r) = [k]"
| "keys_of (Batch_write ks) = map fst ks"
| "keys_of _ = []"

definition written :: "('w, 'r, 'rec) tx \<Rightarrow> as_key list" where
  "written s = concat (map (keys_of \<circ> fst) (calls s))"

text \<open>The loop writes keys from the first up to the first multiple of the batch size that reaches the end.\<close>

definition stop_at :: "nat \<Rightarrow> nat \<Rightarrow> nat \<Rightarrow> nat" where
  "stop_at b k ek = k + b * ((ek - k + b - 1) div b)"

lemma stop_at_simps:
  assumes "0 < b"
  shows "ek \<le> k \<Longrightarrow> stop_at b k ek = k" "k < ek \<Longrightarrow> stop_at b k ek = stop_at b (k + b) ek" "stop_at (Suc 0) k ek = max k ek"
    "stop_at b k ek < max k ek + b" "k \<le> ek \<Longrightarrow> ek \<le> stop_at b k ek"
proof -
  show "ek \<le> k \<Longrightarrow> stop_at b k ek = k" using assms by (simp add: stop_at_def)
  show "stop_at (Suc 0) k ek = max k ek" by (simp add: stop_at_def)
  show "stop_at b k ek = stop_at b (k + b) ek" if "k < ek"
  proof (cases "k + b \<le> ek")
    case True
    then have "ek - k + b - 1 = (ek - (k + b) + b - 1) + b" using assms that by simp
    then have "(ek - k + b - 1) div b = Suc ((ek - (k + b) + b - 1) div b)" using assms by (simp only: div_add_self2)
    then show ?thesis unfolding stop_at_def by (simp only: mult_Suc_right add.assoc)
  next
    case False
    then have "(ek - k + b - 1) div b = 1"
      using that assms by (intro div_nat_eqI) auto
    then show ?thesis using False assms by (simp add: stop_at_def)
  qed
  have "b * ((ek - k + b - 1) div b) \<le> ek - k + b - 1" by (rule times_div_less_eq_dividend)
  then show "stop_at b k ek < max k ek + b" using assms unfolding stop_at_def by linarith
  show "ek \<le> stop_at b k ek" if "k \<le> ek"
    using dividend_less_times_div [of b "ek - k + b - 1"] assms that by (simp add: stop_at_def)
qed

lemma linear_loop_covers:
  fixes e :: "('w, 'r, 'rec) env" and body :: "u64 \<Rightarrow> ('w, 'r, 'rec) tx \<Rightarrow> (u64 \<times> ('w, 'r, 'rec) tx) option"
  assumes work: "\<And>w. fst (do_work e w)" and b: "0 < b"
    and step: "\<And>k s. P s \<Longrightarrow> \<exists>s'. body k s = Some (k + of_nat b, s') \<and> P s' \<and>
      written s' = written s @ map (\<lambda>i. (ns, se, k + of_nat i)) [0..<b]"
    and P: "\<And>s w. P s \<Longrightarrow> P (s\<lparr> world := w \<rparr>)" and "P s" and "unat ek + b \<le> 2 ^ 64"
  shows "\<exists>s'. linear_loop e body ek k s = Some s' \<and> P s' \<and>
    written s' = written s @ map (\<lambda>i. (ns, se, of_nat i)) [unat k..<stop_at b (unat k) (unat ek)]"
  using \<open>P s\<close>
proof (induction "unat ek - unat k" arbitrary: k s rule: less_induct)
  case less
  define s1 where "s1 = s\<lparr> world := snd (do_work e (world s)) \<rparr>"
  have c: "check_work e s = (True, s1)" using work [of "world s"] by (simp add: check_work_def s1_def split_beta)
  have s1: "P s1" "written s1 = written s" using P less.prems by (auto simp: s1_def written_def)
  show ?case
  proof (cases "k < ek")
    case True
    obtain s2 where s2: "body k s1 = Some (k + of_nat b, s2)" "P s2" "written s2 = written s1 @ map (\<lambda>i. (ns, se, k + of_nat i)) [0..<b]"
      using step [OF s1(1)] by blast
    have lt: "unat k < unat ek" using True by (simp add: word_less_nat_alt)
    then have bb: "unat k + b < 2 ^ 64" using assms(6) by simp
    then have kb: "unat (k + of_nat b) = unat k + b"
      using unat_add_no_overflow [of k "of_nat b"] by (simp add: unat_of_nat_64)
    obtain s' where s': "linear_loop e body ek (k + of_nat b) s2 = Some s'" "P s'"
      "written s' = written s2 @ map (\<lambda>i. (ns, se, of_nat i)) [unat k + b..<stop_at b (unat k + b) (unat ek)]"
      using less.hyps [OF _ s2(2), of "k + of_nat b"] diff_less_mono2 [of "unat k" "unat k + b" "unat ek"] lt b
      unfolding kb by auto
    have st: "stop_at b (unat k) (unat ek) = stop_at b (unat k + b) (unat ek)" using stop_at_simps(2) [OF b lt] .
    have ge: "unat k + b \<le> stop_at b (unat k + b) (unat ek)" by (simp add: stop_at_def)
    have "map (\<lambda>i. (ns, se, k + of_nat i)) [0..<b] = map (\<lambda>i. (ns, se, of_nat i :: u64)) [unat k..<unat k + b]"
      by (rule nth_equalityI) simp_all
    then have "written s' = written s @ map (\<lambda>i. (ns, se, of_nat i)) [unat k..<stop_at b (unat k) (unat ek)]"
      using s'(3) s2(3) s1(2) ge upt_add_eq_append [of "unat k" "unat k + b" "stop_at b (unat k + b) (unat ek) - (unat k + b)"]
      by (simp add: st)
    then show ?thesis using s'(1,2) True c s2(1) by (subst linear_loop.simps) simp
  next
    case False
    then have "stop_at b (unat k) (unat ek) = unat k" using stop_at_simps(1) [OF b] by (simp add: not_less word_le_nat_alt)
    then show ?thesis using False c s1 by (subst linear_loop.simps) simp
  qed
qed

text \<open>When a thread can write: the records that a roll of the die may choose are there, and the histogram is sound.\<close>

definition record_ready :: "stage \<Rightarrow> ('r, 'rec) tdata \<Rightarrow> bool" where
  "record_ready st t \<longleftrightarrow>
     (\<exists>a. pct_to_fp (write_all_pct (stage_workload st)) = Some a \<and>
          (a \<noteq> 0 \<longrightarrow> (\<exists>r. fixed_full_record t = Live r)) \<and>
          (a < 0x1000000 \<longrightarrow> (\<exists>r. fixed_partial_record t = Live r)))"

definition hist_ready :: "cdata \<Rightarrow> bool" where
  "hist_ready c \<longleftrightarrow> (histogram_output c \<or> hdr_comp_write_output c \<longrightarrow> hist_inv (write_histogram c))"

definition writer_ok :: "stage \<Rightarrow> string \<Rightarrow> string \<Rightarrow> ('w, 'r, 'rec) tx \<Rightarrow> bool" where
  "writer_ok st ns se s \<longleftrightarrow>
     \<not> random st \<and> record_ready st (td s) \<and> hist_ready (cd s) \<and> cd_namespace (cd s) = ns \<and> cd_set (cd s) = se"

definition deleter_ok :: "stage \<Rightarrow> string \<Rightarrow> string \<Rightarrow> ('w, 'r, 'rec) tx \<Rightarrow> bool" where
  "deleter_ok st ns se s \<longleftrightarrow>
     \<not> random st \<and> (\<exists>r. fixed_delete_record (td s) = Live r) \<and> hist_ready (cd s) \<and> cd_namespace (cd s) = ns \<and> cd_set (cd s) = se"

lemma write_outcome_ok:
  assumes "hist_ready c"
  shows "\<exists>c'. write_outcome status dt c = Some c' \<and> hist_ready c' \<and> cd_namespace c' = cd_namespace c \<and> cd_set c' = cd_set c"
proof -
  have "\<exists>h. histogram_incr (write_histogram c) dt = Some h \<and> hist_inv h" if "hist_inv (write_histogram c)"
    using incr_ok [OF that] by blast
  then show ?thesis
    using assms by (auto simp: write_outcome_def record_write_def hist_ready_def Let_def)
qed

lemma throttle_td:
  "fixed_full_record (td (throttle e s)) = fixed_full_record (td s)"
  "fixed_partial_record (td (throttle e s)) = fixed_partial_record (td s)"
  "fixed_delete_record (td (throttle e s)) = fixed_delete_record (td s)"
  by (simp_all add: throttle_def split: prod.splits)

lemma write_call:
  assumes "hist_ready (cd s)"
  shows "\<exists>s' status. sync_call e rq write_outcome s = Some s' \<and> calls s' = calls s @ [(rq, status)] \<and> hist_ready (cd s') \<and>
    cd_namespace (cd s') = cd_namespace (cd s) \<and> cd_set (cd s') = cd_set (cd s) \<and>
    fixed_full_record (td s') = fixed_full_record (td s) \<and> fixed_partial_record (td s') = fixed_partial_record (td s) \<and>
    fixed_delete_record (td s') = fixed_delete_record (td s)"
proof -
  obtain status dt s1 where 1: "timed_call e rq s = (status, dt, s1)" by (metis prod_cases3)
  then have f: "cd s1 = cd s" "td s1 = td s" "calls s1 = calls s @ [(rq, status)]"
    by (auto simp: timed_call_def split: prod.splits)
  obtain c' where c': "write_outcome status dt (cd s) = Some c'" "hist_ready c'" "cd_namespace c' = cd_namespace (cd s)" "cd_set c' = cd_set (cd s)"
    using write_outcome_ok [OF assms] by blast
  show ?thesis
    by (rule exI [of _ "throttle e (s1\<lparr> cd := c' \<rparr>)"], rule exI [of _ status])
      (simp add: sync_call_def 1 f c' throttle_frame throttle_td)
qed

lemma writer_call:
  assumes "writer_ok st ns se s"
  shows "\<exists>s' status. sync_call e rq write_outcome s = Some s' \<and> calls s' = calls s @ [(rq, status)] \<and> writer_ok st ns se s'"
proof -
  have "hist_ready (cd s)" using assms by (simp add: writer_ok_def)
  then obtain s' status where s': "sync_call e rq write_outcome s = Some s'" "calls s' = calls s @ [(rq, status)]" "hist_ready (cd s')"
    "cd_namespace (cd s') = cd_namespace (cd s)" "cd_set (cd s') = cd_set (cd s)"
    "fixed_full_record (td s') = fixed_full_record (td s)" "fixed_partial_record (td s') = fixed_partial_record (td s)"
    using write_call [of s e rq] by blast
  then have "writer_ok st ns se s'" using assms by (simp add: writer_ok_def record_ready_def)
  then show ?thesis using s' by blast
qed

lemma deleter_call:
  assumes "deleter_ok st ns se s"
  shows "\<exists>s' status. sync_call e rq write_outcome s = Some s' \<and> calls s' = calls s @ [(rq, status)] \<and> deleter_ok st ns se s'"
proof -
  have "hist_ready (cd s)" using assms by (simp add: deleter_ok_def)
  then obtain s' status where s': "sync_call e rq write_outcome s = Some s'" "calls s' = calls s @ [(rq, status)]" "hist_ready (cd s')"
    "cd_namespace (cd s') = cd_namespace (cd s)" "cd_set (cd s') = cd_set (cd s)"
    "fixed_delete_record (td s') = fixed_delete_record (td s)"
    using write_call [of s e rq] by blast
  then have "deleter_ok st ns se s'" using assms by (simp add: deleter_ok_def)
  then show ?thesis using s' by blast
qed

lemma gen_record_ready:
  assumes "writer_ok st ns se s"
  shows "\<exists>ref s1 r. gen_record e st s = Some (ref, s1) \<and> writer_ok st ns se s1 \<and> calls s1 = calls s \<and> deref (td s1) ref = Some r"
proof -
  obtain a where a: "pct_to_fp (write_all_pct (stage_workload st)) = Some a"
    "a \<noteq> 0 \<Longrightarrow> \<exists>r. fixed_full_record (td s) = Live r" "a < 0x1000000 \<Longrightarrow> \<exists>r. fixed_partial_record (td s) = Live r"
    using assms unfolding writer_ok_def record_ready_def by blast
  obtain x g where x: "next_uint32 (env_rng e) (rand (td s)) = (x, g)" by fastforce
  let ?s1 = "s\<lparr> td := (td s)\<lparr> rand := g \<rparr> \<rparr>"
  have d: "random_fp e s = (x AND 0x00FFFFFF, ?s1)" by (simp add: random_fp_def x)
  have w: "writer_ok st ns se ?s1" using assms by (simp add: writer_ok_def record_ready_def)
  have le: "x AND 0x00FFFFFF \<le> 0x00FFFFFF" by (rule word_and_le1)
  show ?thesis
  proof (cases "x AND 0x00FFFFFF < a")
    case True
    then have "a \<noteq> 0" by auto
    then show ?thesis using True a(1,2) d w assms by (auto simp: gen_record_def writer_ok_def)
  next
    case False
    then have "a \<le> 0x00FFFFFF" using le by (simp add: not_less)
    then have "a < 0x1000000" by (simp add: word_le_nat_alt word_less_nat_alt)
    then show ?thesis using False a(1,3) d w assms by (auto simp: gen_record_def writer_ok_def)
  qed
qed

lemma batch_writes_ready:
  assumes "writer_ok st ns se s"
  shows "\<exists>ks s'. gen_batch_writes e st False n k s = Some (ks, s') \<and> writer_ok st ns se s' \<and> calls s' = calls s \<and>
    map fst ks = map (\<lambda>i. (ns, se, k + of_nat i)) [0..<n]"
  using assms
proof (induction n arbitrary: k s)
  case (Suc n)
  obtain ref s1 r where g: "gen_record e st s = Some (ref, s1)" "writer_ok st ns se s1" "calls s1 = calls s" "deref (td s1) ref = Some r"
    using gen_record_ready [OF Suc.prems] by blast
  obtain ks s' where ks: "gen_batch_writes e st False n (k + 1) s1 = Some (ks, s')" "writer_ok st ns se s'" "calls s' = calls s1"
    "map fst ks = map (\<lambda>i. (ns, se, (k + 1) + of_nat i)) [0..<n]"
    using Suc.IH [OF g(2)] by blast
  have "gen_batch_writes e st False (Suc n) k s = Some (((ns, se, k), r) # ks, s')"
    using g ks(1) by (simp add: batch_key_def gen_key_val_def destroy_record_def writer_ok_def)
  moreover have "map fst (((ns, se, k), r) # ks) = map (\<lambda>i. (ns, se, k + of_nat i)) [0..<Suc n]"
    using ks(4) by (simp only: list.map map_upt_Suc) (simp add: algebra_simps)
  ultimately show ?case using ks(2,3) g(3) by metis
qed simp

lemma batch_deletes_ready:
  assumes "deleter_ok st ns se s"
  shows "\<exists>ks. gen_batch_deletes e st False n k s = Some (ks, s) \<and> map fst ks = map (\<lambda>i. (ns, se, k + of_nat i)) [0..<n]"
proof (induction n arbitrary: k)
  case (Suc n)
  obtain r where r: "fixed_delete_record (td s) = Live r" using assms by (auto simp: deleter_ok_def)
  obtain ks where ks: "gen_batch_deletes e st False n (k + 1) s = Some (ks, s)"
    "map fst ks = map (\<lambda>i. (ns, se, (k + 1) + of_nat i)) [0..<n]"
    using Suc by blast
  have "gen_batch_deletes e st False (Suc n) k s = Some (((ns, se, k), r) # ks, s)"
    using r ks(1) assms by (simp add: batch_key_def gen_key_val_def gen_nil_record_def deleter_ok_def)
  moreover have "map fst (((ns, se, k), r) # ks) = map (\<lambda>i. (ns, se, k + of_nat i)) [0..<Suc n]"
    using ks(2) by (simp only: list.map map_upt_Suc) (simp add: algebra_simps)
  ultimately show ?case by metis
qed simp

lemma linear_write_step:
  assumes "writer_ok st ns se s"
  shows "\<exists>s'. linear_write e st k s = Some (k + of_nat (max 1 (unat (batch_write_size st))), s') \<and> writer_ok st ns se s' \<and>
    written s' = written s @ map (\<lambda>i. (ns, se, k + of_nat i)) [0..<max 1 (unat (batch_write_size st))]"
proof (cases "batch_write_size st \<le> 1")
  case True
  obtain ref s1 r where g: "gen_record e st s = Some (ref, s1)" "writer_ok st ns se s1" "calls s1 = calls s" "deref (td s1) ref = Some r"
    using gen_record_ready [OF assms] by blast
  obtain s2 status where "sync_call e (Put (gen_key_val (cd s) k) r) write_outcome s1 = Some s2"
    "calls s2 = calls s1 @ [(Put (gen_key_val (cd s) k) r, status)]" "writer_ok st ns se s2"
    using writer_call [OF g(2), of e "Put (gen_key_val (cd s) k) r"] by blast
  then show ?thesis
    using True g assms by (auto simp: linear_write_def put_ref_def write_record_sync_def destroy_record_def writer_ok_def
        written_def gen_key_val_def word_le_nat_alt max_def)
next
  case False
  then have m: "max 1 (unat (batch_write_size st)) = unat (batch_write_size st)" by (simp add: word_le_nat_alt max_def)
  obtain ks s1 where g: "gen_batch_writes e st False (unat (batch_write_size st)) k s = Some (ks, s1)" "writer_ok st ns se s1"
    "calls s1 = calls s" "map fst ks = map (\<lambda>i. (ns, se, k + of_nat i)) [0..<unat (batch_write_size st)]"
    using batch_writes_ready [OF assms] by blast
  obtain s2 status where "sync_call e (Batch_write ks) write_outcome s1 = Some s2"
    "calls s2 = calls s1 @ [(Batch_write ks, status)]" "writer_ok st ns se s2"
    using writer_call [OF g(2), of e "Batch_write ks"] by blast
  then show ?thesis
    unfolding m using False g by (auto simp: linear_write_def gen_batch_writes_sequential_keys_def batch_write_record_sync_def written_def)
qed

lemma linear_delete_step:
  assumes "deleter_ok st ns se s"
  shows "\<exists>s'. linear_delete e st k s = Some (k + of_nat (max 1 (unat (batch_delete_size st))), s') \<and> deleter_ok st ns se s' \<and>
    written s' = written s @ map (\<lambda>i. (ns, se, k + of_nat i)) [0..<max 1 (unat (batch_delete_size st))]"
proof (cases "batch_delete_size st \<le> 1")
  case True
  obtain r where r: "fixed_delete_record (td s) = Live r" using assms by (auto simp: deleter_ok_def)
  obtain s2 status where "sync_call e (Put (gen_key_val (cd s) k) r) write_outcome s = Some s2"
    "calls s2 = calls s @ [(Put (gen_key_val (cd s) k) r, status)]" "deleter_ok st ns se s2"
    using deleter_call [OF assms, of e "Put (gen_key_val (cd s) k) r"] by blast
  then show ?thesis
    using True r assms by (auto simp: linear_delete_def put_ref_def write_record_sync_def destroy_record_def deleter_ok_def
        written_def gen_key_val_def gen_nil_record_def word_le_nat_alt max_def)
next
  case False
  then have m: "max 1 (unat (batch_delete_size st)) = unat (batch_delete_size st)" by (simp add: word_le_nat_alt max_def)
  obtain ks where g: "gen_batch_deletes e st False (unat (batch_delete_size st)) k s = Some (ks, s)"
    "map fst ks = map (\<lambda>i. (ns, se, k + of_nat i)) [0..<unat (batch_delete_size st)]"
    using batch_deletes_ready [OF assms] by blast
  obtain s2 status where "sync_call e (Batch_write ks) write_outcome s = Some s2"
    "calls s2 = calls s @ [(Batch_write ks, status)]" "deleter_ok st ns se s2"
    using deleter_call [OF assms, of e "Batch_write ks"] by blast
  then show ?thesis
    unfolding m using False g by (auto simp: linear_delete_def gen_batch_deletes_sequential_keys_def batch_write_record_sync_def written_def)
qed

text \<open>A thread's part of a linear workload.\<close>

lemma linear_part_covers:
  fixes e :: "('w, 'r, 'rec) env"
  assumes work: "\<And>w. fst (do_work e w)" and b: "0 < b" "unat (key_end st) + b \<le> 2 ^ 64"
    and step: "\<And>k s. P s \<Longrightarrow> \<exists>s'. step e st k s = Some (k + of_nat b, s') \<and> P s' \<and>
      written s' = written s @ map (\<lambda>i. (ns, se, k + of_nat i)) [0..<b]"
    and P: "\<And>s w. P s \<Longrightarrow> P (s\<lparr> world := w \<rparr>)" "P s"
    and range: "key_start st \<le> key_end st" "unat t < unat n" "(unat (key_end st) - unat (key_start st)) * unat n < 2 ^ 64"
    and id: "t_idx (td s) = t" "transaction_worker_threads (cd s) = n"
  shows "\<exists>s'. linear_part e st step s = Some s' \<and>
    written s' = written s @ (case calculate_subrange (key_start st) (key_end st) t n of
      (a, z) \<Rightarrow> map (\<lambda>i. (ns, se, of_nat i)) [unat a..<stop_at b (unat a) (unat z)])"
proof -
  obtain a z where az: "calculate_subrange (key_start st) (key_end st) t n = (a, z)" by fastforce
  have "(unat (key_end st) - unat (key_start st)) * Suc (unat t) \<le> (unat (key_end st) - unat (key_start st)) * unat n"
    using range(2) by (intro mult_le_mono2) simp
  then have "(unat (key_end st) - unat (key_start st)) * Suc (unat t) div unat n \<le> unat (key_end st) - unat (key_start st)"
    using div_le_mono [of "(unat (key_end st) - unat (key_start st)) * Suc (unat t)"
        "(unat (key_end st) - unat (key_start st)) * unat n" "unat n"] range(2) by simp
  then have "unat z \<le> unat (key_end st)"
    using subrange_unat [OF range az] range(1) by (simp add: word_le_nat_alt)
  then have z: "unat z + b \<le> 2 ^ 64" using b(2) by simp
  obtain s' where "linear_loop e (step e st) z a s = Some s'"
    "written s' = written s @ map (\<lambda>i. (ns, se, of_nat i)) [unat a..<stop_at b (unat a) (unat z)]"
    using linear_loop_covers [OF work b(1) step P z] by blast
  then show ?thesis using az id by (auto simp: linear_part_def complete_def written_def)
qed


text \<open>
  C11. The parts that threads take of the key range follow each other without gaps and overlaps, and
  their sizes differ by at most one, as long as the product of keys and threads fits in 64 bits.
\<close>

theorem subranges_partition:
  assumes "ks \<le> ke" and "0 < n" and "(unat ke - unat ks) * unat n < 2 ^ 64"
  shows "concat (map (\<lambda>t. case calculate_subrange ks ke (of_nat t) n of (a, b) \<Rightarrow> [unat a..<unat b]) [0..<unat n]) = [unat ks..<unat ke] \<and>
    (\<forall>t < unat n. case calculate_subrange ks ke (of_nat t) n of (a, b) \<Rightarrow>
       a \<le> b \<and> (unat ke - unat ks) div unat n \<le> unat b - unat a \<and> unat b - unat a \<le> (unat ke - unat ks) div unat n + 1)"
proof -
  let ?N = "unat ke - unat ks"
  let ?f = "\<lambda>t. unat ks + ?N * t div unat n"
  have sub: "\<exists>a b. calculate_subrange ks ke (of_nat t) n = (a, b) \<and> unat a = ?f t \<and> unat b = ?f (Suc t)" if "t < unat n" for t
  proof -
    obtain a b where ab: "calculate_subrange ks ke (of_nat t) n = (a, b)" by fastforce
    have "unat (of_nat t :: u32) = t" using that unat_u32_lt [of n] by (simp add: unat_of_nat_32)
    then show ?thesis using subrange_unat [OF assms(1) _ assms(3) ab] that ab by simp
  qed
  have "concat (map (\<lambda>t. case calculate_subrange ks ke (of_nat t) n of (a, b) \<Rightarrow> [unat a..<unat b]) [0..<unat n]) =
      concat (map (\<lambda>t. [?f t..<?f (Suc t)]) [0..<unat n])"
    using sub by (intro arg_cong [where f = concat] map_cong) fastforce+
  also have "\<dots> = [?f 0..<?f (unat n)]" by (rule concat_intervals) (simp add: div_le_mono)
  also have "\<dots> = [unat ks..<unat ke]" using assms(1,2) by (simp add: word_le_nat_alt unat_gt_0)
  finally have "concat (map (\<lambda>t. case calculate_subrange ks ke (of_nat t) n of (a, b) \<Rightarrow> [unat a..<unat b]) [0..<unat n]) = [unat ks..<unat ke]" .
  moreover have "?N div unat n \<le> ?f (Suc t) - ?f t \<and> ?f (Suc t) - ?f t \<le> ?N div unat n + 1" for t
    using div_step [of "unat n" ?N t] assms(2) by (simp add: unat_gt_0 del: mult_Suc_right)
  ultimately show ?thesis using sub by (fastforce simp: word_le_nat_alt div_le_mono)
qed

text \<open>When the product of keys and threads does not fit in 64 bits, threads work on the wrong keys.\<close>

theorem subrange_overflow: "calculate_subrange 0 (2 ^ 63) 2 4 = (0, 2 ^ 61)"
  by (simp add: calculate_subrange_def)

text \<open>
  A thread deletes its part of the key range in order, in whole batches: the last batch may go past the
  end of the part, by less than the size of a batch.
\<close>

theorem deletes_cover_part:
  fixes e :: "('w, 'r, 'rec) env"
  assumes "\<And>w. fst (do_work e w)" and "deleter_ok st ns se s"
    and "key_start st \<le> key_end st" and "unat (t_idx (td s)) < unat n" and "transaction_worker_threads (cd s) = n"
    and "(unat (key_end st) - unat (key_start st)) * unat n < 2 ^ 64"
    and "unat (key_end st) + max 1 (unat (batch_delete_size st)) \<le> 2 ^ 64"
    and "calculate_subrange (key_start st) (key_end st) (t_idx (td s)) n = (a, z)"
  shows "\<exists>s' last. linear_deletes e st s = Some s' \<and>
    written s' = written s @ map (\<lambda>i. (ns, se, of_nat i)) [unat a..<last] \<and>
    unat z \<le> last \<and> last < unat z + max 1 (unat (batch_delete_size st))"
proof -
  let ?b = "max 1 (unat (batch_delete_size st))"
  have le: "unat a \<le> unat z" using subrange_unat [OF assms(3,4,6,8)] by (simp add: div_le_mono)
  have "unat z \<le> stop_at ?b (unat a) (unat z)" using stop_at_simps(5) [of ?b "unat a" "unat z"] le by simp
  moreover have "stop_at ?b (unat a) (unat z) < unat z + ?b" using stop_at_simps(4) [of ?b "unat a" "unat z"] le by simp
  moreover have "\<exists>s'. linear_part e st linear_delete s = Some s' \<and>
      written s' = written s @ map (\<lambda>i. (ns, se, of_nat i)) [unat a..<stop_at ?b (unat a) (unat z)]"
    using linear_part_covers [where P = "deleter_ok st ns se" and step = linear_delete,
        OF assms(1) _ assms(7) linear_delete_step _ assms(2-4,6) refl assms(5)] assms(8)
    by (simp add: deleter_ok_def)
  ultimately show ?thesis unfolding linear_deletes_def by blast
qed

section \<open>Preparing and destroying records\<close>

lemma pct_to_fp_ok:
  assumes "0 \<le> x" and "x \<le> 100"
  shows "\<exists>a. pct_to_fp (Fin x) = Some a"
proof -
  have "is_float (of_nat 25 * 2 ^ 175 / 2 ^ 149)" by (rule is_float_intro) simp_all
  then obtain y where y: "to_float (16777216 * x) = Fin y" "0 \<le> y" "y \<le> 1677721600"
    using to_float_between [of "16777216 * x" 1677721600] assms by auto
  have "is_float (2 ^ 24)" by (rule is_float_power) simp
  then obtain z where "to_float (y / 100) = Fin z" "0 \<le> z" "z \<le> 16777216"
    using to_float_between [of "y / 100" 16777216] y by auto
  then show ?thesis using y by (simp add: pct_to_fp_def fp_to_unsigned_def)
qed

lemma pct_to_fp_ends: "pct_to_fp (Fin 0) = Some 0" "pct_to_fp (Fin 100) = Some 0x1000000"
proof -
  have 0: "to_float 0 = Fin 0" by (rule to_float_exact) (rule is_float_0)
  then show "pct_to_fp (Fin 0) = Some 0" by (simp add: pct_to_fp_def fp_to_unsigned_def)
  have "is_float (of_nat 25 * 2 ^ 175 / 2 ^ 149)" by (rule is_float_intro) simp_all
  then have 1: "to_float 1677721600 = Fin 1677721600" by (intro to_float_exact) simp
  have "is_float (2 ^ 24)" by (rule is_float_power) simp
  then have "to_float 16777216 = Fin 16777216" by (intro to_float_exact) simp
  then show "pct_to_fp (Fin 100) = Some 0x1000000" using 1 by (simp add: pct_to_fp_def fp_to_unsigned_def)
qed

lemma populate_frame:
  assumes "populate e st n bins s = Some (r, s')"
  shows "fixed_full_record (td s') = fixed_full_record (td s) \<and> fixed_partial_record (td s') = fixed_partial_record (td s)"
  using assms by (auto simp: populate_def split: gen.splits option.splits)

lemma init_writes_frame:
  assumes "init_writes e st s = Some s'" and "\<not> workload_contains_writes (stage_workload st)"
  shows "s' = s"
  using assms by (simp add: init_writes_def)

lemma init_writes_records:
  assumes "init_writes e st s = Some s'" and "workload_contains_writes (stage_workload st)"
  shows "\<not> fp_eq (write_all_pct (stage_workload st)) (Fin 0) \<Longrightarrow> \<exists>r. fixed_full_record (td s') = Live r"
    and "\<not> fp_eq (write_all_pct (stage_workload st)) (Fin 100) \<Longrightarrow> \<exists>r. fixed_partial_record (td s') = Live r"
  using assms by (auto simp: init_writes_def populate_full_def populate_partial_def
      split: bind_splits if_splits bins_ptr.splits dest!: populate_frame)

lemma init_udf_records:
  assumes "init_udf e st s = Some s'"
  shows "fixed_full_record (td s') = fixed_full_record (td s)" "fixed_partial_record (td s') = fixed_partial_record (td s)"
    "workload_contains_udfs (stage_workload st) \<Longrightarrow> \<exists>v. fixed_udf_fn_args (td s') = Live v"
  using assms by (auto simp: init_udf_def split: if_splits option.splits gen.splits)

lemma fp_eq_ends: "fp_eq p (Fin 0) \<Longrightarrow> \<not> fp_eq p (Fin 100)"
  by (cases p) simp_all

lemma init_deletes_records:
  assumes "init_deletes e st s = Some s'"
  shows "fixed_full_record (td s') = fixed_full_record (td s)" "fixed_partial_record (td s') = fixed_partial_record (td s)"
    "fixed_udf_fn_args (td s') = fixed_udf_fn_args (td s)"
    "workload_contains_deletes (stage_workload st) \<Longrightarrow> \<exists>r. fixed_delete_record (td s') = Live r"
  using assms by (auto simp: init_deletes_def Let_def workload_contains_deletes_def fp_eq_ends
      split: if_splits bind_splits bins_ptr.splits dest: fp_eq_ends)

lemma init_stage_parts:
  assumes "init_stage e st s = Some s'" and "\<not> random st"
  obtains s1 s2 where "init_writes e st (init_throttle st s) = Some s1" "init_udf e st s1 = Some s2" "init_deletes e st s2 = Some s'"
  using assms by (auto simp: init_stage_def split: bind_splits)


text \<open>
  For a stage that only reads, \<^verbatim>\<open>terminate_stage\<close> destroys a record that was never initialised: the
  percentage of whole writes keeps the value that stands for unset.
\<close>

theorem read_only_stage_destroys_garbage:
  assumes "init_stage e st s = Some s'" and "\<not> random st" and "fixed_full_record (td s) = Uninit"
    and "wtype (stage_workload st) = WORKLOAD_TYPE_RU" and "read_pct (stage_workload st) = Fin 100"
    and "write_all_pct (stage_workload st) = WORKLOAD_UNSET_PCT"
  shows "terminate_stage st s' = None"
proof -
  obtain s1 s2 where i: "init_writes e st (init_throttle st s) = Some s1" "init_udf e st s1 = Some s2" "init_deletes e st s2 = Some s'"
    using init_stage_parts [OF assms(1,2)] .
  have "s1 = init_throttle st s" using init_writes_frame [OF i(1)] assms(4,5) by (simp add: workload_contains_writes_def)
  then have "fixed_full_record (td s') = Uninit"
    using init_udf_records(1) [OF i(2)] init_deletes_records(1) [OF i(3)] assms(3)
    by (simp add: init_throttle_def set_stage_policies_def Let_def)
  then show ?thesis using assms(2,6) by (simp add: terminate_stage_def destroy_slot_def WORKLOAD_UNSET_PCT_def)
qed

section \<open>Witnesses\<close>

definition example_client :: "(unit, u64, (string \<times> as_val) list) env" where
  "example_client = \<lparr> env_om = example_om, env_rng = example_rng, env_cvt = (\<lambda>_. 0), name_size = 15, rec_api = example_api,
     as_record_new = (\<lambda>_. []), set_ttl = (\<lambda>_ r. r), as_record_set_nil = (\<lambda>r n. (n, As_bool False) # r),
     cf_getus = (\<lambda>w. (7, w)), clock_gettime = (\<lambda>w. (\<lparr> tv_sec = 1, tv_nsec = 0 \<rparr>, w)), submit = (\<lambda>rq w. (AEROSPIKE_OK, w)),
     thr_coordinator_sleep = (\<lambda>t w. w), thr_coordinator_complete = id, thr_coordinator_wait = id,
     do_work = (\<lambda>w. (True, w)), finished = (\<lambda>w. (False, w)), stage_idx = (\<lambda>w. (0, w)) \<rparr>"

definition example_insert :: stage where
  "example_insert = example_stage\<lparr> key_start := 5, key_end := 9, batch_write_size := 1, read_bins := Null_bins, write_bins := Null_bins,
     stage_workload := \<lparr> wtype = WORKLOAD_TYPE_I, read_pct = Fin 0, write_pct = Fin 0, read_all_pct = Fin 0, write_all_pct = Fin 100 \<rparr> \<rparr>"

definition example_cdata :: cdata where
  "example_cdata = \<lparr> cd_namespace = ''test'', cd_set = ''s'', cd_bin_name = ''b'', read_hit_count = 0, read_miss_count = 0,
     read_timeout_count = 0, read_error_count = 0, write_count = 0, write_timeout_count = 0, write_error_count = 0, udf_count = 0,
     udf_timeout_count = 0, udf_error_count = 0, hdr_comp_read_output = False, hdr_comp_write_output = False,
     hdr_comp_udf_output = False, read_hdr = [], write_hdr = [], udf_hdr = [], histogram_output = False,
     read_histogram = example_hist, write_histogram = example_hist, udf_histogram = example_hist, async_max_commands = 2,
     transaction_worker_threads = 2, compression_ratio = Fin 1, latency = False \<rparr>"

definition example_tdata :: "nat \<Rightarrow> (u64, (string \<times> as_val) list) tdata" where
  "example_tdata t = \<lparr> rand = 0, throttle_state = \<lparr> n_records = 0, last_rec = 0, target_period = Fin 0, avg_fn_delay = Fin 0 \<rparr>,
     t_idx = of_nat t, fixed_full_record = Live [], fixed_partial_record = Uninit, fixed_delete_record = Uninit,
     fixed_udf_fn_args = Uninit, write_exists = AS_POLICY_EXISTS_IGNORE, operate_exists = AS_POLICY_EXISTS_IGNORE,
     batch_write_exists = AS_POLICY_EXISTS_IGNORE, apply_ttl = 0 \<rparr>"

definition example_tx :: "nat \<Rightarrow> (unit, u64, (string \<times> as_val) list) tx" where
  "example_tx t = \<lparr> cd = example_cdata, td = example_tdata t, world = (), calls = [] \<rparr>"

lemma example_writer:
  "writer_ok example_insert ''test'' ''s'' (example_tx t) \<and> t_idx (td (example_tx t)) = of_nat t \<and>
   transaction_worker_threads (cd (example_tx t)) = 2 \<and> calls (example_tx t) = []"
  by (simp add: writer_ok_def record_ready_def hist_ready_def example_tx_def example_tdata_def example_cdata_def
      example_insert_def example_stage_def pct_to_fp_ends)


theorem sync_workload_accounted_witness:
  "\<exists>s' cs. do_sync_workload example_client example_insert (example_tx 0) = Some s' \<and> calls s' = cs \<and>
     write_count (cd s') = of_nat (length (filter (\<lambda>c. tally_of c = Write_ok) cs))"
proof -
  have "\<exists>s'. linear_part example_client example_insert linear_write (example_tx 0) = Some s'"
    using linear_part_covers [of example_client 1 example_insert "writer_ok example_insert ''test'' ''s''" linear_write "''test''" "''s''" "example_tx 0" 0 2]
      linear_write_step [of example_insert "''test''" "''s''" _ example_client] example_writer [of 0]
    by (auto simp: example_client_def example_insert_def writer_ok_def word_le_nat_alt)
  then obtain s' where s': "do_sync_workload example_client example_insert (example_tx 0) = Some s'"
    by (auto simp: do_sync_workload_def linear_writes_def example_insert_def)
  from sync_workload_accounted [OF s'] obtain cs where "calls s' = calls (example_tx 0) @ cs"
    "counter_of Write_ok (cd s') = counter_of Write_ok (cd (example_tx 0)) + of_nat (length (filter (\<lambda>c. tally_of c = Write_ok) cs))"
    by blast
  then show ?thesis using s' by (simp add: example_tx_def example_cdata_def)
qed

theorem subranges_partition_witness:
  "concat (map (\<lambda>t. case calculate_subrange 5 15 (of_nat t) 3 of (a, b) \<Rightarrow> [unat a..<unat b]) [0..<3]) = [5..<15]"
  using subranges_partition [of 5 15 3] by (simp add: word_le_nat_alt)

definition example_delete :: stage where
  "example_delete = example_insert\<lparr> batch_delete_size := 4, key_end := 15 \<rparr>"

theorem deletes_cover_part_witness:
  "\<exists>s' last. linear_deletes example_client example_delete ((example_tx 0)\<lparr> td := (example_tdata 0)\<lparr> fixed_delete_record := Live [] \<rparr> \<rparr>) = Some s' \<and>
     written s' = map (\<lambda>i. (''test'', ''s'', of_nat i)) [5..<last] \<and> 10 \<le> last \<and> last < 14"
proof -
  let ?s = "(example_tx 0)\<lparr> td := (example_tdata 0)\<lparr> fixed_delete_record := Live [] \<rparr> \<rparr>"
  have "deleter_ok example_delete ''test'' ''s'' ?s"
    by (simp add: deleter_ok_def hist_ready_def example_tx_def example_cdata_def example_tdata_def example_delete_def example_insert_def example_stage_def)
  moreover have "calculate_subrange (key_start example_delete) (key_end example_delete) (t_idx (td ?s)) 2 = (5, 10)"
    by (simp add: calculate_subrange_def example_delete_def example_insert_def example_tdata_def)
  ultimately show ?thesis
    using deletes_cover_part [of example_client example_delete "''test''" "''s''" ?s 2 5 10]
    by (simp add: example_client_def example_delete_def example_insert_def example_tx_def example_cdata_def example_tdata_def written_def word_le_nat_alt)
qed


definition example_reads :: stage where
  "example_reads = example_insert\<lparr> stage_workload := \<lparr> wtype = WORKLOAD_TYPE_RU, read_pct = Fin 100, write_pct = Fin 0,
     read_all_pct = Fin 100, write_all_pct = WORKLOAD_UNSET_PCT \<rparr> \<rparr>"

theorem read_only_stage_destroys_garbage_witness:
  "\<exists>s'. init_stage example_client example_reads ((example_tx 0)\<lparr> td := (example_tdata 0)\<lparr> fixed_full_record := Uninit \<rparr> \<rparr>) = Some s' \<and>
     terminate_stage example_reads s' = None"
proof -
  let ?s = "(example_tx 0)\<lparr> td := (example_tdata 0)\<lparr> fixed_full_record := Uninit \<rparr> \<rparr>"
  obtain s' where s': "init_stage example_client example_reads ?s = Some s'"
    by (simp add: init_stage_def init_writes_def init_udf_def init_deletes_def example_reads_def example_insert_def example_stage_def
        workload_contains_writes_def workload_contains_udfs_def workload_contains_deletes_def Let_def)
  have "terminate_stage example_reads s' = None"
    by (rule read_only_stage_destroys_garbage [OF s'])
      (simp_all add: example_reads_def example_insert_def example_stage_def)
  then show ?thesis using s' by blast
qed

end
