(* ===== verification/Transaction_Async.thy ===== *)
theory Transaction_Async
  imports Transaction_Ok
begin

text \<open>
  Asynchronous stages of \<^verbatim>\<open>transaction.c\<close>: thread 0 takes a free \<^verbatim>\<open>async_data_s\<close> from the queue, makes a
  call with it, and the callback, run by an event loop, counts the result and puts it back.

  The calling thread and the callbacks are the steps of a transition system.  A turn of the loop is
  one step: it shares with the callbacks only the counters, which are atomic, and the queue, whose
  concurrent accesses are those of the theory \<^verbatim>\<open>Queue\<close>.  A turn waits, as \<^verbatim>\<open>queue_pop_wait\<close> does, until
  the queue gives an item.
\<close>

section \<open>State\<close>

datatype async_op = read_op | write_op | delete_op | udf_op

text \<open>The memory of an item is not initialised: it has no operation until one is set.\<close>

record adata =
  ev_loop :: "nat option"
  start_time :: u64
  akey :: "as_key option"
  aop :: "async_op option"

datatype phase = Submitting | Draining | Returned

text \<open>
  The state of the thread, the queue of free items, the items whose calls are under way, the next key
  of a linear workload, and, as history, the number of callbacks that have run and of items drained.
\<close>

record ('w, 'r, 'rec) aconf =
  atx :: "('w, 'r, 'rec) tx"
  adata_q :: "adata queue"
  inflight :: "adata list"
  next_key :: u64
  aphase :: phase
  answered :: nat
  drained :: nat

section \<open>Callbacks\<close>

text \<open>\<open>err\<close> is \<open>None\<close> when the call succeeded; \<open>now\<close> is the time of the callback.\<close>

definition async_listener :: "as_status option \<Rightarrow> nat option \<Rightarrow> u64 \<Rightarrow> adata \<Rightarrow> cdata \<Rightarrow> (cdata \<times> adata) option" where
  "async_listener err event_loop now a c = do {
     op \<leftarrow> aop a;
     case err of
       None \<Rightarrow> do {
         c \<leftarrow> (if op = read_op then record_read c (now - start_time a)
               else if op = udf_op then record_udf c (now - start_time a)
               else record_write c (now - start_time a));
         Some (c, a\<lparr> ev_loop := event_loop \<rparr>) }
     | Some code \<Rightarrow>
         let c = (if code = AEROSPIKE_ERR_TIMEOUT then
                    if op = read_op then c\<lparr> read_timeout_count := read_timeout_count c + 1 \<rparr>
                    else if op = udf_op then c\<lparr> udf_timeout_count := udf_timeout_count c + 1 \<rparr>
                    else c\<lparr> write_timeout_count := write_timeout_count c + 1 \<rparr>
                  else
                    if op = read_op then c\<lparr> read_error_count := read_error_count c + 1 \<rparr>
                    else if op = udf_op then c\<lparr> udf_error_count := udf_error_count c + 1 \<rparr>
                    else c\<lparr> write_error_count := write_error_count c + 1 \<rparr>)
         in Some (c, if code = AEROSPIKE_ERR_NO_MORE_CONNECTIONS then a\<lparr> ev_loop := None \<rparr> else a) }"

text \<open>The callback of a call: the accounting, and the item goes back on the queue.\<close>

definition callback :: "as_status option \<Rightarrow> nat option \<Rightarrow> u64 \<Rightarrow> adata \<Rightarrow> ('w, 'r, 'rec) aconf \<Rightarrow> ('w, 'r, 'rec) aconf option" where
  "callback err event_loop now a x = do {
     (c, a) \<leftarrow> async_listener err event_loop now a (cd (atx x));
     Some (x\<lparr> atx := (atx x)\<lparr> cd := c \<rparr>, adata_q := queue_push (adata_q x) a, answered := answered x + 1 \<rparr>) }"

section \<open>Asynchronous calls\<close>

text \<open>A call that the client refuses is answered at once.\<close>

definition async_call :: "('w, 'r, 'rec) env \<Rightarrow> 'rec request \<Rightarrow> adata \<Rightarrow> ('w, 'r, 'rec) aconf \<Rightarrow> ('w, 'r, 'rec) aconf option" where
  "async_call e rq a x =
     (let s = atx x; (start, w) = cf_getus e (world s); (status, w) = submit e rq w;
          a = a\<lparr> start_time := start \<rparr>;
          x = x\<lparr> atx := s\<lparr> world := w, calls := calls s @ [(rq, status)] \<rparr> \<rparr>
      in if status \<noteq> AEROSPIKE_OK then callback (Some status) (ev_loop a) start a x
         else Some (x\<lparr> inflight := inflight x @ [a] \<rparr>))"

definition write_record_async where
  "write_record_async e k ref a x = do { r \<leftarrow> deref (td (atx x)) ref; async_call e (Put k r) a x }"

definition batch_write_record_async where
  "batch_write_record_async e batch a x = async_call e (Batch_write batch) a x"

definition read_record_async where
  "read_record_async e st k a x =
     (case read_bins st of
        Wild \<Rightarrow> None
      | Bins names \<Rightarrow> async_call e (Select k names) a x
      | Null_bins \<Rightarrow> async_call e (Get k) a x)"

definition batch_read_record_async where
  "batch_read_record_async e ks a x = async_call e (Batch_read ks) a x"

definition apply_udf_async where
  "apply_udf_async e st k a x = do {
     (args, s) \<leftarrow> udf_call_args e st (atx x);
     async_call e (Apply k (udf_package_name st) (udf_fn_name st) args) a (x\<lparr> atx := s \<rparr>) }"

text \<open>Destroying a record after the call.\<close>

definition destroy_after where
  "destroy_after st ref x = map_option (\<lambda>s. x\<lparr> atx := s \<rparr>) (destroy_record st ref (atx x))"

section \<open>Asynchronous transactions\<close>

definition random_read_async where
  "random_read_async e st a x =
     (let a = a\<lparr> aop := Some read_op \<rparr>
      in if batch_read_size st \<le> 1 then do {
           (k, s) \<leftarrow> random_key e st (atx x); read_record_async e st k (a\<lparr> akey := Some k \<rparr>) (x\<lparr> atx := s \<rparr>) }
         else do {
           (ks, s) \<leftarrow> gen_batch_reads e st (unat (batch_read_size st)) (atx x);
           batch_read_record_async e ks a (x\<lparr> atx := s \<rparr>) })"

definition random_write_async where
  "random_write_async e st a x =
     (let a = a\<lparr> aop := Some write_op \<rparr>
      in if batch_write_size st \<le> 1 then do {
           (k, s) \<leftarrow> random_key e st (atx x);
           (ref, s) \<leftarrow> gen_record e st s;
           x \<leftarrow> write_record_async e k ref (a\<lparr> akey := Some k \<rparr>) (x\<lparr> atx := s \<rparr>);
           destroy_after st ref x }
         else do {
           (batch, s) \<leftarrow> gen_batch_writes_random_keys e st (atx x);
           batch_write_record_async e batch a (x\<lparr> atx := s \<rparr>) })"

definition random_udf_async where
  "random_udf_async e st a x = do {
     (k, s) \<leftarrow> random_key e st (atx x);
     apply_udf_async e st k (a\<lparr> akey := Some k, aop := Some udf_op \<rparr>) (x\<lparr> atx := s \<rparr>) }"

text \<open>The operation is set for a single delete only.\<close>

definition random_delete_async where
  "random_delete_async e st a x =
     (if batch_delete_size st \<le> 1 then do {
        (k, s) \<leftarrow> random_key e st (atx x);
        x \<leftarrow> write_record_async e k gen_nil_record (a\<lparr> akey := Some k, aop := Some write_op \<rparr>) (x\<lparr> atx := s \<rparr>);
        destroy_after st gen_nil_record x }
      else do {
        (batch, s) \<leftarrow> gen_batch_deletes_random_keys e st (atx x);
        batch_write_record_async e batch a (x\<lparr> atx := s \<rparr>) })"

text \<open>One turn of \<^verbatim>\<open>linear_writes_async\<close> and of \<^verbatim>\<open>linear_deletes_async\<close>; \<open>next_key\<close> is the key.\<close>

definition linear_writes_async where
  "linear_writes_async e st a x =
     (let a = a\<lparr> aop := Some write_op \<rparr>; k = next_key x
      in if batch_write_size st \<le> 1 then do {
           (ref, s) \<leftarrow> gen_record e st (atx x);
           x \<leftarrow> write_record_async e (gen_key_val (cd (atx x)) k) ref (a\<lparr> akey := Some (gen_key_val (cd (atx x)) k) \<rparr>) (x\<lparr> atx := s \<rparr>);
           x \<leftarrow> destroy_after st ref x;
           Some (x\<lparr> next_key := k + 1 \<rparr>) }
         else do {
           (batch, s) \<leftarrow> gen_batch_writes_sequential_keys e st k (atx x);
           x \<leftarrow> batch_write_record_async e batch a (x\<lparr> atx := s \<rparr>);
           Some (x\<lparr> next_key := k + ucast (batch_write_size st) \<rparr>) })"

definition linear_deletes_async where
  "linear_deletes_async e st a x =
     (let a = a\<lparr> aop := Some delete_op \<rparr>; k = next_key x
      in if batch_delete_size st \<le> 1 then do {
           x \<leftarrow> write_record_async e (gen_key_val (cd (atx x)) k) gen_nil_record (a\<lparr> akey := Some (gen_key_val (cd (atx x)) k) \<rparr>) x;
           x \<leftarrow> destroy_after st gen_nil_record x;
           Some (x\<lparr> next_key := k + 1 \<rparr>) }
         else do {
           (batch, s) \<leftarrow> gen_batch_deletes_sequential_keys e st k (atx x);
           x \<leftarrow> batch_write_record_async e batch a (x\<lparr> atx := s \<rparr>);
           Some (x\<lparr> next_key := k + ucast (batch_delete_size st) \<rparr>) })"

text \<open>The choice of one turn of the random workloads.\<close>

definition roll :: "('w, 'r, 'rec) env \<Rightarrow> ('w, 'r, 'rec) aconf \<Rightarrow> u32 \<times> ('w, 'r, 'rec) aconf" where
  "roll e x = (let (die, s) = random_fp e (atx x) in (die, x\<lparr> atx := s \<rparr>))"

definition random_read_write_async where
  "random_read_write_async e st a x = do {
     rd \<leftarrow> pct_to_fp (read_pct (stage_workload st));
     let (die, x) = roll e x in
     if die < rd then random_read_async e st a x else random_write_async e st a x }"

definition random_three_async where
  "random_three_async e st other a x = do {
     rd \<leftarrow> pct_to_fp (read_pct (stage_workload st));
     wr \<leftarrow> pct_to_fp (write_pct (stage_workload st));
     let (die, x) = roll e x in
     if die < rd then random_read_async e st a x else if die < rd + wr then random_write_async e st a x else other e st a x }"

definition random_read_write_udf_async where
  "random_read_write_udf_async e st a x = random_three_async e st random_udf_async a x"

definition random_read_write_delete_async where
  "random_read_write_delete_async e st a x = random_three_async e st random_delete_async a x"

definition async_choice where
  "async_choice e st a x =
     (case wtype (stage_workload st) of
        WORKLOAD_TYPE_I \<Rightarrow> linear_writes_async e st a x
      | WORKLOAD_TYPE_RU \<Rightarrow> random_read_write_async e st a x
      | WORKLOAD_TYPE_RR \<Rightarrow> random_read_write_async e st a x
      | WORKLOAD_TYPE_RUF \<Rightarrow> random_read_write_udf_async e st a x
      | WORKLOAD_TYPE_D \<Rightarrow> linear_deletes_async e st a x
      | WORKLOAD_TYPE_RUD \<Rightarrow> random_read_write_delete_async e st a x)"

text \<open>A turn: the time, the transaction, and the pause until the next.\<close>

definition async_turn where
  "async_turn e st a x =
     (let (wake, w) = clock_gettime e (world (atx x)); start = timespec_to_us wake;
          x = x\<lparr> atx := (atx x)\<lparr> world := w \<rparr> \<rparr>
      in do {
        x \<leftarrow> async_choice e st (a\<lparr> start_time := start \<rparr>) x;
        let s = atx x; (pause_for, thr) = dyn_throttle_pause_for (env_cvt e) (throttle_state (td s)) start in
        Some (x\<lparr> atx := s\<lparr> td := (td s)\<lparr> throttle_state := thr \<rparr>,
                           world := thr_coordinator_sleep e (timespec_add_us wake pause_for) (world s) \<rparr> \<rparr>) })"

section \<open>The transition system\<close>

definition is_linear :: "stage \<Rightarrow> bool" where
  "is_linear st \<longleftrightarrow> wtype (stage_workload st) \<in> {WORKLOAD_TYPE_I, WORKLOAD_TYPE_D}"

text \<open>
  \<open>n\<close> is the number of items.  The loop may stop before any turn, when \<^verbatim>\<open>do_work\<close> is cleared; a linear
  workload stops at the last key, and tells the coordinator then.
\<close>

inductive async_step :: "('w, 'r, 'rec) env \<Rightarrow> stage \<Rightarrow> nat \<Rightarrow> ('w, 'r, 'rec) aconf \<Rightarrow> ('w, 'r, 'rec) aconf \<Rightarrow> bool"
  for e st n where
  turn:
    "aphase x = Submitting \<Longrightarrow> (is_linear st \<longrightarrow> next_key x < key_end st) \<Longrightarrow> queue_pop (adata_q x) = (Some a, q) \<Longrightarrow>
     async_turn e st a (x\<lparr> adata_q := q \<rparr>) = Some x' \<Longrightarrow> async_step e st n x x'"
| stop:
    "aphase x = Submitting \<Longrightarrow>
     async_step e st n x (x\<lparr> aphase := Draining, atx := (if is_linear st then complete e (atx x) else atx x) \<rparr>)"
| answer:
    "inflight x = as @ a # bs \<Longrightarrow> callback err event_loop now a (x\<lparr> inflight := as @ bs \<rparr>) = Some x' \<Longrightarrow> async_step e st n x x'"
| drain:
    "aphase x = Draining \<Longrightarrow> drained x < n \<Longrightarrow> queue_pop (adata_q x) = (Some a, q) \<Longrightarrow>
     async_step e st n x (x\<lparr> adata_q := q, drained := drained x + 1 \<rparr>)"
| return:
    "aphase x = Draining \<Longrightarrow> drained x = n \<Longrightarrow> async_step e st n x (x\<lparr> aphase := Returned \<rparr>)"

text \<open>The items, made and put on the queue.\<close>

definition fresh_adata :: adata where
  "fresh_adata = \<lparr> ev_loop = None, start_time = 0, akey = None, aop = None \<rparr>"

fun push_fresh :: "nat \<Rightarrow> adata queue \<Rightarrow> adata queue" where
  "push_fresh 0 q = q"
| "push_fresh (Suc n) q = push_fresh n (queue_push q fresh_adata)"

text \<open>
  \<^verbatim>\<open>do_async_workload\<close>: every thread but the first is done at once (\<open>Inl\<close>); the first starts the loop
  (\<open>Inr\<close>), having told the coordinator already if the workload is not linear.
\<close>

definition do_async_workload where
  "do_async_workload e st s =
     (if t_idx (td s) \<noteq> 0 then Some (Inl (complete e s))
      else case queue_init (async_max_commands (cd s)) of
             Inl _ \<Rightarrow> None
           | Inr q \<Rightarrow>
               Some (Inr \<lparr> atx = (if is_linear st then s else complete e s), adata_q = push_fresh (unat (async_max_commands (cd s))) q,
                           inflight = [], next_key = key_start st, aphase = Submitting, answered = 0, drained = 0 \<rparr>))"

end
