(* ===== verification/Async_Ok.thy ===== *)
theory Async_Ok
  imports Transaction_Async
begin

text \<open>
  What asynchronous stages guarantee: every item is in the queue, in a call or drained, every call is
  answered and counted once, and the stage returns only when no call is under way.
\<close>

section \<open>The effect of a turn\<close>

text \<open>One call, which is under way or has been answered.\<close>

definition turn_effect :: "('w, 'r, 'rec) aconf \<Rightarrow> ('w, 'r, 'rec) aconf \<Rightarrow> bool" where
  "turn_effect x x' \<longleftrightarrow>
     length (calls (atx x')) = length (calls (atx x)) + 1 \<and> aphase x' = aphase x \<and> drained x' = drained x \<and>
     ((\<exists>a. inflight x' = inflight x @ [a]) \<and> adata_q x' = adata_q x \<and> answered x' = answered x \<or>
      inflight x' = inflight x \<and> (\<exists>a. adata_q x' = queue_push (adata_q x) a) \<and> answered x' = answered x + 1)"

text \<open>All counters together; a callback adds one.\<close>

definition total_count :: "cdata \<Rightarrow> u64" where
  "total_count c = read_hit_count c + read_miss_count c + read_timeout_count c + read_error_count c + write_count c +
     write_timeout_count c + write_error_count c + udf_count c + udf_timeout_count c + udf_error_count c"

lemma total_record:
  "record_read c dt = Some c' \<Longrightarrow> total_count c' = total_count c + 1"
  "record_write c dt = Some c' \<Longrightarrow> total_count c' = total_count c + 1"
  "record_udf c dt = Some c' \<Longrightarrow> total_count c' = total_count c + 1"
  by (auto simp: total_count_def record_read_def record_write_def record_udf_def Let_def split: if_splits bind_splits)

lemma total_listener:
  assumes "async_listener err l now a c = Some (c', a')"
  shows "total_count c' = total_count c + 1"
proof (cases err)
  case None
  then show ?thesis using assms by (auto simp: async_listener_def split: bind_splits if_splits dest!: total_record)
next
  case (Some code)
  then show ?thesis
    using assms by (auto simp: async_listener_def total_count_def Let_def split: bind_splits if_splits)
qed

definition counted :: "('w, 'r, 'rec) aconf \<Rightarrow> ('w, 'r, 'rec) aconf \<Rightarrow> bool" where
  "counted x x' \<longleftrightarrow> total_count (cd (atx x')) - total_count (cd (atx x)) = of_nat (answered x' - answered x) \<and> answered x \<le> answered x'"

definition one_call :: "('w, 'r, 'rec) aconf \<Rightarrow> ('w, 'r, 'rec) aconf \<Rightarrow> bool" where
  "one_call x x' \<longleftrightarrow> turn_effect x x' \<and> counted x x'"

lemma callback_effect:
  assumes "callback err l now a x = Some x'"
  shows "calls (atx x') = calls (atx x)" "aphase x' = aphase x" "drained x' = drained x" "inflight x' = inflight x"
    "\<exists>a'. adata_q x' = queue_push (adata_q x) a'" "answered x' = answered x + 1" "counted x x'"
  using assms by (auto simp: callback_def counted_def split: bind_splits dest: total_listener)

lemma async_call_effect:
  assumes "async_call e rq a x = Some x'"
  shows "one_call x x'"
proof -
  obtain start w where 1: "cf_getus e (world (atx x)) = (start, w)" by fastforce
  obtain status w2 where 2: "submit e rq w = (status, w2)" by fastforce
  let ?x = "x\<lparr> atx := (atx x)\<lparr> world := w2, calls := calls (atx x) @ [(rq, status)] \<rparr> \<rparr>"
  show ?thesis
  proof (cases "status = AEROSPIKE_OK")
    case True
    then show ?thesis using assms 1 2 by (auto simp: async_call_def one_call_def turn_effect_def counted_def Let_def)
  next
    case False
    then have "callback (Some status) (ev_loop a) start (a\<lparr> start_time := start \<rparr>) ?x = Some x'"
      using assms 1 2 by (simp add: async_call_def Let_def)
    from callback_effect [OF this] show ?thesis by (auto simp: one_call_def turn_effect_def counted_def)
  qed
qed

text \<open>Changes before and after the call that neither call nor count.\<close>

lemma effect_before:
  assumes "quiet (atx x) s" and "one_call (x\<lparr> atx := s \<rparr>) x'"
  shows "one_call x x'"
  using assms by (simp add: quiet_def one_call_def turn_effect_def counted_def)

lemma effect_after:
  assumes "one_call x x'" and "quiet (atx x') s"
  shows "one_call x (x'\<lparr> atx := s \<rparr>)"
  using assms by (simp add: quiet_def one_call_def turn_effect_def counted_def)

lemma effect_key: "one_call x (x'\<lparr> next_key := k \<rparr>) = one_call x x'"
  by (simp add: one_call_def turn_effect_def counted_def)

lemma destroy_after_effect:
  assumes "destroy_after st ref x' = Some x''" and "one_call x x'"
  shows "one_call x x''"
  using assms effect_after destroy_record_quiet by (fastforce simp: destroy_after_def)

lemma call_effects:
  "write_record_async e k ref a x = Some x' \<Longrightarrow> one_call x x'"
  "batch_write_record_async e b a x = Some x' \<Longrightarrow> one_call x x'"
  "read_record_async e st k a x = Some x' \<Longrightarrow> one_call x x'"
  "batch_read_record_async e ks a x = Some x' \<Longrightarrow> one_call x x'"
  by (auto simp: write_record_async_def batch_write_record_async_def read_record_async_def batch_read_record_async_def
      split: bind_splits bins_ptr.splits intro: async_call_effect)

lemma apply_udf_async_effect:
  assumes "apply_udf_async e st k a x = Some x'"
  shows "one_call x x'"
proof -
  obtain args s where "udf_call_args e st (atx x) = Some (args, s)"
    "async_call e (Apply k (udf_package_name st) (udf_fn_name st) args) a (x\<lparr> atx := s \<rparr>) = Some x'"
    using assms by (auto simp: apply_udf_async_def split: bind_splits)
  then show ?thesis using effect_before udf_call_args_quiet async_call_effect by blast
qed

lemmas quiet_gen = random_key_quiet gen_record_quiet gen_batch_writes_quiet gen_batch_deletes_quiet gen_batch_reads_quiet

lemma transaction_effects:
  "random_read_async e st a x = Some x' \<Longrightarrow> one_call x x'"
  "random_write_async e st a x = Some x' \<Longrightarrow> one_call x x'"
  "random_udf_async e st a x = Some x' \<Longrightarrow> one_call x x'"
  "random_delete_async e st a x = Some x' \<Longrightarrow> one_call x x'"
  "linear_writes_async e st a x = Some x' \<Longrightarrow> one_call x x'"
  "linear_deletes_async e st a x = Some x' \<Longrightarrow> one_call x x'"
  by (auto simp: random_read_async_def random_write_async_def random_udf_async_def random_delete_async_def
      linear_writes_async_def linear_deletes_async_def gen_batch_writes_random_keys_def gen_batch_deletes_random_keys_def
      gen_batch_writes_sequential_keys_def gen_batch_deletes_sequential_keys_def Let_def effect_key
      split: if_splits bind_splits dest!: quiet_gen call_effects apply_udf_async_effect destroy_after_effect
      intro: effect_before)
    (blast intro: effect_before quiet_trans)+

lemma async_choice_effect:
  assumes "async_choice e st a x = Some x'"
  shows "one_call x x'"
proof -
  have roll: "one_call x x'" if "roll e x = (die, x1)" "one_call x1 x'" for die x1
    using that quiet_steps(1) [of "atx x" e] effect_before [of x _ x'] by (auto simp: roll_def split: prod.splits)
  have three: "one_call x x'" if "random_three_async e st other a x = Some x'"
    "\<And>x x'. other e st a x = Some x' \<Longrightarrow> one_call x x'" for other
    using that(1) by (auto simp: random_three_async_def split: bind_splits prod.splits if_splits
        dest!: transaction_effects(1,2) that(2) intro: roll)
  show ?thesis
    using assms three [OF _ transaction_effects(3)] three [OF _ transaction_effects(4)]
    by (auto simp: async_choice_def random_read_write_async_def random_read_write_udf_async_def random_read_write_delete_async_def
        split: workload_type.splits bind_splits prod.splits if_splits dest!: transaction_effects(1,2) intro: roll transaction_effects)
qed

lemma async_turn_effect:
  assumes "async_turn e st a x = Some x'"
  shows "one_call x x'"
proof -
  obtain wake w where 1: "clock_gettime e (world (atx x)) = (wake, w)" by fastforce
  let ?s = "(atx x)\<lparr> world := w \<rparr>"
  obtain x1 where x1: "async_choice e st (a\<lparr> start_time := timespec_to_us wake \<rparr>) (x\<lparr> atx := ?s \<rparr>) = Some x1"
    using assms 1 by (auto simp: async_turn_def Let_def split: bind_splits)
  obtain pause thr where 2: "dyn_throttle_pause_for (env_cvt e) (throttle_state (td (atx x1))) (timespec_to_us wake) = (pause, thr)" by fastforce
  let ?s' = "(atx x1)\<lparr> td := (td (atx x1))\<lparr> throttle_state := thr \<rparr>,
    world := thr_coordinator_sleep e (timespec_add_us wake pause) (world (atx x1)) \<rparr>"
  have x': "x' = x1\<lparr> atx := ?s' \<rparr>" using assms 1 2 x1 by (simp add: async_turn_def Let_def)
  have "one_call x x1" by (rule effect_before [OF _ async_choice_effect [OF x1]]) (simp add: quiet_def)
  then show ?thesis unfolding x' by (rule effect_after) (simp add: quiet_def)
qed

section \<open>The invariant\<close>

text \<open>\<open>x0\<close> is the state in which the loop starts.\<close>

definition async_inv :: "nat \<Rightarrow> ('w, 'r, 'rec) aconf \<Rightarrow> ('w, 'r, 'rec) aconf \<Rightarrow> bool" where
  "async_inv n x0 x \<longleftrightarrow>
     queue_inv (adata_q x) \<and> n \<le> capacity (adata_q x) \<and>
     length (contents (adata_q x)) + length (inflight x) + drained x = n \<and>
     length (calls (atx x)) = length (calls (atx x0)) + answered x + length (inflight x) \<and>
     total_count (cd (atx x)) = total_count (cd (atx x0)) + of_nat (answered x) \<and>
     (drained x = 0 \<or> aphase x \<noteq> Submitting) \<and> (aphase x = Returned \<longrightarrow> drained x = n)"

lemma pop_Some:
  assumes "queue_inv q" and "queue_pop q = (Some a, q')"
  shows "queue_inv q' \<and> contents q = a # contents q' \<and> capacity q' = capacity q"
proof (cases "contents q")
  case Nil
  then show ?thesis using assms lq.deq_empty by fastforce
next
  case (Cons y ys)
  then show ?thesis
    using assms lq.deq_inv [OF assms(1)] lq.deq_item [OF assms(1) Cons] lq.deq_cont [OF assms(1)] lq.deq_cap [of q] by simp
qed

lemma counted_total:
  assumes "counted x x'"
  shows "total_count (cd (atx x')) = total_count (cd (atx x)) + of_nat (answered x' - answered x)"
  using assms by (simp add: counted_def algebra_simps)

lemma async_step_inv:
  assumes "async_step e st n x x'" and inv: "async_inv n x0 x"
  shows "async_inv n x0 x'"
  using assms(1)
proof cases
  case (turn a q)
  note q = pop_Some [OF _ turn(3)]
  have o: "turn_effect (x\<lparr> adata_q := q \<rparr>) x'" "counted (x\<lparr> adata_q := q \<rparr>) x'"
    using async_turn_effect [OF turn(4)] by (simp_all add: one_call_def)
  have room: "length (contents q) < capacity q" "queue_inv q" using q inv by (auto simp: async_inv_def)
  show ?thesis
    using o q inv turn(1) lq.enq_inv [OF room(2,1)] lq.enq_cont [OF room(2,1)] counted_total [OF o(2)]
    by (auto simp: async_inv_def turn_effect_def)
next
  case stop
  then show ?thesis using inv by (auto simp: async_inv_def complete_def)
next
  case (answer as a bs err event_loop now)
  note c = callback_effect [OF answer(2)]
  have room: "length (contents (adata_q x)) < capacity (adata_q x)" "queue_inv (adata_q x)"
    using inv answer(1) by (auto simp: async_inv_def)
  show ?thesis
    using c inv answer(1) lq.enq_inv [OF room(2,1)] lq.enq_cont [OF room(2,1)] counted_total [OF c(7)]
    by (auto simp: async_inv_def)
next
  case (drain a q)
  then show ?thesis using inv pop_Some [OF _ drain(4)] by (auto simp: async_inv_def)
next
  case return
  then show ?thesis using inv by (auto simp: async_inv_def)
qed

interpretation ac: preserved "async_step e st n" "async_inv n x0" for e st n x0
  by unfold_locales (rule async_step_inv)

lemma async_reachable_inv:
  assumes "(async_step e st n)\<^sup>*\<^sup>* x0 x" and "async_inv n x0 x0"
  shows "async_inv n x0 x"
  using ac.reach_inv [OF assms] .

lemma push_fresh_ok:
  assumes "queue_inv q" and "length (contents q) + n \<le> capacity q"
  shows "queue_inv (push_fresh n q) \<and> length (contents (push_fresh n q)) = length (contents q) + n \<and> capacity (push_fresh n q) = capacity q"
  using assms
proof (induction n arbitrary: q)
  case (Suc n)
  then show ?case using Suc.IH [of "queue_push q fresh_adata"] lq.enq_inv [of q] lq.enq_cont [of q] by simp
qed simp

lemma do_async_inv:
  assumes "do_async_workload e st s = Some (Inr x0)" and "async_max_commands (cd s) \<noteq> 0" and "unat (async_max_commands (cd s)) < 2 ^ 31"
  shows "async_inv (unat (async_max_commands (cd s))) x0 x0" "calls (atx x0) = calls s" "cd (atx x0) = cd s"
proof -
  let ?n = "async_max_commands (cd s)"
  obtain q :: "adata queue" where q: "queue_init ?n = Inr q" "queue_rel (bit_length (unat ?n)) q 0 []"
    using queue_init_rel [OF assms(2,3)] by blast
  have "queue_inv q" "contents q = []" using q(2) queue_rel_contents by (auto simp: queue_inv_def)
  moreover have "unat ?n \<le> capacity q"
    using queue_rel_capacity [OF q(2)] less_2_power_bit_length [of "unat ?n"] by simp
  ultimately have p: "queue_inv (push_fresh (unat ?n) q)" "length (contents (push_fresh (unat ?n) q)) = unat ?n"
    "unat ?n \<le> capacity (push_fresh (unat ?n) q)"
    using push_fresh_ok [of q "unat ?n"] by auto
  have x0: "adata_q x0 = push_fresh (unat ?n) q" "inflight x0 = []" "aphase x0 = Submitting" "answered x0 = 0" "drained x0 = 0"
    "calls (atx x0) = calls s" "cd (atx x0) = cd s"
    using assms(1) q(1) by (auto simp: do_async_workload_def complete_def split: if_splits)
  then show "async_inv (unat ?n) x0 x0" "calls (atx x0) = calls s" "cd (atx x0) = cd s" using p by (simp_all add: async_inv_def)
qed

section \<open>Properties\<close>

text \<open>
  C6. At any moment of an asynchronous stage every item is in the queue, in a call that is under way, or
  drained; every call has been answered or is under way, and the counters have grown by the number of
  answers.  When the stage returns, no call is under way; until then, while the stage drains, the queue has
  an item or a call is under way.
\<close>

theorem async_conservation:
  assumes "do_async_workload e st s = Some (Inr x0)" and "async_max_commands (cd s) = n" and "n \<noteq> 0" and "unat n < 2 ^ 31"
    and "(async_step e st (unat n))\<^sup>*\<^sup>* x0 x"
  shows "length (contents (adata_q x)) + length (inflight x) + drained x = unat n \<and>
    length (calls (atx x)) = length (calls s) + answered x + length (inflight x) \<and>
    total_count (cd (atx x)) = total_count (cd s) + of_nat (answered x) \<and>
    (aphase x = Returned \<longrightarrow> inflight x = []) \<and>
    (aphase x = Draining \<longrightarrow> drained x = unat n \<or> contents (adata_q x) \<noteq> [] \<or> inflight x \<noteq> [])"
proof -
  have i: "async_inv (unat n) x0 x0" "calls (atx x0) = calls s" "cd (atx x0) = cd s"
    using do_async_inv [OF assms(1)] assms(2-4) by auto
  show ?thesis using async_reachable_inv [OF assms(5) i(1)] i(2,3) by (auto simp: async_inv_def)
qed

text \<open>Answers that are errors are always defined once the item has an operation.\<close>

lemma timeout_answer:
  assumes "inflight x = a # bs" and "aop a \<noteq> None"
  shows "\<exists>x' a'. async_step e st n x x' \<and> inflight x' = bs \<and> drained x' = drained x \<and> aphase x' = aphase x \<and>
    adata_q x' = queue_push (adata_q x) a'"
proof -
  obtain c' a' where l: "async_listener (Some AEROSPIKE_ERR_TIMEOUT) None 0 a (cd (atx x)) = Some (c', a')"
    using assms(2) by (auto simp: async_listener_def Let_def)
  let ?x = "x\<lparr> inflight := bs, atx := (atx x)\<lparr> cd := c' \<rparr>, adata_q := queue_push (adata_q x) a', answered := answered x + 1 \<rparr>"
  have "callback (Some AEROSPIKE_ERR_TIMEOUT) None 0 a (x\<lparr> inflight := [] @ bs \<rparr>) = Some ?x"
    using l by (simp add: callback_def)
  then have "async_step e st n x ?x" using assms(1) by (intro answer [of x "[]" a bs]) simp_all
  then show ?thesis by (intro exI [of _ ?x] exI [of _ a']) simp
qed


text \<open>
  A batch of random deletes does not set the operation of its item: the item keeps the operation of the call
  before, and if that was a read the deletes are counted, and their time recorded, as a read.
\<close>

theorem batch_delete_counted_as_read:
  assumes "random_delete_async e st a x = Some x'" and "1 < batch_delete_size st" and "aop a = Some read_op"
    and "inflight x' \<noteq> inflight x"
  shows "\<exists>a'. inflight x' = inflight x @ [a'] \<and>
    (\<forall>l now c c'. record_read c (now - start_time a') = Some c' \<longrightarrow> async_listener None l now a' c = Some (c', a'\<lparr> ev_loop := l \<rparr>))"
proof -
  obtain batch s where "async_call e (Batch_write batch) a (x\<lparr> atx := s \<rparr>) = Some x'"
    using assms(1,2) by (simp add: random_delete_async_def batch_write_record_async_def not_le [symmetric]) (auto split: bind_splits)
  then show ?thesis
    using assms(3,4) by (auto simp: async_call_def async_listener_def Let_def split: prod.splits if_splits dest: callback_effect(4))
qed

text \<open>
  With random records a single random delete destroys the record that all deletes of the stage use; the next
  one uses it after it was destroyed.
\<close>

theorem random_delete_async_destroys:
  assumes "random_delete_async e st a x = Some x'" and "batch_delete_size st \<le> 1" and "random st"
  shows "random_delete_async e st b x' = None"
proof -
  obtain y where "destroy_after st Delete_ref y = Some x'"
    using assms(1,2) by (simp add: random_delete_async_def gen_nil_record_def) (auto split: bind_splits)
  then have d: "fixed_delete_record (td (atx x')) = Destroyed"
    using assms(3) by (auto simp: destroy_after_def destroy_record_def destroy_slot_def split: slot.splits)
  have "fixed_delete_record (td s) = Destroyed" if "random_key e st (atx x') = Some (k, s)" for k s
    using that d by (auto simp: random_key_def split: bind_splits)
  then show ?thesis
    using assms(2) by (auto simp: random_delete_async_def write_record_async_def gen_nil_record_def bind_eq_None_conv split: prod.splits)
qed

section \<open>Witnesses\<close>

lemma example_async:
  obtains x0 where "do_async_workload example_client example_insert (example_tx 0) = Some (Inr x0)"
    "async_inv 2 x0 x0" "aphase x0 = Submitting" "inflight x0 = []"
proof -
  have c: "async_max_commands (cd (example_tx 0)) = 2" "t_idx (td (example_tx 0)) = 0"
    by (simp_all add: example_tx_def example_cdata_def example_tdata_def)
  obtain q :: "adata queue" where q: "queue_init 2 = Inr q" using queue_init_rel [of 2, where 'a = adata] by auto
  then obtain x0 where x0: "do_async_workload example_client example_insert (example_tx 0) = Some (Inr x0)"
    "aphase x0 = Submitting" "inflight x0 = []"
    using c by (simp add: do_async_workload_def)
  moreover have "async_inv 2 x0 x0" using do_async_inv(1) [OF x0(1)] c by simp
  ultimately show ?thesis using that by blast
qed

theorem async_conservation_witness:
  "\<exists>x0 x. do_async_workload example_client example_insert (example_tx 0) = Some (Inr x0) \<and>
     async_step example_client example_insert 2 x0 x \<and> length (contents (adata_q x)) + length (inflight x) + drained x = 2"
proof (rule example_async)
  fix x0
  assume x0: "do_async_workload example_client example_insert (example_tx 0) = Some (Inr x0)" "aphase x0 = Submitting"
  then have st: "async_step example_client example_insert 2 x0
    (x0\<lparr> aphase := Draining, atx := (if is_linear example_insert then complete example_client (atx x0) else atx x0) \<rparr>)" (is "async_step _ _ _ _ ?x")
    by (intro stop)
  have n: "async_max_commands (cd (example_tx 0)) = 2" by (simp add: example_tx_def example_cdata_def)
  have "length (contents (adata_q ?x)) + length (inflight ?x) + drained ?x = unat (2 :: u32)"
    using async_conservation [OF x0(1) n, of ?x] r_into_rtranclp [of "async_step example_client example_insert 2", OF st] by simp
  then show ?thesis using x0(1) st by auto
qed


end
