(* ===== verification/Coordinator.thy ===== *)
theory Coordinator
  imports Transaction
begin

text \<open>
  The coordinator of \<^verbatim>\<open>coordinator.c\<close>, which takes all threads through the stages of a run.

  The \<open>n\<close> threads (the workers and the output thread) and the coordinator are a transition system.  What
  happens under the lock \<^verbatim>\<open>c_lock\<close> is one step, and a wait for the condition variable is a step that is
  possible once the condition holds.  The barrier is the one of POSIX threads: a thread that arrives
  remembers the generation, and leaves when the generation has changed, which the last arrival does.
  The time a stage lasts and pauses are not modelled; stage indices stay within the number of stages.  The
  warnings about batches, which are printed before a stage, are at the end.
\<close>

section \<open>State\<close>

text \<open>
  Where a thread is: working, working with its task complete, at the first and the second wait of
  \<^verbatim>\<open>thr_coordinator_wait\<close> (with the generation), between them, at the head of its loop, or gone.
\<close>

datatype worker_pc = W_run | W_done | W_bar1 nat | W_mid | W_bar2 nat | W_top | W_exit

datatype coord_pc = C_sleep | C_await | C_halt nat | C_bar1 nat | C_mid | C_bar2 nat | C_exit

record coord_conf =
  unfinished_threads :: u32
  t_do_work :: "nat \<Rightarrow> bool"
  t_finished :: "nat \<Rightarrow> bool"
  t_stage_idx :: "nat \<Rightarrow> nat"
  counts :: cdata
  wpc :: "nat \<Rightarrow> worker_pc"
  wstage :: "nat \<Rightarrow> nat"
  cpc :: coord_pc
  cstage :: nat
  arrived :: nat
  generation :: nat

text \<open>
  When a thread with its task complete stops working: a linear workload at once, an endless one when
  \<^verbatim>\<open>do_work\<close> is cleared, the output thread when its sleep is interrupted because no thread is unfinished.
\<close>

datatype thread_kind = Linear | Endless | Output

definition may_stop :: "thread_kind \<Rightarrow> coord_conf \<Rightarrow> nat \<Rightarrow> bool" where
  "may_stop k s i = (case k of Linear \<Rightarrow> True | Endless \<Rightarrow> \<not> t_do_work s i | Output \<Rightarrow> unfinished_threads s = 0)"

section \<open>Operations\<close>

definition thr_coordinator_init :: "nat \<Rightarrow> cdata \<Rightarrow> coord_conf" where
  "thr_coordinator_init n c =
     \<lparr> unfinished_threads = of_nat (n + 1), t_do_work = (\<lambda>_. True), t_finished = (\<lambda>_. False), t_stage_idx = (\<lambda>_. 0), counts = c,
       wpc = (\<lambda>_. W_run), wstage = (\<lambda>_. 0), cpc = C_sleep, cstage = 0, arrived = 0, generation = 0 \<rparr>"

text \<open>Arriving at the barrier: the last of \<open>n + 1\<close> arrivals starts a new generation.\<close>

definition barrier_arrive :: "nat \<Rightarrow> coord_conf \<Rightarrow> coord_conf" where
  "barrier_arrive n s =
     (if arrived s + 1 = n + 1 then s\<lparr> arrived := 0, generation := generation s + 1 \<rparr> else s\<lparr> arrived := arrived s + 1 \<rparr>)"

definition decrement_unfinished :: "coord_conf \<Rightarrow> coord_conf" where
  "decrement_unfinished s = s\<lparr> unfinished_threads := unfinished_threads s - 1 \<rparr>"

definition clear_cdata_counts :: "cdata \<Rightarrow> cdata" where
  "clear_cdata_counts c =
     c\<lparr> write_count := 0, write_timeout_count := 0, write_error_count := 0, read_hit_count := 0, read_miss_count := 0,
        read_timeout_count := 0, read_error_count := 0, udf_count := 0, udf_timeout_count := 0, udf_error_count := 0 \<rparr>"

definition terminate_threads :: "coord_conf \<Rightarrow> coord_conf" where
  "terminate_threads s = s\<lparr> t_finished := (\<lambda>_. True) \<rparr>"

definition release_threads :: "coord_conf \<Rightarrow> coord_conf" where
  "release_threads s = s\<lparr> t_do_work := (\<lambda>_. True) \<rparr>"

text \<open>What the coordinator does while all threads are halted.\<close>

definition next_stage :: "nat \<Rightarrow> nat \<Rightarrow> coord_conf \<Rightarrow> coord_conf" where
  "next_stage n n_stages s =
     (let s = s\<lparr> cstage := cstage s + 1, counts := clear_cdata_counts (counts s) \<rparr>
      in if cstage s = n_stages then terminate_threads s
         else release_threads (s\<lparr> t_stage_idx := (\<lambda>_. cstage s), unfinished_threads := of_nat (n + 1) \<rparr>))"

section \<open>Steps\<close>

inductive coord_step :: "nat \<Rightarrow> nat \<Rightarrow> (nat \<Rightarrow> nat \<Rightarrow> thread_kind) \<Rightarrow> coord_conf \<Rightarrow> coord_conf \<Rightarrow> bool" for n n_stages kinds where
  work:
    "i < n \<Longrightarrow> wpc s i = W_run \<or> wpc s i = W_done \<Longrightarrow> coord_step n n_stages kinds s (s\<lparr> counts := c \<rparr>)"
| complete:
    "i < n \<Longrightarrow> wpc s i = W_run \<Longrightarrow> coord_step n n_stages kinds s (decrement_unfinished (s\<lparr> wpc := (wpc s)(i := W_done) \<rparr>))"
| arrive1:
    "i < n \<Longrightarrow> wpc s i = W_done \<Longrightarrow> may_stop (kinds (wstage s i) i) s i \<Longrightarrow> \<not> t_finished s i \<Longrightarrow>
     coord_step n n_stages kinds s (barrier_arrive n (s\<lparr> wpc := (wpc s)(i := W_bar1 (generation s)) \<rparr>))"
| leave1:
    "i < n \<Longrightarrow> wpc s i = W_bar1 g \<Longrightarrow> g \<noteq> generation s \<Longrightarrow> coord_step n n_stages kinds s (s\<lparr> wpc := (wpc s)(i := W_mid) \<rparr>)"
| arrive2:
    "i < n \<Longrightarrow> wpc s i = W_mid \<Longrightarrow> coord_step n n_stages kinds s (barrier_arrive n (s\<lparr> wpc := (wpc s)(i := W_bar2 (generation s)) \<rparr>))"
| leave2:
    "i < n \<Longrightarrow> wpc s i = W_bar2 g \<Longrightarrow> g \<noteq> generation s \<Longrightarrow> coord_step n n_stages kinds s (s\<lparr> wpc := (wpc s)(i := W_top) \<rparr>)"
| top_exit:
    "i < n \<Longrightarrow> wpc s i = W_top \<Longrightarrow> t_finished s i \<Longrightarrow> coord_step n n_stages kinds s (s\<lparr> wpc := (wpc s)(i := W_exit) \<rparr>)"
| top_run:
    "i < n \<Longrightarrow> wpc s i = W_top \<Longrightarrow> \<not> t_finished s i \<Longrightarrow>
     coord_step n n_stages kinds s (s\<lparr> wpc := (wpc s)(i := W_run), wstage := (wstage s)(i := t_stage_idx s i) \<rparr>)"
| finish_req_duration:
    "cpc s = C_sleep \<Longrightarrow> coord_step n n_stages kinds s (decrement_unfinished (s\<lparr> cpc := C_await \<rparr>))"
| all_complete:
    "cpc s = C_await \<Longrightarrow> unfinished_threads s = 0 \<Longrightarrow> coord_step n n_stages kinds s (s\<lparr> cpc := C_halt 0 \<rparr>)"
| halt_one:
    "cpc s = C_halt k \<Longrightarrow> k < n \<Longrightarrow> coord_step n n_stages kinds s (s\<lparr> cpc := C_halt (k + 1), t_do_work := (t_do_work s)(k := False) \<rparr>)"
| halt_arrive:
    "cpc s = C_halt n \<Longrightarrow> coord_step n n_stages kinds s (barrier_arrive n (s\<lparr> cpc := C_bar1 (generation s) \<rparr>))"
| halted:
    "cpc s = C_bar1 g \<Longrightarrow> g \<noteq> generation s \<Longrightarrow> coord_step n n_stages kinds s (s\<lparr> cpc := C_mid \<rparr>)"
| advance:
    "cpc s = C_mid \<Longrightarrow>
     coord_step n n_stages kinds s (barrier_arrive n ((next_stage n n_stages s)\<lparr> cpc := C_bar2 (generation s) \<rparr>))"
| released:
    "cpc s = C_bar2 g \<Longrightarrow> g \<noteq> generation s \<Longrightarrow>
     coord_step n n_stages kinds s (s\<lparr> cpc := (if cstage s = n_stages then C_exit else C_sleep) \<rparr>)"

section \<open>The invariant\<close>

definition at_barrier :: "nat \<Rightarrow> worker_pc \<Rightarrow> bool" where
  "at_barrier g pc \<longleftrightarrow> pc = W_bar1 g \<or> pc = W_bar2 g"

definition coord_at_barrier :: "coord_conf \<Rightarrow> bool" where
  "coord_at_barrier s \<longleftrightarrow> cpc s = C_bar1 (generation s) \<or> cpc s = C_bar2 (generation s)"

text \<open>Generation \<open>2 * k\<close> is stage \<open>k\<close>, and \<open>2 * k + 1\<close> the time between its two waits.\<close>

definition worker_inv :: "nat \<Rightarrow> coord_conf \<Rightarrow> nat \<Rightarrow> bool" where
  "worker_inv n_stages s i \<longleftrightarrow>
     (let ws = wstage s i; g = generation s
      in case wpc s i of
           W_run \<Rightarrow> g = 2 * ws \<and> ws < n_stages
         | W_done \<Rightarrow> g = 2 * ws \<and> ws < n_stages
         | W_bar1 b \<Rightarrow> b = 2 * ws \<and> (g = b \<or> g = b + 1) \<and> ws < n_stages
         | W_mid \<Rightarrow> g = 2 * ws + 1 \<and> ws < n_stages
         | W_bar2 b \<Rightarrow> b = 2 * ws + 1 \<and> (g = b \<or> g = b + 1) \<and> ws < n_stages
         | W_top \<Rightarrow> g = 2 * ws + 2 \<and> ws < n_stages
         | W_exit \<Rightarrow> g = 2 * ws + 2 \<and> ws + 1 = n_stages)"

text \<open>Threads that have not completed the task of the coordinator's stage.\<close>

definition uncompleted :: "nat \<Rightarrow> worker_pc \<Rightarrow> bool" where
  "uncompleted g pc \<longleftrightarrow> (case pc of W_done \<Rightarrow> False | W_bar1 b \<Rightarrow> b \<noteq> g | _ \<Rightarrow> True)"

definition pending :: "nat \<Rightarrow> coord_conf \<Rightarrow> nat" where
  "pending n s = card {i. i < n \<and> uncompleted (generation s) (wpc s i)}"

definition coord_inv :: "nat \<Rightarrow> nat \<Rightarrow> coord_conf \<Rightarrow> bool" where
  "coord_inv n n_stages s \<longleftrightarrow>
     (let cs = cstage s; g = generation s; u = unat (unfinished_threads s)
      in case cpc s of
           C_sleep \<Rightarrow> g = 2 * cs \<and> cs < n_stages \<and> u = pending n s + 1
         | C_await \<Rightarrow> g = 2 * cs \<and> cs < n_stages \<and> u = pending n s
         | C_halt k \<Rightarrow> g = 2 * cs \<and> cs < n_stages \<and> k \<le> n \<and> pending n s = 0 \<and> u = 0 \<and> (\<forall>i < k. \<not> t_do_work s i)
         | C_bar1 b \<Rightarrow> b = 2 * cs \<and> (g = b \<and> pending n s = 0 \<and> u = 0 \<and> (\<forall>i < n. \<not> t_do_work s i) \<or> g = b + 1) \<and> cs < n_stages
         | C_mid \<Rightarrow> g = 2 * cs + 1 \<and> cs < n_stages
         | C_bar2 b \<Rightarrow> b + 1 = 2 * cs \<and> (g = b \<or> g = b + 1) \<and> cs \<le> n_stages \<and> (cs < n_stages \<longrightarrow> u = pending n s + 1) \<and>
                     (g = b \<longrightarrow> counts s = clear_cdata_counts (counts s))
         | C_exit \<Rightarrow> g = 2 * cs \<and> cs = n_stages)"

definition flags_inv :: "nat \<Rightarrow> nat \<Rightarrow> coord_conf \<Rightarrow> bool" where
  "flags_inv n n_stages s \<longleftrightarrow>
     (\<forall>i < n. t_finished s i = (cstage s = n_stages) \<and> (cstage s < n_stages \<longrightarrow> t_stage_idx s i = cstage s))"

definition barrier_inv :: "nat \<Rightarrow> coord_conf \<Rightarrow> bool" where
  "barrier_inv n s \<longleftrightarrow> arrived s = card {i. i < n \<and> at_barrier (generation s) (wpc s i)} + (if coord_at_barrier s then 1 else 0) \<and> arrived s < n + 1"

definition run_inv :: "nat \<Rightarrow> nat \<Rightarrow> coord_conf \<Rightarrow> bool" where
  "run_inv n n_stages s \<longleftrightarrow> (\<forall>i < n. worker_inv n_stages s i) \<and> coord_inv n n_stages s \<and> flags_inv n n_stages s \<and> barrier_inv n s"

section \<open>Preservation\<close>

lemma card_fun_upd:
  fixes n :: nat
  assumes "i < n"
  shows "card {j. j < n \<and> P ((f(i := x)) j)} + (if P (f i) then 1 else 0) = card {j. j < n \<and> P (f j)} + (if P x then 1 else 0)"
proof -
  let ?R = "{j. j < n \<and> j \<noteq> i \<and> P (f j)}"
  have "{j. j < n \<and> P ((f(i := x)) j)} = (if P x then insert i ?R else ?R)" using assms by auto
  moreover have "{j. j < n \<and> P (f j)} = (if P (f i) then insert i ?R else ?R)" using assms by auto
  ultimately show ?thesis by simp
qed

lemma card_full:
  assumes "card {j. j < n \<and> P j} = n" and "i < n"
  shows "P i"
proof -
  have "{j. j < n \<and> P j} = {..<n}" by (rule card_subset_eq) (use assms(1) in auto)
  then show ?thesis using assms(2) by blast
qed

lemma card_le_n: "card {j. j < n \<and> P j} \<le> (n :: nat)"
  using card_mono [of "{..<n}" "{j. j < n \<and> P j}"] by auto

lemma pending_all: "(\<And>i. i < n \<Longrightarrow> uncompleted (generation s) (wpc s i)) \<Longrightarrow> pending n s = n"
proof -
  assume "\<And>i. i < n \<Longrightarrow> uncompleted (generation s) (wpc s i)"
  then have "{i. i < n \<and> uncompleted (generation s) (wpc s i)} = {..<n}" by auto
  then show ?thesis by (simp add: pending_def)
qed

text \<open>A state in which a thread has just marked itself as waiting.\<close>

definition arriving :: "nat \<Rightarrow> nat \<Rightarrow> coord_conf \<Rightarrow> bool" where
  "arriving n n_stages s \<longleftrightarrow>
     (\<forall>i < n. worker_inv n_stages s i) \<and> coord_inv n n_stages s \<and> flags_inv n n_stages s \<and> arrived s < n + 1 \<and>
     arrived s + 1 = card {i. i < n \<and> at_barrier (generation s) (wpc s i)} + (if coord_at_barrier s then 1 else 0)"

lemma arrived_frame:
  "worker_inv n_stages (s\<lparr> arrived := a \<rparr>) i = worker_inv n_stages s i" "pending n (s\<lparr> arrived := a \<rparr>) = pending n s"
  "coord_inv n n_stages (s\<lparr> arrived := a \<rparr>) = coord_inv n n_stages s" "flags_inv n n_stages (s\<lparr> arrived := a \<rparr>) = flags_inv n n_stages s"
  "coord_at_barrier (s\<lparr> arrived := a \<rparr>) = coord_at_barrier s"
  by (simp_all add: worker_inv_def pending_def coord_inv_def flags_inv_def coord_at_barrier_def Let_def
      cong: coord_pc.case_cong worker_pc.case_cong)

lemma barrier_arrive_inv:
  assumes "arriving n n_stages s"
  shows "run_inv n n_stages (barrier_arrive n s)"
proof (cases "arrived s + 1 = n + 1")
  case False
  then show ?thesis
    using assms by (simp add: arriving_def run_inv_def barrier_arrive_def barrier_inv_def arrived_frame)
next
  case True
  let ?g = "generation s" and ?s' = "barrier_arrive n s"
  have s': "?s' = s\<lparr> arrived := 0, generation := ?g + 1 \<rparr>" using True by (simp add: barrier_arrive_def)
  have full: "card {i. i < n \<and> at_barrier ?g (wpc s i)} + (if coord_at_barrier s then 1 else 0) = n + 1"
    using assms True by (simp add: arriving_def)
  moreover have "card {i. i < n \<and> at_barrier ?g (wpc s i)} \<le> n" by (rule card_le_n)
  ultimately have c: "coord_at_barrier s" and w: "card {i. i < n \<and> at_barrier ?g (wpc s i)} = n" by (auto split: if_splits)
  have all: "at_barrier ?g (wpc s i)" if "i < n" for i using card_full [OF w that] .
  have inv: "\<And>i. i < n \<Longrightarrow> worker_inv n_stages s i" "coord_inv n n_stages s" "flags_inv n n_stages s"
    using assms by (simp_all add: arriving_def)
  have "worker_inv n_stages ?s' i" if "i < n" for i
    using inv(1) [OF that] all [OF that] by (auto simp: s' worker_inv_def at_barrier_def Let_def)
  moreover have "coord_inv n n_stages ?s'"
  proof -
    have p': "pending n ?s' = n"
    proof (rule pending_all)
      fix i assume "i < n"
      then show "uncompleted (generation ?s') (wpc ?s' i)" using all [of i] by (auto simp: s' at_barrier_def uncompleted_def)
    qed
    have p: "pending n s = n" if b: "cpc s = C_bar2 ?g"
    proof (rule pending_all)
      fix i assume i: "i < n"
      have "Suc ?g = 2 * cstage s" using inv(2) b by (simp add: coord_inv_def Let_def)
      then have "odd ?g" by presburger
      then show "uncompleted ?g (wpc s i)"
        using all [OF i] inv(1) [OF i] by (auto simp: at_barrier_def uncompleted_def worker_inv_def Let_def)
    qed
    show ?thesis using inv(2) c p p' by (auto simp: coord_inv_def coord_at_barrier_def s' Let_def)
  qed
  moreover have "barrier_inv n ?s'"
  proof -
    have "\<not> at_barrier (?g + 1) (wpc s i)" if "i < n" for i using all [OF that] by (auto simp: at_barrier_def)
    then have "{i. i < n \<and> at_barrier (?g + 1) (wpc s i)} = {}" by blast
    then show ?thesis using c by (auto simp: barrier_inv_def s' coord_at_barrier_def)
  qed
  moreover have "flags_inv n n_stages ?s'" using inv(3) by (simp add: flags_inv_def s')
  ultimately show ?thesis by (simp add: run_inv_def)
qed

text \<open>A thread moves on to another point, perhaps in another stage.\<close>

definition move :: "nat \<Rightarrow> worker_pc \<Rightarrow> nat \<Rightarrow> coord_conf \<Rightarrow> coord_conf" where
  "move i x w s = s\<lparr> wpc := (wpc s)(i := x), wstage := (wstage s)(i := w) \<rparr>"

lemma move_sel [simp]:
  "wpc (move i x w s) = (wpc s)(i := x)" "wstage (move i x w s) = (wstage s)(i := w)" "cpc (move i x w s) = cpc s"
  "cstage (move i x w s) = cstage s" "generation (move i x w s) = generation s" "arrived (move i x w s) = arrived s"
  "unfinished_threads (move i x w s) = unfinished_threads s" "counts (move i x w s) = counts s"
  "t_do_work (move i x w s) = t_do_work s" "t_finished (move i x w s) = t_finished s" "t_stage_idx (move i x w s) = t_stage_idx s"
  by (simp_all add: move_def)

lemma same_stage: "s\<lparr> wpc := (wpc s)(i := x) \<rparr> = move i x (wstage s i) s"
  by (simp add: move_def)

lemma move_pending:
  "i < n \<Longrightarrow> pending n (move i x w s) + (if uncompleted (generation s) (wpc s i) then 1 else 0) =
     pending n s + (if uncompleted (generation s) x then 1 else 0)"
  using card_fun_upd [of i n "uncompleted (generation s)" "wpc s" x] by (simp add: pending_def)

lemma move_arrived:
  "i < n \<Longrightarrow> card {j. j < n \<and> at_barrier (generation s) (wpc (move i x w s) j)} + (if at_barrier (generation s) (wpc s i) then 1 else 0) =
     card {j. j < n \<and> at_barrier (generation s) (wpc s j)} + (if at_barrier (generation s) x then 1 else 0)"
  using card_fun_upd [of i n "at_barrier (generation s)" "wpc s" x] by simp

lemma move_frame:
  "j \<noteq> i \<Longrightarrow> worker_inv n_stages (move i x w s) j = worker_inv n_stages s j"
  "flags_inv n n_stages (move i x w s) = flags_inv n n_stages s" "coord_at_barrier (move i x w s) = coord_at_barrier s"
  by (simp_all add: worker_inv_def flags_inv_def coord_at_barrier_def)

lemma move_workers:
  "run_inv n n_stages s \<Longrightarrow> worker_inv n_stages (move i x w s) i \<Longrightarrow> j < n \<Longrightarrow> worker_inv n_stages (move i x w s) j"
  by (cases "j = i") (simp_all add: move_frame(1) run_inv_def)

lemma coord_inv_cong:
  assumes "pending n s' = pending n s" "cstage s' = cstage s" "generation s' = generation s" "cpc s' = cpc s"
    "unfinished_threads s' = unfinished_threads s" "t_do_work s' = t_do_work s" "counts s' = counts s"
  shows "coord_inv n n_stages s' = coord_inv n n_stages s"
  using assms by (cases "cpc s") (simp_all add: coord_inv_def Let_def)

lemma move_coord:
  assumes "run_inv n n_stages s" and "i < n" and "uncompleted (generation s) x = uncompleted (generation s) (wpc s i)"
  shows "coord_inv n n_stages (move i x w s)"
proof -
  have "pending n (move i x w s) = pending n s"
    using move_pending [OF assms(2), where x = x and w = w and s = s] assms(3) by (simp split: if_splits)
  then have "coord_inv n n_stages (move i x w s) = coord_inv n n_stages s" by (rule coord_inv_cong) simp_all
  then show ?thesis using assms(1) by (simp add: run_inv_def)
qed

lemma move_inv:
  assumes "run_inv n n_stages s" and "i < n" and "worker_inv n_stages (move i x w s) i"
    and "uncompleted (generation s) x = uncompleted (generation s) (wpc s i)"
    and "at_barrier (generation s) x = at_barrier (generation s) (wpc s i)"
  shows "run_inv n n_stages (move i x w s)"
proof -
  have "barrier_inv n (move i x w s)"
    using move_arrived [OF assms(2), where x = x and w = w and s = s] assms(1,5)
    by (simp add: run_inv_def barrier_inv_def move_frame(3) split: if_splits del: move_sel(1))
  then show ?thesis
    using move_workers [OF assms(1,3)] move_coord [OF assms(1,2,4)] assms(1) by (simp add: run_inv_def move_frame(2))
qed

lemma move_arriving:
  assumes "run_inv n n_stages s" and "i < n" and "worker_inv n_stages (move i x w s) i"
    and "uncompleted (generation s) x = uncompleted (generation s) (wpc s i)"
    and "at_barrier (generation s) x" and "\<not> at_barrier (generation s) (wpc s i)"
  shows "arriving n n_stages (move i x w s)"
proof -
  have "arrived s + 1 = card {j. j < n \<and> at_barrier (generation s) (wpc (move i x w s) j)} + (if coord_at_barrier s then 1 else 0)"
    using move_arrived [OF assms(2), where x = x and w = w and s = s] assms(1,5,6)
    by (simp add: run_inv_def barrier_inv_def del: move_sel(1))
  moreover have "arrived s < n + 1" using assms(1) by (simp add: run_inv_def barrier_inv_def)
  ultimately show ?thesis
    using move_workers [OF assms(1,3)] move_coord [OF assms(1,2,4)] assms(1)
    by (simp add: run_inv_def arriving_def move_frame(2,3) del: move_sel(1))
qed

lemma worker_inv_at: "run_inv n n_stages s \<Longrightarrow> i < n \<Longrightarrow> worker_inv n_stages s i"
  by (simp add: run_inv_def)

text \<open>A thread completes its task: the coordinator is then waiting for it, or not yet waiting at all.\<close>

lemma running_coord:
  assumes "coord_inv n n_stages s" and "generation s = 2 * k" and "0 < pending n s" and "k < n_stages"
  shows "unat (unfinished_threads s) = pending n s + (if cpc s = C_await then 0 else 1)"
    and "cpc s = C_sleep \<or> cpc s = C_await \<or> (\<exists>b. cpc s = C_bar2 b \<and> generation s = b + 1)"
proof -
  have "cpc s \<noteq> C_mid" using assms(1,2) by (auto simp: coord_inv_def Let_def) presburger
  moreover have "generation s = b + 1" if "cpc s = C_bar2 b" for b
  proof -
    have "b + 1 = 2 * cstage s" "generation s = b \<or> generation s = b + 1" using assms(1) that by (auto simp: coord_inv_def Let_def)
    then show ?thesis using assms(2) by presburger
  qed
  moreover have "cpc s \<noteq> C_bar1 b" for b
  proof
    assume "cpc s = C_bar1 b"
    then have "b = 2 * cstage s" "generation s = b + 1" using assms(1,3) by (auto simp: coord_inv_def Let_def)
    then show False using assms(2) by presburger
  qed
  ultimately show "unat (unfinished_threads s) = pending n s + (if cpc s = C_await then 0 else 1)"
    and "cpc s = C_sleep \<or> cpc s = C_await \<or> (\<exists>b. cpc s = C_bar2 b \<and> generation s = b + 1)"
    using assms by (cases "cpc s"; simp add: coord_inv_def Let_def)+
qed

lemma pending_unfinished: "pending n (s\<lparr> unfinished_threads := u \<rparr>) = pending n s"
  by (simp add: pending_def)

lemma complete_inv:
  assumes inv: "run_inv n n_stages s" and i: "i < n" and pc: "wpc s i = W_run"
  shows "run_inv n n_stages (decrement_unfinished (s\<lparr> wpc := (wpc s)(i := W_done) \<rparr>))"
proof -
  let ?m = "move i W_done (wstage s i) s"
  let ?s' = "decrement_unfinished ?m"
  have w: "generation s = 2 * wstage s i" "wstage s i < n_stages"
    using worker_inv_at [OF inv i] pc by (simp_all add: worker_inv_def Let_def)
  have p: "pending n ?m + 1 = pending n s"
    using move_pending [OF i, where x = W_done and w = "wstage s i" and s = s] pc by (simp add: uncompleted_def)
  have f: "worker_inv n_stages ?s' j = worker_inv n_stages ?m j" "flags_inv n n_stages ?s' = flags_inv n n_stages ?m"
    "barrier_inv n ?s' = barrier_inv n ?m" "pending n ?s' = pending n ?m" for j
    by (simp_all add: decrement_unfinished_def worker_inv_def flags_inv_def barrier_inv_def coord_at_barrier_def pending_def Let_def
        cong: worker_pc.case_cong)
  have wi: "worker_inv n_stages ?m i" using w by (simp add: worker_inv_def)
  have "barrier_inv n ?m"
    using move_arrived [OF i, where x = W_done and w = "wstage s i" and s = s] inv pc
    by (simp add: run_inv_def barrier_inv_def move_frame(3) at_barrier_def del: move_sel(1))
  moreover have "coord_inv n n_stages ?s'"
  proof -
    have c: "coord_inv n n_stages s" "0 < pending n s" using inv p by (simp_all add: run_inv_def)
    note r = running_coord [OF c(1) w(1) c(2) w(2)]
    have "unfinished_threads s \<noteq> 0" using r(1) c(2) by auto
    then have u: "unat (unfinished_threads s - 1) = pending n ?m + (if cpc s = C_await then 0 else 1)"
      using r(1) p by (simp add: unat_minus_one)
    show ?thesis
      using r(2) c(1) u by (elim disjE exE conjE) (simp_all add: coord_inv_def pending_unfinished decrement_unfinished_def Let_def)
  qed
  ultimately show ?thesis
    using inv move_workers [OF inv wi] by (simp add: run_inv_def f move_frame(2) same_stage)
qed

text \<open>The steps of the coordinator: the threads' part of the invariant only looks at the fields below.\<close>

lemma worker_inv_cong:
  "generation s' = generation s \<Longrightarrow> wpc s' = wpc s \<Longrightarrow> wstage s' = wstage s \<Longrightarrow> worker_inv n_stages s' i = worker_inv n_stages s i"
  by (simp add: worker_inv_def)

lemma pending_cong: "generation s' = generation s \<Longrightarrow> wpc s' = wpc s \<Longrightarrow> pending n s' = pending n s"
  by (simp add: pending_def)

lemma coordinator_moves:
  assumes "run_inv n n_stages s" and "generation s' = generation s" "wpc s' = wpc s" "wstage s' = wstage s" "arrived s' = arrived s"
    and "coord_inv n n_stages s'" "flags_inv n n_stages s'"
  shows "coord_at_barrier s' = coord_at_barrier s \<Longrightarrow> run_inv n n_stages s'"
    and "coord_at_barrier s' \<Longrightarrow> \<not> coord_at_barrier s \<Longrightarrow> arriving n n_stages s'"
  using assms worker_inv_cong [OF assms(2-4)] by (simp_all add: run_inv_def arriving_def barrier_inv_def)

lemma flags_inv_cong:
  "t_finished s' = t_finished s \<Longrightarrow> t_stage_idx s' = t_stage_idx s \<Longrightarrow> cstage s' = cstage s \<Longrightarrow> flags_inv n n_stages s' = flags_inv n n_stages s"
  by (simp add: flags_inv_def)

lemma work_inv:
  assumes inv: "run_inv n n_stages s" and i: "i < n" and pc: "wpc s i = W_run \<or> wpc s i = W_done"
  shows "run_inv n n_stages (s\<lparr> counts := c \<rparr>)"
proof (rule coordinator_moves(1) [OF inv])
  have even: "even (generation s)" using worker_inv_at [OF inv i] pc by (auto simp: worker_inv_def Let_def)
  have ci: "coord_inv n n_stages s" using inv by (simp add: run_inv_def)
  have "generation s \<noteq> b" if "cpc s = C_bar2 b" for b
  proof -
    have "b + 1 = 2 * cstage s" using ci that by (simp add: coord_inv_def Let_def)
    then have "odd b" by presburger
    then show ?thesis using even by auto
  qed
  then show "coord_inv n n_stages (s\<lparr> counts := c \<rparr>)"
    using ci pending_cong [of "s\<lparr> counts := c \<rparr>" s n] by (cases "cpc s") (simp_all add: coord_inv_def Let_def)
  show "flags_inv n n_stages (s\<lparr> counts := c \<rparr>)" using inv by (simp add: run_inv_def flags_inv_def)
qed (simp_all add: coord_at_barrier_def)

lemma finish_req_duration_inv:
  assumes inv: "run_inv n n_stages s" and pc: "cpc s = C_sleep"
  shows "run_inv n n_stages (decrement_unfinished (s\<lparr> cpc := C_await \<rparr>))"
proof (rule coordinator_moves(1) [OF inv])
  let ?s' = "decrement_unfinished (s\<lparr> cpc := C_await \<rparr>)"
  have ci: "coord_inv n n_stages s" using inv by (simp add: run_inv_def)
  then have u: "unat (unfinished_threads s) = pending n s + 1" using pc by (simp add: coord_inv_def Let_def)
  then have "unfinished_threads s \<noteq> 0" by auto
  then have "unat (unfinished_threads s - 1) = pending n s" using u by (simp add: unat_minus_one)
  then show "coord_inv n n_stages ?s'"
    using ci pc pending_cong [of ?s' s n] by (simp add: coord_inv_def decrement_unfinished_def Let_def)
  show "flags_inv n n_stages ?s'" using inv by (simp add: run_inv_def flags_inv_def decrement_unfinished_def)
qed (simp_all add: coord_at_barrier_def decrement_unfinished_def pc)

lemma coord_moves_inv:
  assumes inv: "run_inv n n_stages s" and ci: "coord_inv n n_stages (s\<lparr> cpc := x, t_do_work := d \<rparr>)"
  shows "coord_at_barrier (s\<lparr> cpc := x \<rparr>) = coord_at_barrier s \<Longrightarrow> run_inv n n_stages (s\<lparr> cpc := x, t_do_work := d \<rparr>)"
    and "coord_at_barrier (s\<lparr> cpc := x \<rparr>) \<Longrightarrow> \<not> coord_at_barrier s \<Longrightarrow> arriving n n_stages (s\<lparr> cpc := x, t_do_work := d \<rparr>)"
proof -
  have fi: "flags_inv n n_stages (s\<lparr> cpc := x, t_do_work := d \<rparr>)" using inv by (simp add: run_inv_def flags_inv_def)
  have at: "coord_at_barrier (s\<lparr> cpc := x, t_do_work := d \<rparr>) = coord_at_barrier (s\<lparr> cpc := x \<rparr>)" by (simp add: coord_at_barrier_def)
  show "coord_at_barrier (s\<lparr> cpc := x \<rparr>) = coord_at_barrier s \<Longrightarrow> run_inv n n_stages (s\<lparr> cpc := x, t_do_work := d \<rparr>)"
    by (rule coordinator_moves(1) [OF inv _ _ _ _ ci fi]) (simp_all add: at)
  show "coord_at_barrier (s\<lparr> cpc := x \<rparr>) \<Longrightarrow> \<not> coord_at_barrier s \<Longrightarrow> arriving n n_stages (s\<lparr> cpc := x, t_do_work := d \<rparr>)"
    by (rule coordinator_moves(2) [OF inv _ _ _ _ ci fi]) (simp_all add: at)
qed

lemma same_do_work: "s\<lparr> cpc := x \<rparr> = s\<lparr> cpc := x, t_do_work := t_do_work s \<rparr>"
  by simp

lemma coord_pending: "pending n (s\<lparr> cpc := x, t_do_work := d \<rparr>) = pending n s"
  by (rule pending_cong) simp_all

lemma coord_inv_at: "run_inv n n_stages s \<Longrightarrow> coord_inv n n_stages s"
  by (simp add: run_inv_def)

lemma all_complete_inv:
  assumes "run_inv n n_stages s" and "cpc s = C_await" and "unfinished_threads s = 0"
  shows "run_inv n n_stages (s\<lparr> cpc := C_halt 0 \<rparr>)"
proof -
  have "coord_inv n n_stages (s\<lparr> cpc := C_halt 0, t_do_work := t_do_work s \<rparr>)"
    using coord_inv_at [OF assms(1)] assms(2,3) unfolding coord_inv_def coord_pending by (simp add: Let_def)
  from coord_moves_inv(1) [OF assms(1) this] show ?thesis using assms(2) by (simp add: coord_at_barrier_def)
qed

lemma halt_one_inv:
  assumes "run_inv n n_stages s" and "cpc s = C_halt k" and "k < n"
  shows "run_inv n n_stages (s\<lparr> cpc := C_halt (k + 1), t_do_work := (t_do_work s)(k := False) \<rparr>)"
proof -
  have "coord_inv n n_stages (s\<lparr> cpc := C_halt (k + 1), t_do_work := (t_do_work s)(k := False) \<rparr>)"
    using coord_inv_at [OF assms(1)] assms(2,3) unfolding coord_inv_def coord_pending by (simp add: Let_def less_Suc_eq)
  from coord_moves_inv(1) [OF assms(1) this] show ?thesis using assms(2) by (simp add: coord_at_barrier_def)
qed

lemma halt_arrive_inv:
  assumes "run_inv n n_stages s" and "cpc s = C_halt n"
  shows "run_inv n n_stages (barrier_arrive n (s\<lparr> cpc := C_bar1 (generation s) \<rparr>))"
proof (rule barrier_arrive_inv)
  have "coord_inv n n_stages (s\<lparr> cpc := C_bar1 (generation s), t_do_work := t_do_work s \<rparr>)"
    using coord_inv_at [OF assms(1)] assms(2) unfolding coord_inv_def coord_pending by (simp add: Let_def)
  from coord_moves_inv(2) [OF assms(1) this]
  show "arriving n n_stages (s\<lparr> cpc := C_bar1 (generation s) \<rparr>)" using assms(2) by (simp add: coord_at_barrier_def)
qed

lemma halted_inv:
  assumes "run_inv n n_stages s" and "cpc s = C_bar1 g" and "g \<noteq> generation s"
  shows "run_inv n n_stages (s\<lparr> cpc := C_mid \<rparr>)"
proof -
  have "coord_inv n n_stages (s\<lparr> cpc := C_mid, t_do_work := t_do_work s \<rparr>)"
    using coord_inv_at [OF assms(1)] assms(2,3) unfolding coord_inv_def coord_pending by (auto simp: Let_def)
  from coord_moves_inv(1) [OF assms(1) this] show ?thesis using assms(2,3) by (simp add: coord_at_barrier_def)
qed

lemma released_inv:
  assumes "run_inv n n_stages s" and "cpc s = C_bar2 g" and "g \<noteq> generation s"
  shows "run_inv n n_stages (s\<lparr> cpc := (if cstage s = n_stages then C_exit else C_sleep) \<rparr>)"
proof -
  have "coord_inv n n_stages (s\<lparr> cpc := (if cstage s = n_stages then C_exit else C_sleep), t_do_work := t_do_work s \<rparr>)"
    using coord_inv_at [OF assms(1)] assms(2,3) unfolding coord_inv_def coord_pending by (auto simp: Let_def)
  from coord_moves_inv(1) [OF assms(1) this] show ?thesis using assms(2,3) by (simp add: coord_at_barrier_def)
qed

lemma between_pending:
  assumes "run_inv n n_stages s" and "odd (generation s)"
  shows "pending n s = n"
proof (rule pending_all)
  fix i assume "i < n"
  note w = worker_inv_at [OF assms(1) this, unfolded worker_inv_def Let_def]
  have "wpc s i \<noteq> W_done"
  proof
    assume "wpc s i = W_done"
    then have "generation s = 2 * wstage s i" using w by simp
    then show False using assms(2) by presburger
  qed
  moreover have "wpc s i \<noteq> W_bar1 (generation s)"
  proof
    assume "wpc s i = W_bar1 (generation s)"
    then have "generation s = 2 * wstage s i" using w by simp
    then show False using assms(2) by presburger
  qed
  ultimately show "uncompleted (generation s) (wpc s i)" by (cases "wpc s i") (auto simp: uncompleted_def)
qed

lemma next_stage_sel [simp]:
  "wpc (next_stage n n_stages s) = wpc s" "wstage (next_stage n n_stages s) = wstage s" "cpc (next_stage n n_stages s) = cpc s"
  "generation (next_stage n n_stages s) = generation s" "arrived (next_stage n n_stages s) = arrived s"
  "cstage (next_stage n n_stages s) = cstage s + 1" "counts (next_stage n n_stages s) = clear_cdata_counts (counts s)"
  "t_finished (next_stage n n_stages s) = (if cstage s + 1 = n_stages then (\<lambda>_. True) else t_finished s)"
  "t_stage_idx (next_stage n n_stages s) = (if cstage s + 1 = n_stages then t_stage_idx s else (\<lambda>_. cstage s + 1))"
  "unfinished_threads (next_stage n n_stages s) = (if cstage s + 1 = n_stages then unfinished_threads s else of_nat (n + 1))"
  by (simp_all add: next_stage_def Let_def terminate_threads_def release_threads_def)

lemma clear_cdata_counts_idem [simp]: "clear_cdata_counts (clear_cdata_counts c) = clear_cdata_counts c"
  by (simp add: clear_cdata_counts_def)

lemma advance_inv:
  assumes inv: "run_inv n n_stages s" and pc: "cpc s = C_mid" and n: "n + 1 < 2 ^ 32"
  shows "run_inv n n_stages (barrier_arrive n ((next_stage n n_stages s)\<lparr> cpc := C_bar2 (generation s) \<rparr>))"
proof (rule barrier_arrive_inv, rule coordinator_moves(2) [OF inv])
  let ?s' = "(next_stage n n_stages s)\<lparr> cpc := C_bar2 (generation s) \<rparr>"
  have g: "generation s = 2 * cstage s + 1" and cs: "cstage s < n_stages"
    using coord_inv_at [OF inv] pc by (simp_all add: coord_inv_def Let_def)
  have "pending n ?s' = n" using between_pending [OF inv] pending_cong [of ?s' s n] g by simp
  moreover have "unat (of_nat (n + 1) :: u32) = n + 1" by (rule unat_of_nat_32) (rule n)
  ultimately show "coord_inv n n_stages ?s'" using g cs by (simp add: coord_inv_def Let_def del: of_nat_add of_nat_Suc)
  show "flags_inv n n_stages ?s'" using inv cs by (auto simp: run_inv_def flags_inv_def)
qed (simp_all add: coord_at_barrier_def pc)

text \<open>A thread that has left both waits sees the flags the coordinator set between them.\<close>

lemma even_gen_stage:
  assumes "coord_inv n n_stages s" and "generation s = 2 * k + 2" and "k < n_stages"
  shows "cstage s = k + 1"
proof -
  have "generation s = 2 * cstage s \<or> generation s = 2 * cstage s + 1 \<or> generation s + 1 = 2 * cstage s"
    using assms(1) by (cases "cpc s") (auto simp: coord_inv_def Let_def)
  then show ?thesis using assms(2) by presburger
qed

lemma top_stage:
  assumes inv: "run_inv n n_stages s" and i: "i < n" and pc: "wpc s i = W_top"
  shows "t_finished s i \<Longrightarrow> wstage s i + 1 = n_stages"
    and "\<not> t_finished s i \<Longrightarrow> t_stage_idx s i = wstage s i + 1 \<and> wstage s i + 1 < n_stages"
proof -
  have g: "generation s = 2 * wstage s i + 2" "wstage s i < n_stages"
    using worker_inv_at [OF inv i] pc by (simp_all add: worker_inv_def Let_def)
  have cs: "cstage s = wstage s i + 1" by (rule even_gen_stage [OF coord_inv_at [OF inv] g])
  have f: "t_finished s i = (cstage s = n_stages)" "cstage s < n_stages \<Longrightarrow> t_stage_idx s i = cstage s"
    using inv i by (simp_all add: run_inv_def flags_inv_def)
  show "t_finished s i \<Longrightarrow> wstage s i + 1 = n_stages" using f cs by simp
  show "\<not> t_finished s i \<Longrightarrow> t_stage_idx s i = wstage s i + 1 \<and> wstage s i + 1 < n_stages" using f cs g(2) by auto
qed

text \<open>Every step preserves the invariant.\<close>

lemma coord_step_inv:
  assumes "coord_step n n_stages kinds s s'" and inv: "run_inv n n_stages s" and n: "n + 1 < 2 ^ 32"
  shows "run_inv n n_stages s'"
  using assms(1)
proof cases
  case (work i c)
  then show ?thesis using work_inv [OF inv] by blast
next
  case (complete i)
  then show ?thesis using complete_inv [OF inv] by simp
next
  case (arrive1 i)
  have "arriving n n_stages (move i (W_bar1 (generation s)) (wstage s i) s)"
    by (rule move_arriving [OF inv \<open>i < n\<close>])
      (use worker_inv_at [OF inv \<open>i < n\<close>] arrive1(3) in \<open>simp_all add: worker_inv_def uncompleted_def at_barrier_def Let_def\<close>)
  then show ?thesis unfolding arrive1(1) same_stage by (rule barrier_arrive_inv)
next
  case (leave1 i g)
  have "run_inv n n_stages (move i W_mid (wstage s i) s)"
    by (rule move_inv [OF inv \<open>i < n\<close>])
      (use worker_inv_at [OF inv \<open>i < n\<close>] leave1(3,4) in \<open>auto simp: worker_inv_def uncompleted_def at_barrier_def Let_def\<close>)
  then show ?thesis unfolding leave1(1) same_stage .
next
  case (arrive2 i)
  have "arriving n n_stages (move i (W_bar2 (generation s)) (wstage s i) s)"
    by (rule move_arriving [OF inv \<open>i < n\<close>])
      (use worker_inv_at [OF inv \<open>i < n\<close>] arrive2(3) in \<open>simp_all add: worker_inv_def uncompleted_def at_barrier_def Let_def\<close>)
  then show ?thesis unfolding arrive2(1) same_stage by (rule barrier_arrive_inv)
next
  case (leave2 i g)
  have "run_inv n n_stages (move i W_top (wstage s i) s)"
    by (rule move_inv [OF inv \<open>i < n\<close>])
      (use worker_inv_at [OF inv \<open>i < n\<close>] leave2(3,4) in \<open>auto simp: worker_inv_def uncompleted_def at_barrier_def Let_def\<close>)
  then show ?thesis unfolding leave2(1) same_stage .
next
  case (top_exit i)
  have "wstage s i + 1 = n_stages" using top_stage(1) [OF inv top_exit(2-4)] .
  then have "run_inv n n_stages (move i W_exit (wstage s i) s)"
    by (intro move_inv [OF inv \<open>i < n\<close>])
      (use worker_inv_at [OF inv \<open>i < n\<close>] top_exit(3) in \<open>simp_all add: worker_inv_def uncompleted_def at_barrier_def Let_def\<close>)
  then show ?thesis unfolding top_exit(1) same_stage .
next
  case (top_run i)
  note t = top_stage(2) [OF inv top_run(2-4)]
  have "run_inv n n_stages (move i W_run (t_stage_idx s i) s)"
    by (rule move_inv [OF inv \<open>i < n\<close>])
      (use worker_inv_at [OF inv \<open>i < n\<close>] top_run(3) t in \<open>simp_all add: worker_inv_def uncompleted_def at_barrier_def Let_def\<close>)
  then show ?thesis unfolding top_run(1) move_def .
next
  case finish_req_duration
  then show ?thesis using finish_req_duration_inv [OF inv] by simp
next
  case all_complete
  then show ?thesis using all_complete_inv [OF inv] by simp
next
  case (halt_one k)
  then show ?thesis using halt_one_inv [OF inv] by simp
next
  case halt_arrive
  then show ?thesis using halt_arrive_inv [OF inv] by simp
next
  case (halted g)
  then show ?thesis using halted_inv [OF inv] by simp
next
  case advance
  then show ?thesis using advance_inv [OF inv _ n] by simp
next
  case (released g)
  then show ?thesis using released_inv [OF inv] by simp
qed

section \<open>Reachable states\<close>

lemma init_inv:
  assumes "n + 1 < 2 ^ 32" and "0 < n_stages"
  shows "run_inv n n_stages (thr_coordinator_init n c)"
proof -
  have p: "pending n (thr_coordinator_init n c) = n" by (rule pending_all) (simp add: thr_coordinator_init_def uncompleted_def)
  have "unat (of_nat (n + 1) :: u32) = n + 1" by (rule unat_of_nat_32) (rule assms(1))
  then show ?thesis
    using assms(2) p
    by (simp add: run_inv_def worker_inv_def coord_inv_def flags_inv_def barrier_inv_def at_barrier_def coord_at_barrier_def
        thr_coordinator_init_def Let_def del: of_nat_add of_nat_Suc)
qed

interpretation cs: preserved "coord_step n n_stages kinds" "\<lambda>s. run_inv n n_stages s \<and> n + 1 < 2 ^ 32" for n n_stages kinds
  by unfold_locales (use coord_step_inv in blast)

lemma reachable_inv:
  assumes "(coord_step n n_stages kinds)\<^sup>*\<^sup>* (thr_coordinator_init n c) s" and "n + 1 < 2 ^ 32" and "0 < n_stages"
  shows "run_inv n n_stages s"
  using cs.reach_inv [OF assms(1)] init_inv [OF assms(2,3)] assms(2) by simp

lemma barrier_arrive_sel [simp]:
  "wpc (barrier_arrive n s) = wpc s" "wstage (barrier_arrive n s) = wstage s" "cpc (barrier_arrive n s) = cpc s"
  "cstage (barrier_arrive n s) = cstage s"
  by (simp_all add: barrier_arrive_def)

lemma decrement_unfinished_sel [simp]:
  "wpc (decrement_unfinished s) = wpc s" "wstage (decrement_unfinished s) = wstage s" "cpc (decrement_unfinished s) = cpc s"
  "cstage (decrement_unfinished s) = cstage s"
  by (simp_all add: decrement_unfinished_def)

section \<open>Progress\<close>

text \<open>What a thread and the coordinator still have to do, as a number of steps.\<close>

definition thread_rank :: "nat \<Rightarrow> nat \<Rightarrow> worker_pc \<Rightarrow> nat" where
  "thread_rank n_stages w pc =
     (case pc of W_run \<Rightarrow> 6 | W_done \<Rightarrow> 5 | W_bar1 _ \<Rightarrow> 4 | W_mid \<Rightarrow> 3 | W_bar2 _ \<Rightarrow> 2 | W_top \<Rightarrow> 1 | W_exit \<Rightarrow> 0) + 7 * (n_stages - w)"

definition coord_rank :: "nat \<Rightarrow> nat \<Rightarrow> nat \<Rightarrow> coord_pc \<Rightarrow> nat" where
  "coord_rank n n_stages w pc =
     (case pc of C_sleep \<Rightarrow> n + 6 | C_await \<Rightarrow> n + 5 | C_halt k \<Rightarrow> n + 4 - k | C_bar1 _ \<Rightarrow> 3 | C_mid \<Rightarrow> 2 | C_bar2 _ \<Rightarrow> n + 7 | C_exit \<Rightarrow> 0) +
     (n + 10) * (n_stages - w)"

definition remaining :: "nat \<Rightarrow> nat \<Rightarrow> coord_conf \<Rightarrow> nat" where
  "remaining n n_stages s = (\<Sum>i < n. thread_rank n_stages (wstage s i) (wpc s i)) + coord_rank n n_stages (cstage s) (cpc s)"

lemma thread_moves:
  assumes "i < n" and "thread_rank n_stages w x < thread_rank n_stages (wstage s i) (wpc s i)"
    and "wpc s' = (wpc s)(i := x)" "wstage s' = (wstage s)(i := w)" "cpc s' = cpc s" "cstage s' = cstage s"
  shows "remaining n n_stages s' < remaining n n_stages s"
proof -
  have "(\<Sum>j < n. thread_rank n_stages (wstage s' j) (wpc s' j)) < (\<Sum>j < n. thread_rank n_stages (wstage s j) (wpc s j))"
    by (rule sum_strict_mono_ex1) (use assms in \<open>auto intro!: bexI [of _ i]\<close>)
  then show ?thesis using assms(5,6) by (simp add: remaining_def)
qed

lemma coord_moves:
  assumes "coord_rank n n_stages w x < coord_rank n n_stages (cstage s) (cpc s)"
    and "wpc s' = wpc s" "wstage s' = wstage s" "cpc s' = x" "cstage s' = w"
  shows "remaining n n_stages s' < remaining n n_stages s"
  using assms by (simp add: remaining_def)

lemma next_stage_rank:
  assumes "w < n_stages"
  shows "coord_rank n n_stages (w + 1) (C_bar2 g) < coord_rank n n_stages w C_mid"
proof -
  obtain d where "n_stages - w = Suc d" using assms by (metis Suc_diff_Suc)
  then have "n_stages - (w + 1) = d" "n_stages - w = Suc d" by simp_all
  then show ?thesis by (simp add: coord_rank_def)
qed

lemma step_decreases:
  assumes "coord_step n n_stages kinds s s'" and inv: "run_inv n n_stages s"
  shows "remaining n n_stages s' < remaining n n_stages s \<or> (\<exists>c. s' = s\<lparr> counts := c \<rparr>)"
  using assms(1)
proof cases
  case (work i c)
  then show ?thesis by blast
next
  case (top_run i)
  have t: "t_stage_idx s i = wstage s i + 1" "wstage s i + 1 < n_stages" using top_stage(2) [OF inv top_run(2-4)] by simp_all
  have "remaining n n_stages s' < remaining n n_stages s"
    by (rule thread_moves [OF \<open>i < n\<close>, where x = W_run and w = "t_stage_idx s i"]) (use top_run t in \<open>simp_all add: thread_rank_def\<close>)
  then show ?thesis ..
next
  case (complete i)
  have "remaining n n_stages s' < remaining n n_stages s"
    by (rule thread_moves [OF \<open>i < n\<close>, where x = W_done and w = "wstage s i"]) (use complete in \<open>simp_all add: thread_rank_def\<close>)
  then show ?thesis ..
next
  case (arrive1 i)
  have "remaining n n_stages s' < remaining n n_stages s"
    by (rule thread_moves [OF \<open>i < n\<close>, where x = "W_bar1 (generation s)" and w = "wstage s i"])
      (use arrive1 in \<open>simp_all add: thread_rank_def\<close>)
  then show ?thesis ..
next
  case (leave1 i g)
  have "remaining n n_stages s' < remaining n n_stages s"
    by (rule thread_moves [OF \<open>i < n\<close>, where x = W_mid and w = "wstage s i"]) (use leave1 in \<open>simp_all add: thread_rank_def\<close>)
  then show ?thesis ..
next
  case (arrive2 i)
  have "remaining n n_stages s' < remaining n n_stages s"
    by (rule thread_moves [OF \<open>i < n\<close>, where x = "W_bar2 (generation s)" and w = "wstage s i"])
      (use arrive2 in \<open>simp_all add: thread_rank_def\<close>)
  then show ?thesis ..
next
  case (leave2 i g)
  have "remaining n n_stages s' < remaining n n_stages s"
    by (rule thread_moves [OF \<open>i < n\<close>, where x = W_top and w = "wstage s i"]) (use leave2 in \<open>simp_all add: thread_rank_def\<close>)
  then show ?thesis ..
next
  case (top_exit i)
  have "remaining n n_stages s' < remaining n n_stages s"
    by (rule thread_moves [OF \<open>i < n\<close>, where x = W_exit and w = "wstage s i"]) (use top_exit in \<open>simp_all add: thread_rank_def\<close>)
  then show ?thesis ..
next
  case advance
  have "cstage s < n_stages" using coord_inv_at [OF inv] advance(2) by (simp add: coord_inv_def Let_def)
  then have "remaining n n_stages s' < remaining n n_stages s"
    using next_stage_rank [of "cstage s" n_stages n "generation s"] advance
    by (intro coord_moves [where x = "C_bar2 (generation s)" and w = "cstage s + 1"]) simp_all
  then show ?thesis ..
next
  case (halt_one k)
  then show ?thesis by (intro disjI1 coord_moves [OF _ _ _ refl refl]) (simp_all add: coord_rank_def)
next
  case finish_req_duration
  then show ?thesis by (intro disjI1 coord_moves [OF _ _ _ refl refl]) (simp_all add: coord_rank_def)
next
  case all_complete
  then show ?thesis by (intro disjI1 coord_moves [OF _ _ _ refl refl]) (simp_all add: coord_rank_def)
next
  case halt_arrive
  then show ?thesis by (intro disjI1 coord_moves [OF _ _ _ refl refl]) (simp_all add: coord_rank_def)
next
  case (halted g)
  then show ?thesis by (intro disjI1 coord_moves [OF _ _ _ refl refl]) (simp_all add: coord_rank_def)
next
  case (released g)
  then show ?thesis by (intro disjI1 coord_moves [OF _ _ _ refl refl]) (simp_all add: coord_rank_def)
qed

text \<open>Where a step other than work is possible.\<close>

definition enabled :: "nat \<Rightarrow> nat \<Rightarrow> (nat \<Rightarrow> nat \<Rightarrow> thread_kind) \<Rightarrow> coord_conf \<Rightarrow> bool" where
  "enabled n n_stages kinds s \<longleftrightarrow> (\<exists>s'. coord_step n n_stages kinds s s' \<and> (wpc s' \<noteq> wpc s \<or> cpc s' \<noteq> cpc s))"

lemma enabledI: "coord_step n n_stages kinds s s' \<Longrightarrow> wpc s' \<noteq> wpc s \<or> cpc s' \<noteq> cpc s \<Longrightarrow> enabled n n_stages kinds s"
  by (auto simp: enabled_def)

lemma fun_upd_changes [simp]: "x \<noteq> f i \<Longrightarrow> f(i := x) \<noteq> f"
  by (metis fun_upd_same)

lemma thread_enabled:
  assumes "i < n" and "wpc s i \<noteq> W_done" and "wpc s i \<noteq> W_exit" and "\<not> at_barrier (generation s) (wpc s i)"
  shows "enabled n n_stages kinds s"
proof (cases "wpc s i")
  case W_run
  show ?thesis by (rule enabledI [OF coord_step.complete [OF assms(1) W_run]]) (simp add: W_run)
next
  case (W_bar1 g)
  then have "g \<noteq> generation s" using assms(4) by (auto simp: at_barrier_def)
  then show ?thesis by (intro enabledI [OF coord_step.leave1 [OF assms(1) W_bar1]]) (simp_all add: W_bar1)
next
  case W_mid
  show ?thesis by (rule enabledI [OF coord_step.arrive2 [OF assms(1) W_mid]]) (simp add: W_mid)
next
  case (W_bar2 g)
  then have "g \<noteq> generation s" using assms(4) by (auto simp: at_barrier_def)
  then show ?thesis by (intro enabledI [OF coord_step.leave2 [OF assms(1) W_bar2]]) (simp_all add: W_bar2)
next
  case W_top
  show ?thesis
  proof (cases "t_finished s i")
    case True
    show ?thesis by (rule enabledI [OF coord_step.top_exit [OF assms(1) W_top True]]) (simp add: W_top)
  next
    case False
    show ?thesis by (rule enabledI [OF coord_step.top_run [OF assms(1) W_top False]]) (simp add: W_top)
  qed
qed (use assms in simp_all)

text \<open>The coordinator does not wait for threads that have all arrived.\<close>

lemma not_all_arrived:
  assumes "run_inv n n_stages s" and "coord_at_barrier s"
  obtains i where "i < n" and "\<not> at_barrier (generation s) (wpc s i)"
proof -
  have "card {i. i < n \<and> at_barrier (generation s) (wpc s i)} < n" using assms by (simp add: run_inv_def barrier_inv_def)
  moreover have "{i. i < n \<and> at_barrier (generation s) (wpc s i)} = {..<n}" if "\<forall>i < n. at_barrier (generation s) (wpc s i)"
    using that by auto
  ultimately show ?thesis using that by fastforce
qed

lemma await_enabled:
  assumes inv: "run_inv n n_stages s" and pc: "cpc s = C_await"
  shows "enabled n n_stages kinds s"
proof (cases "unfinished_threads s = 0")
  case True
  show ?thesis by (rule enabledI [OF coord_step.all_complete [OF pc True]]) (simp add: pc)
next
  case False
  have c: "generation s = 2 * cstage s" "cstage s < n_stages" "unat (unfinished_threads s) = pending n s"
    using coord_inv_at [OF inv] pc by (simp_all add: coord_inv_def Let_def)
  then have "pending n s \<noteq> 0" using False by (metis unat_eq_zero)
  then have "{i. i < n \<and> uncompleted (generation s) (wpc s i)} \<noteq> {}" unfolding pending_def by (metis card.empty)
  then obtain i where i: "i < n" "uncompleted (generation s) (wpc s i)" by blast
  note w = worker_inv_at [OF inv i(1), unfolded worker_inv_def Let_def]
  have "wpc s i \<noteq> W_exit" using w c(1,2) by auto
  moreover have "\<not> at_barrier (generation s) (wpc s i)"
  proof
    assume "at_barrier (generation s) (wpc s i)"
    then have "wpc s i = W_bar2 (generation s)" using i(2) by (auto simp: at_barrier_def uncompleted_def)
    then have "generation s = 2 * wstage s i + 1" using w by simp
    then show False using c(1) by presburger
  qed
  moreover have "wpc s i \<noteq> W_done" using i(2) by (auto simp: uncompleted_def)
  ultimately show ?thesis using thread_enabled i(1) by blast
qed

lemma halting_enabled:
  assumes inv: "run_inv n n_stages s" and pc: "cpc s = C_bar1 g"
  shows "enabled n n_stages kinds s"
proof (cases "g = generation s")
  case False
  show ?thesis by (rule enabledI [OF coord_step.halted [OF pc False]]) (simp add: pc)
next
  case True
  have c: "pending n s = 0" "unfinished_threads s = 0" "\<forall>i < n. \<not> t_do_work s i" "cstage s < n_stages"
    using coord_inv_at [OF inv] pc True by (simp_all add: coord_inv_def Let_def unat_eq_zero)
  have "coord_at_barrier s" using pc True by (simp add: coord_at_barrier_def)
  with inv obtain i where i: "i < n" "\<not> at_barrier (generation s) (wpc s i)" by (rule not_all_arrived)
  have "\<not> uncompleted (generation s) (wpc s i)" using c(1) i(1) by (simp add: pending_def)
  then have W: "wpc s i = W_done" using i(2) by (auto simp: uncompleted_def at_barrier_def split: worker_pc.splits)
  have f: "\<not> t_finished s i" using inv i(1) c(4) by (simp add: run_inv_def flags_inv_def)
  have "may_stop (kinds (wstage s i) i) s i" using c i(1) by (simp add: may_stop_def split: thread_kind.splits)
  with i(1) W have "coord_step n n_stages kinds s (barrier_arrive n (s\<lparr> wpc := (wpc s)(i := W_bar1 (generation s)) \<rparr>))"
    using f by (rule coord_step.arrive1)
  then show ?thesis by (rule enabledI) (simp add: W)
qed

lemma releasing_enabled:
  assumes inv: "run_inv n n_stages s" and pc: "cpc s = C_bar2 g"
  shows "enabled n n_stages kinds s"
proof (cases "g = generation s")
  case False
  show ?thesis by (rule enabledI [OF coord_step.released [OF pc False]]) (simp add: pc)
next
  case True
  have "Suc (generation s) = 2 * cstage s" using coord_inv_at [OF inv] pc True by (simp add: coord_inv_def Let_def)
  then have odd: "odd (generation s)" by presburger
  have "coord_at_barrier s" using pc True by (simp add: coord_at_barrier_def)
  with inv obtain i where i: "i < n" "\<not> at_barrier (generation s) (wpc s i)" by (rule not_all_arrived)
  have "wpc s i \<noteq> W_done \<and> wpc s i \<noteq> W_exit"
    using worker_inv_at [OF inv i(1)] odd by (auto simp: worker_inv_def Let_def)
  then show ?thesis using thread_enabled i by blast
qed

lemma exiting_enabled:
  assumes inv: "run_inv n n_stages s" and pc: "cpc s = C_exit" and i: "i < n" "wpc s i \<noteq> W_exit"
  shows "enabled n n_stages kinds s"
proof -
  have g: "generation s = 2 * n_stages" using coord_inv_at [OF inv] pc by (simp add: coord_inv_def Let_def)
  note w = worker_inv_at [OF inv i(1), unfolded worker_inv_def Let_def]
  have "wpc s i \<noteq> W_done" using w g by auto
  moreover have "wpc s i \<noteq> W_bar1 (generation s)" using w g by auto
  moreover have "wpc s i \<noteq> W_bar2 (generation s)"
  proof
    assume "wpc s i = W_bar2 (generation s)"
    then have "generation s = 2 * wstage s i + 1" using w by simp
    then show False using g by presburger
  qed
  ultimately show ?thesis using thread_enabled [OF i(1) _ i(2)] by (simp add: at_barrier_def)
qed

lemma run_enabled:
  assumes inv: "run_inv n n_stages s"
  shows "enabled n n_stages kinds s \<or> cpc s = C_exit \<and> (\<forall>i < n. wpc s i = W_exit)"
proof (cases "cpc s")
  case C_sleep
  from enabledI [OF coord_step.finish_req_duration [OF C_sleep]] show ?thesis by (simp add: C_sleep)
next
  case C_await
  then show ?thesis using await_enabled [OF inv] by blast
next
  case (C_halt k)
  then have "k < n \<or> k = n" using coord_inv_at [OF inv] by (auto simp: coord_inv_def Let_def)
  then show ?thesis
  proof
    assume "k < n"
    from enabledI [OF coord_step.halt_one [OF C_halt this]] show ?thesis by (simp add: C_halt)
  next
    assume "k = n"
    with C_halt have "cpc s = C_halt n" by simp
    from enabledI [OF coord_step.halt_arrive [OF this]] show ?thesis by (simp add: C_halt)
  qed
next
  case (C_bar1 g)
  then show ?thesis using halting_enabled [OF inv] by blast
next
  case C_mid
  from enabledI [OF coord_step.advance [OF C_mid]] show ?thesis by (simp add: C_mid)
next
  case (C_bar2 g)
  then show ?thesis using releasing_enabled [OF inv] by blast
next
  case C_exit
  then show ?thesis using exiting_enabled [OF inv] by blast
qed

section \<open>Properties\<close>

lemma working_stage:
  assumes "coord_inv n n_stages s" and "generation s = 2 * k" and "k < n_stages"
  shows "k = cstage s \<and> cpc s \<noteq> C_mid \<and> cpc s \<noteq> C_bar2 (generation s)"
proof -
  have "cpc s \<noteq> C_mid"
  proof
    assume "cpc s = C_mid"
    then have "generation s = 2 * cstage s + 1" using assms(1) by (simp add: coord_inv_def Let_def)
    then show False using assms(2) by presburger
  qed
  moreover have "cpc s \<noteq> C_bar2 (generation s)"
  proof
    assume "cpc s = C_bar2 (generation s)"
    then have "Suc (generation s) = 2 * cstage s" using assms(1) by (simp add: coord_inv_def Let_def)
    then show False using assms(2) by presburger
  qed
  moreover have "generation s = 2 * cstage s \<or> generation s = 2 * cstage s + 1 \<or> generation s + 1 = 2 * cstage s"
    using assms(1) by (cases "cpc s") (auto simp: coord_inv_def Let_def)
  then have "k = cstage s" using assms(2) by presburger
  ultimately show ?thesis by blast
qed

lemma halting_completed:
  assumes "coord_inv n n_stages s" and "(\<exists>k. cpc s = C_halt k) \<or> cpc s = C_bar1 (generation s)" and "i < n"
  shows "wpc s i \<noteq> W_run"
proof
  assume "wpc s i = W_run"
  then have "i \<in> {j. j < n \<and> uncompleted (generation s) (wpc s j)}" using assms(3) by (simp add: uncompleted_def)
  moreover have "pending n s = 0" using assms(1,2) by (auto simp: coord_inv_def Let_def)
  ultimately show False by (auto simp: pending_def)
qed

text \<open>
  C8. Stages do not overlap.  In every state that any interleaving of the threads can reach, a thread that
  works, works on the coordinator's stage, which is one of the run, and the coordinator is not between
  its two waits, where it clears counters and sets the threads' flags and stage; while it halts the threads,
  every one has completed its required task; and when the last arrival releases them, all counters are 0.
\<close>

theorem stages_isolated:
  assumes "(coord_step n n_stages kinds)\<^sup>*\<^sup>* (thr_coordinator_init n c) s" and "n + 1 < 2 ^ 32" and "0 < n_stages" and "i < n"
  shows "(wpc s i = W_run \<or> wpc s i = W_done \<longrightarrow>
           wstage s i = cstage s \<and> cstage s < n_stages \<and> cpc s \<noteq> C_mid \<and> cpc s \<noteq> C_bar2 (generation s)) \<and>
         ((\<exists>k. cpc s = C_halt k) \<or> cpc s = C_bar1 (generation s) \<longrightarrow> wpc s i \<noteq> W_run) \<and>
         (cpc s = C_bar2 (generation s) \<longrightarrow> counts s = clear_cdata_counts (counts s))"
proof -
  have inv: "run_inv n n_stages s" by (rule reachable_inv [OF assms(1-3)])
  note ci = coord_inv_at [OF inv]
  have "wstage s i = cstage s \<and> cstage s < n_stages \<and> cpc s \<noteq> C_mid \<and> cpc s \<noteq> C_bar2 (generation s)"
    if "wpc s i = W_run \<or> wpc s i = W_done"
  proof -
    have "generation s = 2 * wstage s i" "wstage s i < n_stages"
      using worker_inv_at [OF inv assms(4)] that by (auto simp: worker_inv_def Let_def)
    then show ?thesis using working_stage [OF ci] by metis
  qed
  moreover have "counts s = clear_cdata_counts (counts s)" if "cpc s = C_bar2 (generation s)"
    using ci that by (simp add: coord_inv_def Let_def)
  ultimately show ?thesis using halting_completed [OF ci _ assms(4)] by blast
qed

theorem stages_isolated_witness:
  "\<forall>c. let s = thr_coordinator_init 2 c in
     wpc s 1 = W_run \<and> wstage s 1 = cstage s \<and> cstage s < 3 \<and> cpc s \<noteq> C_mid \<and> cpc s \<noteq> C_bar2 (generation s)"
proof
  fix c
  let ?s = "thr_coordinator_init 2 c"
  have "wpc ?s 1 = W_run" by (simp add: thr_coordinator_init_def)
  moreover have "(coord_step 2 3 (\<lambda>_ _. Linear))\<^sup>*\<^sup>* ?s ?s" ..
  ultimately show "let s = ?s in
     wpc s 1 = W_run \<and> wstage s 1 = cstage s \<and> cstage s < 3 \<and> cpc s \<noteq> C_mid \<and> cpc s \<noteq> C_bar2 (generation s)"
    using stages_isolated [of 2 3 "\<lambda>_ _. Linear" c ?s 1] by (simp add: Let_def)
qed



section \<open>Warnings\<close>

text \<open>
  Before a stage of inserts or deletes the coordinator warns when the batches do not cover the keys evenly.  \<open>None\<close> is a division
  by zero: the product of batch size and threads is a 32-bit number.
\<close>

datatype batch_warning = Batches_exceed_keys | Keys_not_divisible

definition batch_warnings :: "bool \<Rightarrow> u64 \<Rightarrow> u32 \<Rightarrow> u32 \<Rightarrow> batch_warning list option" where
  "batch_warnings asynchronous nkeys batch threads =
     (let m = (if asynchronous then batch else batch * threads) in
      if m = 0 then None
      else Some ((if \<not> asynchronous \<and> ucast m > nkeys then [Batches_exceed_keys] else []) @
                 (if nkeys mod ucast m \<noteq> 0 then [Keys_not_divisible] else [])))"

definition coordinator_warnings :: "stage \<Rightarrow> u32 \<Rightarrow> batch_warning list option" where
  "coordinator_warnings st worker_threads =
     (case wtype (stage_workload st) of
        WORKLOAD_TYPE_I \<Rightarrow> batch_warnings (async st) (key_end st - key_start st) (batch_write_size st) worker_threads
      | WORKLOAD_TYPE_D \<Rightarrow> batch_warnings (async st) (key_end st - key_start st) (batch_delete_size st) worker_threads
      | _ \<Rightarrow> Some [])"

text \<open>
  As long as the product does not wrap around, a stage without warning has a number of keys that all threads write in full
  batches.  The product of a batch of 1048576 keys and 4096 threads wraps around to zero.
\<close>

lemma no_batch_warning:
  assumes "unat batch * unat threads < 2 ^ 32" and "0 < batch" and "0 < threads" and "0 < nkeys"
  shows "batch_warnings False nkeys batch threads = Some [] \<longleftrightarrow> unat batch * unat threads dvd unat nkeys"
proof -
  have m: "unat (batch * threads) = unat batch * unat threads" using assms(1) by (intro unat_mult_no_overflow) simp
  have "0 < unat batch * unat threads" using assms(2,3) by (auto simp: word_less_nat_alt)
  moreover have c: "unat (ucast (batch * threads) :: u64) = unat batch * unat threads"
    using m assms(1) by (simp add: unsigned_ucast_eq take_bit_nat_eq_self_iff)
  moreover have "unat nkeys mod (unat batch * unat threads) = 0 \<longrightarrow> unat batch * unat threads \<le> unat nkeys"
    using assms(4) by (auto simp: word_less_nat_alt dest!: dvd_imp_le)
  ultimately show ?thesis
    using m by (auto simp: batch_warnings_def Let_def word_less_nat_alt word_unat_eq_iff unat_mod dvd_eq_mod_eq_0)
qed

lemma batch_warning_divides_by_zero: "batch_warnings False nkeys 1048576 4096 = None"
  by (simp add: batch_warnings_def)

end
