(* ===== verification/Barrier.thy ===== *)
theory Barrier
  imports Prelude
begin

text \<open>
  The barrier that takes the place of the one of POSIX threads on macOS (\<^verbatim>\<open>osx_pthread_barrier.c\<close>), with the proof that it
  implements the barrier the coordinator is modelled with.

  Each atomic access, and each acquisition and release of the mutex, is a step.  Waiting for the condition variable releases the mutex;
  a waiting thread is woken by a broadcast, or for no reason, and then acquires the mutex again.  The numbers of calls
  and of rounds are history.  Accesses are sequentially consistent.
\<close>

section \<open>The barrier\<close>

record barrier =
  b_count :: u32
  b_in :: u32
  current_round :: u32

definition BARRIER_IN_THRESHOLD :: u32 where
  "BARRIER_IN_THRESHOLD = (2147483647 * 2 + 1) div 2"

definition pthread_barrier_init :: "u32 \<Rightarrow> int + barrier" where
  "pthread_barrier_init n =
     (if n = 0 \<or> n > BARRIER_IN_THRESHOLD then Inl 22 else Inr \<lparr> b_count = n, b_in = 0, current_round = 0 \<rparr>)"

text \<open>
  Where a thread is: outside, about to increment \<^verbatim>\<open>in\<close>, about to acquire the mutex, about to read the round with the mutex, waiting,
  about to release the mutex and return 0; the last thread: about to reset \<^verbatim>\<open>in\<close>, about to store the round,
  about to acquire the mutex, to broadcast, to release the mutex and return \<^verbatim>\<open>PTHREAD_BARRIER_SERIAL_THREAD\<close>.
\<close>

datatype bpc =
    B_out | B_add u32 | B_lock u32 | B_check u32 | B_wait u32 | B_leave | B_reset u32 | B_round u32 | B_lock_last | B_broadcast | B_unlock_last

record bconf =
  bar :: barrier
  b_mutex :: "nat option"
  b_pc :: "nat \<Rightarrow> bpc"
  calls :: "nat \<Rightarrow> nat"
  rounds :: nat

definition goto_pc :: "nat \<Rightarrow> bpc \<Rightarrow> bconf \<Rightarrow> bconf" where
  "goto_pc i p s = s\<lparr> b_pc := (b_pc s)(i := p) \<rparr>"

definition acquire :: "nat \<Rightarrow> bpc \<Rightarrow> bconf \<Rightarrow> bconf option" where
  "acquire i p s = (if b_mutex s = None then Some (goto_pc i p (s\<lparr> b_mutex := Some i \<rparr>)) else None)"

definition wake :: "bpc \<Rightarrow> bpc" where
  "wake p = (case p of B_wait r \<Rightarrow> B_lock r | _ \<Rightarrow> p)"

text \<open>The next step of a thread in \<^verbatim>\<open>pthread_barrier_wait\<close>; \<open>None\<close> if it has to wait.\<close>

definition pthread_barrier_wait :: "nat \<Rightarrow> bconf \<Rightarrow> bconf option" where
  "pthread_barrier_wait i s =
     (case b_pc s i of
        B_out \<Rightarrow> Some (goto_pc i (B_add (current_round (bar s))) s)
      | B_add rnd \<Rightarrow>
          let k = b_in (bar s) + 1; s = s\<lparr> bar := (bar s)\<lparr> b_in := k \<rparr>, calls := (calls s)(i := calls s i + 1) \<rparr>
          in Some (goto_pc i (if k < b_count (bar s) then B_lock rnd else B_reset rnd) s)
      | B_lock rnd \<Rightarrow> acquire i (B_check rnd) s
      | B_check rnd \<Rightarrow> Some (if current_round (bar s) = rnd then goto_pc i (B_wait rnd) (s\<lparr> b_mutex := None \<rparr>) else goto_pc i B_leave s)
      | B_wait rnd \<Rightarrow> None
      | B_leave \<Rightarrow> Some (goto_pc i B_out (s\<lparr> b_mutex := None \<rparr>))
      | B_reset rnd \<Rightarrow> Some (goto_pc i (B_round rnd) (s\<lparr> bar := (bar s)\<lparr> b_in := 0 \<rparr> \<rparr>))
      | B_round rnd \<Rightarrow> Some (goto_pc i B_lock_last (s\<lparr> bar := (bar s)\<lparr> current_round := rnd + 1 \<rparr>, rounds := rounds s + 1 \<rparr>))
      | B_lock_last \<Rightarrow> acquire i B_broadcast s
      | B_broadcast \<Rightarrow> Some (goto_pc i B_unlock_last (s\<lparr> b_pc := wake \<circ> b_pc s \<rparr>))
      | B_unlock_last \<Rightarrow> Some (goto_pc i B_out (s\<lparr> b_mutex := None \<rparr>)))"

inductive barrier_step :: "nat \<Rightarrow> bconf \<Rightarrow> bconf \<Rightarrow> bool" for n where
  turn: "i < n \<Longrightarrow> pthread_barrier_wait i s = Some s' \<Longrightarrow> barrier_step n s s'"
| spurious: "i < n \<Longrightarrow> b_pc s i = B_wait rnd \<Longrightarrow> barrier_step n s (goto_pc i (B_lock rnd) s)"

definition barrier_start :: "barrier \<Rightarrow> bconf" where
  "barrier_start b = \<lparr> bar = b, b_mutex = None, b_pc = (\<lambda>_. B_out), calls = (\<lambda>_. 0), rounds = 0 \<rparr>"

section \<open>The barrier of POSIX threads\<close>

text \<open>Threads remember the generation in which they arrived and leave when it is over; the last arrival ends it.\<close>

record meeting =
  m_arrived :: nat
  m_generation :: nat
  m_waiting :: "nat \<Rightarrow> nat option"

inductive meet_step :: "nat \<Rightarrow> meeting \<Rightarrow> meeting \<Rightarrow> bool" for n where
  arrive: "i < n \<Longrightarrow> m_waiting m i = None \<Longrightarrow> m_arrived m + 1 < n \<Longrightarrow>
     meet_step n m (m\<lparr> m_arrived := m_arrived m + 1, m_waiting := (m_waiting m)(i := Some (m_generation m)) \<rparr>)"
| arrive_last: "i < n \<Longrightarrow> m_waiting m i = None \<Longrightarrow> m_arrived m + 1 = n \<Longrightarrow>
     meet_step n m (m\<lparr> m_arrived := 0, m_generation := m_generation m + 1, m_waiting := (m_waiting m)(i := Some (m_generation m)) \<rparr>)"
| leave: "i < n \<Longrightarrow> m_waiting m i = Some g \<Longrightarrow> g \<noteq> m_generation m \<Longrightarrow> meet_step n m (m\<lparr> m_waiting := (m_waiting m)(i := None) \<rparr>)"

definition waits_since :: "bconf \<Rightarrow> nat \<Rightarrow> nat option" where
  "waits_since s i =
     (case b_pc s i of B_out \<Rightarrow> None | B_add _ \<Rightarrow> None | B_reset _ \<Rightarrow> None | B_round _ \<Rightarrow> None | _ \<Rightarrow> Some (calls s i - 1))"

definition meeting_of :: "nat \<Rightarrow> bconf \<Rightarrow> meeting" where
  "meeting_of n s =
     \<lparr> m_arrived = card {i. i < n \<and> waits_since s i = Some (rounds s)}, m_generation = rounds s,
       m_waiting = (\<lambda>i. if i < n then waits_since s i else None) \<rparr>"

section \<open>Invariant\<close>

fun is_last :: "bpc \<Rightarrow> bool" where
  "is_last (B_reset _) = True"
| "is_last (B_round _) = True"
| "is_last _ = False"

fun owns :: "bpc \<Rightarrow> bool" where
  "owns (B_check _) = True"
| "owns B_leave = True"
| "owns B_broadcast = True"
| "owns B_unlock_last = True"
| "owns _ = False"

fun thread_ok :: "nat \<Rightarrow> nat \<Rightarrow> bpc \<Rightarrow> bool" where
  "thread_ok g c B_out \<longleftrightarrow> c = g"
| "thread_ok g c (B_add rnd) \<longleftrightarrow> c = g \<and> rnd = of_nat g"
| "thread_ok g c (B_lock rnd) \<longleftrightarrow> 0 < c \<and> rnd = of_nat (c - 1) \<and> (c = g \<or> c = g + 1)"
| "thread_ok g c (B_check rnd) \<longleftrightarrow> 0 < c \<and> rnd = of_nat (c - 1) \<and> (c = g \<or> c = g + 1)"
| "thread_ok g c (B_wait rnd) \<longleftrightarrow> 0 < c \<and> rnd = of_nat (c - 1) \<and> (c = g \<or> c = g + 1)"
| "thread_ok g c (B_reset rnd) \<longleftrightarrow> c = g + 1 \<and> rnd = of_nat g"
| "thread_ok g c (B_round rnd) \<longleftrightarrow> c = g + 1 \<and> rnd = of_nat g"
| "thread_ok g c _ \<longleftrightarrow> 0 < c \<and> c = g"

definition in_round :: "nat \<Rightarrow> bconf \<Rightarrow> nat" where
  "in_round n s = card {i. i < n \<and> calls s i = rounds s + 1}"

text \<open>
  A thread that waits although its round is over is about to be woken; once all threads have arrived, one of them, and only one,
  is the last.
\<close>

definition woken_later :: "nat \<Rightarrow> bconf \<Rightarrow> bool" where
  "woken_later n s \<longleftrightarrow>
     (\<exists>i < n. calls s i = rounds s \<and> (\<exists>rnd. b_pc s i = B_wait rnd)) \<longrightarrow> (\<exists>j < n. b_pc s j = B_lock_last \<or> b_pc s j = B_broadcast)"

definition last_ok :: "nat \<Rightarrow> bconf \<Rightarrow> bool" where
  "last_ok n s \<longleftrightarrow>
     (\<forall>i < n. is_last (b_pc s i) \<longrightarrow> in_round n s = n) \<and> (in_round n s = n \<longrightarrow> (\<exists>!i. i < n \<and> is_last (b_pc s i)))"

definition in_ok :: "nat \<Rightarrow> bconf \<Rightarrow> bool" where
  "in_ok n s \<longleftrightarrow> b_in (bar s) = (if \<exists>i < n. \<exists>rnd. b_pc s i = B_round rnd then 0 else of_nat (in_round n s))"

definition mutex_ok :: "nat \<Rightarrow> bconf \<Rightarrow> bool" where
  "mutex_ok n s \<longleftrightarrow> (\<forall>i < n. owns (b_pc s i) \<longleftrightarrow> b_mutex s = Some i) \<and> (\<forall>i. b_mutex s = Some i \<longrightarrow> i < n)"

definition barrier_ok :: "nat \<Rightarrow> bconf \<Rightarrow> bool" where
  "barrier_ok n s \<longleftrightarrow> 0 < n \<and> n < 2 ^ 31 \<and> b_count (bar s) = of_nat n \<and> current_round (bar s) = of_nat (rounds s) \<and>
     (\<forall>i < n. thread_ok (rounds s) (calls s i) (b_pc s i)) \<and> woken_later n s \<and> last_ok n s \<and> in_ok n s \<and> mutex_ok n s"

section \<open>Every step keeps the invariant\<close>

lemma goto_pc_sel [simp]:
  "b_pc (goto_pc i p s) = (b_pc s)(i := p)" "bar (goto_pc i p s) = bar s" "b_mutex (goto_pc i p s) = b_mutex s"
  "calls (goto_pc i p s) = calls s" "rounds (goto_pc i p s) = rounds s"
  by (simp_all add: goto_pc_def)

lemma in_round_le: "in_round n s \<le> n"
proof -
  have "card {i. i < n \<and> calls s i = rounds s + 1} \<le> card {..<n}" by (rule card_mono) auto
  then show ?thesis by (simp add: in_round_def)
qed

lemma in_round_all: "in_round n s = n \<longleftrightarrow> (\<forall>i < n. calls s i = rounds s + 1)"
proof
  assume "in_round n s = n"
  then have "{i. i < n \<and> calls s i = rounds s + 1} = {..<n}" by (intro card_subset_eq) (auto simp: in_round_def)
  then show "\<forall>i < n. calls s i = rounds s + 1" by blast
next
  assume "\<forall>i < n. calls s i = rounds s + 1"
  then have "{i. i < n \<and> calls s i = rounds s + 1} = {..<n}" by auto
  then show "in_round n s = n" by (simp add: in_round_def)
qed

lemma no_round: "(\<And>j. j < n \<Longrightarrow> \<not> is_last (b_pc s j)) \<Longrightarrow> j < n \<Longrightarrow> b_pc s j \<noteq> B_round rnd"
  by (metis is_last.simps(2))

text \<open>A thread moves on, with or without the mutex, and changes neither the counters nor the round.\<close>

lemma move_ok:
  assumes inv: "barrier_ok n s" and i: "i < n" and p: "thread_ok (rounds s) (calls s i) p"
    and kind: "\<not> is_last p" "\<not> is_last (b_pc s i)"
    and free: "owns p \<Longrightarrow> \<not> owns (b_pc s i) \<Longrightarrow> b_mutex s = None"
    and mutex: "m = (if owns p then Some i else if owns (b_pc s i) then None else b_mutex s)"
    and wait: "\<And>rnd. p = B_wait rnd \<Longrightarrow> calls s i \<noteq> rounds s"
    and wakes: "b_pc s i = B_lock_last \<or> b_pc s i = B_broadcast \<Longrightarrow> p = B_lock_last \<or> p = B_broadcast"
  shows "barrier_ok n (goto_pc i p (s\<lparr> b_mutex := m \<rparr>))"
proof -
  let ?s = "goto_pc i p (s\<lparr> b_mutex := m \<rparr>)"
  have r: "in_round n ?s = in_round n s" by (simp add: in_round_def)
  have "woken_later n ?s" using inv wait wakes i unfolding barrier_ok_def woken_later_def by (auto; metis)
  moreover have last: "is_last (b_pc ?s j) = is_last (b_pc s j)" for j using kind by simp
  have "last_ok n ?s" using inv unfolding barrier_ok_def last_ok_def r last by blast
  moreover have "(\<exists>rnd. b_pc ?s j = B_round rnd) = (\<exists>rnd. b_pc s j = B_round rnd)" for j using kind by auto
  then have "in_ok n ?s" using inv unfolding barrier_ok_def in_ok_def r by simp
  moreover have "mutex_ok n ?s" using inv free mutex i unfolding barrier_ok_def mutex_ok_def by (auto split: if_splits)
  ultimately show ?thesis using inv p by (simp add: barrier_ok_def)
qed

lemma unat_in:
  assumes "barrier_ok n s"
  shows "of_nat (Suc (in_round n s)) < b_count (bar s) \<longleftrightarrow> Suc (in_round n s) < n"
proof -
  have n: "n < 2 ^ 31" "b_count (bar s) = of_nat n" using assms by (simp_all add: barrier_ok_def)
  then have "unat (of_nat (Suc (in_round n s)) :: u32) = Suc (in_round n s)" "unat (of_nat n :: u32) = n"
    using in_round_le [of n s] by (intro unat_of_nat_32; simp)+
  then show ?thesis by (simp add: n(2) word_less_nat_alt del: of_nat_Suc)
qed

lemma in_round_call:
  assumes "i < n" and "calls s i = rounds s"
  shows "card {j. j < n \<and> ((calls s)(i := calls s i + 1)) j = rounds s + 1} = Suc (in_round n s)"
proof -
  have "{j. j < n \<and> ((calls s)(i := calls s i + 1)) j = rounds s + 1} = insert i {j. j < n \<and> calls s j = rounds s + 1}"
    using assms by auto
  then show ?thesis using assms(2) by (simp add: in_round_def)
qed

lemma add_ok:
  assumes inv: "barrier_ok n s" and i: "i < n" and pc: "b_pc s i = B_add rnd" and step: "pthread_barrier_wait i s = Some s'"
  shows "barrier_ok n s'"
proof -
  let ?k = "Suc (in_round n s)" and ?p = "if Suc (in_round n s) < n then B_lock rnd else B_reset rnd"
  have c: "calls s i = rounds s" "rnd = of_nat (rounds s)" using inv i pc by (auto simp: barrier_ok_def)
  have ne: "in_round n s \<noteq> n" using c(1) i by (auto simp: in_round_all)
  have nl: "\<not> is_last (b_pc s j)" if "j < n" for j using inv ne that by (auto simp: barrier_ok_def last_ok_def)
  then have "b_in (bar s) = of_nat (in_round n s)" using inv by (force simp: barrier_ok_def in_ok_def)
  then have s': "s' = goto_pc i ?p (s\<lparr> bar := (bar s)\<lparr> b_in := of_nat ?k \<rparr>, calls := (calls s)(i := calls s i + 1) \<rparr>)"
    using step pc unat_in [OF inv] by (simp add: pthread_barrier_wait_def Let_def add.commute)
  have r: "in_round n s' = ?k" using in_round_call [OF i c(1)] by (simp add: s' in_round_def)
  have full: "?k = n \<longleftrightarrow> \<not> ?k < n" using in_round_le [of n s] ne by auto
  have "woken_later n s'" using inv pc i unfolding barrier_ok_def woken_later_def by (auto simp: s' split: if_splits; metis bpc.distinct)
  moreover have "last_ok n s'" unfolding last_ok_def r full using nl i by (auto simp: s' split: if_splits)
  moreover have "b_pc s' j \<noteq> B_round x" if "j < n" for j x using no_round [of n s j x] nl that by (simp add: s')
  then have "\<not> (\<exists>j < n. \<exists>x. b_pc s' j = B_round x)" by blast
  moreover have "b_in (bar s') = of_nat ?k" by (simp add: s')
  ultimately have "in_ok n s'" "woken_later n s'" "last_ok n s'" unfolding in_ok_def r by auto
  moreover have "mutex_ok n s'" using inv pc i unfolding barrier_ok_def mutex_ok_def by (auto simp: s' split: if_splits)
  moreover have "thread_ok (rounds s') (calls s' j) (b_pc s' j)" if "j < n" for j
    using inv that c by (auto simp: barrier_ok_def s')
  ultimately show ?thesis using inv by (simp add: barrier_ok_def s')
qed


lemma reset_ok:
  assumes inv: "barrier_ok n s" and i: "i < n" and pc: "b_pc s i = B_reset rnd" and step: "pthread_barrier_wait i s = Some s'"
  shows "barrier_ok n s'"
proof -
  have s': "s' = goto_pc i (B_round rnd) (s\<lparr> bar := (bar s)\<lparr> b_in := 0 \<rparr> \<rparr>)" using step pc by (simp add: pthread_barrier_wait_def)
  have r: "in_round n s' = in_round n s" by (simp add: s' in_round_def)
  have last: "is_last (b_pc s' j) = is_last (b_pc s j)" for j using pc by (simp add: s')
  have "woken_later n s'" using inv pc i unfolding barrier_ok_def woken_later_def by (auto simp: s'; metis bpc.distinct)
  moreover have "last_ok n s'" using inv unfolding barrier_ok_def last_ok_def r last by blast
  moreover have "in_ok n s'" using i by (auto simp: in_ok_def s')
  moreover have "mutex_ok n s'" using inv pc i unfolding barrier_ok_def mutex_ok_def by (auto simp: s')
  moreover have "thread_ok (rounds s') (calls s' j) (b_pc s' j)" if "j < n" for j
    using inv that pc i by (auto simp: barrier_ok_def s')
  ultimately show ?thesis using inv by (simp add: barrier_ok_def s')
qed

lemma round_ok:
  assumes inv: "barrier_ok n s" and i: "i < n" and pc: "b_pc s i = B_round rnd" and step: "pthread_barrier_wait i s = Some s'"
  shows "barrier_ok n s'"
proof -
  have rnd: "rnd = of_nat (rounds s)" using inv i pc by (auto simp: barrier_ok_def)
  have s': "s' = goto_pc i B_lock_last (s\<lparr> bar := (bar s)\<lparr> current_round := rnd + 1 \<rparr>, rounds := rounds s + 1 \<rparr>)"
    using step pc by (simp add: pthread_barrier_wait_def)
  have lo: "last_ok n s" using inv by (simp add: barrier_ok_def)
  have "in_round n s = n" using lo i pc by (force simp: last_ok_def)
  then have all: "\<forall>j < n. calls s j = rounds s + 1" and one: "\<exists>!j. j < n \<and> is_last (b_pc s j)" using lo by (simp_all add: in_round_all last_ok_def)
  have "is_last (b_pc s i)" using pc by (simp add:)
  then have nl: "\<not> is_last (b_pc s' j)" if "j < n" for j using one that i by (cases "j = i") (auto simp: s')
  have r: "in_round n s' = 0" using all by (auto simp: in_round_def s')
  have n: "0 < n" using inv by (simp add: barrier_ok_def)
  have "woken_later n s'" using i by (auto simp: woken_later_def s')
  moreover have "last_ok n s'" using nl n by (auto simp: last_ok_def r)
  moreover have "b_pc s' j \<noteq> B_round x" if "j < n" for j x using no_round [of n s' j x] nl that by simp
  moreover have "b_in (bar s) = 0" using inv i pc by (auto simp: barrier_ok_def in_ok_def split: if_splits)
  ultimately have "in_ok n s'" "woken_later n s'" "last_ok n s'" unfolding in_ok_def r by (auto simp: s')
  moreover have "mutex_ok n s'" using inv pc i unfolding barrier_ok_def mutex_ok_def by (auto simp: s')
  moreover have "thread_ok (rounds s') (calls s' j) (b_pc s' j)" if j: "j < n" for j
  proof (cases "j = i")
    case False
    have "\<not> is_last (b_pc s j)" "thread_ok (rounds s) (calls s j) (b_pc s j)" using nl [OF j] False inv j by (simp_all add: s' barrier_ok_def)
    then show ?thesis using all j False by (cases "b_pc s j") (simp_all add: s')
  qed (use all i in \<open>simp add: s'\<close>)
  ultimately show ?thesis using inv rnd by (simp add: barrier_ok_def s' add.commute)
qed

lemma wake_simps [simp]:
  "is_last (wake p) = is_last p" "owns (wake p) = owns p" "wake p = B_round rnd \<longleftrightarrow> p = B_round rnd" "wake p \<noteq> B_wait rnd"
  "thread_ok g c p \<Longrightarrow> thread_ok g c (wake p)"
  by (cases p; simp add: wake_def)+

lemma broadcast_ok:
  assumes inv: "barrier_ok n s" and i: "i < n" and pc: "b_pc s i = B_broadcast" and step: "pthread_barrier_wait i s = Some s'"
  shows "barrier_ok n s'"
proof -
  have s': "s' = goto_pc i B_unlock_last (s\<lparr> b_pc := wake \<circ> b_pc s \<rparr>)" using step pc by (simp add: pthread_barrier_wait_def)
  have r: "in_round n s' = in_round n s" by (simp add: s' in_round_def)
  have last: "is_last (b_pc s' j) = is_last (b_pc s j)" "(\<exists>rnd. b_pc s' j = B_round rnd) = (\<exists>rnd. b_pc s j = B_round rnd)"
    "owns (b_pc s' j) = owns (b_pc s j)" for j using pc by (simp_all add: s')
  have "woken_later n s'" by (auto simp: woken_later_def s')
  moreover have "last_ok n s'" using inv unfolding barrier_ok_def last_ok_def r last by blast
  moreover have "in_ok n s'" using inv unfolding barrier_ok_def in_ok_def r last by (simp add: s')
  moreover have "mutex_ok n s'" using inv unfolding barrier_ok_def mutex_ok_def last by (simp add: s')
  moreover have "thread_ok (rounds s') (calls s' j) (b_pc s' j)" if j: "j < n" for j
  proof (cases "j = i")
    case True
    then show ?thesis using inv i pc by (auto simp: s' barrier_ok_def)
  qed (use inv j in \<open>simp add: s' barrier_ok_def\<close>)
  ultimately show ?thesis using inv by (simp add: barrier_ok_def s')
qed

lemma current_differs:
  assumes "barrier_ok n s" and "i < n" and "b_pc s i = B_check rnd"
  shows "current_round (bar s) = rnd \<longleftrightarrow> calls s i = rounds s + 1"
proof -
  have t: "current_round (bar s) = of_nat (rounds s)" "rnd = of_nat (calls s i - 1)" "0 < calls s i" "calls s i = rounds s \<or> calls s i = rounds s + 1"
    using assms by (auto simp: barrier_ok_def)
  have "(of_nat (rounds s) :: u32) \<noteq> of_nat (rounds s - 1)" if "0 < rounds s"
    using that by (cases "rounds s") simp_all
  then show ?thesis using t(1-3) t(4) by (elim disjE) simp_all
qed

lemma barrier_step_ok:
  assumes "barrier_step n s s'" and inv: "barrier_ok n s"
  shows "barrier_ok n s'"
  using assms(1)
proof cases
  case (turn i)
  have t: "thread_ok (rounds s) (calls s i) (b_pc s i)" using inv turn(1) by (simp add: barrier_ok_def)
  have same: "s\<lparr> b_mutex := b_mutex s \<rparr> = s" by simp
  note mv = move_ok [OF inv turn(1)]
  show ?thesis
  proof (cases "b_pc s i")
    case B_out
    moreover have "current_round (bar s) = of_nat (rounds s)" using inv by (simp add: barrier_ok_def)
    ultimately show ?thesis using turn(2) t mv [of "B_add (current_round (bar s))" "b_mutex s"] by (simp add: pthread_barrier_wait_def)
  next
    case (B_lock rnd)
    then show ?thesis using turn(2) t mv [of "B_check rnd" "Some i"]
      by (simp add: pthread_barrier_wait_def acquire_def split: if_splits)
  next
    case (B_check rnd)
    note d = current_differs [OF inv turn(1) B_check]
    show ?thesis
    proof (cases "current_round (bar s) = rnd")
      case True
      then show ?thesis using turn(2) t B_check d mv [of "B_wait rnd" None]
        by (simp add: pthread_barrier_wait_def)
    next
      case False
      moreover have "b_mutex s = Some i" using inv turn(1) B_check by (auto simp: barrier_ok_def mutex_ok_def)
      moreover have "s\<lparr> b_mutex := b_mutex s \<rparr> = s" by simp
      ultimately have "s\<lparr> b_mutex := Some i \<rparr> = s" by metis
      then show ?thesis using False turn(2) t B_check d mv [of B_leave "Some i"] by (auto simp: pthread_barrier_wait_def)
    qed
  next
    case B_leave
    then show ?thesis using turn(2) t mv [of B_out None] by (simp add: pthread_barrier_wait_def)
  next
    case B_lock_last
    then show ?thesis using turn(2) t mv [of B_broadcast "Some i"]
      by (simp add: pthread_barrier_wait_def acquire_def split: if_splits)
  next
    case B_unlock_last
    then show ?thesis using turn(2) t mv [of B_out None] by (simp add: pthread_barrier_wait_def)
  qed (use turn add_ok [OF inv turn(1)] reset_ok [OF inv turn(1)] round_ok [OF inv turn(1)] broadcast_ok [OF inv turn(1)] in
      \<open>simp_all add: pthread_barrier_wait_def\<close>)
next
  case (spurious i rnd)
  then show ?thesis using inv move_ok [OF inv spurious(2), of "B_lock rnd" "b_mutex s"]
    by (auto simp: barrier_ok_def)
qed

interpretation bs: preserved "barrier_step n" "barrier_ok n" for n
  by unfold_locales (rule barrier_step_ok)


section \<open>Progress\<close>

lemma barrier_init_ok:
  assumes "pthread_barrier_init c = Inr b"
  shows "barrier_ok (unat c) (barrier_start b)"
proof -
  have b: "b = \<lparr> b_count = c, b_in = 0, current_round = 0 \<rparr>" "c \<noteq> 0" "c \<le> 2147483647"
    using assms by (auto simp: pthread_barrier_init_def BARRIER_IN_THRESHOLD_def split: if_splits)
  then have "0 < unat c" "unat c < 2 ^ 31" by (simp_all add: unat_gt_0 word_le_nat_alt)
  moreover have "in_round (unat c) (barrier_start b) = 0" by (simp add: in_round_def barrier_start_def)
  ultimately show ?thesis
    using b by (auto simp: barrier_ok_def barrier_start_def woken_later_def last_ok_def in_ok_def mutex_ok_def)
qed

lemma barrier_reachable:
  assumes "pthread_barrier_init c = Inr b" and "(barrier_step (unat c))\<^sup>*\<^sup>* (barrier_start b) s"
  shows "barrier_ok (unat c) s"
  using bs.reach_inv [OF assms(2) barrier_init_ok [OF assms(1)]] .

text \<open>What the threads inside a call still have to do.\<close>

fun bpc_rank :: "nat \<Rightarrow> bpc \<Rightarrow> nat" where
  "bpc_rank n B_out = 0"
| "bpc_rank n (B_add _) = 3 * n + 10"
| "bpc_rank n (B_lock _) = 6"
| "bpc_rank n (B_check _) = 5"
| "bpc_rank n (B_wait _) = 4"
| "bpc_rank n B_leave = 1"
| "bpc_rank n (B_reset _) = 3 * n + 9"
| "bpc_rank n (B_round _) = 3 * n + 8"
| "bpc_rank n B_lock_last = 3 * n + 7"
| "bpc_rank n B_broadcast = 3 * n + 6"
| "bpc_rank n B_unlock_last = 1"

definition barrier_work :: "nat \<Rightarrow> bconf \<Rightarrow> nat" where
  "barrier_work n s = (\<Sum>i < n. bpc_rank n (b_pc s i))"

lemma work_move:
  assumes "i < n" and "bpc_rank n p < bpc_rank n (f i)"
  shows "(\<Sum>j < n. bpc_rank n ((f(i := p)) j)) < (\<Sum>j < n. bpc_rank n (f j))"
  using assms by (intro sum_strict_mono_ex1) auto

lemma wake_rank: "bpc_rank n (wake p) \<le> bpc_rank n p + 2"
  by (cases p) (simp_all add: wake_def)

lemma work_broadcast:
  assumes "i < n" and "f i = B_broadcast"
  shows "(\<Sum>j < n. bpc_rank n (((wake \<circ> f)(i := B_unlock_last)) j)) < (\<Sum>j < n. bpc_rank n (f j))"
proof -
  let ?g = "(wake \<circ> f)(i := B_unlock_last)" and ?A = "{..<n} - {i}"
  have split: "(\<Sum>j < n. h j) = h i + (\<Sum>j \<in> ?A. h j)" for h :: "nat \<Rightarrow> nat" using assms(1) by (simp add: sum.remove)
  have "(\<Sum>j \<in> ?A. bpc_rank n (?g j)) \<le> (\<Sum>j \<in> ?A. bpc_rank n (f j) + 2)" using wake_rank [of n] by (intro sum_mono) auto
  also have "\<dots> \<le> (\<Sum>j \<in> ?A. bpc_rank n (f j)) + 2 * n" unfolding sum.distrib using assms(1) by simp
  finally show ?thesis using assms unfolding split [of "\<lambda>j. bpc_rank n (?g j)"] split [of "\<lambda>j. bpc_rank n (f j)"] by simp
qed

lemma turn_works:
  assumes "i < n" and "b_pc s i \<noteq> B_out" and "pthread_barrier_wait i s = Some s'"
  shows "barrier_work n s' < barrier_work n s"
proof (cases "b_pc s i = B_broadcast")
  case True
  then show ?thesis using assms work_broadcast [where f = "b_pc s", OF assms(1) True] by (auto simp: pthread_barrier_wait_def barrier_work_def)
next
  case False
  then obtain p where "b_pc s' = (b_pc s)(i := p)" "bpc_rank n p < bpc_rank n (b_pc s i)"
    using assms(2,3) by (cases "b_pc s i") (auto simp: pthread_barrier_wait_def acquire_def Let_def split: if_splits)
  then show ?thesis using work_move [where f = "b_pc s", OF assms(1)] by (simp add: barrier_work_def)
qed

lemma some_turn:
  assumes inv: "barrier_ok n s" and out: "\<forall>i < n. b_pc s i \<noteq> B_out"
  shows "\<exists>i s'. i < n \<and> pthread_barrier_wait i s = Some s'"
proof (rule ccontr)
  assume no: "\<not> ?thesis"
  have stuck: "pthread_barrier_wait i s = None" if "i < n" for i using no that by (cases "pthread_barrier_wait i s") auto
  have kinds: "b_mutex s \<noteq> None \<and> (\<exists>rnd. b_pc s i = B_lock rnd) \<or> b_mutex s \<noteq> None \<and> b_pc s i = B_lock_last \<or> (\<exists>rnd. b_pc s i = B_wait rnd)" if "i < n" for i
    using stuck [OF that] out that by (cases "b_pc s i") (auto simp: pthread_barrier_wait_def acquire_def Let_def split: if_splits)
  have m: "b_mutex s = None"
  proof (rule ccontr)
    assume "b_mutex s \<noteq> None"
    then obtain i where "b_mutex s = Some i" "i < n" using inv by (auto simp: barrier_ok_def mutex_ok_def)
    then have "owns (b_pc s i)" "i < n" using inv by (auto simp: barrier_ok_def mutex_ok_def)
    then show False using kinds [of i] by auto
  qed
  have wait: "\<exists>rnd. b_pc s i = B_wait rnd" if "i < n" for i using kinds [OF that] m by simp
  then have "in_round n s \<noteq> n" using inv by (force simp: barrier_ok_def last_ok_def)
  then obtain i where i: "i < n" "calls s i \<noteq> rounds s + 1" by (auto simp: in_round_all)
  obtain rnd where w: "b_pc s i = B_wait rnd" using wait [OF i(1)] by blast
  then have "thread_ok (rounds s) (calls s i) (B_wait rnd)" using inv i(1) by (metis barrier_ok_def)
  then have "calls s i = rounds s" using i(2) by simp
  then obtain j where "j < n" "b_pc s j = B_lock_last \<or> b_pc s j = B_broadcast" using inv i(1) w unfolding barrier_ok_def woken_later_def by blast
  then show False using wait [of j] by auto
qed

section \<open>Refinement\<close>

lemma meeting_same:
  assumes "\<And>j. j < n \<Longrightarrow> waits_since s' j = waits_since s j" and "rounds s' = rounds s"
  shows "meeting_of n s' = meeting_of n s"
proof -
  have "{i. i < n \<and> waits_since s' i = Some (rounds s')} = {i. i < n \<and> waits_since s i = Some (rounds s)}" using assms by auto
  moreover have "(\<lambda>i. if i < n then waits_since s' i else None) = (\<lambda>i. if i < n then waits_since s i else None)" using assms(1) by auto
  ultimately show ?thesis using assms(2) by (simp only: meeting_of_def)
qed

lemma meeting_change:
  assumes "\<And>j. j < n \<Longrightarrow> waits_since s' j = ((waits_since s)(i := w)) j" and "i < n"
  shows "meeting_of n s' = \<lparr> m_arrived = card {j. j < n \<and> ((waits_since s)(i := w)) j = Some (rounds s')}, m_generation = rounds s',
     m_waiting = (m_waiting (meeting_of n s))(i := w) \<rparr>"
proof -
  have "{j. j < n \<and> waits_since s' j = Some (rounds s')} = {j. j < n \<and> ((waits_since s)(i := w)) j = Some (rounds s')}" using assms(1) by auto
  moreover have "(\<lambda>j. if j < n then waits_since s' j else None) = (m_waiting (meeting_of n s))(i := w)"
    using assms by (auto simp: meeting_of_def)
  ultimately show ?thesis by (simp only: meeting_of_def)
qed

lemma waits_current:
  assumes "barrier_ok n s"
  shows "{j. j < n \<and> waits_since s j = Some (rounds s)} = {j. j < n \<and> calls s j = rounds s + 1} - {j. j < n \<and> is_last (b_pc s j)}"
proof -
  have "waits_since s j = Some (rounds s) \<longleftrightarrow> calls s j = rounds s + 1 \<and> \<not> is_last (b_pc s j)" if "j < n" for j
  proof -
    have "thread_ok (rounds s) (calls s j) (b_pc s j)" using assms that by (simp add: barrier_ok_def)
    then show ?thesis by (cases "b_pc s j") (auto simp: waits_since_def)
  qed
  then show ?thesis by auto
qed

lemma add_refines:
  assumes inv: "barrier_ok n s" and i: "i < n" and pc: "b_pc s i = B_add rnd" and step: "pthread_barrier_wait i s = Some s'"
  shows "meet_step n (meeting_of n s) (meeting_of n s') \<or> meeting_of n s' = meeting_of n s"
proof -
  have c: "calls s i = rounds s" using inv i pc by (auto simp: barrier_ok_def dest!: spec [of _ i])
  have ne: "in_round n s \<noteq> n" using c i by (auto simp: in_round_all)
  have nl: "\<not> is_last (b_pc s j)" if "j < n" for j using inv ne that by (auto simp: barrier_ok_def last_ok_def)
  have "b_in (bar s) = of_nat (in_round n s)" using inv no_round [of n s] nl by (auto simp: barrier_ok_def in_ok_def)
  then have s': "b_pc s' = (b_pc s)(i := if Suc (in_round n s) < n then B_lock rnd else B_reset rnd)" "calls s' = (calls s)(i := calls s i + 1)" "rounds s' = rounds s"
    using step pc unat_in [OF inv] by (auto simp: pthread_barrier_wait_def Let_def add.commute)
  have arr: "card {j. j < n \<and> waits_since s j = Some (rounds s)} = in_round n s"
    using waits_current [OF inv] nl by (simp add: in_round_def Collect_conj_eq [symmetric] set_diff_eq cong: conj_cong)
  show ?thesis
  proof (cases "Suc (in_round n s) < n")
    case True
    have "waits_since s' j = ((waits_since s)(i := Some (rounds s))) j" for j using True c by (auto simp: waits_since_def s' split: bpc.split)
    note m = meeting_change [where s = s and s' = s' and i = i and w = "Some (rounds s)", OF this i]
    have "{j. j < n \<and> ((waits_since s)(i := Some (rounds s))) j = Some (rounds s)} = insert i {j. j < n \<and> waits_since s j = Some (rounds s)}"
      using i by auto
    moreover have wi: "waits_since s i = None" using pc by (simp add: waits_since_def)
    ultimately have e: "meeting_of n s' = (meeting_of n s)\<lparr> m_arrived := m_arrived (meeting_of n s) + 1, m_waiting := (m_waiting (meeting_of n s))(i := Some (m_generation (meeting_of n s))) \<rparr>"
      using m arr by (simp add: meeting_of_def s')
    have "m_waiting (meeting_of n s) i = None" "m_arrived (meeting_of n s) + 1 < n" using wi arr True by (simp_all add: meeting_of_def)
    then show ?thesis unfolding e using meet_step.arrive [OF i] by blast
  next
    case False
    have "waits_since s' j = waits_since s j" for j using False pc by (auto simp: waits_since_def s' split: bpc.split)
    then show ?thesis using meeting_same s'(3) by blast
  qed
qed

lemma round_refines:
  assumes inv: "barrier_ok n s" and i: "i < n" and pc: "b_pc s i = B_round rnd" and step: "pthread_barrier_wait i s = Some s'"
  shows "meet_step n (meeting_of n s) (meeting_of n s')"
proof -
  have lo: "last_ok n s" using inv by (simp add: barrier_ok_def)
  have full: "in_round n s = n" using lo i pc by (force simp: last_ok_def)
  then have all: "\<forall>j < n. calls s j = rounds s + 1" and one: "\<exists>!j. j < n \<and> is_last (b_pc s j)" using lo by (simp_all add: in_round_all last_ok_def)
  have "is_last (b_pc s i)" using pc by simp
  then have "{j. j < n \<and> is_last (b_pc s j)} = {i}" using one i by auto
  then have "{j. j < n \<and> waits_since s j = Some (rounds s)} = {..<n} - {i}" unfolding waits_current [OF inv] using all by auto
  then have arr: "m_arrived (meeting_of n s) + 1 = n" using i by (simp add: meeting_of_def)
  have s': "b_pc s' = (b_pc s)(i := B_lock_last)" "calls s' = calls s" "rounds s' = rounds s + 1"
    using step pc by (auto simp: pthread_barrier_wait_def)
  have w: "waits_since s' j = ((waits_since s)(i := Some (rounds s))) j" if "j < n" for j using all i by (auto simp: waits_since_def s' split: bpc.split)
  have "waits_since s j \<noteq> Some (rounds s + 1)" if "j < n" for j using all that by (auto simp: waits_since_def split: bpc.splits)
  then have none: "{j. j < n \<and> ((waits_since s)(i := Some (rounds s))) j = Some (rounds s')} = {}" by (auto simp: s')
  have g: "m_generation (meeting_of n s) = rounds s" by (simp add: meeting_of_def)
  have m: "meeting_of n s' = \<lparr> m_arrived = 0, m_generation = rounds s', m_waiting = (m_waiting (meeting_of n s))(i := Some (rounds s)) \<rparr>"
    using meeting_change [where s = s and s' = s' and i = i and w = "Some (rounds s)", OF w i] unfolding none by simp
  have e: "meeting_of n s' = (meeting_of n s)\<lparr> m_arrived := 0, m_generation := m_generation (meeting_of n s) + 1,
      m_waiting := (m_waiting (meeting_of n s))(i := Some (m_generation (meeting_of n s))) \<rparr>"
    unfolding m by (cases "meeting_of n s") (use g s'(3) in simp)
  have "m_waiting (meeting_of n s) i = None" using pc by (simp add: meeting_of_def waits_since_def)
  then show ?thesis unfolding e by (rule meet_step.arrive_last [OF i _ arr])
qed

lemma leave_refines:
  assumes inv: "barrier_ok n s" and i: "i < n" and pc: "b_pc s i = B_leave \<or> b_pc s i = B_unlock_last" and step: "pthread_barrier_wait i s = Some s'"
  shows "meet_step n (meeting_of n s) (meeting_of n s')"
proof -
  have c: "calls s i = rounds s" "0 < rounds s" using inv i pc by (auto simp: barrier_ok_def dest!: spec [of _ i])
  have s': "b_pc s' = (b_pc s)(i := B_out)" "calls s' = calls s" "rounds s' = rounds s" using step pc by (auto simp: pthread_barrier_wait_def)
  have w: "waits_since s' j = ((waits_since s)(i := None)) j" for j by (auto simp: waits_since_def s' split: bpc.split)
  have wi: "waits_since s i = Some (rounds s - 1)" using pc c by (auto simp: waits_since_def)
  then have "{j. j < n \<and> ((waits_since s)(i := None)) j = Some (rounds s)} = {j. j < n \<and> waits_since s j = Some (rounds s)}" using c(2) by auto
  then have e: "meeting_of n s' = (meeting_of n s)\<lparr> m_waiting := (m_waiting (meeting_of n s))(i := None) \<rparr>"
    using meeting_change [where s = s and s' = s' and w = None, OF w i] by (simp add: meeting_of_def s')
  have "m_waiting (meeting_of n s) i = Some (rounds s - 1)" "rounds s - 1 \<noteq> m_generation (meeting_of n s)"
    using wi i c(2) by (simp_all add: meeting_of_def)
  then show ?thesis unfolding e by (rule meet_step.leave [OF i])
qed

lemma quiet:
  assumes "pthread_barrier_wait i s = Some s'" and "\<And>rnd. b_pc s i \<noteq> B_add rnd" "\<And>rnd. b_pc s i \<noteq> B_round rnd"
    and "b_pc s i \<noteq> B_leave" "b_pc s i \<noteq> B_unlock_last"
  shows "waits_since s' j = waits_since s j \<and> rounds s' = rounds s"
  using assms
  by (cases "b_pc s i"; cases "j = i"; cases "b_pc s j")
    (auto simp: pthread_barrier_wait_def waits_since_def acquire_def wake_def Let_def split: if_splits)

lemma step_refines:
  assumes inv: "barrier_ok n s" and "barrier_step n s s'"
  shows "meet_step n (meeting_of n s) (meeting_of n s') \<or> meeting_of n s' = meeting_of n s"
  using assms(2)
proof cases
  case (turn i)
  consider (add) rnd where "b_pc s i = B_add rnd" | (last) rnd where "b_pc s i = B_round rnd" | (leave) "b_pc s i = B_leave \<or> b_pc s i = B_unlock_last"
    | (other) "\<And>rnd. b_pc s i \<noteq> B_add rnd" "\<And>rnd. b_pc s i \<noteq> B_round rnd" "b_pc s i \<noteq> B_leave" "b_pc s i \<noteq> B_unlock_last"
    by blast
  then show ?thesis
  proof cases
    case other
    then show ?thesis using quiet [OF turn(2) other] meeting_same by blast
  qed (use add_refines [OF inv turn(1)] round_refines [OF inv turn(1)] leave_refines [OF inv turn(1)] turn(2) in blast)+
next
  case (spurious i rnd)
  then have "waits_since s' j = waits_since s j" for j by (auto simp: waits_since_def split: bpc.split)
  then show ?thesis using meeting_same spurious(1) by (metis goto_pc_sel(5))
qed

text \<open>The calls from which a thread has returned.\<close>

definition returned_calls :: "bconf \<Rightarrow> nat \<Rightarrow> nat" where
  "returned_calls s i = (case b_pc s i of B_out \<Rightarrow> calls s i | B_add _ \<Rightarrow> calls s i | _ \<Rightarrow> calls s i - 1)"

lemma returned_le:
  assumes "barrier_ok n s" and "i < n" and "j < n"
  shows "returned_calls s i \<le> calls s j"
proof -
  have t: "thread_ok (rounds s) (calls s k) (b_pc s k)" if "k < n" for k using assms(1) that by (simp add: barrier_ok_def)
  have "returned_calls s i \<le> rounds s" using t [OF assms(2)] by (cases "b_pc s i") (auto simp: returned_calls_def)
  also have "rounds s \<le> calls s j" using t [OF assms(3)] by (cases "b_pc s j") auto
  finally show ?thesis .
qed

section \<open>Properties\<close>

text \<open>
  C38. The barrier for macOS implements the barrier of POSIX threads: every step of a thread, at every interleaving and with wake-ups for
  no reason, is an arrival, the arrival that ends the generation, a departure from a generation that is over, or invisible.
\<close>

theorem barrier_refines:
  assumes "pthread_barrier_init c = Inr b" and "(barrier_step (unat c))\<^sup>*\<^sup>* (barrier_start b) s" and "barrier_step (unat c) s s'"
  shows "meet_step (unat c) (meeting_of (unat c) s) (meeting_of (unat c) s') \<or> meeting_of (unat c) s' = meeting_of (unat c) s"
  by (rule step_refines [OF barrier_reachable [OF assms(1,2)] assms(3)])

text \<open>
  C39. The barrier blocks nobody: whenever all threads are inside, one of them can go on without being woken for no reason; every such
  step inside brings the calls nearer to their end; and no thread has returned from more calls than any other has made.
\<close>

theorem barrier_passes:
  assumes "pthread_barrier_init c = Inr b" and "(barrier_step (unat c))\<^sup>*\<^sup>* (barrier_start b) s"
  shows "((\<forall>i < unat c. b_pc s i \<noteq> B_out) \<longrightarrow> (\<exists>i s'. i < unat c \<and> pthread_barrier_wait i s = Some s')) \<and>
     (\<forall>i s'. i < unat c \<and> b_pc s i \<noteq> B_out \<and> pthread_barrier_wait i s = Some s' \<longrightarrow> barrier_work (unat c) s' < barrier_work (unat c) s) \<and>
     (\<forall>i j. i < unat c \<and> j < unat c \<longrightarrow> returned_calls s i \<le> calls s j)"
  using barrier_reachable [OF assms] some_turn turn_works returned_le by blast


section \<open>Witnesses\<close>

definition example_barrier :: barrier where
  "example_barrier = \<lparr> b_count = 2, b_in = 0, current_round = 0 \<rparr>"

lemma example_barrier_init: "pthread_barrier_init 2 = Inr example_barrier"
  by (simp add: pthread_barrier_init_def BARRIER_IN_THRESHOLD_def example_barrier_def)

lemma example_entered:
  assumes "s1 = goto_pc 0 (B_add 0) (barrier_start example_barrier)" and "s2 = goto_pc 1 (B_add 0) s1"
  shows "barrier_step 2 (barrier_start example_barrier) s1" "barrier_step 2 s1 s2"
  by (rule barrier_step.turn [of 0], simp, simp add: assms pthread_barrier_wait_def barrier_start_def example_barrier_def)
    (rule barrier_step.turn [of 1], simp, simp add: assms pthread_barrier_wait_def barrier_start_def example_barrier_def)

theorem barrier_refines_witness:
  "\<exists>s s'. b_pc s 0 = B_add 0 \<and> barrier_step 2 s s' \<and>
     (meet_step 2 (meeting_of 2 s) (meeting_of 2 s') \<or> meeting_of 2 s' = meeting_of 2 s)"
proof -
  define s1 where "s1 = goto_pc 0 (B_add 0) (barrier_start example_barrier)"
  define s2 where "s2 = goto_pc 1 (B_add 0) s1"
  note e = example_entered [OF s1_def s2_def]
  have "(barrier_step (unat (2 :: u32)))\<^sup>*\<^sup>* (barrier_start example_barrier) s1" using e(1) by simp
  from barrier_refines [OF example_barrier_init this, of s2] e(2) show ?thesis by (intro exI [of _ s1] exI [of _ s2]) (simp add: s1_def)
qed

theorem barrier_passes_witness:
  "\<exists>s. (\<forall>i < 2. b_pc s i = B_add 0) \<and> (\<exists>i s'. i < 2 \<and> pthread_barrier_wait i s = Some s' \<and> barrier_work 2 s' < barrier_work 2 s)"
proof -
  define s1 where "s1 = goto_pc 0 (B_add 0) (barrier_start example_barrier)"
  define s2 where "s2 = goto_pc 1 (B_add 0) s1"
  note e = example_entered [OF s1_def s2_def]
  have r: "(barrier_step (unat (2 :: u32)))\<^sup>*\<^sup>* (barrier_start example_barrier) s2" using e by (simp add: rtranclp.rtrancl_into_rtrancl r_into_rtranclp)
  have pc: "b_pc s2 i = B_add 0" if "i < 2" for i using that by (auto simp: s1_def s2_def less_2_cases_iff)
  then have "\<forall>i < unat (2 :: u32). b_pc s2 i \<noteq> B_out" by simp
  then obtain i s' where "i < 2" "pthread_barrier_wait i s2 = Some s'" "barrier_work 2 s' < barrier_work 2 s2"
    using barrier_passes [OF example_barrier_init r] by auto
  then show ?thesis using pc by blast
qed

end
