(* ===== verification/Hdr_Index.thy ===== *)
theory Hdr_Index
  imports Prelude "HOL-Library.Monad_Syntax"
begin

text \<open>
  The layout of the HDR histograms of \<^verbatim>\<open>hdr_histogram.c\<close>: the configuration of the buckets, the index of
  the counter of a value and the values a counter stands for.

  Signed integers of the C code are integers; the conversions to \<^verbatim>\<open>int32_t\<close> are written out, and the
  lemmas show that all numbers stay in range.  The logarithm to base 2, which the code computes as
  \<^verbatim>\<open>log(x) / log(2)\<close> in double precision, is a parameter \<open>lg\<close>.
\<close>

section \<open>Data\<close>

definition INT64_MAX :: int where "INT64_MAX = 2 ^ 63 - 1"

definition s32 :: "int \<Rightarrow> int" where "s32 = signed_take_bit 31"

record hdr_histogram =
  lowest_trackable_value :: int
  highest_trackable_value :: int
  unit_magnitude :: int
  significant_figures :: int
  sub_bucket_half_count_magnitude :: int
  sub_bucket_half_count :: int
  sub_bucket_mask :: int
  sub_bucket_count :: int
  bucket_count :: int
  min_value :: int
  max_value :: int
  normalizing_index_offset :: int
  conversion_ratio :: u64
  counts_len :: int
  total_count :: int
  counts :: "int list"

record hdr_histogram_bucket_config =
  cfg_lowest_trackable_value :: int
  cfg_highest_trackable_value :: int
  cfg_unit_magnitude :: int
  cfg_significant_figures :: int
  cfg_sub_bucket_half_count_magnitude :: int
  cfg_sub_bucket_half_count :: int
  cfg_sub_bucket_mask :: int
  cfg_sub_bucket_count :: int
  cfg_bucket_count :: int
  cfg_counts_len :: int

datatype hdr_error = EINVAL | ENOMEM | EIO | HDR_COMPRESSION_COOKIE_MISMATCH | HDR_ENCODING_COOKIE_MISMATCH |
  HDR_DEFLATE_INIT_FAIL | HDR_DEFLATE_FAIL | HDR_INFLATE_INIT_FAIL | HDR_INFLATE_FAIL | HDR_LOG_INVALID_VERSION |
  HDR_TRAILING_ZEROS_INVALID | HDR_VALUE_TRUNCATED | HDR_ENCODED_INPUT_TOO_LONG

section \<open>Indices\<close>

definition normalize_index :: "hdr_histogram \<Rightarrow> int \<Rightarrow> int" where
  "normalize_index h index =
     (if normalizing_index_offset h = 0 then index
      else let normalized_index = index - normalizing_index_offset h;
               adjustment = (if normalized_index < 0 then counts_len h else if normalized_index \<ge> counts_len h then - counts_len h else 0)
           in normalized_index + adjustment)"

definition count_leading_zeros_64 :: "int \<Rightarrow> int" where
  "count_leading_zeros_64 value = int (clz (word_of_int value :: u64))"

definition get_bucket_index :: "hdr_histogram \<Rightarrow> int \<Rightarrow> int" where
  "get_bucket_index h value =
     (let pow2ceiling = 64 - count_leading_zeros_64 (value OR sub_bucket_mask h)
      in pow2ceiling - unit_magnitude h - (sub_bucket_half_count_magnitude h + 1))"

definition get_sub_bucket_index :: "int \<Rightarrow> int \<Rightarrow> int \<Rightarrow> int" where
  "get_sub_bucket_index value bucket_index um = s32 (drop_bit (nat (bucket_index + um)) value)"

definition counts_index :: "hdr_histogram \<Rightarrow> int \<Rightarrow> int \<Rightarrow> int" where
  "counts_index h bucket_index sub_bucket_index =
     (let bucket_base_index = push_bit (nat (sub_bucket_half_count_magnitude h)) (bucket_index + 1);
          offset_in_bucket = sub_bucket_index - sub_bucket_half_count h
      in bucket_base_index + offset_in_bucket)"

definition value_from_index :: "int \<Rightarrow> int \<Rightarrow> int \<Rightarrow> int" where
  "value_from_index bucket_index sub_bucket_index um = push_bit (nat (bucket_index + um)) sub_bucket_index"

definition counts_index_for :: "hdr_histogram \<Rightarrow> int \<Rightarrow> int" where
  "counts_index_for h value =
     (let bucket_index = get_bucket_index h value;
          sub_bucket_index = get_sub_bucket_index value bucket_index (unit_magnitude h)
      in counts_index h bucket_index sub_bucket_index)"

definition hdr_value_at_index :: "hdr_histogram \<Rightarrow> int \<Rightarrow> int" where
  "hdr_value_at_index h index =
     (let bucket_index = drop_bit (nat (sub_bucket_half_count_magnitude h)) index - 1;
          sub_bucket_index = (index AND (sub_bucket_half_count h - 1)) + sub_bucket_half_count h
      in if bucket_index < 0 then value_from_index 0 (sub_bucket_index - sub_bucket_half_count h) (unit_magnitude h)
         else value_from_index bucket_index sub_bucket_index (unit_magnitude h))"

definition hdr_size_of_equivalent_value_range :: "hdr_histogram \<Rightarrow> int \<Rightarrow> int" where
  "hdr_size_of_equivalent_value_range h value =
     (let bucket_index = get_bucket_index h value;
          sub_bucket_index = get_sub_bucket_index value bucket_index (unit_magnitude h);
          adjusted_bucket = (if sub_bucket_index \<ge> sub_bucket_count h then bucket_index + 1 else bucket_index)
      in push_bit (nat (unit_magnitude h + adjusted_bucket)) 1)"

definition lowest_equivalent_value :: "hdr_histogram \<Rightarrow> int \<Rightarrow> int" where
  "lowest_equivalent_value h value =
     (let bucket_index = get_bucket_index h value;
          sub_bucket_index = get_sub_bucket_index value bucket_index (unit_magnitude h)
      in value_from_index bucket_index sub_bucket_index (unit_magnitude h))"

definition hdr_next_non_equivalent_value :: "hdr_histogram \<Rightarrow> int \<Rightarrow> int" where
  "hdr_next_non_equivalent_value h value = lowest_equivalent_value h value + hdr_size_of_equivalent_value_range h value"

definition highest_equivalent_value :: "hdr_histogram \<Rightarrow> int \<Rightarrow> int" where
  "highest_equivalent_value h value = hdr_next_non_equivalent_value h value - 1"

definition hdr_median_equivalent_value :: "hdr_histogram \<Rightarrow> int \<Rightarrow> int" where
  "hdr_median_equivalent_value h value =
     lowest_equivalent_value h value + drop_bit 1 (hdr_size_of_equivalent_value_range h value)"

definition hdr_values_are_equivalent :: "hdr_histogram \<Rightarrow> int \<Rightarrow> int \<Rightarrow> bool" where
  "hdr_values_are_equivalent h a b \<longleftrightarrow> lowest_equivalent_value h a = lowest_equivalent_value h b"

section \<open>Configuration\<close>

text \<open>The loop ends only if the smallest untrackable value is positive, so it is partial.\<close>

partial_function (option) buckets_loop :: "int \<Rightarrow> int \<Rightarrow> int \<Rightarrow> int option" where
  "buckets_loop value smallest_untrackable_value buckets_needed =
     (if smallest_untrackable_value \<le> value then
        if smallest_untrackable_value > INT64_MAX div 2 then Some (buckets_needed + 1)
        else buckets_loop value (push_bit 1 smallest_untrackable_value) (buckets_needed + 1)
      else Some buckets_needed)"

definition buckets_needed_to_cover_value :: "int \<Rightarrow> int \<Rightarrow> int \<Rightarrow> int option" where
  "buckets_needed_to_cover_value value sbc um = buckets_loop value (push_bit (nat um) sbc) 1"

primrec power_loop :: "int \<Rightarrow> nat \<Rightarrow> int \<Rightarrow> int" where
  "power_loop base 0 result = result"
| "power_loop base (Suc n) result = power_loop base n (result * base)"

definition power_s64 :: "int \<Rightarrow> int \<Rightarrow> int" where
  "power_s64 base n = power_loop base (nat n) 1"

definition hdr_calculate_bucket_config ::
    "(int \<Rightarrow> rat) \<Rightarrow> int \<Rightarrow> int \<Rightarrow> int \<Rightarrow> (hdr_error + hdr_histogram_bucket_config) option" where
  "hdr_calculate_bucket_config lg lowest highest figures =
     (if lowest < 1 \<or> figures < 1 \<or> 5 < figures \<or> lowest * 2 > highest then Some (Inl EINVAL)
      else let largest_value_with_single_unit_resolution = 2 * power_s64 10 figures;
               sub_bucket_count_magnitude = \<lceil>lg largest_value_with_single_unit_resolution\<rceil>;
               half_magnitude = (if sub_bucket_count_magnitude > 1 then sub_bucket_count_magnitude else 1) - 1;
               um = \<lfloor>lg lowest\<rfloor>;
               sbc = 2 ^ nat (half_magnitude + 1)
           in if um + half_magnitude > 61 then Some (Inl EINVAL)
              else do {
                bc \<leftarrow> buckets_needed_to_cover_value highest sbc um;
                Some (Inr \<lparr> cfg_lowest_trackable_value = lowest, cfg_highest_trackable_value = highest, cfg_unit_magnitude = um,
                        cfg_significant_figures = figures, cfg_sub_bucket_half_count_magnitude = half_magnitude,
                        cfg_sub_bucket_half_count = sbc div 2, cfg_sub_bucket_mask = push_bit (nat um) (sbc - 1),
                        cfg_sub_bucket_count = sbc, cfg_bucket_count = bc, cfg_counts_len = (bc + 1) * (sbc div 2) \<rparr>)
              })"

text \<open>The bits of 1.0.\<close>

definition ONE_BITS :: u64 where "ONE_BITS = 0x3FF0000000000000"

definition hdr_init_preallocated :: "hdr_histogram_bucket_config \<Rightarrow> int list \<Rightarrow> hdr_histogram" where
  "hdr_init_preallocated cfg cs =
     \<lparr> lowest_trackable_value = cfg_lowest_trackable_value cfg, highest_trackable_value = cfg_highest_trackable_value cfg,
       unit_magnitude = cfg_unit_magnitude cfg, significant_figures = cfg_significant_figures cfg,
       sub_bucket_half_count_magnitude = cfg_sub_bucket_half_count_magnitude cfg,
       sub_bucket_half_count = cfg_sub_bucket_half_count cfg, sub_bucket_mask = cfg_sub_bucket_mask cfg,
       sub_bucket_count = cfg_sub_bucket_count cfg, bucket_count = cfg_bucket_count cfg, min_value = INT64_MAX, max_value = 0,
       normalizing_index_offset = 0, conversion_ratio = ONE_BITS, counts_len = cfg_counts_len cfg, total_count = 0, counts = cs \<rparr>"

text \<open>
  \<open>mem k\<close> says whether the \<open>k\<close>-th allocation succeeds.
\<close>

definition hdr_init :: "(nat \<Rightarrow> bool) \<Rightarrow> (int \<Rightarrow> rat) \<Rightarrow> int \<Rightarrow> int \<Rightarrow> int \<Rightarrow> (hdr_error + hdr_histogram) option" where
  "hdr_init mem lg lowest highest figures = do {
     r \<leftarrow> hdr_calculate_bucket_config lg lowest highest figures;
     Some (case r of
             Inl e \<Rightarrow> Inl e
           | Inr cfg \<Rightarrow> if \<not> mem 0 \<or> \<not> mem 1 then Inl ENOMEM
                       else Inr (hdr_init_preallocated cfg (replicate (nat (cfg_counts_len cfg)) 0)))
   }"

definition hdr_alloc :: "(nat \<Rightarrow> bool) \<Rightarrow> (int \<Rightarrow> rat) \<Rightarrow> int \<Rightarrow> int \<Rightarrow> (hdr_error + hdr_histogram) option" where
  "hdr_alloc mem lg highest figures = hdr_init mem lg 1 highest figures"

section \<open>Well-formed histograms\<close>

definition hdr_wf :: "hdr_histogram \<Rightarrow> bool" where
  "hdr_wf h \<longleftrightarrow>
     0 \<le> unit_magnitude h \<and> 0 \<le> sub_bucket_half_count_magnitude h \<and> sub_bucket_half_count_magnitude h \<le> 17 \<and>
     unit_magnitude h + sub_bucket_half_count_magnitude h \<le> 61 \<and>
     sub_bucket_half_count h = 2 ^ nat (sub_bucket_half_count_magnitude h) \<and>
     sub_bucket_count h = 2 * sub_bucket_half_count h \<and>
     sub_bucket_mask h = push_bit (nat (unit_magnitude h)) (sub_bucket_count h - 1) \<and>
     1 \<le> bucket_count h \<and> unit_magnitude h + sub_bucket_half_count_magnitude h + bucket_count h \<le> 63 \<and>
     counts_len h = (bucket_count h + 1) * sub_bucket_half_count h \<and> length (counts h) = nat (counts_len h) \<and>
     highest_trackable_value h < 2 ^ nat (unit_magnitude h + sub_bucket_half_count_magnitude h + bucket_count h) \<and>
     1 \<le> significant_figures h \<and> 10 ^ nat (significant_figures h) \<le> sub_bucket_half_count h \<and>
     normalizing_index_offset h = 0"

section \<open>The layout over natural numbers\<close>

text \<open>With unit magnitude \<open>u\<close> and half count magnitude \<open>m\<close>: the bucket and the counter of a value, and the lowest value of a counter.\<close>

definition bkt :: "nat \<Rightarrow> nat \<Rightarrow> nat \<Rightarrow> nat" where
  "bkt u m v = bit_length v - (m + 1 + u)"

definition sub_of :: "nat \<Rightarrow> nat \<Rightarrow> nat \<Rightarrow> nat" where
  "sub_of u m v = v div 2 ^ (bkt u m v + u)"

definition idx :: "nat \<Rightarrow> nat \<Rightarrow> nat \<Rightarrow> nat" where
  "idx u m v = bkt u m v * 2 ^ m + sub_of u m v"

definition val_at :: "nat \<Rightarrow> nat \<Rightarrow> nat \<Rightarrow> nat" where
  "val_at u m i = (if i < 2 ^ m then i * 2 ^ u else (i mod 2 ^ m + 2 ^ m) * 2 ^ (i div 2 ^ m - 1 + u))"

lemma sub_of_less: "sub_of u m v < 2 * 2 ^ m"
proof -
  have "bit_length v \<le> bkt u m v + u + Suc m" by (simp add: bkt_def)
  then have "v < 2 ^ (bkt u m v + u + Suc m)" by (simp add: bit_length_le_iff)
  then have "v < 2 ^ Suc m * 2 ^ (bkt u m v + u)" by (simp add: power_add ac_simps)
  then show ?thesis unfolding sub_of_def by (intro less_mult_imp_div_less) simp
qed

lemma sub_of_ge:
  assumes "0 < bkt u m v"
  shows "2 ^ m \<le> sub_of u m v"
proof -
  have bl: "bit_length v = Suc (m + (bkt u m v + u))" using assms by (simp add: bkt_def)
  then have "0 < v" using bit_length_gt_0 [of v] by simp
  then have "2 ^ (m + (bkt u m v + u)) \<le> v" using power_bit_length_le [of v] bl by simp
  then have "2 ^ m * 2 ^ (bkt u m v + u) \<le> v" by (simp add: power_add ac_simps)
  then show ?thesis unfolding sub_of_def by (simp add: less_eq_div_iff_mult_less_eq)
qed

lemma split_index:
  fixes b s m :: nat
  assumes "2 ^ m \<le> s" and "s < 2 * 2 ^ m"
  shows "(b * 2 ^ m + s) div 2 ^ m = b + 1" and "(b * 2 ^ m + s) mod 2 ^ m = s - 2 ^ m"
proof -
  have e: "b * 2 ^ m + s = (s - 2 ^ m) + (b + 1) * 2 ^ m" and l: "s - 2 ^ m < 2 ^ m" using assms by simp_all
  show "(b * 2 ^ m + s) div 2 ^ m = b + 1" unfolding e using l by (subst div_mult_self1) simp_all
  show "(b * 2 ^ m + s) mod 2 ^ m = s - 2 ^ m" unfolding e using l by (subst mod_mult_self1) simp
qed

lemma val_at_split:
  assumes "s < 2 * 2 ^ m" and "0 < b \<Longrightarrow> 2 ^ m \<le> s"
  shows "val_at u m (b * 2 ^ m + s) = s * 2 ^ (b + u)"
proof (cases "2 ^ m \<le> s")
  case True
  then show ?thesis using split_index [OF True assms(1), of b] by (simp add: val_at_def)
next
  case False
  then have "b = 0" using assms(2) by auto
  then show ?thesis using False by (simp add: val_at_def)
qed

lemma val_at_idx: "val_at u m (idx u m v) = sub_of u m v * 2 ^ (bkt u m v + u)"
  unfolding idx_def by (rule val_at_split) (simp_all add: sub_of_less sub_of_ge)

lemma idx_scaled:
  assumes "s < 2 * 2 ^ m" and "0 < b \<Longrightarrow> 2 ^ m \<le> s"
  shows "idx u m (s * 2 ^ (b + u)) = b * 2 ^ m + s" "bkt u m (s * 2 ^ (b + u)) = b"
proof -
  let ?v = "s * 2 ^ (b + u)"
  have "?v < 2 ^ Suc m * 2 ^ (b + u)" using assms(1) by simp
  then have "bit_length ?v \<le> Suc m + (b + u)" by (simp add: bit_length_le_iff power_add)
  moreover have "Suc (m + (b + u)) \<le> bit_length ?v" if "0 < b"
  proof -
    have "2 ^ m * 2 ^ (b + u) \<le> ?v" using assms(2) [OF that] by simp
    then have "\<not> bit_length ?v \<le> m + (b + u)" by (simp add: bit_length_le_iff power_add)
    then show ?thesis by simp
  qed
  ultimately show b: "bkt u m ?v = b" by (cases "b = 0") (auto simp: bkt_def)
  show "idx u m ?v = b * 2 ^ m + s" by (simp add: idx_def sub_of_def b)
qed

lemma index_parts:
  fixes i m :: nat
  obtains b s where "i = b * 2 ^ m + s" and "s < 2 * 2 ^ m" and "0 < b \<Longrightarrow> 2 ^ m \<le> s"
proof (cases "i < 2 ^ m")
  case True
  then show ?thesis using that [of 0 i] by simp
next
  case False
  then have "1 \<le> i div 2 ^ m" by (simp add: less_eq_div_iff_mult_less_eq)
  then obtain d where d: "i div 2 ^ m = d + 1" by (metis add.commute le_Suc_ex plus_1_eq_Suc)
  have "i = i div 2 ^ m * 2 ^ m + i mod 2 ^ m" by (rule div_mult_mod_eq [symmetric])
  also have "\<dots> = d * 2 ^ m + (i mod 2 ^ m + 2 ^ m)" unfolding d by simp
  finally show ?thesis using that [of d "i mod 2 ^ m + 2 ^ m"] by simp
qed

lemma idx_val_at: "idx u m (val_at u m i) = i"
proof -
  obtain b s where *: "i = b * 2 ^ m + s" "s < 2 * 2 ^ m" "0 < b \<Longrightarrow> 2 ^ m \<le> s" using index_parts [of i m] by metis
  show ?thesis unfolding *(1) using idx_scaled(1) [OF *(2,3)] val_at_split [OF *(2,3)] by simp
qed

lemma bit_length_mono: "v \<le> w \<Longrightarrow> bit_length v \<le> bit_length w"
  unfolding bit_length_le_iff using less_2_power_bit_length [of w] by simp

lemma idx_mono:
  assumes "v \<le> w"
  shows "idx u m v \<le> idx u m w"
proof (cases "bkt u m v = bkt u m w")
  case True
  then show ?thesis using assms by (simp add: idx_def sub_of_def div_le_mono)
next
  case False
  then have lt: "bkt u m v < bkt u m w" using bit_length_mono [OF assms] by (simp add: bkt_def)
  have "idx u m v < bkt u m v * 2 ^ m + 2 * 2 ^ m" using sub_of_less [of u m v] by (simp add: idx_def)
  also have "\<dots> = (bkt u m v + 1) * 2 ^ m + 2 ^ m" by (simp add: algebra_simps)
  also have "\<dots> \<le> bkt u m w * 2 ^ m + 2 ^ m" using lt by (intro add_mono mult_le_mono1) simp_all
  also have "\<dots> \<le> idx u m w" using sub_of_ge [of u m w] lt by (simp add: idx_def)
  finally show ?thesis by simp
qed

lemma val_at_le: "val_at u m (idx u m v) \<le> v"
  by (simp add: val_at_idx sub_of_def)

text \<open>The values of counter \<open>i\<close> are those from its lowest value up to the lowest value of the next.\<close>

lemma idx_eq_iff: "idx u m v = i \<longleftrightarrow> val_at u m i \<le> v \<and> v < val_at u m (i + 1)"
proof
  assume i: "idx u m v = i"
  have "\<not> val_at u m (i + 1) \<le> v"
  proof
    assume "val_at u m (i + 1) \<le> v"
    from idx_mono [OF this, of u m] show False by (simp add: idx_val_at i)
  qed
  then show "val_at u m i \<le> v \<and> v < val_at u m (i + 1)" using val_at_le [of u m v] i by simp
next
  assume *: "val_at u m i \<le> v \<and> v < val_at u m (i + 1)"
  then have "i \<le> idx u m v" using idx_mono [of "val_at u m i" v u m] by (simp add: idx_val_at)
  moreover have "\<not> i + 1 \<le> idx u m v"
  proof
    assume gt: "i + 1 \<le> idx u m v"
    have "val_at u m (i + 1) \<le> val_at u m (idx u m v)"
    proof (rule ccontr)
      assume "\<not> ?thesis"
      then have "val_at u m (idx u m v) \<le> val_at u m (i + 1)" "val_at u m (idx u m v) \<noteq> val_at u m (i + 1)" by simp_all
      moreover from idx_mono [OF this(1), of u m] have "idx u m v \<le> i + 1" by (simp add: idx_val_at)
      ultimately show False using gt by simp
    qed
    then show False using * val_at_le [of u m v] by simp
  qed
  ultimately show "idx u m v = i" by simp
qed

text \<open>The last value of a counter, and the width of the range.\<close>

lemma val_at_next: "val_at u m (idx u m v + 1) = val_at u m (idx u m v) + 2 ^ (bkt u m v + u)"
proof (cases "sub_of u m v + 1 < 2 * 2 ^ m")
  case True
  have "val_at u m (bkt u m v * 2 ^ m + (sub_of u m v + 1)) = (sub_of u m v + 1) * 2 ^ (bkt u m v + u)"
    by (rule val_at_split [OF True]) (use sub_of_ge [of u m v] in simp)
  then show ?thesis by (simp add: val_at_idx) (simp add: idx_def)
next
  case False
  then have s: "sub_of u m v + 1 = 2 * 2 ^ m" using sub_of_less [of u m v] by simp
  then have "idx u m v + 1 = (bkt u m v + 1) * 2 ^ m + 2 ^ m" by (simp add: idx_def)
  moreover have "val_at u m ((bkt u m v + 1) * 2 ^ m + 2 ^ m) = 2 ^ m * 2 ^ (bkt u m v + 1 + u)" by (rule val_at_split) simp_all
  moreover have "2 ^ m * 2 ^ (bkt u m v + 1 + u) = (sub_of u m v + 1) * 2 ^ (bkt u m v + u)" unfolding s by simp
  ultimately show ?thesis by (simp add: val_at_idx)
qed

text \<open>Values below \<open>2 ^ (u + m + b)\<close> have their counters in the first \<open>(b + 1) * 2 ^ m\<close>.\<close>

lemma idx_bound:
  assumes "1 \<le> b"
  shows "idx u m v < (b + 1) * 2 ^ m \<longleftrightarrow> v < 2 ^ (u + m + b)"
proof -
  obtain k where k: "b = k + 1" using assms by (metis add.commute le_Suc_ex)
  have "val_at u m ((k + 1) * 2 ^ m + 2 ^ m) = 2 ^ m * 2 ^ (k + 1 + u)" by (rule val_at_split) simp_all
  also have "\<dots> = 2 ^ (u + m + b)" by (simp add: k power_add algebra_simps)
  finally have "val_at u m ((k + 1) * 2 ^ m + 2 ^ m) = 2 ^ (u + m + b)" .
  moreover have "(k + 1) * 2 ^ m + 2 ^ m = (b + 1) * 2 ^ m" by (simp add: k)
  ultimately have v: "val_at u m ((b + 1) * 2 ^ m) = 2 ^ (u + m + b)" by (simp only:)
  define N where "N = (b + 1) * 2 ^ m"
  have v: "val_at u m N = 2 ^ (u + m + b)" using v by (simp only: N_def)
  show ?thesis unfolding N_def [symmetric]
  proof
    assume *: "idx u m v < N"
    show "v < 2 ^ (u + m + b)"
    proof (rule ccontr)
      assume "\<not> ?thesis"
      then have "val_at u m (N) \<le> v" by (simp add: v)
      from idx_mono [OF this, of u m] * show False by (simp add: idx_val_at)
    qed
  next
    assume *: "v < 2 ^ (u + m + b)"
    show "idx u m v < N"
    proof (rule ccontr)
      assume "\<not> ?thesis"
      then have le: "N \<le> idx u m v" by simp
      have "2 ^ (u + m + b) \<le> val_at u m (idx u m v)"
      proof (rule ccontr)
        assume lt: "\<not> ?thesis"
        then have "val_at u m (idx u m v) \<le> val_at u m (N)" by (simp add: v)
        from idx_mono [OF this, of u m] le have "idx u m v = N" by (simp add: idx_val_at)
        then show False using lt by (simp add: v)
      qed
      then show False using * val_at_le [of u m v] by simp
    qed
  qed
qed

section \<open>The code computes the layout\<close>

lemma or_less_power: "(a OR b < 2 ^ k) = (a < 2 ^ k \<and> b < (2 ^ k :: nat))"
  unfolding take_bit_nat_eq_self_iff [symmetric] take_bit_or
proof
  assume *: "take_bit k a OR take_bit k b = a OR b"
  then have "bit a n \<longrightarrow> n < k" "bit b n \<longrightarrow> n < k" for n by (metis bit_or_iff bit_take_bit_iff)+
  then show "take_bit k a = a \<and> take_bit k b = b" by (auto intro!: bit_eqI simp: bit_simps)
qed simp

lemma bit_length_or: "bit_length (a OR b) = max (bit_length a) (bit_length b)"
proof -
  have "bit_length (a OR b) \<le> k \<longleftrightarrow> max (bit_length a) (bit_length b) \<le> k" for k
    by (simp add: bit_length_le_iff or_less_power)
  then show ?thesis by (meson order_antisym order_refl)
qed

abbreviation um :: "hdr_histogram \<Rightarrow> nat" where "um h \<equiv> nat (unit_magnitude h)"
abbreviation hm :: "hdr_histogram \<Rightarrow> nat" where "hm h \<equiv> nat (sub_bucket_half_count_magnitude h)"

lemma hdr_wfD:
  assumes "hdr_wf h"
  shows "unit_magnitude h = int (um h)" "sub_bucket_half_count_magnitude h = int (hm h)" "um h + hm h \<le> 61" "hm h \<le> 17"
    "sub_bucket_half_count h = 2 ^ hm h" "sub_bucket_count h = 2 * 2 ^ hm h" "sub_bucket_mask h = int ((2 * 2 ^ hm h - 1) * 2 ^ um h)"
  using assms by (auto simp: hdr_wf_def push_bit_eq_mult of_nat_diff nat_le_iff simp flip: nat_add_distrib)

lemma nat_shift:
  assumes "hdr_wf h"
  shows "nat (int k + unit_magnitude h) = k + um h" "nat (unit_magnitude h + int k) = k + um h"
  using assms by (simp_all add: hdr_wf_def nat_add_distrib)

lemma mask_bit_length:
  assumes "0 < c" "c = 2 ^ m"
  shows "bit_length ((2 * c - 1) * 2 ^ u) = Suc (m + u)"
proof (rule bit_length_eqI)
  have "c * 2 ^ u \<le> (2 * c - 1) * 2 ^ u" using assms(1) by (intro mult_le_mono1) simp
  then show "2 ^ (m + u) \<le> (2 * c - 1) * 2 ^ u" by (simp add: power_add assms(2))
  have "(2 * c - 1) * 2 ^ u < 2 * c * 2 ^ u" using assms(1) by (intro mult_strict_right_mono) simp_all
  then show "(2 * c - 1) * 2 ^ u < 2 ^ Suc (m + u)" by (simp add: power_add assms(2))
qed

lemma get_bucket_index_eq:
  assumes h: "hdr_wf h" and v: "0 \<le> v" "v < 2 ^ 63"
  shows "get_bucket_index h v = int (bkt (um h) (hm h) (nat v))"
proof -
  let ?mask = "(2 * 2 ^ hm h - 1) * 2 ^ um h :: nat"
  have m: "bit_length ?mask = Suc (hm h + um h)" by (rule mask_bit_length) simp_all
  have "v OR sub_bucket_mask h = int (nat v OR ?mask)" using v(1) by (simp only: hdr_wfD(7) [OF h] of_nat_or_eq) simp
  moreover have lt: "nat v OR ?mask < 2 ^ 63"
  proof -
    have "?mask < 2 ^ bit_length ?mask" by (rule less_2_power_bit_length)
    also have "(2::nat) ^ bit_length ?mask \<le> 2 ^ 63" unfolding m using hdr_wfD(3) [OF h] by (intro power_increasing) simp_all
    finally have "?mask < 2 ^ 63" .
    moreover have "nat v < 2 ^ 63" using v by simp
    ultimately show ?thesis unfolding or_less_power by blast
  qed
  then have "unat (word_of_int (int (nat v OR ?mask)) :: u64) = nat v OR ?mask"
    unfolding of_int_of_nat_eq by (intro unat_of_nat_64) simp
  moreover have "bit_length (nat v OR ?mask) \<le> 63" using lt by (simp add: bit_length_le_iff)
  ultimately have "64 - count_leading_zeros_64 (v OR sub_bucket_mask h) = int (max (bit_length (nat v)) (Suc (hm h + um h)))"
    by (simp only: count_leading_zeros_64_def clz_def bit_length_or m) simp
  moreover obtain u m where "unit_magnitude h = int u" "sub_bucket_half_count_magnitude h = int m" using hdr_wfD(1,2) [OF h] by blast
  ultimately show ?thesis unfolding get_bucket_index_def Let_def by (simp add: bkt_def max_def)
qed

lemma s32_id: "0 \<le> x \<Longrightarrow> x < 2 ^ 31 \<Longrightarrow> s32 x = x"
  unfolding s32_def by (rule signed_take_bit_int_eq_self) simp_all

lemma get_sub_bucket_index_eq:
  assumes h: "hdr_wf h" and v: "0 \<le> v"
  shows "get_sub_bucket_index v (int (bkt (um h) (hm h) (nat v))) (unit_magnitude h) = int (sub_of (um h) (hm h) (nat v))"
proof -
  let ?s = "sub_of (um h) (hm h) (nat v)"
  have e: "drop_bit (nat (int (bkt (um h) (hm h) (nat v)) + unit_magnitude h)) v = int ?s"
    using v by (simp add: nat_shift [OF h] sub_of_def drop_bit_eq_div zdiv_int)
  have "?s < 2 * 2 ^ hm h" by (rule sub_of_less)
  also have "(2::nat) * 2 ^ hm h \<le> 2 * 2 ^ 17" using hdr_wfD(4) [OF h] by (intro mult_le_mono2 power_increasing) simp_all
  finally have "int ?s < 2 ^ 31" by simp
  then show ?thesis unfolding get_sub_bucket_index_def e by (intro s32_id) simp_all
qed

lemma counts_index_for_eq:
  assumes h: "hdr_wf h" and v: "0 \<le> v" "v < 2 ^ 63"
  shows "counts_index_for h v = int (idx (um h) (hm h) (nat v))"
  unfolding counts_index_for_def Let_def get_bucket_index_eq [OF h v] get_sub_bucket_index_eq [OF h v(1)] counts_index_def
  using hdr_wfD(5) [OF h] by (simp add: idx_def push_bit_eq_mult algebra_simps)

lemma lowest_equivalent_value_eq:
  assumes h: "hdr_wf h" and v: "0 \<le> v" "v < 2 ^ 63"
  shows "lowest_equivalent_value h v = int (val_at (um h) (hm h) (idx (um h) (hm h) (nat v)))"
  unfolding lowest_equivalent_value_def Let_def get_bucket_index_eq [OF h v] get_sub_bucket_index_eq [OF h v(1)] value_from_index_def val_at_idx
  by (simp add: nat_shift [OF h] push_bit_eq_mult)

lemma hdr_value_at_index_eq:
  assumes h: "hdr_wf h"
  shows "hdr_value_at_index h (int i) = int (val_at (um h) (hm h) i)"
proof -
  have d: "drop_bit (hm h) (int i) = int (i div 2 ^ hm h)" by (simp add: drop_bit_eq_div zdiv_int)
  have "int i AND (2 ^ hm h - 1) = int i mod 2 ^ hm h" by (simp add: take_bit_eq_mask mask_eq_exp_minus_1 flip: take_bit_eq_mod)
  then have a: "int i AND (2 ^ hm h - 1) = int (i mod 2 ^ hm h)" by (simp add: zmod_int)
  show ?thesis
  proof (cases "i < 2 ^ hm h")
    case True
    then show ?thesis
      using hdr_wfD(1) [OF h] by (simp add: hdr_value_at_index_def hdr_wfD(5) [OF h] d a value_from_index_def val_at_def push_bit_eq_mult)
  next
    case False
    then have "1 \<le> i div 2 ^ hm h" by (simp add: less_eq_div_iff_mult_less_eq)
    then have b: "int (i div 2 ^ hm h) - 1 = int (i div 2 ^ hm h - 1)" by simp
    show ?thesis using False
      by (simp add: hdr_value_at_index_def hdr_wfD(5) [OF h] d a b value_from_index_def val_at_def push_bit_eq_mult nat_shift [OF h]
          del: of_nat_diff)
  qed
qed

lemma size_of_range_eq:
  assumes h: "hdr_wf h" and v: "0 \<le> v" "v < 2 ^ 63"
  shows "hdr_size_of_equivalent_value_range h v = 2 ^ (bkt (um h) (hm h) (nat v) + um h)"
proof -
  have "int (sub_of (um h) (hm h) (nat v)) < int (2 * 2 ^ hm h)" unfolding of_nat_less_iff by (rule sub_of_less)
  then have "\<not> sub_bucket_count h \<le> int (sub_of (um h) (hm h) (nat v))" unfolding hdr_wfD(6) [OF h] by simp
  then show ?thesis
    unfolding hdr_size_of_equivalent_value_range_def Let_def get_bucket_index_eq [OF h v] get_sub_bucket_index_eq [OF h v(1)]
    by (simp add: push_bit_eq_mult nat_shift [OF h])
qed

lemma next_value_eq:
  assumes h: "hdr_wf h" and v: "0 \<le> v" "v < 2 ^ 63"
  shows "hdr_next_non_equivalent_value h v = int (val_at (um h) (hm h) (idx (um h) (hm h) (nat v) + 1))"
  by (simp only: hdr_next_non_equivalent_value_def lowest_equivalent_value_eq [OF h v] size_of_range_eq [OF h v] val_at_next) simp

lemmas hdr_layout = counts_index_for_eq lowest_equivalent_value_eq size_of_range_eq next_value_eq hdr_value_at_index_eq

section \<open>Initialisation gives well-formed histograms\<close>

text \<open>
  What the code relies on of the computed logarithms: they are not negative from 1 on, and accurate enough at
  the five numbers whose logarithm is rounded up.
\<close>

definition lg_ok :: "(int \<Rightarrow> rat) \<Rightarrow> bool" where
  "lg_ok lg \<longleftrightarrow> (\<forall>n \<ge> 1. 0 \<le> lg n) \<and> 4 < lg 20 \<and> lg 20 \<le> 5 \<and> 7 < lg 200 \<and> lg 200 \<le> 8 \<and> 10 < lg 2000 \<and> lg 2000 \<le> 11 \<and>
     14 < lg 20000 \<and> lg 20000 \<le> 15 \<and> 17 < lg 200000 \<and> lg 200000 \<le> 18"

lemma buckets_loop_covers:
  assumes "k \<le> 62" and "value < 2 ^ 63"
  shows "\<exists>j. buckets_loop value (2 ^ k) n = Some (n + int j) \<and> value < 2 ^ (k + j) \<and> k + j \<le> 63"
  using assms(1)
proof (induction "62 - k" arbitrary: k n)
  case (0 k n)
  then have k: "k = 62" by simp
  show ?case
  proof (cases "2 ^ k \<le> value")
    case True
    then have "buckets_loop value (2 ^ k) n = Some (n + int 1)" by (subst buckets_loop.simps) (simp add: k INT64_MAX_def)
    then show ?thesis using assms(2) k by (intro exI [of _ 1]) simp
  next
    case False
    then have "buckets_loop value (2 ^ k) n = Some (n + int 0)" by (subst buckets_loop.simps) simp
    then show ?thesis using False k by (intro exI [of _ 0]) simp
  qed
next
  case (Suc d k n)
  then have k: "k < 62" and d: "d = 62 - Suc k" by simp_all
  show ?case
  proof (cases "2 ^ k \<le> value")
    case True
    have "(2::int) ^ k \<le> 2 ^ 61" using k by (intro power_increasing) simp_all
    then have le: "\<not> (2::int) ^ k > INT64_MAX div 2" by (simp add: INT64_MAX_def)
    have "buckets_loop value (2 ^ k) n = buckets_loop value (2 ^ Suc k) (n + 1)"
      using True le by (subst buckets_loop.simps) (simp add: push_bit_eq_mult ac_simps)
    moreover obtain j where "buckets_loop value (2 ^ Suc k) (n + 1) = Some (n + 1 + int j)" "value < 2 ^ (Suc k + j)" "Suc k + j \<le> 63"
      using Suc.hyps(1) [OF d, of "n + 1"] k by (metis Suc_leI)
    ultimately show ?thesis by (intro exI [of _ "Suc j"]) simp
  next
    case False
    then have "buckets_loop value (2 ^ k) n = Some (n + int 0)" by (subst buckets_loop.simps) simp
    then show ?thesis using False k by (intro exI [of _ 0]) simp
  qed
qed

lemma figures_magnitude:
  assumes "lg_ok lg" and "1 \<le> d" "d \<le> 5"
  obtains m where "\<lceil>lg (2 * power_s64 10 d)\<rceil> = int m + 1" "1 \<le> m" "m \<le> 17" "10 ^ nat d \<le> (2 :: int) ^ m"
proof -
  note lg = assms(1) [unfolded lg_ok_def]
  have "d = 1 \<or> d = 2 \<or> d = 3 \<or> d = 4 \<or> d = 5" using assms(2,3) by auto
  then show ?thesis
  proof (elim disjE)
    assume d: "d = 1"
    have "\<lceil>lg 20\<rceil> = 5" using lg by (intro ceiling_unique) simp_all
    then show ?thesis using that [of 4] by (simp add: d power_s64_def)
  next
    assume d: "d = 2"
    have "\<lceil>lg 200\<rceil> = 8" using lg by (intro ceiling_unique) simp_all
    then show ?thesis using that [of 7] by (simp add: d power_s64_def numeral_2_eq_2)
  next
    assume d: "d = 3"
    have "\<lceil>lg 2000\<rceil> = 11" using lg by (intro ceiling_unique) simp_all
    then show ?thesis using that [of 10] by (simp add: d power_s64_def numeral_3_eq_3)
  next
    assume d: "d = 4"
    have "\<lceil>lg 20000\<rceil> = 15" using lg by (intro ceiling_unique) simp_all
    then show ?thesis using that [of 14] by (simp add: d power_s64_def eval_nat_numeral)
  next
    assume d: "d = 5"
    have "\<lceil>lg 200000\<rceil> = 18" using lg by (intro ceiling_unique) simp_all
    then show ?thesis using that [of 17] by (simp add: d power_s64_def eval_nat_numeral)
  qed
qed

text \<open>Configuration always returns, and what it accepts is well-formed.\<close>

definition config_valid :: "(int \<Rightarrow> rat) \<Rightarrow> int \<Rightarrow> int \<Rightarrow> int \<Rightarrow> bool" where
  "config_valid lg lowest highest figures \<longleftrightarrow>
     1 \<le> lowest \<and> 1 \<le> figures \<and> figures \<le> 5 \<and> 2 * lowest \<le> highest \<and> \<lfloor>lg lowest\<rfloor> + \<lceil>lg (2 * 10 ^ nat figures)\<rceil> \<le> 62"

lemma power_loop_eq: "power_loop b n r = r * b ^ n"
  by (induction n arbitrary: r) (simp_all add: ac_simps)

lemma power_s64_eq: "power_s64 b n = b ^ nat n"
  by (simp add: power_s64_def power_loop_eq)

lemma init_wf:
  assumes lg: "lg_ok lg" and high: "highest < 2 ^ 63"
  shows "config_valid lg lowest highest figures \<Longrightarrow>
           \<exists>h. hdr_init (\<lambda>_. True) lg lowest highest figures = Some (Inr h) \<and> hdr_wf h \<and> highest_trackable_value h = highest \<and>
               significant_figures h = figures \<and> lowest_trackable_value h = lowest \<and> total_count h = 0 \<and> min_value h = INT64_MAX \<and>
               max_value h = 0 \<and> counts h = replicate (nat (counts_len h)) 0 \<and> conversion_ratio h = ONE_BITS"
    and "\<not> config_valid lg lowest highest figures \<Longrightarrow> hdr_init mem lg lowest highest figures = Some (Inl EINVAL)"
proof -
  assume v: "config_valid lg lowest highest figures"
  have fig: "1 \<le> figures" "figures \<le> 5" using v by (simp_all add: config_valid_def)
  obtain m where m: "\<lceil>lg (2 * power_s64 10 figures)\<rceil> = int m + 1" "1 \<le> m" "m \<le> 17" "10 ^ nat figures \<le> (2 :: int) ^ m"
    using figures_magnitude [OF lg fig] by metis
  have "0 \<le> \<lfloor>lg lowest\<rfloor>" using v lg by (simp add: config_valid_def lg_ok_def)
  then obtain u where u: "\<lfloor>lg lowest\<rfloor> = int u" by (metis nonneg_int_cases)
  have um: "u + m \<le> 61" using v m(1) by (simp add: config_valid_def u power_s64_eq)
  obtain j where j: "buckets_loop highest (2 ^ (Suc m + u)) 1 = Some (1 + int j)" "highest < 2 ^ (Suc m + u + j)" "Suc m + u + j \<le> 63"
    using buckets_loop_covers [of "Suc m + u" highest 1] um high by auto
  have b: "buckets_needed_to_cover_value highest (2 * 2 ^ m) (int u) = Some (1 + int j)"
    using j(1) by (simp add: buckets_needed_to_cover_value_def push_bit_eq_mult power_add ac_simps)
  have n: "nat (int m + 1) = Suc m" "nat (int u + int m + (1 + int j)) = Suc m + u + j" by simp_all
  show "\<exists>h. hdr_init (\<lambda>_. True) lg lowest highest figures = Some (Inr h) \<and> hdr_wf h \<and> highest_trackable_value h = highest \<and>
               significant_figures h = figures \<and> lowest_trackable_value h = lowest \<and> total_count h = 0 \<and> min_value h = INT64_MAX \<and>
               max_value h = 0 \<and> counts h = replicate (nat (counts_len h)) 0 \<and> conversion_ratio h = ONE_BITS"
    using v fig m um j(2,3) b
    by (simp add: hdr_init_def hdr_calculate_bucket_config_def config_valid_def Let_def u hdr_init_preallocated_def hdr_wf_def n)
next
  assume v: "\<not> config_valid lg lowest highest figures"
  show "hdr_init mem lg lowest highest figures = Some (Inl EINVAL)"
  proof (cases "lowest < 1 \<or> figures < 1 \<or> 5 < figures \<or> lowest * 2 > highest")
    case True
    then show ?thesis by (simp add: hdr_init_def hdr_calculate_bucket_config_def)
  next
    case False
    then have fig: "1 \<le> figures" "figures \<le> 5" by simp_all
    obtain m where m: "\<lceil>lg (2 * power_s64 10 figures)\<rceil> = int m + 1" "1 \<le> m" using figures_magnitude [OF lg fig] by metis
    define u where "u = \<lfloor>lg lowest\<rfloor>"
    have "61 < u + int m" using v False m by (auto simp: config_valid_def power_s64_eq u_def)
    moreover have "1 < lg (2 * power_s64 10 figures)" using m by linarith
    ultimately show ?thesis using False m by (simp add: hdr_init_def hdr_calculate_bucket_config_def Let_def flip: u_def)
  qed
qed

section \<open>Properties\<close>

lemma counts_len_eq: "hdr_wf h \<Longrightarrow> counts_len h = int ((nat (bucket_count h) + 1) * 2 ^ hm h)"
  by (auto simp: hdr_wf_def algebra_simps)

lemma index_in_range:
  assumes h: "hdr_wf h" and v: "0 \<le> v" "v < 2 ^ 63"
  shows "counts_index_for h v < counts_len h \<longleftrightarrow> v < 2 ^ nat (unit_magnitude h + sub_bucket_half_count_magnitude h + bucket_count h)"
proof -
  have "1 \<le> bucket_count h" using h by (simp add: hdr_wf_def)
  then have b: "1 \<le> nat (bucket_count h)" by simp
  have n: "nat (unit_magnitude h + sub_bucket_half_count_magnitude h + bucket_count h) = um h + hm h + nat (bucket_count h)"
    using h by (simp add: hdr_wf_def nat_add_distrib)
  have "counts_index_for h v < counts_len h \<longleftrightarrow> idx (um h) (hm h) (nat v) < (nat (bucket_count h) + 1) * 2 ^ hm h"
    unfolding counts_index_for_eq [OF h v] counts_len_eq [OF h] by (rule of_nat_less_iff)
  also have "\<dots> \<longleftrightarrow> nat v < 2 ^ (um h + hm h + nat (bucket_count h))" by (rule idx_bound [OF b])
  also have "\<dots> \<longleftrightarrow> v < 2 ^ (um h + hm h + nat (bucket_count h))" using v(1) by (simp add: nat_less_iff)
  finally show ?thesis unfolding n .
qed

lemma same_index_iff:
  assumes h: "hdr_wf h" and v: "0 \<le> v" "v < 2 ^ 63" and w: "0 \<le> w" "w < 2 ^ 63"
  shows "counts_index_for h w = counts_index_for h v \<longleftrightarrow> lowest_equivalent_value h v \<le> w \<and> w \<le> highest_equivalent_value h v"
proof -
  let ?i = "idx (um h) (hm h) (nat v)"
  have "counts_index_for h w = counts_index_for h v \<longleftrightarrow> idx (um h) (hm h) (nat w) = ?i"
    by (simp add: counts_index_for_eq [OF h v] counts_index_for_eq [OF h w])
  also have "\<dots> \<longleftrightarrow> val_at (um h) (hm h) ?i \<le> nat w \<and> nat w < val_at (um h) (hm h) (?i + 1)" by (rule idx_eq_iff)
  also have "\<dots> \<longleftrightarrow> int (val_at (um h) (hm h) ?i) \<le> w \<and> w < int (val_at (um h) (hm h) (?i + 1))"
    using w(1) by (metis nat_0_le of_nat_le_iff of_nat_less_iff)
  also have "\<dots> \<longleftrightarrow> lowest_equivalent_value h v \<le> w \<and> w \<le> highest_equivalent_value h v"
    unfolding highest_equivalent_value_def next_value_eq [OF h v] lowest_equivalent_value_eq [OF h v] by auto
  finally show ?thesis .
qed

lemma range_precision:
  assumes h: "hdr_wf h" and v: "0 \<le> v" "v < 2 ^ 63"
  shows "hdr_size_of_equivalent_value_range h v = 2 ^ um h \<or> hdr_size_of_equivalent_value_range h v * 10 ^ nat (significant_figures h) \<le> v"
proof (cases "bkt (um h) (hm h) (nat v) = 0")
  case True
  then show ?thesis by (simp add: size_of_range_eq [OF h v])
next
  case False
  let ?k = "bkt (um h) (hm h) (nat v) + um h"
  have "2 ^ hm h \<le> sub_of (um h) (hm h) (nat v)" using False by (simp add: sub_of_ge)
  then have "2 ^ hm h * 2 ^ ?k \<le> sub_of (um h) (hm h) (nat v) * 2 ^ ?k" by (rule mult_le_mono1)
  also have "\<dots> \<le> nat v" by (simp add: sub_of_def)
  finally have "int (2 ^ hm h * 2 ^ ?k) \<le> v" using v(1) by linarith
  moreover have "(10 :: int) ^ nat (significant_figures h) * 2 ^ ?k \<le> 2 ^ hm h * 2 ^ ?k"
    using h by (intro mult_right_mono) (simp_all add: hdr_wf_def)
  ultimately have "10 ^ nat (significant_figures h) * 2 ^ ?k \<le> v" unfolding of_nat_mult of_nat_power of_nat_numeral by (rule order_trans [rotated])
  then show ?thesis by (simp only: size_of_range_eq [OF h v] mult.commute simp_thms)
qed

text \<open>
  C27. The counters of an HDR histogram partition the values: the lowest value of the counter that a value
  has is the value's lowest equivalent value, the values with the same counter are exactly those between
  the lowest and the highest equivalent value, and there are no more of them than the promised precision
  allows (the width of the range is the unit, or at most one part in \<open>10 ^ significant_figures\<close> of the value).
  The index is never negative, and every value up to the highest trackable value has its counter in the array.
\<close>

theorem hdr_index_exact:
  assumes "hdr_wf h" and "0 \<le> v" and "v < 2 ^ 62"
  shows "hdr_value_at_index h (counts_index_for h v) = lowest_equivalent_value h v \<and>
         lowest_equivalent_value h v \<le> v \<and> v \<le> highest_equivalent_value h v \<and>
         (\<forall>w. 0 \<le> w \<and> w < 2 ^ 62 \<longrightarrow>
            (counts_index_for h w = counts_index_for h v) = (lowest_equivalent_value h v \<le> w \<and> w \<le> highest_equivalent_value h v)) \<and>
         (hdr_size_of_equivalent_value_range h v = 2 ^ nat (unit_magnitude h) \<or>
          hdr_size_of_equivalent_value_range h v * 10 ^ nat (significant_figures h) \<le> v) \<and>
         0 \<le> counts_index_for h v \<and> (v \<le> highest_trackable_value h \<longrightarrow> counts_index_for h v < counts_len h)"
proof -
  have v: "0 \<le> v" "v < 2 ^ 63" using assms(2,3) by simp_all
  have "lowest_equivalent_value h v \<le> v \<and> v \<le> highest_equivalent_value h v" using same_index_iff [OF assms(1) v v] by simp
  moreover have "counts_index_for h v < counts_len h" if "v \<le> highest_trackable_value h"
  proof -
    have "highest_trackable_value h < 2 ^ nat (unit_magnitude h + sub_bucket_half_count_magnitude h + bucket_count h)"
      using assms(1) by (simp only: hdr_wf_def)
    then show ?thesis unfolding index_in_range [OF assms(1) v] using that by simp
  qed
  moreover have "hdr_value_at_index h (counts_index_for h v) = lowest_equivalent_value h v"
    by (simp only: counts_index_for_eq [OF assms(1) v] hdr_value_at_index_eq [OF assms(1)] lowest_equivalent_value_eq [OF assms(1) v])
  moreover have "0 \<le> counts_index_for h v" by (simp only: counts_index_for_eq [OF assms(1) v] of_nat_0_le_iff)
  moreover have "(counts_index_for h w = counts_index_for h v) = (lowest_equivalent_value h v \<le> w \<and> w \<le> highest_equivalent_value h v)"
    if "0 \<le> w \<and> w < 2 ^ 62" for w using same_index_iff [OF assms(1) v, of w] that by simp
  ultimately show ?thesis using range_precision [OF assms(1) v] by blast
qed

text \<open>
  \<^verbatim>\<open>hdr_init\<close> always returns (its loop over the buckets ends), rejects exactly the invalid configurations
  with \<^verbatim>\<open>EINVAL\<close>, and otherwise, memory permitting, gives an empty histogram that is well-formed and covers all
  values up to the highest trackable value.
\<close>

theorem hdr_init_ok:
  assumes "lg_ok lg" and "highest < 2 ^ 63"
  shows "if config_valid lg lowest highest figures
         then \<exists>h. hdr_init (\<lambda>_. True) lg lowest highest figures = Some (Inr h) \<and> hdr_wf h \<and> highest_trackable_value h = highest \<and>
                  significant_figures h = figures \<and> total_count h = 0 \<and> counts h = replicate (nat (counts_len h)) 0
         else hdr_init mem lg lowest highest figures = Some (Inl EINVAL)"
  using init_wf [OF assms, of lowest figures] by auto

text \<open>The logarithm for the witnesses, and the configuration of \<^verbatim>\<open>latency_output.c\<close>.\<close>

definition lg_example :: "int \<Rightarrow> rat" where
  "lg_example n =
     (if n < 20 then 0 else if n < 200 then 9 / 2 else if n < 2000 then 15 / 2 else if n < 20000 then 21 / 2
      else if n < 200000 then 29 / 2 else 35 / 2)"

lemma lg_example_ok: "lg_ok lg_example"
  by (simp add: lg_ok_def lg_example_def)

lemma benchmark_config_valid: "config_valid lg_example 1 1000000 3"
  by (simp add: config_valid_def lg_example_def)

theorem hdr_init_ok_witness:
  "lg_ok lg_example \<and> (\<exists>h. hdr_init (\<lambda>_. True) lg_example 1 1000000 3 = Some (Inr h) \<and> hdr_wf h \<and> highest_trackable_value h = 1000000)"
  using hdr_init_ok [of lg_example 1000000 1 3 "\<lambda>_. True"] lg_example_ok benchmark_config_valid by (simp only: if_True) auto

theorem hdr_index_exact_witness:
  "\<exists>h. hdr_init (\<lambda>_. True) lg_example 1 1000000 3 = Some (Inr h) \<and> hdr_wf h \<and>
     lowest_equivalent_value h 123456 \<le> 123456 \<and> 123456 \<le> highest_equivalent_value h 123456 \<and>
     0 \<le> counts_index_for h 123456 \<and> counts_index_for h 123456 < counts_len h"
proof -
  obtain h where h: "hdr_init (\<lambda>_. True) lg_example 1 1000000 3 = Some (Inr h)" "hdr_wf h" "highest_trackable_value h = 1000000"
    using init_wf(1) [OF lg_example_ok _ benchmark_config_valid] by auto
  then show ?thesis using hdr_index_exact [of h 123456] by (intro exI [of _ h]) simp
qed

end
