(* ===== verification/Hdr_Record.thy ===== *)
theory Hdr_Record
  imports Hdr_Index Floating
begin

text \<open>
  Recording into HDR histograms, iteration over their counters, and what is read from them
  (\<^verbatim>\<open>hdr_histogram.c\<close>).

  An access to the array of counters outside its bounds, and a loop that does not end, is \<open>None\<close>; the
  lemmas show that neither happens.  Counters are 64 bits wide and wrap around.
\<close>

section \<open>Counters\<close>

definition s64 :: "int \<Rightarrow> int" where "s64 = signed_take_bit 63"

definition counts_get_direct :: "hdr_histogram \<Rightarrow> int \<Rightarrow> int option" where
  "counts_get_direct h index = (if 0 \<le> index \<and> index < int (length (counts h)) then Some (counts h ! nat index) else None)"

definition counts_get_normalised :: "hdr_histogram \<Rightarrow> int \<Rightarrow> int option" where
  "counts_get_normalised h index = counts_get_direct h (normalize_index h index)"

definition counts_inc_normalised :: "hdr_histogram \<Rightarrow> int \<Rightarrow> int \<Rightarrow> hdr_histogram option" where
  "counts_inc_normalised h index value =
     (let normalised_index = normalize_index h index
      in do { c \<leftarrow> counts_get_direct h normalised_index;
              Some (h\<lparr> counts := (counts h)[nat normalised_index := s64 (c + value)], total_count := s64 (total_count h + value) \<rparr>) })"

definition update_min_max :: "hdr_histogram \<Rightarrow> int \<Rightarrow> hdr_histogram" where
  "update_min_max h value =
     h\<lparr> min_value := (if value < min_value h \<and> value \<noteq> 0 then value else min_value h),
        max_value := (if value > max_value h then value else max_value h) \<rparr>"

definition hdr_reset :: "hdr_histogram \<Rightarrow> hdr_histogram" where
  "hdr_reset h = h\<lparr> total_count := 0, min_value := INT64_MAX, max_value := 0, counts := replicate (nat (counts_len h)) 0 \<rparr>"

fun reset_loop :: "int list \<Rightarrow> int \<Rightarrow> int \<Rightarrow> int \<Rightarrow> int \<Rightarrow> int \<times> int \<times> int" where
  "reset_loop [] i min_non_zero_index max_index observed = (min_non_zero_index, max_index, observed)"
| "reset_loop (c # cs) i min_non_zero_index max_index observed =
     (if c > 0 then reset_loop cs (i + 1) (if min_non_zero_index = - 1 \<and> i \<noteq> 0 then i else min_non_zero_index) i (s64 (observed + c))
      else reset_loop cs (i + 1) min_non_zero_index max_index observed)"

definition hdr_reset_internal_counters :: "hdr_histogram \<Rightarrow> hdr_histogram" where
  "hdr_reset_internal_counters h =
     (let (min_non_zero_index, max_index, observed_total_count) = reset_loop (counts h) 0 (- 1) (- 1) 0
      in h\<lparr> max_value := (if max_index = - 1 then 0 else highest_equivalent_value h (hdr_value_at_index h max_index)),
            min_value := (if min_non_zero_index = - 1 then INT64_MAX else hdr_value_at_index h min_non_zero_index),
            total_count := observed_total_count \<rparr>)"

definition hdr_record_values :: "hdr_histogram \<Rightarrow> int \<Rightarrow> int \<Rightarrow> (bool \<times> hdr_histogram) option" where
  "hdr_record_values h value count =
     (if value < 0 then Some (False, h)
      else let counts_index = counts_index_for h value
           in if counts_index < 0 \<or> counts_len h \<le> counts_index then Some (False, h)
              else do { h' \<leftarrow> counts_inc_normalised h counts_index count; Some (True, update_min_max h' value) })"

definition hdr_record_value :: "hdr_histogram \<Rightarrow> int \<Rightarrow> (bool \<times> hdr_histogram) option" where
  "hdr_record_value h value = hdr_record_values h value 1"

text \<open>The loop over missing values.\<close>

partial_function (option) corrected_loop :: "hdr_histogram \<Rightarrow> int \<Rightarrow> int \<Rightarrow> int \<Rightarrow> (bool \<times> hdr_histogram) option" where
  "corrected_loop h missing_value count expected_interval =
     (if missing_value \<ge> expected_interval then do {
        (ok, h') \<leftarrow> hdr_record_values h missing_value count;
        if \<not> ok then Some (False, h') else corrected_loop h' (missing_value - expected_interval) count expected_interval
      } else Some (True, h))"

definition hdr_record_corrected_values :: "hdr_histogram \<Rightarrow> int \<Rightarrow> int \<Rightarrow> int \<Rightarrow> (bool \<times> hdr_histogram) option" where
  "hdr_record_corrected_values h value count expected_interval = do {
     (ok, h') \<leftarrow> hdr_record_values h value count;
     if \<not> ok then Some (False, h')
     else if expected_interval \<le> 0 \<or> value \<le> expected_interval then Some (True, h')
     else corrected_loop h' (value - expected_interval) count expected_interval
   }"

definition hdr_record_corrected_value :: "hdr_histogram \<Rightarrow> int \<Rightarrow> int \<Rightarrow> (bool \<times> hdr_histogram) option" where
  "hdr_record_corrected_value h value expected_interval = hdr_record_corrected_values h value 1 expected_interval"

section \<open>Iterators\<close>

datatype iter_specifics = All_values | Recorded int | Linear int int int int | Logarithmic int int int int

record hdr_iter =
  it_h :: hdr_histogram
  it_counts_index :: int
  it_total_count :: int
  it_count :: int
  it_cumulative_count :: int
  it_value :: int
  it_highest_equivalent_value :: int
  it_lowest_equivalent_value :: int
  it_median_equivalent_value :: int
  it_value_iterated_from :: int
  it_value_iterated_to :: int
  it_specifics :: iter_specifics

definition has_buckets :: "hdr_iter \<Rightarrow> bool" where
  "has_buckets it \<longleftrightarrow> it_counts_index it < counts_len (it_h it)"

definition has_next :: "hdr_iter \<Rightarrow> bool" where
  "has_next it \<longleftrightarrow> it_cumulative_count it < it_total_count it"

definition move_next :: "hdr_iter \<Rightarrow> (bool \<times> hdr_iter) option" where
  "move_next it =
     (let it = it\<lparr> it_counts_index := it_counts_index it + 1 \<rparr>; h = it_h it
      in if \<not> has_buckets it then Some (False, it)
         else do {
           c \<leftarrow> counts_get_normalised h (it_counts_index it);
           let value = hdr_value_at_index h (it_counts_index it);
           Some (True, it\<lparr> it_count := c, it_cumulative_count := s64 (it_cumulative_count it + c), it_value := value,
                  it_highest_equivalent_value := highest_equivalent_value h value,
                  it_lowest_equivalent_value := lowest_equivalent_value h value,
                  it_median_equivalent_value := hdr_median_equivalent_value h value \<rparr>)
         })"

definition peek_next_value_from_index :: "hdr_iter \<Rightarrow> int" where
  "peek_next_value_from_index it = hdr_value_at_index (it_h it) (it_counts_index it + 1)"

definition next_value_greater :: "hdr_iter \<Rightarrow> int \<Rightarrow> bool" where
  "next_value_greater it reporting_level_upper_bound \<longleftrightarrow>
     \<not> it_counts_index it \<ge> counts_len (it_h it) \<and> peek_next_value_from_index it > reporting_level_upper_bound"

definition basic_iter_next :: "hdr_iter \<Rightarrow> (bool \<times> hdr_iter) option" where
  "basic_iter_next it =
     (if \<not> has_next it \<or> it_counts_index it \<ge> counts_len (it_h it) then Some (False, it)
      else do { (_, it') \<leftarrow> move_next it; Some (True, it') })"

definition update_iterated_values :: "hdr_iter \<Rightarrow> int \<Rightarrow> hdr_iter" where
  "update_iterated_values it v = it\<lparr> it_value_iterated_from := it_value_iterated_to it, it_value_iterated_to := v \<rparr>"

definition all_values_iter_next :: "hdr_iter \<Rightarrow> (bool \<times> hdr_iter) option" where
  "all_values_iter_next it = do {
     (result, it') \<leftarrow> move_next it;
     Some (result, if result then update_iterated_values it' (it_value it') else it')
   }"

text \<open>The fields that \<^verbatim>\<open>hdr_iter_init\<close> does not set hold what \<open>it\<close> held.\<close>

definition hdr_iter_init :: "hdr_iter \<Rightarrow> hdr_histogram \<Rightarrow> hdr_iter" where
  "hdr_iter_init it h =
     it\<lparr> it_h := h, it_counts_index := - 1, it_total_count := total_count h, it_count := 0, it_cumulative_count := 0, it_value := 0,
         it_highest_equivalent_value := 0, it_value_iterated_from := 0, it_value_iterated_to := 0, it_specifics := All_values \<rparr>"

partial_function (option) recorded_iter_next :: "hdr_iter \<Rightarrow> (bool \<times> hdr_iter) option" where
  "recorded_iter_next it = do {
     (more, it') \<leftarrow> basic_iter_next it;
     if \<not> more then Some (False, it')
     else if it_count it' \<noteq> 0 then Some (True, (update_iterated_values it' (it_value it'))\<lparr> it_specifics := Recorded (it_count it') \<rparr>)
     else recorded_iter_next it'
   }"

definition hdr_iter_recorded_init :: "hdr_iter \<Rightarrow> hdr_histogram \<Rightarrow> hdr_iter" where
  "hdr_iter_recorded_init it h = (hdr_iter_init it h)\<lparr> it_specifics := Recorded 0 \<rparr>"

text \<open>
  The linear and the logarithmic iterator differ only in how the next reporting level is computed from
  the current one, \<open>advance\<close>.
\<close>

partial_function (option) level_loop :: "(int \<Rightarrow> int) \<Rightarrow> int \<Rightarrow> int \<Rightarrow> int \<Rightarrow> hdr_iter \<Rightarrow> (int \<times> int \<times> int \<times> hdr_iter) option" where
  "level_loop advance added level level_lowest it =
     (if it_value it \<ge> level_lowest then
        let it = update_iterated_values it level; level = advance level
        in Some (added, level, lowest_equivalent_value (it_h it) level, it)
      else do {
        (more, it') \<leftarrow> move_next it;
        if \<not> more then Some (added, level, level_lowest, it')
        else level_loop advance (s64 (added + it_count it')) level level_lowest it'
      })"

definition iter_linear_next :: "hdr_iter \<Rightarrow> int \<Rightarrow> int \<Rightarrow> int \<Rightarrow> (bool \<times> hdr_iter) option" where
  "iter_linear_next it units level level_lowest =
     (if has_next it \<or> next_value_greater it level_lowest then do {
        (added, level, level_lowest, it') \<leftarrow> level_loop (\<lambda>l. s64 (l + units)) 0 level level_lowest it;
        Some (True, it'\<lparr> it_specifics := Linear added units level level_lowest \<rparr>)
      } else Some (False, it\<lparr> it_specifics := Linear 0 units level level_lowest \<rparr>))"

definition log_iter_next :: "hdr_iter \<Rightarrow> int \<Rightarrow> int \<Rightarrow> int \<Rightarrow> (bool \<times> hdr_iter) option" where
  "log_iter_next it log_base level level_lowest =
     (if has_next it \<or> next_value_greater it level_lowest then do {
        (added, level, level_lowest, it') \<leftarrow> level_loop (\<lambda>l. s64 (l * log_base)) 0 level level_lowest it;
        Some (True, it'\<lparr> it_specifics := Logarithmic added log_base level level_lowest \<rparr>)
      } else Some (False, it\<lparr> it_specifics := Logarithmic 0 log_base level level_lowest \<rparr>))"

definition hdr_iter_linear_init :: "hdr_iter \<Rightarrow> hdr_histogram \<Rightarrow> int \<Rightarrow> hdr_iter" where
  "hdr_iter_linear_init it h units =
     (hdr_iter_init it h)\<lparr> it_specifics := Linear 0 units units (lowest_equivalent_value h units) \<rparr>"

text \<open>The base is used only as an integer.\<close>

definition hdr_iter_log_init :: "hdr_iter \<Rightarrow> hdr_histogram \<Rightarrow> int \<Rightarrow> int \<Rightarrow> hdr_iter" where
  "hdr_iter_log_init it h units_first log_base =
     (hdr_iter_init it h)\<lparr> it_specifics := Logarithmic 0 log_base units_first (lowest_equivalent_value h units_first) \<rparr>"

definition hdr_iter_next :: "hdr_iter \<Rightarrow> (bool \<times> hdr_iter) option" where
  "hdr_iter_next it =
     (case it_specifics it of
        All_values \<Rightarrow> all_values_iter_next it
      | Recorded _ \<Rightarrow> recorded_iter_next it
      | Linear _ units level level_lowest \<Rightarrow> iter_linear_next it units level level_lowest
      | Logarithmic _ log_base level level_lowest \<Rightarrow> log_iter_next it log_base level level_lowest)"

section \<open>Adding\<close>

partial_function (option) add_loop ::
    "(hdr_histogram \<Rightarrow> int \<Rightarrow> int \<Rightarrow> (bool \<times> hdr_histogram) option) \<Rightarrow> hdr_iter \<Rightarrow> hdr_histogram \<Rightarrow> int \<Rightarrow> (int \<times> hdr_histogram) option" where
  "add_loop record it h dropped = do {
     (more, it') \<leftarrow> hdr_iter_next it;
     if \<not> more then Some (dropped, h)
     else do {
       (ok, h') \<leftarrow> record h (it_value it') (it_count it');
       add_loop record it' h' (if ok then dropped else s64 (dropped + it_count it'))
     }
   }"

definition hdr_add :: "hdr_iter \<Rightarrow> hdr_histogram \<Rightarrow> hdr_histogram \<Rightarrow> (int \<times> hdr_histogram) option" where
  "hdr_add it h from = add_loop hdr_record_values (hdr_iter_recorded_init it from) h 0"

definition hdr_add_while_correcting_for_coordinated_omission ::
    "hdr_iter \<Rightarrow> hdr_histogram \<Rightarrow> hdr_histogram \<Rightarrow> int \<Rightarrow> (int \<times> hdr_histogram) option" where
  "hdr_add_while_correcting_for_coordinated_omission it h from expected_interval =
     add_loop (\<lambda>h v c. hdr_record_corrected_values h v c expected_interval) (hdr_iter_recorded_init it from) h 0"

section \<open>Queries\<close>

definition hdr_count_at_value :: "hdr_histogram \<Rightarrow> int \<Rightarrow> int option" where
  "hdr_count_at_value h value = counts_get_normalised h (counts_index_for h value)"

definition hdr_count_at_index :: "hdr_histogram \<Rightarrow> int \<Rightarrow> int option" where
  "hdr_count_at_index h index = counts_get_normalised h index"

definition hdr_max :: "hdr_histogram \<Rightarrow> int" where
  "hdr_max h = (if max_value h = 0 then 0 else highest_equivalent_value h (max_value h))"

definition non_zero_min :: "hdr_histogram \<Rightarrow> int" where
  "non_zero_min h = (if min_value h = INT64_MAX then INT64_MAX else lowest_equivalent_value h (min_value h))"

definition hdr_min :: "hdr_histogram \<Rightarrow> int option" where
  "hdr_min h = do { c \<leftarrow> hdr_count_at_index h 0; Some (if 0 < c then 0 else non_zero_min h) }"

text \<open>Arithmetic of \<^verbatim>\<open>double\<close> for finite percentiles, and the number of values below a percentile.\<close>

fun d_lift :: "(rat \<Rightarrow> rat \<Rightarrow> rat) \<Rightarrow> fp \<Rightarrow> fp \<Rightarrow> fp" where
  "d_lift f (Fin x) (Fin y) = to_double (f x y)"
| "d_lift f _ _ = NaN"

definition count_at_percentile :: "int \<Rightarrow> rat \<Rightarrow> int" where
  "count_at_percentile n percentile =
     (let requested_percentile = (if percentile < 100 then percentile else 100);
          x = d_lift (+) (d_lift (*) (d_lift (/) (Fin requested_percentile) (Fin 100)) (to_double (of_int n))) (Fin (1 / 2));
          c = (case x of Fin r \<Rightarrow> if r < 0 then \<lceil>r\<rceil> else \<lfloor>r\<rfloor> | _ \<Rightarrow> - (2 ^ 63))
      in if c > 1 then c else 1)"

partial_function (option) percentile_loop :: "hdr_iter \<Rightarrow> int \<Rightarrow> int \<Rightarrow> int option" where
  "percentile_loop it sofar k = do {
     (more, it') \<leftarrow> hdr_iter_next it;
     if \<not> more then Some 0
     else let sofar = s64 (sofar + it_count it')
          in if sofar \<ge> k then Some (highest_equivalent_value (it_h it') (it_value it')) else percentile_loop it' sofar k
   }"

definition hdr_value_at_percentile :: "hdr_iter \<Rightarrow> hdr_histogram \<Rightarrow> rat \<Rightarrow> int option" where
  "hdr_value_at_percentile it h percentile =
     percentile_loop (hdr_iter_init it h) 0 (count_at_percentile (total_count h) percentile)"

section \<open>What a histogram holds\<close>

text \<open>The part of a histogram that recording does not change.\<close>

definition layout :: "hdr_histogram \<Rightarrow> hdr_histogram" where
  "layout h = h\<lparr> counts := [], total_count := 0, min_value := 0, max_value := 0 \<rparr>"

definition limit :: "hdr_histogram \<Rightarrow> int" where
  "limit h = 2 ^ nat (unit_magnitude h + sub_bucket_half_count_magnitude h + bucket_count h)"

definition accepts :: "hdr_histogram \<Rightarrow> int \<Rightarrow> bool" where
  "accepts h v \<longleftrightarrow> 0 \<le> v \<and> v < limit h"

lemma layout_funs:
  "counts_index_for (layout h) v = counts_index_for h v" "hdr_value_at_index (layout h) i = hdr_value_at_index h i"
  "lowest_equivalent_value (layout h) v = lowest_equivalent_value h v" "highest_equivalent_value (layout h) v = highest_equivalent_value h v"
  "limit (layout h) = limit h" "accepts (layout h) v = accepts h v" "counts_len (layout h) = counts_len h"
  "highest_trackable_value (layout h) = highest_trackable_value h" "normalizing_index_offset (layout h) = normalizing_index_offset h"
  "hdr_size_of_equivalent_value_range (layout h) v = hdr_size_of_equivalent_value_range h v"
  by (simp_all add: layout_def counts_index_for_def get_bucket_index_def counts_index_def hdr_value_at_index_def
      lowest_equivalent_value_def highest_equivalent_value_def hdr_next_non_equivalent_value_def limit_def accepts_def
      hdr_size_of_equivalent_value_range_def Let_def)

lemma layout_eq:
  assumes "layout h' = layout h"
  shows "counts_index_for h' = counts_index_for h" "hdr_value_at_index h' = hdr_value_at_index h"
    "lowest_equivalent_value h' = lowest_equivalent_value h" "highest_equivalent_value h' = highest_equivalent_value h"
    "limit h' = limit h" "accepts h' = accepts h" "counts_len h' = counts_len h" "highest_trackable_value h' = highest_trackable_value h"
  using layout_funs [of h'] layout_funs [of h] assms by (simp_all add: fun_eq_iff)

lemma layout_wf:
  assumes "layout h' = layout h" and "length (counts h') = length (counts h)" and "hdr_wf h"
  shows "hdr_wf h'"
proof -
  have wf: "hdr_wf h = (hdr_wf (layout h\<lparr> counts := counts h \<rparr>))" for h :: hdr_histogram by (simp add: hdr_wf_def layout_def)
  have "hdr_wf (layout h\<lparr> counts := counts h' \<rparr>) = hdr_wf (layout h\<lparr> counts := counts h \<rparr>)" using assms(2) by (simp add: hdr_wf_def)
  then show ?thesis using wf [of h] wf [of h'] assms(1,3) by simp
qed

definition values_at :: "hdr_histogram \<Rightarrow> int list \<Rightarrow> nat \<Rightarrow> int" where
  "values_at h vs i = int (length (filter (\<lambda>v. counts_index_for h v = int i) vs))"

definition hdr_holds :: "hdr_histogram \<Rightarrow> int list \<Rightarrow> bool" where
  "hdr_holds h vs \<longleftrightarrow>
     hdr_wf h \<and> (\<forall>v \<in> set vs. accepts h v) \<and> total_count h = int (length vs) \<and>
     counts h = map (values_at h vs) [0..<nat (counts_len h)] \<and>
     max_value h = Max (insert 0 (set vs)) \<and> min_value h = Min (insert INT64_MAX (set vs - {0}))"

lemma s64_id: "- (2 ^ 63) \<le> x \<Longrightarrow> x < 2 ^ 63 \<Longrightarrow> s64 x = x"
  unfolding s64_def by (rule signed_take_bit_int_eq_self) simp_all

lemma limit_le: "hdr_wf h \<Longrightarrow> limit h \<le> 2 ^ 63"
  unfolding limit_def by (rule power_increasing) (auto simp: hdr_wf_def nat_le_iff)

lemma accepts_index:
  assumes "hdr_wf h" and "accepts h v"
  shows "0 \<le> counts_index_for h v" "counts_index_for h v < counts_len h" "v < 2 ^ 63"
proof -
  show v: "v < 2 ^ 63" using limit_le [OF assms(1)] assms(2) by (simp add: accepts_def)
  have "0 \<le> v" using assms(2) by (simp add: accepts_def)
  then show "counts_index_for h v < counts_len h" "0 \<le> counts_index_for h v"
    using index_in_range [OF assms(1) _ v] assms(2) by (simp_all add: accepts_def limit_def counts_index_for_eq [OF assms(1) _ v])
qed

lemma rejects_index:
  assumes "hdr_wf h" and "\<not> accepts h v" and "v < 2 ^ 63"
  shows "hdr_record_values h v c = Some (False, h)"
proof (cases "v < 0")
  case False
  then have "\<not> counts_index_for h v < counts_len h"
    using index_in_range [OF assms(1) _ assms(3)] assms(2) by (simp add: accepts_def limit_def)
  then show ?thesis using False by (simp add: hdr_record_values_def Let_def)
qed (simp add: hdr_record_values_def)

lemma record_accepted:
  assumes "hdr_wf h" and "accepts h v"
  shows "hdr_record_values h v c =
     Some (True, update_min_max (h\<lparr> counts := (counts h)[nat (counts_index_for h v) := s64 (counts h ! nat (counts_index_for h v) + c)],
                                    total_count := s64 (total_count h + c) \<rparr>) v)"
proof -
  note i = accepts_index [OF assms]
  have "normalize_index h (counts_index_for h v) = counts_index_for h v" using assms(1) by (simp add: normalize_index_def hdr_wf_def)
  moreover have "int (length (counts h)) = counts_len h" using i assms(1) by (simp add: hdr_wf_def)
  ultimately show ?thesis
    using i assms(2) by (simp add: hdr_record_values_def counts_inc_normalised_def counts_get_direct_def accepts_def Let_def)
qed

lemma hdr_holds_init:
  assumes "hdr_wf h" and "counts h = replicate (nat (counts_len h)) 0" and "total_count h = 0" "max_value h = 0" "min_value h = INT64_MAX"
  shows "hdr_holds h []"
proof -
  have "values_at h [] = (\<lambda>_. 0)" by (simp add: fun_eq_iff values_at_def)
  then show ?thesis using assms by (simp add: hdr_holds_def map_replicate_const)
qed

lemma hdr_holds_record:
  assumes holds: "hdr_holds h vs" and acc: "accepts h v" and len: "length vs + 1 < 2 ^ 63"
  shows "\<exists>h'. hdr_record_value h v = Some (True, h') \<and> hdr_holds h' (v # vs) \<and> layout h' = layout h"
proof -
  let ?i = "nat (counts_index_for h v)"
  have wf: "hdr_wf h" using holds by (simp add: hdr_holds_def)
  note i = accepts_index [OF wf acc]
  have cs: "counts h = map (values_at h vs) [0..<nat (counts_len h)]" and tot: "total_count h = int (length vs)"
    using holds by (simp_all add: hdr_holds_def)
  have i': "?i < nat (counts_len h)" using i by simp
  have "values_at h vs ?i \<le> int (length vs)" "0 \<le> values_at h vs ?i" by (simp_all add: values_at_def)
  then have e: "s64 (values_at h vs ?i + 1) = values_at h vs ?i + 1" "s64 (total_count h + 1) = int (length vs) + 1"
    using len unfolding tot by (auto intro!: s64_id)
  define h' where "h' = update_min_max (h\<lparr> counts := (counts h)[?i := s64 (counts h ! ?i + 1)], total_count := s64 (total_count h + 1) \<rparr>) v"
  have rec: "hdr_record_value h v = Some (True, h')" by (simp add: hdr_record_value_def record_accepted [OF wf acc] h'_def)
  have lay: "layout h' = layout h" by (simp add: h'_def layout_def update_min_max_def)
  have "counts h' = map (values_at h (v # vs)) [0..<nat (counts_len h)]"
  proof (rule nth_equalityI)
    show "length (counts h') = length (map (values_at h (v # vs)) [0..<nat (counts_len h)])" by (simp add: h'_def update_min_max_def cs)
    fix j assume "j < length (counts h')"
    then have j: "j < nat (counts_len h)" by (simp add: h'_def update_min_max_def cs)
    have "(counts_index_for h v = int j) = (j = ?i)" using i(1) by auto
    then show "counts h' ! j = map (values_at h (v # vs)) [0..<nat (counts_len h)] ! j"
      using i' j e(1) by (simp add: h'_def update_min_max_def cs values_at_def)
  qed
  moreover have "total_count h' = int (length (v # vs))" using e(2) by (simp add: h'_def update_min_max_def)
  moreover have "max_value h' = Max (insert 0 (set (v # vs)))"
  proof -
    have "max_value h' = max v (max_value h)" by (simp add: h'_def update_min_max_def max_def)
    also have "\<dots> = Max (insert v (insert 0 (set vs)))" using holds by (simp add: hdr_holds_def)
    finally show ?thesis by (simp add: insert_commute)
  qed
  moreover have "min_value h' = Min (insert INT64_MAX (set (v # vs) - {0}))"
  proof -
    have m: "min_value h = Min (insert INT64_MAX (set vs - {0}))" using holds by (simp add: hdr_holds_def)
    show ?thesis
    proof (cases "v = 0")
      case True
      then show ?thesis using m by (simp add: h'_def update_min_max_def)
    next
      case False
      then have "set (v # vs) - {0} = insert v (set vs - {0})" by auto
      moreover have "min_value h' = min v (min_value h)" using False by (simp add: h'_def update_min_max_def min_def)
      moreover have "Min (insert v (insert INT64_MAX (set vs - {0}))) = min v (Min (insert INT64_MAX (set vs - {0})))"
        by (rule Min_insert) simp_all
      ultimately show ?thesis using m by (simp only: insert_commute [of INT64_MAX v])
    qed
  qed
  moreover have "hdr_wf h'" by (rule layout_wf [OF lay _ wf]) (simp add: h'_def update_min_max_def)
  moreover have "\<forall>w \<in> set (v # vs). accepts h' w" using holds acc by (simp add: hdr_holds_def layout_eq [OF lay])
  ultimately have "hdr_holds h' (v # vs)" by (simp add: hdr_holds_def layout_eq [OF lay] values_at_def)
  then show ?thesis using rec lay by blast
qed

text \<open>Recording a sequence of values.\<close>

abbreviation hdr_insert :: "hdr_histogram \<Rightarrow> int \<Rightarrow> hdr_histogram option" where
  "hdr_insert h v \<equiv> map_option snd (hdr_record_value h v)"

lemma hdr_holds_insert:
  assumes "hdr_holds h vs" and "v < 2 ^ 63" and "length vs + 1 < 2 ^ 63"
  shows "\<exists>h'. hdr_insert h v = Some h' \<and> hdr_holds h' (if accepts h v then v # vs else vs) \<and> layout h' = layout h"
proof (cases "accepts h v")
  case True
  then show ?thesis using hdr_holds_record [OF assms(1) True assms(3)] by auto
next
  case False
  have "hdr_record_value h v = Some (False, h)"
    unfolding hdr_record_value_def using assms by (intro rejects_index False) (simp_all add: hdr_holds_def)
  then show ?thesis using False assms(1) by simp
qed

interpretation hdr: recorder hdr_insert hdr_holds layout accepts "\<lambda>v. v < 2 ^ 63" "\<lambda>n. n < 2 ^ 63"
proof
  show "\<exists>h'. hdr_insert h v = Some h' \<and> hdr_holds h' (if accepts h v then v # vs else vs) \<and> layout h' = layout h"
    if "hdr_holds h vs" "v < 2 ^ 63" "length vs + 1 < 2 ^ 63" for h vs v
    by (rule hdr_holds_insert [OF that])
  show "accepts h' = accepts h" if "layout h' = layout h" for h h' by (rule layout_eq(6) [OF that])
qed simp

abbreviation record_list :: "hdr_histogram \<Rightarrow> int list \<Rightarrow> hdr_histogram option" where
  "record_list \<equiv> record_seq hdr_insert"

lemmas record_list_holds = hdr.record_seq_holds

section \<open>Percentiles\<close>

lemma all_values_next:
  assumes "hdr_wf h" and "it_h it = h" "it_counts_index it = int j - 1"
  shows "j < length (counts h) \<Longrightarrow> \<exists>it'. all_values_iter_next it = Some (True, it') \<and> it_h it' = h \<and> it_counts_index it' = int (Suc j) - 1 \<and>
           it_count it' = counts h ! j \<and> it_value it' = hdr_value_at_index h (int j) \<and> it_specifics it' = it_specifics it"
proof -
  assume j: "j < length (counts h)"
  have "int (length (counts h)) = counts_len h" using assms(1) j by (auto simp: hdr_wf_def)
  then show ?thesis
    using assms j
    by (simp add: all_values_iter_next_def move_next_def has_buckets_def counts_get_normalised_def counts_get_direct_def
        normalize_index_def update_iterated_values_def hdr_wf_def Let_def)
qed

lemma percentile_loop_finds:
  assumes wf: "hdr_wf h" and nn: "\<forall>c \<in> set (counts h). 0 \<le> c" and tot: "sum_list (counts h) < 2 ^ 63" and k: "k \<le> sum_list (counts h)"
    and "j \<le> length (counts h)" and "it_h it = h" "it_counts_index it = int j - 1" "it_specifics it = All_values"
    and "sum_list (take j (counts h)) < k"
  shows "\<exists>i < length (counts h). percentile_loop it (sum_list (take j (counts h))) k =
           Some (highest_equivalent_value h (hdr_value_at_index h (int i))) \<and>
           sum_list (take i (counts h)) < k \<and> k \<le> sum_list (take (Suc i) (counts h))"
  using assms(5-)
proof (induction "length (counts h) - j" arbitrary: j it)
  case 0
  then show ?case using k by simp
next
  case (Suc d)
  then have j: "j < length (counts h)" by simp
  obtain it' where it': "all_values_iter_next it = Some (True, it')" "it_h it' = h" "it_counts_index it' = int (Suc j) - 1"
    "it_count it' = counts h ! j" "it_value it' = hdr_value_at_index h (int j)" "it_specifics it' = All_values"
    using all_values_next [OF wf Suc.prems(2,3) j] Suc.prems(4) by auto
  have nx: "hdr_iter_next it = Some (True, it')" using it'(1) Suc.prems(4) by (simp add: hdr_iter_next_def)
  let ?t = "sum_list (take j (counts h))"
  have t: "sum_list (take (Suc j) (counts h)) = ?t + counts h ! j" using j by (simp add: take_Suc_conv_app_nth)
  have nn': "0 \<le> sum_list xs" if "set xs \<subseteq> set (counts h)" for xs using that nn by (intro sum_list_nonneg) auto
  have "sum_list (counts h) = sum_list (take (Suc j) (counts h)) + sum_list (drop (Suc j) (counts h))"
    by (metis append_take_drop_id sum_list_append)
  moreover have "0 \<le> sum_list (drop (Suc j) (counts h))" "0 \<le> sum_list (take (Suc j) (counts h))"
    by (auto intro!: nn' dest: in_set_dropD in_set_takeD)
  ultimately have s: "s64 (?t + counts h ! j) = ?t + counts h ! j" using tot unfolding t by (intro s64_id) linarith+
  show ?case
  proof (cases "?t + counts h ! j \<ge> k")
    case True
    have "percentile_loop it ?t k = Some (highest_equivalent_value h (hdr_value_at_index h (int j)))"
      by (subst percentile_loop.simps) (simp add: nx it' s True)
    then show ?thesis using j Suc.prems(5) True t by auto
  next
    case False
    have "percentile_loop it ?t k = percentile_loop it' (sum_list (take (Suc j) (counts h))) k"
      by (subst percentile_loop.simps) (simp add: nx it' s False t)
    moreover have "d = length (counts h) - Suc j" using Suc.hyps(2) by simp
    ultimately show ?thesis using Suc.hyps(1) [of "Suc j" it'] j it' False t by simp
  qed
qed

text \<open>The sum of the first counters is the number of values below the lowest value of the next.\<close>

lemma val_at_mono:
  assumes "i \<le> j"
  shows "val_at u m i \<le> val_at u m j"
proof (rule ccontr)
  assume "\<not> ?thesis"
  then have lt: "val_at u m j < val_at u m i" by simp
  then have "j \<le> i" using idx_mono [of "val_at u m j" "val_at u m i" u m] by (simp add: idx_val_at)
  then show False using assms lt by simp
qed

lemma idx_less_iff: "idx u m v < j \<longleftrightarrow> v < val_at u m j"
proof
  assume "idx u m v < j"
  then have "val_at u m (idx u m v + 1) \<le> val_at u m j" by (intro val_at_mono) simp
  moreover have "v < val_at u m (idx u m v + 1)" using idx_eq_iff [of u m v "idx u m v"] by simp
  ultimately show "v < val_at u m j" by simp
next
  assume *: "v < val_at u m j"
  show "idx u m v < j"
  proof (rule ccontr)
    assume "\<not> ?thesis"
    then have "val_at u m j \<le> val_at u m (idx u m v)" by (intro val_at_mono) simp
    then show False using * val_at_le [of u m v] by simp
  qed
qed

lemma index_less_iff:
  assumes h: "hdr_wf h" and v: "0 \<le> v" "v < 2 ^ 63"
  shows "counts_index_for h v < int j \<longleftrightarrow> v < hdr_value_at_index h (int j)"
proof -
  have "counts_index_for h v < int j \<longleftrightarrow> nat v < val_at (um h) (hm h) j" by (simp add: counts_index_for_eq [OF h v] idx_less_iff)
  also have "\<dots> \<longleftrightarrow> v < int (val_at (um h) (hm h) j)" using v(1) by linarith
  finally show ?thesis by (simp add: hdr_value_at_index_eq [OF h])
qed

lemma sum_values_at:
  assumes "\<forall>v \<in> set vs. 0 \<le> counts_index_for h v"
  shows "(\<Sum>i < j. values_at h vs i) = int (length (filter (\<lambda>v. counts_index_for h v < int j) vs))"
proof (induction j)
  case 0
  have "filter (\<lambda>v. counts_index_for h v < 0) vs = []" using assms by (auto simp: filter_empty_conv)
  then show ?case by simp
next
  case (Suc j)
  have "length (filter (\<lambda>v. counts_index_for h v < int (Suc j)) vs) =
        length (filter (\<lambda>v. counts_index_for h v < int j) vs) + length (filter (\<lambda>v. counts_index_for h v = int j) vs)"
    by (induction vs) auto
  then show ?case using Suc by (simp add: values_at_def)
qed

lemma held_sum:
  assumes holds: "hdr_holds h vs" and j: "j \<le> length (counts h)"
  shows "sum_list (take j (counts h)) = int (length (filter (\<lambda>v. v < hdr_value_at_index h (int j)) vs))"
proof -
  have wf: "hdr_wf h" using holds by (simp add: hdr_holds_def)
  have acc: "0 \<le> counts_index_for h v" "counts_index_for h v < int j \<longleftrightarrow> v < hdr_value_at_index h (int j)" if "v \<in> set vs" for v
    using accepts_index [OF wf, of v] index_less_iff [OF wf, of v] holds that by (auto simp: hdr_holds_def accepts_def)
  have n: "length (counts h) = nat (counts_len h)" using wf by (simp add: hdr_wf_def)
  have "take j (counts h) = map (values_at h vs) [0..<j]"
    using holds j n by (simp add: hdr_holds_def take_map)
  then have "sum_list (take j (counts h)) = (\<Sum>i < j. values_at h vs i)" by (simp add: interv_sum_list_conv_sum_set_nat atLeast0LessThan)
  also have "\<dots> = int (length (filter (\<lambda>v. counts_index_for h v < int j) vs))" using acc(1) by (intro sum_values_at) simp
  also have "filter (\<lambda>v. counts_index_for h v < int j) vs = filter (\<lambda>v. v < hdr_value_at_index h (int j)) vs"
    using acc(2) by (intro filter_cong) simp_all
  finally show ?thesis .
qed

lemma value_at_len:
  assumes "hdr_wf h"
  shows "hdr_value_at_index h (int (length (counts h))) = limit h"
proof -
  let ?b = "nat (bucket_count h)" and ?n = "length (counts h)"
  have "1 \<le> bucket_count h" using assms by (simp add: hdr_wf_def)
  then have b: "1 \<le> ?b" by simp
  have "?n = nat (counts_len h)" using assms by (simp add: hdr_wf_def)
  then have n: "?n = (?b + 1) * 2 ^ hm h" by (simp only: counts_len_eq [OF assms] nat_int)
  have l: "limit h = int (2 ^ (um h + hm h + ?b))" using assms by (simp add: limit_def hdr_wf_def nat_add_distrib)
  have "v < val_at (um h) (hm h) ?n \<longleftrightarrow> v < 2 ^ (um h + hm h + ?b)" for v
    using idx_bound [OF b, of "um h" "hm h" v] by (simp only: n idx_less_iff)
  then have "val_at (um h) (hm h) ?n = 2 ^ (um h + hm h + ?b)" by (meson linorder_neqE_nat less_irrefl)
  then show ?thesis by (simp only: hdr_value_at_index_eq [OF assms] l)
qed

lemma counter_range:
  assumes wf: "hdr_wf h" and i: "i < length (counts h)"
  defines "r \<equiv> highest_equivalent_value h (hdr_value_at_index h (int i))"
  shows "r + 1 = hdr_value_at_index h (int (Suc i))" "lowest_equivalent_value h r = hdr_value_at_index h (int i)"
proof -
  let ?u = "um h" and ?m = "hm h"
  have le: "val_at ?u ?m (Suc i) \<le> val_at ?u ?m (length (counts h))" using i by (intro val_at_mono) simp
  have lim: "int (val_at ?u ?m (length (counts h))) \<le> 2 ^ 63"
    using value_at_len [OF wf] limit_le [OF wf] by (simp add: hdr_value_at_index_eq [OF wf])
  have lt: "val_at ?u ?m i < val_at ?u ?m (Suc i)" using idx_less_iff [of ?u ?m "val_at ?u ?m i" "Suc i"] by (simp add: idx_val_at)
  have v: "0 \<le> int (val_at ?u ?m i)" "int (val_at ?u ?m i) < 2 ^ 63" using lt le lim by linarith+
  have r: "r = int (val_at ?u ?m (Suc i)) - 1"
    by (simp only: r_def highest_equivalent_value_def hdr_value_at_index_eq [OF wf] next_value_eq [OF wf v] nat_int idx_val_at Suc_eq_plus1)
  then show "r + 1 = hdr_value_at_index h (int (Suc i))" by (simp only: hdr_value_at_index_eq [OF wf])
  have rr: "0 \<le> r" "r < 2 ^ 63" using r lt le lim by linarith+
  have "nat r = val_at ?u ?m (Suc i) - 1" using r by simp
  then have "val_at ?u ?m i \<le> nat r \<and> nat r < val_at ?u ?m (i + 1)" using lt by simp linarith
  then have "idx ?u ?m (nat r) = i" by (simp only: idx_eq_iff)
  then show "lowest_equivalent_value h r = hdr_value_at_index h (int i)"
    by (simp only: lowest_equivalent_value_eq [OF wf rr] hdr_value_at_index_eq [OF wf])
qed

lemma percentile_exact:
  assumes holds: "hdr_holds h vs" and len: "length vs < 2 ^ 63" and k: "1 \<le> k" "k \<le> int (length vs)"
    and it: "it_h it = h" "it_counts_index it = - 1" "it_specifics it = All_values"
  shows "\<exists>r. percentile_loop it 0 k = Some r \<and> k \<le> int (length (filter (\<lambda>v. v \<le> r) vs)) \<and>
             int (length (filter (\<lambda>v. v < lowest_equivalent_value h r) vs)) < k"
proof -
  have wf: "hdr_wf h" using holds by (simp add: hdr_holds_def)
  have "filter (\<lambda>v. v < limit h) vs = vs" using holds by (simp add: hdr_holds_def accepts_def filter_id_conv)
  then have tot: "sum_list (counts h) = int (length vs)"
    using held_sum [OF holds order_refl] value_at_len [OF wf] by simp
  have nn: "\<forall>c \<in> set (counts h). 0 \<le> c" using holds by (auto simp: hdr_holds_def values_at_def)
  obtain i where i: "i < length (counts h)" "percentile_loop it 0 k = Some (highest_equivalent_value h (hdr_value_at_index h (int i)))"
    "sum_list (take i (counts h)) < k" "k \<le> sum_list (take (Suc i) (counts h))"
    using percentile_loop_finds [OF wf nn, of k 0 it] tot len k it by auto
  define r where "r = highest_equivalent_value h (hdr_value_at_index h (int i))"
  note cr = counter_range [OF wf i(1), folded r_def]
  have "(\<lambda>v. v \<le> r) = (\<lambda>v. v < hdr_value_at_index h (int (Suc i)))" unfolding cr(1) [symmetric] by (rule ext) simp
  then have "k \<le> int (length (filter (\<lambda>v. v \<le> r) vs))" using i(1,4) held_sum [OF holds, of "Suc i"] by simp
  moreover have "int (length (filter (\<lambda>v. v < lowest_equivalent_value h r) vs)) < k"
    using i(1,3) held_sum [OF holds, of i] by (simp add: cr(2))
  ultimately show ?thesis using i(2) by (simp add: r_def)
qed

section \<open>Rounding to \<^verbatim>\<open>double\<close>\<close>

lemma double_dyadic:
  assumes "0 < m" and "m < 2 ^ 53" and e: "e \<le> 1000"
  shows "\<exists>b. of_nat m / 2 ^ e = fp_mag 53 1074 b \<and> b < 2047 * 2 ^ 52"
proof -
  define K where "K = bit_length m"
  have K: "1 \<le> K" "K \<le> 53" using assms bit_length_gt_0 [of m] by (simp_all add: K_def bit_length_le_iff del: bit_length_gt_0)
  define n where "n = m * 2 ^ (53 - K)"
  have "2 ^ (K - 1) \<le> m" "m < 2 ^ K" unfolding K_def using power_bit_length_le [OF assms(1)] less_2_power_bit_length by blast+
  then have "2 ^ (K - 1) * 2 ^ (53 - K) \<le> n" "n < 2 ^ K * 2 ^ (53 - K)" unfolding n_def by simp_all
  then have n: "2 ^ (53 - 1) \<le> n" "n \<le> 2 ^ 53" using K by (simp_all flip: power_add)
  let ?k = "1074 - e - (53 - K)"
  have "fp_mag 53 1074 (?k * 2 ^ (53 - 1) + n) = of_nat n * 2 ^ ?k / 2 ^ 1074" by (rule fp_mag_compose) (use n in simp_all)
  also have "of_nat n * 2 ^ ?k = (of_nat m * 2 ^ (1074 - e) :: rat)"
  proof -
    have "of_nat n * 2 ^ ?k = of_nat m * (2 ^ (53 - K) * 2 ^ ?k :: rat)" by (simp add: n_def)
    also have "(2 ^ (53 - K) * 2 ^ ?k :: rat) = 2 ^ (53 - K + ?k)" by (simp only: power_add)
    also have "53 - K + ?k = 1074 - e" using K e by simp
    finally show ?thesis .
  qed
  also have "of_nat m * 2 ^ (1074 - e) / 2 ^ 1074 = (of_nat m / 2 ^ e :: rat)"
  proof -
    have "(2 :: rat) ^ 1074 = 2 ^ (1074 - e) * 2 ^ e" using e by (simp only: power_add [symmetric]) simp
    then have "of_nat m * 2 ^ (1074 - e) / (2 :: rat) ^ 1074 = of_nat m * 2 ^ (1074 - e) / (2 ^ (1074 - e) * 2 ^ e)" by (rule arg_cong)
    also have "\<dots> = of_nat m / 2 ^ e" by (simp del: power_numeral)
    finally show ?thesis .
  qed
  finally have "of_nat m / 2 ^ e = fp_mag 53 1074 (?k * 2 ^ (53 - 1) + n)" ..
  moreover have "?k * 2 ^ (53 - 1) + n < 2047 * 2 ^ 52"
  proof -
    have "?k * 2 ^ (53 - 1) \<le> 1074 * 2 ^ 52" by (rule order_trans [OF mult_le_mono1 [of _ 1074]]) simp_all
    then show ?thesis using n by simp
  qed
  ultimately show ?thesis by blast
qed

lemma double_between:
  assumes "0 \<le> x" and "x \<le> of_nat m / 2" and "m < 2 ^ 53"
  shows "\<exists>y. to_double x = Fin y \<and> 0 \<le> y \<and> y \<le> of_nat m / 2"
proof (cases "m = 0")
  case True
  then have "x = 0" using assms by simp
  then have "to_double x = Fin 0" by (simp add: to_double_def fp_round_def fp_bits_def fp_mag_def round_even_def)
  then show ?thesis by (simp add: True)
next
  case False
  then obtain b where b: "of_nat m / 2 = fp_mag 53 1074 b" "b < 2047 * 2 ^ 52" using double_dyadic [of m 1] assms(3) by auto
  have "fp_bits 53 1074 x \<le> fp_bits 53 1074 (of_nat m / 2)" using assms by (intro fp_bits_mono) simp_all
  then have le: "fp_bits 53 1074 x \<le> b" unfolding b(1) by (simp add: fp_bits_mag)
  then have "to_double x = Fin (fp_mag 53 1074 (fp_bits 53 1074 x))" using b(2) assms(1) by (simp add: to_double_def fp_round_def)
  moreover have "fp_mag 53 1074 (fp_bits 53 1074 x) \<le> of_nat m / 2" unfolding b(1) using le by (simp add: fp_mag_mono_iff)
  ultimately show ?thesis by (simp add: fp_mag_nonneg)
qed

lemma double_nat:
  assumes "n < 2 ^ 52"
  shows "to_double (of_nat n) = Fin (of_nat n)"
proof (cases "n = 0")
  case True
  then show ?thesis by (simp add: to_double_def fp_round_def fp_bits_def fp_mag_def round_even_def)
next
  case False
  then obtain b where b: "of_nat (2 * n) / 2 = fp_mag 53 1074 b" "b < 2047 * 2 ^ 52" using double_dyadic [of "2 * n" 1] assms by auto
  have e: "(of_nat n :: rat) = fp_mag 53 1074 b" using b(1) by simp
  then have "fp_bits 53 1074 (of_nat n) = b" by (simp add: fp_bits_mag)
  moreover have "\<bar>of_nat n :: rat\<bar> = of_nat n" by simp
  ultimately show ?thesis unfolding to_double_def fp_round_def Let_def using b(2) e by simp
qed

text \<open>For fewer than \<open>2 ^ 52\<close> values, no percentile asks for more values than there are.\<close>

lemma count_at_percentile_bounds:
  assumes "0 \<le> p" and "n < 2 ^ 52"
  shows "1 \<le> count_at_percentile (int n) p" and "0 < n \<Longrightarrow> count_at_percentile (int n) p \<le> int n"
proof -
  show "1 \<le> count_at_percentile (int n) p" by (simp add: count_at_percentile_def Let_def)
  assume n: "0 < n"
  let ?q = "if p < 100 then p else 100"
  have q: "0 \<le> ?q / 100" "?q / 100 \<le> 1" using assms(1) by simp_all
  then obtain a where a: "to_double (?q / 100) = Fin a" "0 \<le> a" "a \<le> 1" using double_between [of "?q / 100" 2] by auto
  have "0 \<le> a * of_nat n" "a * of_nat n \<le> of_nat (2 * n) / 2" using a(2,3) by (simp_all add: mult_left_le_one_le)
  then obtain b where b: "to_double (a * of_nat n) = Fin b" "0 \<le> b" "b \<le> of_nat n"
    using double_between [of "a * of_nat n" "2 * n"] assms(2) by auto
  have "0 \<le> b + 1 / 2" "b + 1 / 2 \<le> of_nat (2 * n + 1) / 2" using b(2,3) by simp_all
  then obtain c where c: "to_double (b + 1 / 2) = Fin c" "0 \<le> c" "c \<le> of_nat (2 * n + 1) / 2"
    using double_between [of "b + 1 / 2" "2 * n + 1"] assms(2) by auto
  have "\<lfloor>c\<rfloor> \<le> int n"
  proof -
    have "c < of_int (int n + 1)" using c(3) by simp
    then show ?thesis unfolding floor_less_iff [symmetric] by simp
  qed
  moreover have "count_at_percentile (int n) p = (if \<lfloor>c\<rfloor> > 1 then \<lfloor>c\<rfloor> else 1)"
    unfolding count_at_percentile_def Let_def using a(1) b(1) c(1,2) double_nat [OF assms(2)] by simp
  ultimately show "count_at_percentile (int n) p \<le> int n" using n by simp
qed

section \<open>Properties\<close>

lemma fresh_holds:
  assumes "lg_ok lg" and "highest < 2 ^ 63" and "config_valid lg lowest highest figures"
  obtains h where "hdr_init (\<lambda>_. True) lg lowest highest figures = Some (Inr h)" "hdr_holds h []" "highest_trackable_value h = highest"
  using init_wf(1) [OF assms] hdr_holds_init by metis

lemma highest_accepted: "hdr_wf h \<Longrightarrow> 0 \<le> v \<Longrightarrow> v \<le> highest_trackable_value h \<Longrightarrow> accepts h v"
  by (simp add: hdr_wf_def accepts_def limit_def)

lemma held_count:
  assumes "hdr_holds h vs" and "accepts h v"
  shows "hdr_count_at_value h v = Some (int (length (filter (\<lambda>w. lowest_equivalent_value h v \<le> w \<and> w \<le> highest_equivalent_value h v) vs)))"
proof -
  have wf: "hdr_wf h" using assms(1) by (simp add: hdr_holds_def)
  note i = accepts_index [OF wf assms(2)]
  have "normalizing_index_offset h = 0" using wf by (simp add: hdr_wf_def)
  moreover have "counts h = map (values_at h vs) [0..<nat (counts_len h)]" using assms(1) by (simp add: hdr_holds_def)
  ultimately have "hdr_count_at_value h v = Some (values_at h vs (nat (counts_index_for h v)))"
    using i by (simp add: hdr_count_at_value_def counts_get_normalised_def counts_get_direct_def normalize_index_def)
  moreover have "(counts_index_for h w = counts_index_for h v) = (lowest_equivalent_value h v \<le> w \<and> w \<le> highest_equivalent_value h v)"
    if "w \<in> set vs" for w
  proof -
    have w: "accepts h w" using assms(1) that by (simp add: hdr_holds_def)
    then have "0 \<le> w" "0 \<le> v" using assms(2) by (simp_all add: accepts_def)
    then show ?thesis using same_index_iff [OF wf _ i(3) _ accepts_index(3) [OF wf w]] by blast
  qed
  then have "filter (\<lambda>w. counts_index_for h w = counts_index_for h v) vs =
             filter (\<lambda>w. lowest_equivalent_value h v \<le> w \<and> w \<le> highest_equivalent_value h v) vs" by (intro filter_cong refl) blast
  ultimately show ?thesis using i(1) by (simp only: values_at_def nat_0_le)
qed

text \<open>
  C26. Recording any sequence of values into a fresh histogram never leaves the array of counters; every value
  from 0 up to the highest trackable value is counted and no negative value is; afterwards the total
  is the number of accepted values, the counter of a value is the number of accepted values equivalent to it,
  and the smallest non-zero and the largest value are kept.
\<close>

theorem hdr_records_exact:
  assumes "lg_ok lg" and "highest < 2 ^ 63" and "config_valid lg lowest highest figures"
    and "\<forall>v \<in> set vs. v < 2 ^ 63" and "length vs < 2 ^ 63"
  shows "\<exists>h h'. hdr_init (\<lambda>_. True) lg lowest highest figures = Some (Inr h) \<and> record_list h vs = Some h' \<and>
           (\<forall>v. 0 \<le> v \<and> v \<le> highest \<longrightarrow> accepts h v) \<and> (\<forall>v < 0. \<not> accepts h v) \<and>
           total_count h' = int (length (filter (accepts h) vs)) \<and>
           (\<forall>v. accepts h v \<longrightarrow> hdr_count_at_value h' v =
              Some (int (length (filter (\<lambda>w. accepts h w \<and> lowest_equivalent_value h v \<le> w \<and> w \<le> highest_equivalent_value h v) vs)))) \<and>
           max_value h' = Max (insert 0 (set (filter (accepts h) vs))) \<and>
           min_value h' = Min (insert INT64_MAX (set (filter (accepts h) vs) - {0}))"
proof -
  obtain h where h: "hdr_init (\<lambda>_. True) lg lowest highest figures = Some (Inr h)" "hdr_holds h []" "highest_trackable_value h = highest"
    by (rule fresh_holds [OF assms(1-3)])
  obtain h' where h': "record_list h vs = Some h'" "hdr_holds h' (rev (filter (accepts h) vs))" "layout h' = layout h"
    using record_list_holds [OF h(2), of vs] assms(4,5) by auto
  have "hdr_wf h" using h(2) by (simp add: hdr_holds_def)
  then have "\<forall>v. 0 \<le> v \<and> v \<le> highest \<longrightarrow> accepts h v" using highest_accepted [of h] h(3) by blast
  moreover have "\<forall>v < 0. \<not> accepts h v" by (simp add: accepts_def)
  moreover have "\<forall>v. accepts h v \<longrightarrow> hdr_count_at_value h' v =
      Some (int (length (filter (\<lambda>w. accepts h w \<and> lowest_equivalent_value h v \<le> w \<and> w \<le> highest_equivalent_value h v) vs)))"
    using held_count [OF h'(2)] by (simp only: layout_eq [OF h'(3)] rev_filter [symmetric] length_rev filter_filter) simp
  moreover have "total_count h' = int (length (filter (accepts h) vs))" using h'(2) by (simp add: hdr_holds_def)
  moreover have "max_value h' = Max (insert 0 (set (filter (accepts h) vs)))" "min_value h' = Min (insert INT64_MAX (set (filter (accepts h) vs) - {0}))"
    using h'(2) by (simp_all add: hdr_holds_def)
  ultimately show ?thesis using h(1) h'(1) by blast
qed


theorem hdr_records_exact_witness:
  "\<exists>h h'. hdr_init (\<lambda>_. True) lg_example 1 1000000 3 = Some (Inr h) \<and> record_list h [5, - 1, 70000, 5] = Some h' \<and>
     accepts h 5 \<and> accepts h 70000 \<and> \<not> accepts h (- 1) \<and> total_count h' = 3"
proof -
  obtain h h' where h: "hdr_init (\<lambda>_. True) lg_example 1 1000000 3 = Some (Inr h)" "record_list h [5, - 1, 70000, 5] = Some h'"
    "\<forall>v. 0 \<le> v \<and> v \<le> 1000000 \<longrightarrow> accepts h v" "\<forall>v < 0. \<not> accepts h v"
    "total_count h' = int (length (filter (accepts h) [5, - 1, 70000, 5]))"
    using hdr_records_exact [OF lg_example_ok _ benchmark_config_valid, of "[5, - 1, 70000, 5]"] by auto
  then have "accepts h 5" "accepts h 70000" "\<not> accepts h (- 1)" by simp_all
  then show ?thesis using h by auto
qed


end
