(* ===== verification/Hdr_Encoding.thy ===== *)
theory Hdr_Encoding
  imports Hdr_Record "HOL-Library.Char_ord"
begin

text \<open>
  The encodings of \<^verbatim>\<open>hdr_encoding.c\<close>: variable-length signed integers and base 64, with the proofs that
  decoding undoes encoding.

  A 64-bit integer, signed or not, is a word; the shifts of signed integers are arithmetic.  A buffer is the list
  of its bytes; reading past its end is \<open>None\<close>.
\<close>

section \<open>Variable-length integers\<close>

definition zig_zag_encode_i64 :: "u64 \<Rightarrow> u8 list" where
  "zig_zag_encode_i64 signed_value =
     (let value = push_bit 1 signed_value XOR signed_drop_bit 63 signed_value;
          sh = (\<lambda>n. signed_drop_bit n value)
      in if sh 7 = 0 then [ucast value] else
           ucast ((value AND 0x7F) OR 0x80) #
           (if sh 14 = 0 then [ucast (sh 7)] else
              ucast (sh 7 OR 0x80) #
              (if sh 21 = 0 then [ucast (sh 14)] else
                 ucast (sh 14 OR 0x80) #
                 (if sh 28 = 0 then [ucast (sh 21)] else
                    ucast (sh 21 OR 0x80) #
                    (if sh 35 = 0 then [ucast (sh 28)] else
                       ucast (sh 28 OR 0x80) #
                       (if sh 42 = 0 then [ucast (sh 35)] else
                          ucast (sh 35 OR 0x80) #
                          (if sh 49 = 0 then [ucast (sh 42)] else
                             ucast (sh 42 OR 0x80) #
                             (if sh 56 = 0 then [ucast (sh 49)] else
                                [ucast (sh 49 OR 0x80), ucast (sh 56)]))))))))"

definition byte_at :: "u8 list \<Rightarrow> nat \<Rightarrow> u64 option" where
  "byte_at buffer i = (if i < length buffer then Some (ucast (buffer ! i)) else None)"

text \<open>The number of bytes read and the value.\<close>

definition zig_zag_decode_i64 :: "u8 list \<Rightarrow> (nat \<times> u64) option" where
  "zig_zag_decode_i64 buffer = do {
     let fin = (\<lambda>value n. Some (n :: nat, drop_bit 1 value XOR (- (value AND 1))));
     v \<leftarrow> byte_at buffer 0;
     let value = v AND 0x7F;
     if v AND 0x80 = 0 then fin value 1 else do {
     v \<leftarrow> byte_at buffer 1;
     let value = value OR push_bit 7 (v AND 0x7F);
     if v AND 0x80 = 0 then fin value 2 else do {
     v \<leftarrow> byte_at buffer 2;
     let value = value OR push_bit 14 (v AND 0x7F);
     if v AND 0x80 = 0 then fin value 3 else do {
     v \<leftarrow> byte_at buffer 3;
     let value = value OR push_bit 21 (v AND 0x7F);
     if v AND 0x80 = 0 then fin value 4 else do {
     v \<leftarrow> byte_at buffer 4;
     let value = value OR push_bit 28 (v AND 0x7F);
     if v AND 0x80 = 0 then fin value 5 else do {
     v \<leftarrow> byte_at buffer 5;
     let value = value OR push_bit 35 (v AND 0x7F);
     if v AND 0x80 = 0 then fin value 6 else do {
     v \<leftarrow> byte_at buffer 6;
     let value = value OR push_bit 42 (v AND 0x7F);
     if v AND 0x80 = 0 then fin value 7 else do {
     v \<leftarrow> byte_at buffer 7;
     let value = value OR push_bit 49 (v AND 0x7F);
     if v AND 0x80 = 0 then fin value 8 else do {
     v \<leftarrow> byte_at buffer 8;
     let value = value OR push_bit 56 v;
     fin value 9
     }}}}}}}}
   }"

section \<open>The encoding as a recursion\<close>

fun leb :: "nat \<Rightarrow> u64 \<Rightarrow> u8 list" where
  "leb 0 w = [ucast w]"
| "leb (Suc k) w = (if drop_bit 7 w = 0 then [ucast w] else ucast (w OR 0x80) # leb k (drop_bit 7 w))"

fun unleb :: "nat \<Rightarrow> u8 list \<Rightarrow> (nat \<times> u64) option" where
  "unleb k [] = None"
| "unleb 0 (b # bs) = Some (1, ucast b)"
| "unleb (Suc k) (b # bs) =
     (if (ucast b :: u64) AND 0x80 = 0 then Some (1, ucast b AND 0x7F)
      else do { (n, w) \<leftarrow> unleb k bs; Some (Suc n, (ucast b AND 0x7F) OR push_bit 7 w) })"

lemma signed_drop_bits: "bit (signed_drop_bit n (w :: u64)) k \<longleftrightarrow> bit w (if 64 - n \<le> k \<and> k < 64 then 63 else n + k)"
  by (simp add: bit_signed_drop_bit_iff)

lemma signed_drop_zero:
  fixes w :: u64
  assumes "n < 64"
  shows "signed_drop_bit n w = 0 \<longleftrightarrow> drop_bit n w = 0"
proof
  assume *: "signed_drop_bit n w = 0"
  show "drop_bit n w = 0"
  proof (rule bit_eqI)
    fix k
    have "\<not> bit (signed_drop_bit n w) k" using * by simp
    then show "bit (drop_bit n w) k = bit 0 k"
      by (cases "64 - n \<le> k") (auto simp: signed_drop_bits bit_drop_bit_eq dest: bit_imp_le_length)
  qed
next
  assume *: "drop_bit n w = 0"
  have z: "\<not> bit w (n + k)" for k using arg_cong [OF *, of "\<lambda>x. bit x k"] by (simp add: bit_drop_bit_eq)
  have "\<not> bit w 63" using z [of "63 - n"] assms by simp
  then have "\<not> bit (signed_drop_bit n w) k" for k using z [of k] by (simp add: signed_drop_bits)
  then show "signed_drop_bit n w = 0" by (intro bit_eqI) simp
qed

lemma ucast_signed_drop: "n \<le> 56 \<Longrightarrow> (ucast (signed_drop_bit n (w :: u64)) :: u8) = ucast (drop_bit n w)"
  by (rule bit_eqI) (auto simp: bit_ucast_iff signed_drop_bits bit_drop_bit_eq)

lemma const_bits: "bit (0x7F :: int) n \<longleftrightarrow> n < 7" "bit (0x80 :: int) n \<longleftrightarrow> n = 7"
proof -
  have e: "(0x7F :: int) = mask 7" "(0x80 :: int) = 2 ^ 7" by (simp_all add: mask_eq_exp_minus_1)
  have "bit (0x7F :: int) n = bit (mask 7 :: int) n" "bit (0x80 :: int) n = bit (2 ^ 7 :: int) n" by (rule arg_cong [OF e(1)], rule arg_cong [OF e(2)])
  then show "bit (0x7F :: int) n \<longleftrightarrow> n < 7" "bit (0x80 :: int) n \<longleftrightarrow> n = 7" by (simp_all only: bit_mask_iff bit_exp_iff) auto
qed

lemmas byte_bits = bit_simps bit_ucast_iff const_bits

lemma drop_zero_bits: "drop_bit n w = 0 \<Longrightarrow> bit w k \<Longrightarrow> k < n" for w :: u64
  using bit_drop_bit_eq [of n w] by (metis bit_0_eq bot_apply bot_bool_def comp_apply le_add_diff_inverse not_le)

lemma ucast_low: "(ucast ((w AND 0x7F) OR 0x80) :: u8) = ucast (w OR 0x80)" for w :: u64
  by (rule bit_eqI) (auto simp: byte_bits)

lemma ucast_or_drop: "n \<le> 56 \<Longrightarrow> (ucast (signed_drop_bit n w OR 0x80) :: u8) = ucast (drop_bit n w OR 0x80)" for w :: u64
  by (rule bit_eqI) (auto simp: bit_ucast_iff bit_or_iff signed_drop_bits bit_drop_bit_eq)

lemma encode_leb: "zig_zag_encode_i64 v = leb 8 (push_bit 1 v XOR signed_drop_bit 63 v)"
proof -
  define w where "w = push_bit 1 v XOR signed_drop_bit 63 v"
  have e: "leb 8 w = leb (Suc (Suc (Suc (Suc (Suc (Suc (Suc (Suc 0)))))))) w" by (simp add: eval_nat_numeral)
  show ?thesis
    unfolding zig_zag_encode_i64_def Let_def w_def [symmetric] e
    by (simp add: drop_bit_drop_bit signed_drop_zero ucast_signed_drop ucast_or_drop ucast_low del: drop_bit_Suc)
qed

lemma low_high: "(w AND 0x7F) OR push_bit 7 (drop_bit 7 w) = w" for w :: u64
proof (rule bit_eqI)
  fix n assume "possible_bit TYPE(u64) n"
  then show "bit ((w AND 0x7F) OR push_bit 7 (drop_bit 7 w)) n = bit w n" by (cases "n < 7") (simp_all add: byte_bits)
qed

lemma ucast_back:
  fixes w :: u64
  shows "drop_bit 8 w = 0 \<Longrightarrow> ucast (ucast w :: u8) = w" "ucast (ucast (w OR 0x80) :: u8) AND (0x7F :: u64) = w AND 0x7F"
    "ucast (ucast (w OR 0x80) :: u8) AND (0x80 :: u64) \<noteq> 0" "drop_bit 7 w = 0 \<Longrightarrow> ucast (ucast w :: u8) AND (0x80 :: u64) = 0"
    "drop_bit 7 w = 0 \<Longrightarrow> ucast (ucast w :: u8) AND 0x7F = w"
proof -
  show "drop_bit 8 w = 0 \<Longrightarrow> ucast (ucast w :: u8) = w" by (rule bit_eqI) (auto simp: byte_bits dest: drop_zero_bits)
  show "ucast (ucast (w OR 0x80) :: u8) AND (0x7F :: u64) = w AND 0x7F" by (rule bit_eqI) (auto simp: byte_bits)
  have "bit (ucast (ucast (w OR 0x80) :: u8) AND (0x80 :: u64)) 7" by (simp add: byte_bits)
  then show "ucast (ucast (w OR 0x80) :: u8) AND (0x80 :: u64) \<noteq> 0" by (metis bit_0_eq bot_apply bot_bool_def)
  show "drop_bit 7 w = 0 \<Longrightarrow> ucast (ucast w :: u8) AND (0x80 :: u64) = 0" by (rule bit_eqI) (auto simp: byte_bits dest: drop_zero_bits)
  show "drop_bit 7 w = 0 \<Longrightarrow> ucast (ucast w :: u8) AND 0x7F = w" by (rule bit_eqI) (auto simp: byte_bits dest: drop_zero_bits)
qed

lemma unleb_leb: "drop_bit (7 * k + 8) w = 0 \<Longrightarrow> unleb k (leb k w @ rest) = Some (length (leb k w), w)"
proof (induction k arbitrary: w)
  case 0
  then show ?case by (simp add: ucast_back)
next
  case (Suc k)
  have "drop_bit (7 * k + 8) (drop_bit 7 w) = 0" using Suc.prems by (simp add: drop_bit_drop_bit ac_simps)
  note IH = Suc.IH [OF this]
  show ?case using IH ucast_back(2-5) [of w] low_high [of w] by (cases "drop_bit 7 w = 0") simp_all
qed

lemma leb_length: "length (leb k w) \<le> Suc k" "leb k w \<noteq> []"
  by (induction k arbitrary: w) auto

text \<open>The nested decoding is the recursion.\<close>

lemma unleb_drop:
  "unleb 0 (drop i bs) = do { v \<leftarrow> byte_at bs i; Some (1, v) }"
  "unleb (Suc k) (drop i bs) = do {
     v \<leftarrow> byte_at bs i;
     if v AND 0x80 = 0 then Some (1, v AND 0x7F)
     else do { (n, w) \<leftarrow> unleb k (drop (Suc i) bs); Some (Suc n, (v AND 0x7F) OR push_bit 7 w) } }"
  by (cases "i < length bs", simp_all add: byte_at_def flip: Cons_nth_drop_Suc)+

definition unzig :: "u64 \<Rightarrow> u64" where
  "unzig value = drop_bit 1 value XOR (- (value AND 1))"

fun dec :: "nat \<Rightarrow> u8 list \<Rightarrow> nat \<Rightarrow> u64 \<Rightarrow> (nat \<times> u64) option" where
  "dec 0 bs i acc = do { v \<leftarrow> byte_at bs i; Some (Suc i, acc OR push_bit (7 * i) v) }"
| "dec (Suc k) bs i acc = do {
     v \<leftarrow> byte_at bs i;
     if v AND 0x80 = 0 then Some (Suc i, acc OR push_bit (7 * i) (v AND 0x7F))
     else dec k bs (Suc i) (acc OR push_bit (7 * i) (v AND 0x7F)) }"

lemma dec_unleb: "dec k bs i acc = map_option (\<lambda>(n, w). (i + n, acc OR push_bit (7 * i) w)) (unleb k (drop i bs))"
proof (induction k arbitrary: i acc)
  case 0
  show ?case unfolding unleb_drop by (cases "byte_at bs i") simp_all
next
  case (Suc k)
  show ?case
  proof (cases "byte_at bs i")
    case (Some v)
    show ?thesis
    proof (cases "unleb k (drop (Suc i) bs)")
      case None
      then show ?thesis unfolding unleb_drop using Some by (simp add: Suc.IH)
    next
      case (Some r)
      then show ?thesis unfolding unleb_drop using \<open>byte_at bs i = Some v\<close>
        by (cases r) (simp add: Suc.IH or.assoc push_bit_or algebra_simps)
    qed
  qed (simp add: unleb_drop)
qed

lemma map_option_bind: "map_option f (Option.bind x g) = Option.bind x (\<lambda>v. map_option f (g v))"
  by (cases x) simp_all

lemma decode_unleb: "zig_zag_decode_i64 bs = map_option (map_prod id unzig) (unleb 8 bs)"
proof -
  have "zig_zag_decode_i64 bs = map_option (map_prod id unzig) (dec (Suc (Suc (Suc (Suc (Suc (Suc (Suc (Suc 0)))))))) bs 0 0)"
    unfolding zig_zag_decode_i64_def Let_def unzig_def [symmetric] dec.simps map_option_bind if_distrib [of "map_option (map_prod id unzig)"]
    by (simp add: Suc_1 cong: if_cong del: One_nat_def flip: One_nat_def)
  then show ?thesis by (simp add: dec_unleb eval_nat_numeral option.map_comp comp_def case_prod_unfold map_prod_def)
qed

lemma unzig_bits:
  fixes p q v :: u64
  assumes p: "\<And>k. k < 64 \<Longrightarrow> bit p k \<longleftrightarrow> 0 < k \<and> bit v (k - 1)" and q: "\<And>k. k < 64 \<Longrightarrow> bit q k \<longleftrightarrow> bit v 63"
  shows "unzig (p XOR q) = v"
proof (rule bit_eqI)
  fix n assume "possible_bit TYPE(u64) n"
  then have n: "n < 64" by simp
  have "bit (p XOR q) 0 \<longleftrightarrow> bit v 63" by (simp only: bit_xor_iff) (simp add: p q)
  then have "(p XOR q) AND 1 = of_bool (bit v 63)" by (simp add: and_one_eq mod_2_eq_odd bit_0)
  then have m: "bit (- ((p XOR q) AND 1)) n \<longleftrightarrow> bit v 63" using n by (cases "bit v 63") simp_all
  have "bit (drop_bit 1 (p XOR q)) n \<longleftrightarrow> n < 63 \<and> (bit v n \<noteq> bit v 63)"
  proof (cases "n < 63")
    case True
    then show ?thesis using p [of "Suc n"] q [of "Suc n"] by (simp add: bit_drop_bit_eq bit_xor_iff)
  next
    case False
    have "\<not> bit (p XOR q) (1 + n)" using False bit_imp_le_length [of "p XOR q" "1 + n"] by auto
    then show ?thesis using False by (simp only: bit_drop_bit_eq comp_apply simp_thms)
  qed
  then show "bit (unzig (p XOR q)) n = bit v n" using n m
    unfolding unzig_def by (cases "n = 63") (auto simp: bit_xor_iff)
qed

lemma unzig_zig: "unzig (push_bit 1 v XOR signed_drop_bit 63 v) = v"
proof (rule unzig_bits)
  fix k :: nat assume k: "k < 64"
  show "bit (push_bit 1 v) k \<longleftrightarrow> 0 < k \<and> bit v (k - 1)" using k by (subst bit_push_bit_iff) auto
  show "bit (signed_drop_bit 63 v) k \<longleftrightarrow> bit v 63" using k by (cases "k = 0") (simp_all add: signed_drop_bits)
qed

lemma drop_64: "drop_bit 64 (w :: u64) = 0"
  by (rule bit_eqI) (auto simp: bit_drop_bit_eq dest: bit_imp_le_length)

text \<open>
  Every signed 64-bit integer, followed by any bytes, is read back as it was written, consuming exactly the
  bytes that were written, of which there are between one and nine.
\<close>

lemma zig_zag_inverse:
  "zig_zag_decode_i64 (zig_zag_encode_i64 v @ rest) = Some (length (zig_zag_encode_i64 v), v) \<and>
   zig_zag_encode_i64 v \<noteq> [] \<and> length (zig_zag_encode_i64 v) \<le> 9"
proof -
  let ?w = "push_bit 1 v XOR signed_drop_bit 63 v"
  have "drop_bit (7 * 8 + 8) ?w = 0" using drop_64 [of ?w] by simp
  from unleb_leb [OF this, of rest] leb_length [of 8 ?w] show ?thesis
    unfolding decode_unleb encode_leb by (simp only: option.map map_prod_simp id_apply unzig_zig) simp
qed

section \<open>Base 64\<close>

definition base64_table :: string where
  "base64_table = ''ABCDEFGHIJKLMNOPQRSTUVWXYZabcdefghijklmnopqrstuvwxyz0123456789+/''"

definition get_base_64 :: "u32 \<Rightarrow> nat \<Rightarrow> char" where
  "get_base_64 v shift = base64_table ! unat (0x3F AND drop_bit shift v)"

definition from_base_64 :: "char \<Rightarrow> int" where
  "from_base_64 c =
     (if CHR ''A'' \<le> c \<and> c \<le> CHR ''Z'' then int (cc c) - int (cc CHR ''A'')
      else if CHR ''a'' \<le> c \<and> c \<le> CHR ''z'' then int (cc c) - int (cc CHR ''a'') + 26
      else if CHR ''0'' \<le> c \<and> c \<le> CHR ''9'' then int (cc c) - int (cc CHR ''0'') + 52
      else if CHR ''+'' = c then 62
      else if CHR ''/'' = c then 63
      else if CHR ''='' = c then 0
      else 22)"

text \<open>The length is computed in double precision.\<close>

definition hdr_base64_encoded_len :: "nat \<Rightarrow> nat" where
  "hdr_base64_encoded_len decoded_size =
     (let c = (case d_lift (/) (to_double (of_nat decoded_size)) (Fin 3) of Fin r \<Rightarrow> Fin (of_int \<lceil>r\<rceil>) | v \<Rightarrow> v)
      in case d_lift (*) c (Fin 4) of Fin r \<Rightarrow> nat \<lfloor>r\<rfloor> | _ \<Rightarrow> 0)"

definition hdr_base64_decoded_len :: "nat \<Rightarrow> nat" where
  "hdr_base64_decoded_len encoded_size = encoded_size div 4 * 3"

fun hdr_base64_encode_block_pad :: "u8 list \<Rightarrow> string" where
  "hdr_base64_encode_block_pad [a, b] =
     (let v = push_bit 16 (ucast a) + push_bit 8 (ucast b)
      in [get_base_64 v 18, get_base_64 v 12, get_base_64 v 6, CHR ''=''])"
| "hdr_base64_encode_block_pad [a] =
     (let v = push_bit 16 (ucast a) in [get_base_64 v 18, get_base_64 v 12, CHR ''='', CHR ''=''])"
| "hdr_base64_encode_block_pad _ = []"

definition hdr_base64_encode_block :: "u8 \<Rightarrow> u8 \<Rightarrow> u8 \<Rightarrow> string" where
  "hdr_base64_encode_block a b c =
     (let v = push_bit 16 (ucast a) + push_bit 8 (ucast b) + ucast c
      in [get_base_64 v 18, get_base_64 v 12, get_base_64 v 6, get_base_64 v 0])"

fun encode_blocks :: "nat \<Rightarrow> nat \<Rightarrow> u8 list \<Rightarrow> string" where
  "encode_blocks j output_len (a # b # c # rest) =
     (if j < output_len then hdr_base64_encode_block a b c @ encode_blocks (j + 4) output_len rest
      else hdr_base64_encode_block_pad (a # b # c # rest))"
| "encode_blocks j output_len rest = hdr_base64_encode_block_pad rest"

definition hdr_base64_encode :: "u8 list \<Rightarrow> nat \<Rightarrow> hdr_error + string" where
  "hdr_base64_encode input output_len =
     (if hdr_base64_encoded_len (length input) \<noteq> output_len then Inl EINVAL else Inr (encode_blocks 0 output_len input))"

definition hdr_base64_decode_block :: "char \<Rightarrow> char \<Rightarrow> char \<Rightarrow> char \<Rightarrow> u8 list" where
  "hdr_base64_decode_block c0 c1 c2 c3 =
     (let v = 0 OR word_of_int (push_bit 18 (from_base_64 c0));
          v = v OR word_of_int (push_bit 12 (from_base_64 c1));
          v = v OR word_of_int (push_bit 6 (from_base_64 c2));
          v = v OR word_of_int (from_base_64 c3) :: u32
      in [ucast (drop_bit 16 v AND 0xFF), ucast (drop_bit 8 v AND 0xFF), ucast (v AND 0xFF)])"

fun decode_blocks :: "string \<Rightarrow> u8 list" where
  "decode_blocks (c0 # c1 # c2 # c3 # rest) = hdr_base64_decode_block c0 c1 c2 c3 @ decode_blocks rest"
| "decode_blocks _ = []"

definition hdr_base64_decode :: "string \<Rightarrow> nat \<Rightarrow> hdr_error + u8 list" where
  "hdr_base64_decode input output_len =
     (if length input < 4 \<or> length input mod 4 \<noteq> 0 \<or> length input div 4 * 3 \<noteq> output_len then Inl EINVAL
      else Inr (decode_blocks input))"

lemma table_inverse: "k < 64 \<Longrightarrow> from_base_64 (base64_table ! k) = int k"
proof -
  have "list_all (\<lambda>k. from_base_64 (base64_table ! k) = int k) [0..<64]" by code_simp
  then show "k < 64 \<Longrightarrow> from_base_64 (base64_table ! k) = int k" by (simp add: list_all_iff)
qed

definition sextet :: "nat \<Rightarrow> u32 \<Rightarrow> u32" where
  "sextet shift v = 0x3F AND drop_bit shift v"

lemma sextet_take: "sextet shift v = take_bit 6 (drop_bit shift v)"
proof -
  have "(0x3F :: u32) = mask 6" by (simp add: mask_eq_exp_minus_1)
  then show ?thesis unfolding sextet_def take_bit_eq_mask by (simp only: and.commute)
qed

lemma sextet_bits: "bit (sextet shift v) n \<longleftrightarrow> n < 6 \<and> bit v (shift + n)"
  by (simp add: sextet_take bit_take_bit_iff bit_drop_bit_eq)

lemma from_get: "word_of_int (push_bit s (from_base_64 (get_base_64 v t))) = (push_bit s (sextet t v) :: u32)"
proof -
  have "unat (sextet t v) = take_bit 6 (unat (drop_bit t v))" by (simp only: sextet_take unsigned_take_bit_eq)
  then have "unat (sextet t v) < 64" using take_bit_nat_less_exp [of 6 "unat (drop_bit t v)"] by simp
  then have "from_base_64 (get_base_64 v t) = uint (sextet t v)"
    unfolding get_base_64_def sextet_def [symmetric] by (simp add: table_inverse)
  then show ?thesis by (simp only:) (rule bit_eqI, auto simp: bit_word_of_int_iff bit_push_bit_iff bit_uint_iff)
qed

lemma from_get_0: "word_of_int (from_base_64 (get_base_64 v t)) = (sextet t v :: u32)"
  using from_get [of 0 v t] by simp

lemma byte_of: "(ucast (x AND 0xFF) :: u8) = ucast (x :: u32)"
proof -
  have "(0xFF :: u32) = mask 8" by (simp add: mask_eq_exp_minus_1)
  then have "x AND 0xFF = take_bit 8 x" by (simp only: take_bit_eq_mask)
  then show ?thesis by (simp only:) (rule bit_eqI, auto simp: bit_ucast_iff bit_take_bit_iff)
qed

definition joined :: "u32 \<Rightarrow> u32 \<Rightarrow> u32 \<Rightarrow> u32 \<Rightarrow> u32" where
  "joined a b c d = ((0 OR push_bit 18 a) OR push_bit 12 b) OR push_bit 6 c OR d"

lemma joined_bits:
  "bit (joined (sextet 18 v) (sextet 12 v) (sextet 6 v) (sextet 0 v)) n \<longleftrightarrow> n < 24 \<and> bit v n"
proof -
  consider "n < 6" | "6 \<le> n" "n < 12" | "12 \<le> n" "n < 18" | "18 \<le> n" "n < 24" | "24 \<le> n" by linarith
  then show ?thesis
    by cases (auto simp: joined_def bit_or_iff bit_push_bit_iff sextet_bits dest: bit_imp_le_length)
qed

definition triple :: "u8 \<Rightarrow> u8 \<Rightarrow> u8 \<Rightarrow> u32" where
  "triple a b c = push_bit 16 (ucast a) + push_bit 8 (ucast b) + ucast c"

lemma triple_bits:
  "bit (triple a b c) n \<longleftrightarrow> n < 8 \<and> bit c n \<or> 8 \<le> n \<and> n < 16 \<and> bit b (n - 8) \<or> 16 \<le> n \<and> n < 24 \<and> bit a (n - 16)"
proof -
  let ?x = "push_bit 16 (ucast a) :: u32" and ?y = "push_bit 8 (ucast b) :: u32" and ?z = "ucast c :: u32"
  have x: "bit ?x k \<longleftrightarrow> 16 \<le> k \<and> k < 24 \<and> bit a (k - 16)" and y: "bit ?y k \<longleftrightarrow> 8 \<le> k \<and> k < 16 \<and> bit b (k - 8)"
    and z: "bit ?z k \<longleftrightarrow> k < 8 \<and> bit c k" for k
    by (auto simp: bit_push_bit_iff bit_ucast_iff dest: bit_imp_le_length)
  have xy: "?x + ?y = ?x OR ?y" by (rule disjunctive_add) (auto simp: x y)
  have "?x + ?y + ?z = (?x OR ?y) OR ?z" unfolding xy by (rule disjunctive_add) (auto simp: bit_or_iff x y z)
  then show ?thesis unfolding triple_def by (simp only: bit_or_iff x y z) auto
qed

lemma joined_triple: "joined (sextet 18 (triple a b c)) (sextet 12 (triple a b c)) (sextet 6 (triple a b c)) (sextet 0 (triple a b c)) = triple a b c"
  by (rule bit_eqI) (auto simp: joined_bits triple_bits)

lemma triple_bytes:
  "(ucast (drop_bit 16 (triple a b c)) :: u8) = a" "(ucast (drop_bit 8 (triple a b c)) :: u8) = b" "(ucast (triple a b c) :: u8) = c"
  by (rule bit_eqI, simp add: bit_ucast_iff bit_drop_bit_eq triple_bits)+

lemma decode_block_joined:
  "hdr_base64_decode_block c0 c1 c2 c3 =
     (let v = joined (word_of_int (from_base_64 c0)) (word_of_int (from_base_64 c1)) (word_of_int (from_base_64 c2)) (word_of_int (from_base_64 c3))
      in [ucast (drop_bit 16 v), ucast (drop_bit 8 v), ucast v])"
proof -
  have p: "word_of_int (push_bit k i) = (push_bit k (word_of_int i) :: u32)" for k i
    by (rule bit_eqI) (auto simp: bit_word_of_int_iff bit_push_bit_iff)
  show ?thesis unfolding hdr_base64_decode_block_def joined_def Let_def p byte_of by (simp only: or.assoc)
qed

lemma pad_from: "from_base_64 (CHR ''='') = 0"
  by (simp add: from_base_64_def less_eq_char_def)

lemma sextet_zero: "sextet 0 (triple a b 0) = 0" "sextet 6 (triple a 0 0) = 0" "sextet 0 (triple a 0 0) = 0"
  by (rule bit_eqI, auto simp: sextet_bits triple_bits)+

lemma block_roundtrip:
  "decode_blocks (hdr_base64_encode_block a b c @ rest) = a # b # c # decode_blocks rest"
  "decode_blocks (hdr_base64_encode_block_pad [a, b]) = [a, b, 0]" "decode_blocks (hdr_base64_encode_block_pad [a]) = [a, 0, 0]"
proof -
  have t2: "push_bit 16 (ucast a) + push_bit 8 (ucast b) = triple a b 0" and t1: "push_bit 16 (ucast a) = triple a 0 0" by (simp_all add: triple_def)
  show "decode_blocks (hdr_base64_encode_block a b c @ rest) = a # b # c # decode_blocks rest"
    by (simp add: hdr_base64_encode_block_def Let_def decode_block_joined from_get_0 triple_bytes joined_triple flip: triple_def)
  have "joined (sextet 18 (triple a b 0)) (sextet 12 (triple a b 0)) (sextet 6 (triple a b 0)) 0 = triple a b 0"
    using joined_triple [of a b 0] by (simp add: sextet_zero)
  then show "decode_blocks (hdr_base64_encode_block_pad [a, b]) = [a, b, 0]"
    by (simp add: Let_def decode_block_joined from_get_0 triple_bytes t2 pad_from)
  have "joined (sextet 18 (triple a 0 0)) (sextet 12 (triple a 0 0)) 0 0 = triple a 0 0"
    using joined_triple [of a 0 0] by (simp add: sextet_zero)
  then show "decode_blocks (hdr_base64_encode_block_pad [a]) = [a, 0, 0]"
    by (simp add: Let_def decode_block_joined from_get_0 triple_bytes t1 pad_from)
qed

lemma pad_length: "length (hdr_base64_encode_block_pad [a, b]) = 4" "length (hdr_base64_encode_block_pad [a]) = 4"
  "hdr_base64_encode_block_pad [] = []"
  by (simp_all add: Let_def)

lemma blocks_roundtrip:
  assumes "j + 4 * ((length bs + 2) div 3) \<le> L"
  shows "length (encode_blocks j L bs) = 4 * ((length bs + 2) div 3) \<and>
         decode_blocks (encode_blocks j L bs) = bs @ replicate ((length bs + 2) div 3 * 3 - length bs) 0"
  using assms
proof (induction j L bs rule: encode_blocks.induct)
  case (1 j L a b c rest)
  have d: "(length (a # b # c # rest) + 2) div 3 = Suc ((length rest + 2) div 3)" by simp
  have lt: "j < L" using 1(2) unfolding d by simp
  have "j + 4 + 4 * ((length rest + 2) div 3) \<le> L" using 1(2) unfolding d by simp
  note IH = 1(1) [OF lt this]
  have "length (hdr_base64_encode_block a b c) = 4" by (simp add: hdr_base64_encode_block_def Let_def)
  moreover have "Suc ((length rest + 2) div 3) * 3 - length (a # b # c # rest) = (length rest + 2) div 3 * 3 - length rest" by simp
  ultimately show ?case unfolding d using IH lt by (simp add: block_roundtrip)
qed (simp_all add: block_roundtrip pad_length numeral_2_eq_2 del: hdr_base64_encode_block_pad.simps(1,2))

text \<open>The length is exact for all sizes below \<open>2 ^ 50\<close>.\<close>

lemma double_at_least:
  assumes "of_nat m / 4 \<le> x" and "m < 2 ^ 53" and "0 < m" and "to_double x = Fin y"
  shows "of_nat m / 4 \<le> y"
proof -
  obtain b where b: "of_nat m / 4 = fp_mag 53 1074 b" "b < 2047 * 2 ^ 52" using double_dyadic [of m 2] assms(2,3) by auto
  have x: "0 \<le> x" using assms(1) by (rule order_trans [rotated]) simp
  have "fp_bits 53 1074 (of_nat m / 4) \<le> fp_bits 53 1074 x" using assms by (intro fp_bits_mono) simp_all
  then have "b \<le> fp_bits 53 1074 x" unfolding b(1) by (simp add: fp_bits_mag)
  then have "fp_mag 53 1074 b \<le> fp_mag 53 1074 (fp_bits 53 1074 x)" by (simp add: fp_mag_mono_iff)
  moreover have "y = fp_mag 53 1074 (fp_bits 53 1074 x)"
    using assms(4) x by (simp add: to_double_def fp_round_def Let_def split: if_splits)
  ultimately show ?thesis by (simp only: b(1))
qed

lemma encoded_len_eq:
  assumes "n < 2 ^ 50"
  shows "hdr_base64_encoded_len n = 4 * ((n + 2) div 3)"
proof -
  define q where "q = (n + 2) div 3"
  have q: "3 * q \<le> n + 2" "n \<le> 3 * q" unfolding q_def by simp_all
  have q50: "q < 2 ^ 50" using q(1) assms by simp
  have le: "of_nat n / (3::rat) \<le> of_nat q" using q(2) by (simp add: field_simps flip: of_nat_mult)
  obtain r where r: "to_double (of_nat n / 3) = Fin r" "0 \<le> r" "r \<le> of_nat q"
    using double_between [of "of_nat n / 3" "2 * q"] le q50 by auto
  have "\<lceil>r\<rceil> = int q"
  proof (cases "q = 0")
    case True
    then show ?thesis using r by simp
  next
    case False
    define m where "m = 4 * (q - 1) + 1"
    have m: "0 < m" "m < 2 ^ 53" using q50 by (simp_all add: m_def)
    have "3 * m \<le> 4 * n" using q False by (simp add: m_def)
    then have "of_nat (3 * m) \<le> (of_nat (4 * n) :: rat)" by (simp only: of_nat_le_iff)
    then have "of_nat m / (4::rat) \<le> of_nat n / 3" by simp
    from double_at_least [OF this m(2,1) r(1)] have "of_nat m / 4 \<le> r" .
    moreover have "(of_nat m :: rat) / 4 = of_nat q - 3 / 4" using False by (simp add: m_def of_nat_diff field_simps)
    ultimately have "of_nat q - 1 < r" by simp
    then show ?thesis using r(3) by (intro ceiling_unique) simp_all
  qed
  moreover have "to_double (of_nat q * 4) = Fin (of_nat (4 * q))" using double_nat [of "4 * q"] q50 by (simp add: mult.commute)
  moreover have "nat \<lfloor>of_nat (4 * q) :: rat\<rfloor> = 4 * q" by (simp only: floor_of_nat nat_int)
  moreover have "to_double (of_nat n) = Fin (of_nat n)" using assms by (intro double_nat) simp
  ultimately show ?thesis unfolding hdr_base64_encoded_len_def Let_def q_def [symmetric] using r(1)
    by (simp del: of_nat_mult)
qed

lemma base64_inverse:
  assumes "bs \<noteq> []" and "length bs < 2 ^ 50"
  obtains t where "hdr_base64_encode bs (hdr_base64_encoded_len (length bs)) = Inr t"
    "length t = hdr_base64_encoded_len (length bs)"
    "hdr_base64_decode t (hdr_base64_decoded_len (length t)) = Inr (bs @ replicate (hdr_base64_decoded_len (length t) - length bs) 0)"
proof -
  let ?L = "4 * ((length bs + 2) div 3)"
  define t where "t = encode_blocks 0 ?L bs"
  have t: "length t = ?L" "decode_blocks t = bs @ replicate ((length bs + 2) div 3 * 3 - length bs) 0"
    using blocks_roundtrip [of 0 bs ?L] by (simp_all add: t_def)
  have "1 \<le> (length bs + 2) div 3" using assms(1) by (cases bs) simp_all
  then have "4 \<le> length t" unfolding t(1) by simp
  then have "hdr_base64_decode t (hdr_base64_decoded_len (length t)) = Inr (bs @ replicate (hdr_base64_decoded_len (length t) - length bs) 0)"
    by (simp add: hdr_base64_decode_def hdr_base64_decoded_len_def t)
  then show ?thesis using that [of t] t(1) by (simp add: encoded_len_eq [OF assms(2)] hdr_base64_encode_def t_def)
qed

end
