(* ===== verification/Hdr_Log.thy ===== *)
theory Hdr_Log
  imports Hdr_Encoding
begin

text \<open>
  The compressed form of HDR histograms and the entries of histogram logs (\<^verbatim>\<open>hdr_histogram_log.c\<close>).

  Buffers are lists of bytes.  zlib is a parameter: compression, the first call of \<^verbatim>\<open>inflate\<close>, which must fill the
  given number of bytes and return \<^verbatim>\<open>Z_OK\<close>, and the second, which must reach the end of the stream with the given
  number of bytes to write to.  An allocation of a negative number of bytes, which is one of almost \<open>2 ^ 64\<close>, fails;
  in version 2, where nine bytes are added first, it may succeed and be too small.  \<open>None\<close> is undefined behaviour (an access out of bounds, a division by zero).
\<close>

section \<open>Constants and flyweights\<close>

definition V0_ENCODING_COOKIE :: u32 where "V0_ENCODING_COOKIE = 0x1c849308"
definition V0_COMPRESSION_COOKIE :: u32 where "V0_COMPRESSION_COOKIE = 0x1c849309"
definition V1_ENCODING_COOKIE :: u32 where "V1_ENCODING_COOKIE = 0x1c849301"
definition V1_COMPRESSION_COOKIE :: u32 where "V1_COMPRESSION_COOKIE = 0x1c849302"
definition V2_ENCODING_COOKIE :: u32 where "V2_ENCODING_COOKIE = 0x1c849303"
definition V2_COMPRESSION_COOKIE :: u32 where "V2_COMPRESSION_COOKIE = 0x1c849304"

definition get_cookie_base :: "u32 \<Rightarrow> u32" where
  "get_cookie_base cookie = cookie AND NOT 0xf0"

definition word_size_from_cookie :: "u32 \<Rightarrow> u32" where
  "word_size_from_cookie cookie = drop_bit 4 (cookie AND 0xf0)"

definition SIZEOF_ENCODING_FLYWEIGHT_V0 :: nat where "SIZEOF_ENCODING_FLYWEIGHT_V0 = 32"
definition SIZEOF_ENCODING_FLYWEIGHT_V1 :: nat where "SIZEOF_ENCODING_FLYWEIGHT_V1 = 40"
definition SIZEOF_COMPRESSION_FLYWEIGHT :: nat where "SIZEOF_COMPRESSION_FLYWEIGHT = 8"

text \<open>Numbers in big-endian order.\<close>

definition be32 :: "u32 \<Rightarrow> u8 list" where
  "be32 w = [ucast (drop_bit 24 w), ucast (drop_bit 16 w), ucast (drop_bit 8 w), ucast w]"

definition be64 :: "u64 \<Rightarrow> u8 list" where
  "be64 w = be32 (ucast (drop_bit 32 w)) @ be32 (ucast w)"

fun from_be :: "u8 list \<Rightarrow> u64 \<Rightarrow> u64" where
  "from_be [] w = w"
| "from_be (b # bs) w = from_be bs (push_bit 8 w OR ucast b)"

definition field32 :: "nat \<Rightarrow> u8 list \<Rightarrow> u32" where
  "field32 offset buffer = ucast (from_be (take 4 (drop offset buffer)) 0)"

definition field64 :: "nat \<Rightarrow> u8 list \<Rightarrow> u64" where
  "field64 offset buffer = from_be (take 8 (drop offset buffer)) 0"

record zlib =
  z_init :: bool
  z_compress :: "u8 list \<Rightarrow> u8 list option"
  z_inflate :: "u8 list \<Rightarrow> nat \<Rightarrow> u8 list option"
  z_finish :: "u8 list \<Rightarrow> nat \<Rightarrow> nat \<Rightarrow> u8 list option"

section \<open>Encoding\<close>

function encode_counts :: "int list \<Rightarrow> u8 list" where
  "encode_counts [] = []"
| "encode_counts (c # cs) =
     (if c = 0 then zig_zag_encode_i64 (word_of_int (- (1 + int (length (takeWhile (\<lambda>x. x = 0) cs))))) @
                    encode_counts (dropWhile (\<lambda>x. x = 0) cs)
      else zig_zag_encode_i64 (word_of_int c) @ encode_counts cs)"
  by pat_completeness auto
termination
  by (relation "measure length") (simp_all add: length_dropWhile_le le_imp_less_Suc)

declare encode_counts.simps [simp del]

text \<open>\<open>mem k\<close> says whether the \<open>k\<close>-th allocation succeeds.\<close>

definition hdr_encode_compressed :: "(nat \<Rightarrow> bool) \<Rightarrow> zlib \<Rightarrow> hdr_histogram \<Rightarrow> (hdr_error + u8 list) option" where
  "hdr_encode_compressed mem z h =
     (let len_to_max = counts_index_for h (max_value h) + 1;
          counts_limit = nat (if len_to_max < counts_len h then len_to_max else counts_len h)
      in if \<not> mem 0 then Some (Inl ENOMEM)
         else if length (counts h) < counts_limit then None
         else let payload = encode_counts (take counts_limit (counts h));
                  encoded = be32 (V2_ENCODING_COOKIE OR 0x10) @ be32 (of_nat (length payload)) @
                    be32 (word_of_int (normalizing_index_offset h)) @ be32 (word_of_int (significant_figures h)) @
                    be64 (word_of_int (lowest_trackable_value h)) @ be64 (word_of_int (highest_trackable_value h)) @
                    be64 (conversion_ratio h) @ payload
              in Some (if \<not> mem 1 then Inl ENOMEM
                       else case z_compress z encoded of
                              None \<Rightarrow> Inl HDR_DEFLATE_FAIL
                            | Some data \<Rightarrow> Inr (be32 (V2_COMPRESSION_COOKIE OR 0x10) @ be32 (of_nat (length data)) @ data)))"

section \<open>Decoding\<close>

text \<open>Counters of a fixed width, and the loop over counters of variable length.\<close>

definition apply_to_counts_fixed :: "nat \<Rightarrow> hdr_histogram \<Rightarrow> u8 list \<Rightarrow> int \<Rightarrow> hdr_histogram option" where
  "apply_to_counts_fixed w h counts_data counts_limit =
     (let n = nat counts_limit
      in if length (counts h) < n \<or> length counts_data < w * n then None
         else Some (h\<lparr> counts := map (\<lambda>i. sint (from_be (take w (drop (w * i) counts_data)) 0)) [0..<n] @ drop n (counts h) \<rparr>))"

partial_function (option) apply_zz_loop :: "u8 list \<Rightarrow> int \<Rightarrow> int \<Rightarrow> int \<Rightarrow> int \<Rightarrow> int list \<Rightarrow> (hdr_error + (int \<times> int list)) option" where
  "apply_zz_loop counts_data data_limit len data_index ci cs =
     (if data_index < data_limit \<and> ci < len then do {
        (n, v) \<leftarrow> zig_zag_decode_i64 (drop (nat data_index) counts_data);
        let data_index = data_index + int n;
        let value = sint v;
        if value < 0 then
          let zeros = - value
          in if value \<le> - (2 ^ 31) \<or> ci + zeros > len then Some (Inl HDR_TRAILING_ZEROS_INVALID)
             else apply_zz_loop counts_data data_limit len data_index (ci + s32 zeros) cs
        else if \<not> (0 \<le> ci \<and> ci < int (length cs)) then None
        else apply_zz_loop counts_data data_limit len data_index (ci + 1) (cs[nat ci := value])
      } else Some (Inr (data_index, cs)))"

definition apply_to_counts_zz :: "hdr_histogram \<Rightarrow> u8 list \<Rightarrow> int \<Rightarrow> (hdr_error + hdr_histogram) option" where
  "apply_to_counts_zz h counts_data data_limit = do {
     r \<leftarrow> apply_zz_loop counts_data data_limit (counts_len h) 0 0 (counts h);
     Some (case r of
             Inl e \<Rightarrow> Inl e
           | Inr (data_index, cs) \<Rightarrow>
               if data_index > data_limit then Inl HDR_VALUE_TRUNCATED
               else if data_index < data_limit then Inl HDR_ENCODED_INPUT_TOO_LONG
               else Inr (h\<lparr> counts := cs \<rparr>))
   }"

text \<open>An error of \<^verbatim>\<open>apply_to_counts\<close> is not looked at.\<close>

definition apply_to_counts :: "hdr_histogram \<Rightarrow> int \<Rightarrow> u8 list \<Rightarrow> int \<Rightarrow> hdr_histogram option" where
  "apply_to_counts h word_size counts_data counts_limit =
     (if word_size = 2 then apply_to_counts_fixed 2 h counts_data counts_limit
      else if word_size = 4 then apply_to_counts_fixed 4 h counts_data counts_limit
      else if word_size = 8 then apply_to_counts_fixed 8 h counts_data counts_limit
      else if word_size = 1 then do {
        r \<leftarrow> apply_to_counts_zz h counts_data counts_limit;
        Some (case r of Inl _ \<Rightarrow> h | Inr h' \<Rightarrow> h')
      } else Some h)"

text \<open>What is done with the decoded histogram: it is the result, or is added to the histogram given.\<close>

definition deliver :: "hdr_iter \<Rightarrow> hdr_histogram option \<Rightarrow> hdr_histogram \<Rightarrow> (hdr_error + hdr_histogram) option" where
  "deliver it target h =
     (case target of
        None \<Rightarrow> Some (Inr h)
      | Some t \<Rightarrow> do { (_, t') \<leftarrow> hdr_add it t h; Some (Inr t') })"

text \<open>The start of each decoder: the compressed data, if the header is sound, and the first bytes of the plain data.\<close>

definition inflate_header :: "zlib \<Rightarrow> u8 list \<Rightarrow> nat \<Rightarrow> u32 \<Rightarrow> hdr_error + (u8 list \<times> u8 list)" where
  "inflate_header z buffer sz encoding_cookie =
     (let compressed_length = sint (field32 4 buffer)
      in if \<not> z_init z then Inl HDR_INFLATE_FAIL
         else if compressed_length < 0 \<or> int (length buffer - SIZEOF_COMPRESSION_FLYWEIGHT) < compressed_length then Inl EINVAL
         else let data = take (nat compressed_length) (drop SIZEOF_COMPRESSION_FLYWEIGHT buffer)
              in case z_inflate z data sz of
                   None \<Rightarrow> Inl HDR_INFLATE_FAIL
                 | Some header \<Rightarrow>
                     if get_cookie_base (field32 0 header) \<noteq> encoding_cookie then Inl HDR_ENCODING_COOKIE_MISMATCH
                     else Inr (data, header))"

definition hdr_decode_compressed_v0 ::
    "(nat \<Rightarrow> bool) \<Rightarrow> (int \<Rightarrow> rat) \<Rightarrow> zlib \<Rightarrow> hdr_iter \<Rightarrow> u8 list \<Rightarrow> hdr_histogram option \<Rightarrow> (hdr_error + hdr_histogram) option" where
  "hdr_decode_compressed_v0 mem lg z it buffer target =
     (case inflate_header z buffer SIZEOF_ENCODING_FLYWEIGHT_V0 V0_ENCODING_COOKIE of
        Inl e \<Rightarrow> Some (Inl e)
      | Inr (data, header) \<Rightarrow> do {
          let word_size = sint (word_size_from_cookie (field32 0 header));
          r \<leftarrow> hdr_init mem lg (sint (field64 8 header)) (sint (field64 16 header)) (sint (field32 4 header));
          case r of
            Inl _ \<Rightarrow> Some (Inl ENOMEM)
          | Inr h \<Rightarrow>
              if \<not> mem 2 then Some (Inl ENOMEM)
              else case z_finish z data SIZEOF_ENCODING_FLYWEIGHT_V0 (nat (counts_len h * word_size)) of
                     None \<Rightarrow> Some (Inl HDR_INFLATE_FAIL)
                   | Some counts_array \<Rightarrow> do {
                       h \<leftarrow> apply_to_counts h word_size counts_array (counts_len h);
                       deliver it target ((hdr_reset_internal_counters h)\<lparr> normalizing_index_offset := 0, conversion_ratio := ONE_BITS \<rparr>)
                     }
        })"

definition hdr_decode_compressed_v1 ::
    "(nat \<Rightarrow> bool) \<Rightarrow> (int \<Rightarrow> rat) \<Rightarrow> zlib \<Rightarrow> hdr_iter \<Rightarrow> u8 list \<Rightarrow> hdr_histogram option \<Rightarrow> (hdr_error + hdr_histogram) option" where
  "hdr_decode_compressed_v1 mem lg z it buffer target =
     (case inflate_header z buffer SIZEOF_ENCODING_FLYWEIGHT_V1 V1_ENCODING_COOKIE of
        Inl e \<Rightarrow> Some (Inl e)
      | Inr (data, header) \<Rightarrow>
          let word_size = sint (word_size_from_cookie (field32 0 header))
          in if word_size = 0 then None
             else do {
               let payload_len = sint (field32 4 header);
               let counts_limit = (if payload_len < 0 then - (- payload_len div word_size) else payload_len div word_size);
               r \<leftarrow> hdr_init mem lg (sint (field64 16 header)) (sint (field64 24 header)) (sint (field32 12 header));
               case r of
                 Inl _ \<Rightarrow> Some (Inl ENOMEM)
               | Inr h \<Rightarrow>
                   if \<not> mem 2 \<or> counts_limit < 0 then Some (Inl ENOMEM)
                   else case z_finish z data SIZEOF_ENCODING_FLYWEIGHT_V1 (nat (counts_limit * word_size)) of
                          None \<Rightarrow> Some (Inl HDR_INFLATE_FAIL)
                        | Some counts_array \<Rightarrow> do {
                            h \<leftarrow> apply_to_counts h word_size counts_array counts_limit;
                            deliver it target (hdr_reset_internal_counters
                              (h\<lparr> normalizing_index_offset := sint (field32 8 header), conversion_ratio := field64 32 header \<rparr>))
                          }
             })"

text \<open>Version 2 allocates nine bytes more than the data, which are 0.\<close>

definition hdr_decode_compressed_v2 ::
    "(nat \<Rightarrow> bool) \<Rightarrow> (int \<Rightarrow> rat) \<Rightarrow> zlib \<Rightarrow> hdr_iter \<Rightarrow> u8 list \<Rightarrow> hdr_histogram option \<Rightarrow> (hdr_error + hdr_histogram) option" where
  "hdr_decode_compressed_v2 mem lg z it buffer target =
     (case inflate_header z buffer SIZEOF_ENCODING_FLYWEIGHT_V1 V2_ENCODING_COOKIE of
        Inl e \<Rightarrow> Some (Inl e)
      | Inr (data, header) \<Rightarrow> do {
          let counts_limit = sint (field32 4 header);
          r \<leftarrow> hdr_init mem lg (sint (field64 16 header)) (sint (field64 24 header)) (sint (field32 12 header));
          case r of
            Inl e \<Rightarrow> Some (Inl e)
          | Inr h \<Rightarrow>
              if \<not> mem 2 \<or> counts_limit < - 9 then Some (Inl ENOMEM)
              else if counts_limit < 0 then None
              else case z_finish z data SIZEOF_ENCODING_FLYWEIGHT_V1 (nat counts_limit) of
                     None \<Rightarrow> Some (Inl HDR_INFLATE_FAIL)
                   | Some plain \<Rightarrow> do {
                       r \<leftarrow> apply_to_counts_zz h (plain @ replicate (nat counts_limit + 9 - length plain) 0) counts_limit;
                       case r of
                         Inl e \<Rightarrow> Some (Inl e)
                       | Inr h \<Rightarrow> deliver it target (hdr_reset_internal_counters
                           (h\<lparr> normalizing_index_offset := sint (field32 8 header), conversion_ratio := field64 32 header \<rparr>))
                     }
        })"

definition hdr_decode_compressed ::
    "(nat \<Rightarrow> bool) \<Rightarrow> (int \<Rightarrow> rat) \<Rightarrow> zlib \<Rightarrow> hdr_iter \<Rightarrow> u8 list \<Rightarrow> hdr_histogram option \<Rightarrow> (hdr_error + hdr_histogram) option" where
  "hdr_decode_compressed mem lg z it buffer target =
     (if length buffer < SIZEOF_COMPRESSION_FLYWEIGHT then Some (Inl EINVAL)
      else let compression_cookie = get_cookie_base (field32 0 buffer)
           in if compression_cookie = V0_COMPRESSION_COOKIE then hdr_decode_compressed_v0 mem lg z it buffer target
              else if compression_cookie = V1_COMPRESSION_COOKIE then hdr_decode_compressed_v1 mem lg z it buffer target
              else if compression_cookie = V2_COMPRESSION_COOKIE then hdr_decode_compressed_v2 mem lg z it buffer target
              else Some (Inl HDR_COMPRESSION_COOKIE_MISMATCH))"

section \<open>Text\<close>

definition hdr_log_encode :: "(nat \<Rightarrow> bool) \<Rightarrow> zlib \<Rightarrow> hdr_histogram \<Rightarrow> (hdr_error + string) option" where
  "hdr_log_encode mem z h = do {
     r \<leftarrow> hdr_encode_compressed mem z h;
     Some (case r of
             Inl e \<Rightarrow> Inl e
           | Inr compressed \<Rightarrow> hdr_base64_encode compressed (hdr_base64_encoded_len (length compressed)))
   }"

definition hdr_log_decode ::
    "(nat \<Rightarrow> bool) \<Rightarrow> (int \<Rightarrow> rat) \<Rightarrow> zlib \<Rightarrow> hdr_iter \<Rightarrow> string \<Rightarrow> hdr_histogram option \<Rightarrow> (hdr_error + hdr_histogram) option" where
  "hdr_log_decode mem lg z it base64_histogram target =
     (case hdr_base64_decode base64_histogram (hdr_base64_decoded_len (length base64_histogram)) of
        Inl e \<Rightarrow> Some (Inl e)
      | Inr compressed \<Rightarrow> hdr_decode_compressed mem lg z it compressed target)"

section \<open>Counters survive encoding and decoding\<close>

lemma sint_of_int_64: "- (2 ^ 63) \<le> i \<Longrightarrow> i < 2 ^ 63 \<Longrightarrow> sint (word_of_int i :: u64) = i"
  by (simp add: signed_of_int signed_take_bit_int_eq_self)

lemma sint_of_int_32: "- (2 ^ 31) \<le> i \<Longrightarrow> i < 2 ^ 31 \<Longrightarrow> sint (word_of_int i :: u32) = i"
  by (simp add: signed_of_int signed_take_bit_int_eq_self)

lemma decode_at:
  "zig_zag_decode_i64 (drop (length pre) (pre @ zig_zag_encode_i64 v @ rest)) = Some (length (zig_zag_encode_i64 v), v)"
  using zig_zag_inverse [of v rest] by simp

lemma encode_pos: "0 < length (zig_zag_encode_i64 v)"
  using zig_zag_inverse [of v "[]"] by simp

definition counts_ok :: "int list \<Rightarrow> bool" where
  "counts_ok cs \<longleftrightarrow> (\<forall>c \<in> set cs. 0 \<le> c \<and> c < 2 ^ 63)"

lemma zeros_split: "cs = replicate (length (takeWhile (\<lambda>x. x = 0) cs)) 0 @ dropWhile (\<lambda>x. x = (0 :: int)) cs"
  by (induction cs) auto

lemma apply_zz_step:
  assumes "di < dl" and "ci < len" and "zig_zag_decode_i64 (drop (nat di) data) = Some (n, v)"
  shows "0 \<le> sint v \<Longrightarrow> 0 \<le> ci \<Longrightarrow> ci < int (length cs) \<Longrightarrow>
           apply_zz_loop data dl len di ci cs = apply_zz_loop data dl len (di + int n) (ci + 1) (cs[nat ci := sint v])"
    and "sint v < 0 \<Longrightarrow> - (2 ^ 31) < sint v \<Longrightarrow> ci - sint v \<le> len \<Longrightarrow>
           apply_zz_loop data dl len di ci cs = apply_zz_loop data dl len (di + int n) (ci - sint v) cs"
proof -
  show "0 \<le> sint v \<Longrightarrow> 0 \<le> ci \<Longrightarrow> ci < int (length cs) \<Longrightarrow>
           apply_zz_loop data dl len di ci cs = apply_zz_loop data dl len (di + int n) (ci + 1) (cs[nat ci := sint v])"
    using assms by (subst apply_zz_loop.simps) simp
  assume v: "sint v < 0" "- (2 ^ 31) < sint v" "ci - sint v \<le> len"
  then have "s32 (- sint v) = - sint v" by (intro s32_id) simp_all
  then show "apply_zz_loop data dl len di ci cs = apply_zz_loop data dl len (di + int n) (ci - sint v) cs"
    using assms v by (subst apply_zz_loop.simps) (simp add: Let_def)
qed

lemma fill_next:
  assumes "length left < len"
  shows "(left @ replicate (len - length left) 0)[length left := c] = (left @ [c]) @ replicate (len - length (left @ [c])) (0 :: int)"
proof -
  have "replicate (len - length left) (0 :: int) = 0 # replicate (len - length (left @ [c])) 0"
    using assms by (cases "len - length left") simp_all
  then show ?thesis by simp
qed

lemma fill_zeros:
  "length left + z \<le> len \<Longrightarrow> left @ replicate (len - length left) (0 :: int) = (left @ replicate z 0) @ replicate (len - length (left @ replicate z (0 :: int))) 0"
  by (simp add: replicate_add [symmetric])

text \<open>The loop restores the counters that were encoded.\<close>

lemma apply_zz_inverse:
  assumes "counts_ok cs" and "length left + length cs \<le> len" and "len < 2 ^ 31"
  shows "apply_zz_loop (pre @ encode_counts cs @ post) (int (length pre + length (encode_counts cs))) (int len) (int (length pre))
           (int (length left)) (left @ replicate (len - length left) 0) =
         Some (Inr (int (length pre + length (encode_counts cs)), left @ cs @ replicate (len - length left - length cs) 0))"
  using assms
proof (induction cs arbitrary: pre left rule: encode_counts.induct)
  case 1
  show ?case by (subst apply_zz_loop.simps) (simp add: encode_counts.simps)
next
  case (2 c cs)
  show ?case
  proof (cases "c = 0")
    case True
    define z where "z = 1 + length (takeWhile (\<lambda>x. x = 0) cs)"
    define ds where "ds = dropWhile (\<lambda>x. x = 0) cs"
    define v where "v = (word_of_int (- int z) :: u64)"
    have cs: "c # cs = replicate z 0 @ ds" using zeros_split [of cs] True by (simp add: z_def ds_def)
    have enc: "encode_counts (c # cs) = zig_zag_encode_i64 v @ encode_counts ds" using True by (simp add: encode_counts.simps z_def ds_def v_def)
    have len: "length left + z + length ds \<le> len" using 2(4) unfolding cs by simp
    then have sv: "sint v = - int z" unfolding v_def using 2(5) by (intro sint_of_int_64) simp_all
    have ok: "counts_ok ds" using 2(3) unfolding cs counts_ok_def by simp
    let ?data = "pre @ encode_counts (c # cs) @ post"
    let ?dl = "int (length pre + length (encode_counts (c # cs)))"
    have dec: "zig_zag_decode_i64 (drop (nat (int (length pre))) ?data) = Some (length (zig_zag_encode_i64 v), v)"
      unfolding enc using decode_at [of pre v "encode_counts ds @ post"] by simp
    have "apply_zz_loop ?data ?dl (int len) (int (length pre)) (int (length left)) (left @ replicate (len - length left) 0) =
          apply_zz_loop ?data ?dl (int len) (int (length pre) + int (length (zig_zag_encode_i64 v))) (int (length left) - sint v)
            (left @ replicate (len - length left) 0)"
      using len 2(5) encode_pos [of v] by (intro apply_zz_step(2) [OF _ _ dec]) (simp_all add: enc sv z_def del: length_greater_0_conv)
    also have "\<dots> = apply_zz_loop ((pre @ zig_zag_encode_i64 v) @ encode_counts ds @ post) (int (length (pre @ zig_zag_encode_i64 v) + length (encode_counts ds)))
        (int len) (int (length (pre @ zig_zag_encode_i64 v))) (int (length (left @ replicate z (0 :: int))))
        ((left @ replicate z 0) @ replicate (len - length (left @ replicate z (0 :: int))) 0)"
      using fill_zeros [of left z len] len by (simp add: enc sv add.assoc)
    also have "\<dots> = Some (Inr (int (length (pre @ zig_zag_encode_i64 v) + length (encode_counts ds)),
        (left @ replicate z 0) @ ds @ replicate (len - length (left @ replicate z (0 :: int)) - length ds) 0))"
      using 2(1) [OF True, folded ds_def, OF ok, of "left @ replicate z 0" "pre @ zig_zag_encode_i64 v"] len 2(5) by simp
    finally show ?thesis using enc unfolding cs by (simp add: add.assoc)
  next
    case False
    define v where "v = (word_of_int c :: u64)"
    have c: "0 \<le> c" "c < 2 ^ 63" and ok: "counts_ok cs" using 2(3) by (simp_all add: counts_ok_def)
    then have sv: "sint v = c" unfolding v_def by (intro sint_of_int_64) simp_all
    have enc: "encode_counts (c # cs) = zig_zag_encode_i64 v @ encode_counts cs" using False by (simp add: encode_counts.simps v_def)
    let ?data = "pre @ encode_counts (c # cs) @ post"
    let ?dl = "int (length pre + length (encode_counts (c # cs)))"
    have dec: "zig_zag_decode_i64 (drop (nat (int (length pre))) ?data) = Some (length (zig_zag_encode_i64 v), v)"
      unfolding enc using decode_at [of pre v "encode_counts cs @ post"] by simp
    have lt: "length left < len" using 2(4) by simp
    have "apply_zz_loop ?data ?dl (int len) (int (length pre)) (int (length left)) (left @ replicate (len - length left) 0) =
          apply_zz_loop ?data ?dl (int len) (int (length pre) + int (length (zig_zag_encode_i64 v))) (int (length left) + 1)
            ((left @ replicate (len - length left) 0)[nat (int (length left)) := sint v])"
      using lt c encode_pos [of v] by (intro apply_zz_step(1) [OF _ _ dec]) (simp_all add: enc sv del: length_greater_0_conv)
    also have "\<dots> = apply_zz_loop ((pre @ zig_zag_encode_i64 v) @ encode_counts cs @ post) (int (length (pre @ zig_zag_encode_i64 v) + length (encode_counts cs)))
        (int len) (int (length (pre @ zig_zag_encode_i64 v))) (int (length (left @ [c]))) ((left @ [c]) @ replicate (len - length (left @ [c])) 0)"
      using fill_next [OF lt, of c] by (simp add: enc sv add.assoc add.commute [of _ "1 :: int"] add.commute [of _ "int 1"])
    also have "\<dots> = Some (Inr (int (length (pre @ zig_zag_encode_i64 v) + length (encode_counts cs)),
        (left @ [c]) @ cs @ replicate (len - length (left @ [c]) - length cs) 0))"
      using 2(2) [OF False ok, of "left @ [c]" "pre @ zig_zag_encode_i64 v"] 2(4,5) by simp
    finally show ?thesis unfolding enc by (simp add: add.assoc)
  qed
qed

section \<open>Fields survive\<close>

lemma from_be_append: "from_be (xs @ ys) w = from_be ys (from_be xs w)"
  by (induction xs arbitrary: w) simp_all

lemma from_be32_bits: "bit (from_be (be32 w) acc) n \<longleftrightarrow> n < 64 \<and> (if n < 32 then bit w n else bit acc (n - 32))"
proof -
  consider "n < 8" | "8 \<le> n" "n < 16" | "16 \<le> n" "n < 24" | "24 \<le> n" "n < 32" | "32 \<le> n" "n < 64" | "64 \<le> n" by linarith
  then show ?thesis
    by cases (auto simp: be32_def bit_or_iff bit_push_bit_iff bit_ucast_iff bit_drop_bit_eq dest: bit_imp_le_length)
qed

lemma from_be32: "ucast (from_be (be32 w) 0) = (w :: u32)"
  by (rule bit_eqI) (auto simp: bit_ucast_iff from_be32_bits)

lemma from_be64: "from_be (be64 w) 0 = w"
  unfolding be64_def from_be_append
  by (rule bit_eqI) (auto simp: from_be32_bits bit_ucast_iff bit_drop_bit_eq)

lemma be_length [simp]: "length (be32 w) = 4" "length (be64 v) = 8"
  by (simp_all add: be32_def be64_def)

text \<open>Reading the fields of a sequence of fields.\<close>

lemma field32_at: "length pre = k \<Longrightarrow> field32 k (pre @ be32 w @ post) = w"
  by (simp add: field32_def from_be32)

lemma field64_at: "length pre = k \<Longrightarrow> field64 k (pre @ be64 w @ post) = w"
  by (simp add: field64_def from_be64)

lemma cookie_base:
  "get_cookie_base (V2_ENCODING_COOKIE OR 0x10) = V2_ENCODING_COOKIE" "get_cookie_base (V2_COMPRESSION_COOKIE OR 0x10) = V2_COMPRESSION_COOKIE"
  "V2_COMPRESSION_COOKIE \<noteq> V0_COMPRESSION_COOKIE" "V2_COMPRESSION_COOKIE \<noteq> V1_COMPRESSION_COOKIE"
  by (simp_all add: get_cookie_base_def V2_ENCODING_COOKIE_def V2_COMPRESSION_COOKIE_def V0_COMPRESSION_COOKIE_def V1_COMPRESSION_COOKIE_def)

section \<open>Histograms survive\<close>

lemma encode_counts_length: "length (encode_counts cs) \<le> 9 * length cs" "cs \<noteq> [] \<Longrightarrow> encode_counts cs \<noteq> []"
proof -
  have "length (encode_counts cs) \<le> 9 * length cs \<and> (cs \<noteq> [] \<longrightarrow> encode_counts cs \<noteq> [])"
  proof (induction cs rule: encode_counts.induct)
    case (2 c cs)
    have z: "length (zig_zag_encode_i64 v) \<le> 9" "zig_zag_encode_i64 v \<noteq> []" for v using zig_zag_inverse [of v "[]"] by simp_all
    have d: "length (dropWhile (\<lambda>x. x = 0) cs) \<le> length cs" by (rule length_dropWhile_le)
    show ?case
    proof (cases "c = 0")
      case True
      then show ?thesis using 2(1) [OF True] d z(1) [of "word_of_int (- (1 + int (length (takeWhile (\<lambda>x. x = 0) cs))))"] z(2)
        by (simp add: encode_counts.simps)
    next
      case False
      then show ?thesis using 2(2) z [of "word_of_int c"] by (simp add: encode_counts.simps)
    qed
  qed (simp add: encode_counts.simps)
  then show "length (encode_counts cs) \<le> 9 * length cs" "cs \<noteq> [] \<Longrightarrow> encode_counts cs \<noteq> []" by simp_all
qed

lemma held_max:
  assumes "hdr_holds h vs"
  shows "accepts h (max_value h)" and "v \<in> set vs \<Longrightarrow> v \<le> max_value h"
proof -
  have m: "max_value h = Max (insert 0 (set vs))" using assms by (simp add: hdr_holds_def)
  have "hdr_wf h" using assms by (simp add: hdr_holds_def)
  have "accepts h 0" by (simp add: accepts_def limit_def)
  moreover have "max_value h \<in> insert 0 (set vs)" unfolding m by (rule Max_in) simp_all
  ultimately show "accepts h (max_value h)" using assms by (auto simp: hdr_holds_def)
  show "v \<in> set vs \<Longrightarrow> v \<le> max_value h" unfolding m by (rule Max_ge) simp_all
qed

lemma counts_above_max:
  assumes holds: "hdr_holds h vs" and l: "l = nat (counts_index_for h (max_value h) + 1)"
  shows "0 < l" "l \<le> length (counts h)" "take l (counts h) @ replicate (length (counts h) - l) 0 = counts h"
proof -
  have wf: "hdr_wf h" using holds by (simp add: hdr_holds_def)
  note m = accepts_index [OF wf held_max(1) [OF holds]]
  show "0 < l" using m(1) by (simp add: l)
  have n: "length (counts h) = nat (counts_len h)" using wf by (simp add: hdr_wf_def)
  show l_le: "l \<le> length (counts h)" using m by (simp add: l n)
  have "counts h ! i = 0" if i: "l \<le> i" "i < length (counts h)" for i
  proof -
    have "counts_index_for h v \<noteq> int i" if v: "v \<in> set vs" for v
    proof -
      have acc: "accepts h v" using holds v by (simp add: hdr_holds_def)
      have "0 \<le> v" "0 \<le> max_value h" using acc held_max(1) [OF holds] by (simp_all add: accepts_def)
      then have "counts_index_for h v \<le> counts_index_for h (max_value h)"
        using held_max(2) [OF holds v] m(3) accepts_index(3) [OF wf acc]
        by (simp add: counts_index_for_eq [OF wf] idx_mono)
      then show ?thesis using i(1) m(1) by (simp add: l)
    qed
    then have "values_at h vs i = 0" by (simp add: values_at_def filter_empty_conv)
    then show ?thesis using holds i(2) n by (simp add: hdr_holds_def)
  qed
  then have "drop l (counts h) = replicate (length (counts h) - l) 0" by (intro nth_equalityI) simp_all
  then show "take l (counts h) @ replicate (length (counts h) - l) 0 = counts h" by (metis append_take_drop_id)
qed

lemma reset_loop_total:
  assumes "counts_ok cs" and "0 \<le> obs" and "obs + sum_list cs < 2 ^ 63"
  shows "snd (snd (reset_loop cs i a b obs)) = obs + sum_list cs"
  using assms
proof (induction cs arbitrary: i a b obs)
  case (Cons c cs)
  have c: "0 \<le> c" and ok: "counts_ok cs" using Cons.prems(1) by (simp_all add: counts_ok_def)
  have s: "0 \<le> sum_list cs" using ok by (intro sum_list_nonneg) (simp add: counts_ok_def)
  have "s64 (obs + c) = obs + c" using Cons.prems(2,3) c s by (intro s64_id) simp_all
  then show ?case using Cons.IH [OF ok] Cons.prems(2,3) c s by (cases "c = 0") (simp_all add: add.assoc)
qed simp

lemma reset_counters:
  assumes "counts_ok (counts h)" and "sum_list (counts h) < 2 ^ 63"
  shows "counts (hdr_reset_internal_counters h) = counts h" "total_count (hdr_reset_internal_counters h) = sum_list (counts h)"
    "layout (hdr_reset_internal_counters h) = layout h"
  using reset_loop_total [OF assms(1), of 0 0 "- 1" "- 1"] assms(2)
  by (auto simp: hdr_reset_internal_counters_def layout_def Let_def split: prod.splits)

lemma held_counts_ok:
  assumes "hdr_holds h vs" and "length vs < 2 ^ 63"
  shows "counts_ok (counts h)" "sum_list (counts h) = int (length vs)" "total_count h = int (length vs)"
proof -
  have "values_at h vs i \<le> int (length vs)" "0 \<le> values_at h vs i" for i by (simp_all add: values_at_def)
  then have "0 \<le> values_at h vs i \<and> values_at h vs i < 2 ^ 63" for i using assms(2) by (metis int_less_real_le le_less_trans of_nat_less_iff of_nat_numeral of_nat_power)
  then show "counts_ok (counts h)" using assms(1) by (simp add: counts_ok_def hdr_holds_def)
  have wf: "hdr_wf h" using assms(1) by (simp add: hdr_holds_def)
  have "filter (\<lambda>v. v < limit h) vs = vs" using assms(1) by (simp add: hdr_holds_def accepts_def filter_id_conv)
  then show "sum_list (counts h) = int (length vs)" using held_sum [OF assms(1) order_refl] value_at_len [OF wf] by simp
  show "total_count h = int (length vs)" using assms(1) by (simp add: hdr_holds_def)
qed

text \<open>
  What is relied on of zlib: compressed data are at most one in a thousand and a few bytes longer than the plain data, decompression of it with
  room for the first bytes gives them, and finishing with room for the others gives those.
\<close>

definition zlib_ok :: "zlib \<Rightarrow> bool" where
  "zlib_ok z \<longleftrightarrow> z_init z \<and>
     (\<forall>x n. n < length x \<and> length x < 2 ^ 30 \<longrightarrow>
        (\<exists>y. z_compress z x = Some y \<and> length y \<le> length x + length x div 1000 + 16 \<and> z_inflate z y n = Some (take n x) \<and>
             z_finish z y n (length x - n) = Some (drop n x)))"

definition zlib_example :: zlib where
  "zlib_example = \<lparr> z_init = True, z_compress = Some, z_inflate = (\<lambda>y n. Some (take n y)),
     z_finish = (\<lambda>y n room. if length y - n \<le> room then Some (drop n y) else None) \<rparr>"

lemma zlib_example_ok: "zlib_ok zlib_example"
  by (simp add: zlib_ok_def zlib_example_def)

lemma zlib_stored:
  assumes "zlib_ok z" and "length x < 2 ^ 29" and "n < length x"
  obtains y where "z_compress z x = Some y" "length y < 2 ^ 30" "z_inflate z y n = Some (take n x)" "z_finish z y n (length x - n) = Some (drop n x)"
proof -
  obtain y where y: "z_compress z x = Some y" "length y \<le> length x + length x div 1000 + 16" "z_inflate z y n = Some (take n x)"
    "z_finish z y n (length x - n) = Some (drop n x)"
    using assms(1) [unfolded zlib_ok_def, THEN conjunct2, rule_format, of n x] assms(2,3) by auto
  have "length x + length x div 1000 + 16 < 2 ^ 30" using assms(2) by simp
  then show ?thesis using that y by simp
qed

definition flyweight :: "hdr_histogram \<Rightarrow> nat \<Rightarrow> u8 list" where
  "flyweight h payload_len =
     be32 (V2_ENCODING_COOKIE OR 0x10) @ be32 (of_nat payload_len) @
     be32 (word_of_int (normalizing_index_offset h)) @ be32 (word_of_int (significant_figures h)) @
     be64 (word_of_int (lowest_trackable_value h)) @ be64 (word_of_int (highest_trackable_value h)) @
     be64 (conversion_ratio h)"

lemma flyweight_fields:
  "length (flyweight h n) = 40" "field32 0 (flyweight h n) = V2_ENCODING_COOKIE OR 0x10" "field32 4 (flyweight h n) = of_nat n"
  "field32 8 (flyweight h n) = word_of_int (normalizing_index_offset h)" "field32 12 (flyweight h n) = word_of_int (significant_figures h)"
  "field64 16 (flyweight h n) = word_of_int (lowest_trackable_value h)" "field64 24 (flyweight h n) = word_of_int (highest_trackable_value h)"
  "field64 32 (flyweight h n) = conversion_ratio h"
  unfolding flyweight_def field32_def field64_def by (simp_all add: from_be32 from_be64)

lemma counts_len_le: "hdr_wf h \<Longrightarrow> counts_len h \<le> 2 ^ 23"
proof -
  assume h: "hdr_wf h"
  have "bucket_count h + 1 \<le> 64" "sub_bucket_half_count_magnitude h \<le> 17" using h unfolding hdr_wf_def by linarith+
  then have "(bucket_count h + 1) * 2 ^ nat (sub_bucket_half_count_magnitude h) \<le> 64 * 2 ^ 17"
    by (intro mult_mono power_increasing) simp_all
  then show ?thesis using h by (simp add: hdr_wf_def)
qed

text \<open>Encoding and decoding of one histogram; \<open>g\<close> is the empty histogram the decoder starts from.\<close>

lemma compressed_form:
  assumes holds: "hdr_holds h vs" and vs: "length vs < 2 ^ 63" and z: "zlib_ok z"
  obtains cs y where "hdr_encode_compressed (\<lambda>_. True) z h = Some (Inr (be32 (V2_COMPRESSION_COOKIE OR 0x10) @ be32 (of_nat (length y)) @ y))"
    "length y < 2 ^ 30" "z_inflate z y 40 = Some (flyweight h (length (encode_counts cs)))"
    "z_finish z y 40 (length (encode_counts cs)) = Some (encode_counts cs)" "length (encode_counts cs) < 2 ^ 28"
    "counts_ok cs" "length cs \<le> length (counts h)" "cs @ replicate (length (counts h) - length cs) 0 = counts h"
proof -
  define l where "l = nat (counts_index_for h (max_value h) + 1)"
  define cs where "cs = take l (counts h)"
  note l = counts_above_max [OF holds l_def]
  have wf: "hdr_wf h" using holds by (simp add: hdr_holds_def)
  have n: "length (counts h) = nat (counts_len h)" using wf by (simp add: hdr_wf_def)
  have len: "length cs = l" using l(2) by (simp add: cs_def)
  have limit: "nat (if counts_index_for h (max_value h) + 1 < counts_len h then counts_index_for h (max_value h) + 1 else counts_len h) = l"
    using l(1,2) n unfolding l_def by (cases "counts_index_for h (max_value h) + 1 < counts_len h") simp_all
  have "cs \<noteq> []" using len l(1) by auto
  then have ne: "encode_counts cs \<noteq> []" by (rule encode_counts_length)
  have "length (counts h) \<le> 2 ^ 23" using counts_len_le [OF wf] n by simp
  then have "9 * length cs \<le> 9 * 2 ^ 23" using l(2) len by simp
  then have small: "length (encode_counts cs) < 2 ^ 28" using encode_counts_length(1) [of cs] by simp
  let ?x = "flyweight h (length (encode_counts cs)) @ encode_counts cs"
  obtain y where y: "z_compress z ?x = Some y" "length y < 2 ^ 30" "z_inflate z y 40 = Some (take 40 ?x)" "z_finish z y 40 (length ?x - 40) = Some (drop 40 ?x)"
    using zlib_stored [OF z, of ?x 40] small ne by (auto simp: flyweight_fields)
  have enc: "hdr_encode_compressed (\<lambda>_. True) z h = Some (Inr (be32 (V2_COMPRESSION_COOKIE OR 0x10) @ be32 (of_nat (length y)) @ y))"
    using y(1) l(2) unfolding hdr_encode_compressed_def Let_def limit cs_def [symmetric] by (simp add: flyweight_def)
  have ok: "counts_ok cs" using held_counts_ok(1) [OF holds vs] unfolding counts_ok_def cs_def by (blast dest: in_set_takeD)
  have all: "cs @ replicate (length (counts h) - length cs) 0 = counts h" using l(3) unfolding cs_def [symmetric] len .
  have "length (flyweight h (length (encode_counts cs))) = 40" by (rule flyweight_fields)
  then have "z_inflate z y 40 = Some (flyweight h (length (encode_counts cs)))" "z_finish z y 40 (length (encode_counts cs)) = Some (encode_counts cs)"
    using y(3,4) by simp_all
  then show ?thesis using l(2) unfolding len [symmetric] by (intro that [OF enc y(2) _ _ small ok _ all])
qed

lemma fresh_layout:
  assumes "lg_ok lg" and "highest < 2 ^ 63" and "config_valid lg lowest highest figures"
  obtains h where "hdr_init (\<lambda>_. True) lg lowest highest figures = Some (Inr h)" "hdr_holds h []" "counts h = replicate (nat (counts_len h)) 0"
    "highest_trackable_value h = highest" "lowest_trackable_value h = lowest" "significant_figures h = figures"
    "normalizing_index_offset h = 0" "conversion_ratio h = ONE_BITS"
  using init_wf(1) [OF assms] hdr_holds_init unfolding hdr_wf_def by metis

lemma v2_decodes:
  assumes enc: "buffer = be32 (V2_COMPRESSION_COOKIE OR 0x10) @ be32 (of_nat (length y)) @ y @ pad" "length y < 2 ^ 30" "z_init z"
    and z: "z_inflate z y 40 = Some (flyweight h (length payload))" "z_finish z y 40 (length payload) = Some payload"
    and small: "length payload < 2 ^ 28"
    and fresh: "hdr_init mem lg (lowest_trackable_value h) (highest_trackable_value h) (significant_figures h) = Some (Inr g)" "mem 2"
    and range: "0 \<le> lowest_trackable_value h" "lowest_trackable_value h < 2 ^ 63" "0 \<le> highest_trackable_value h" "highest_trackable_value h < 2 ^ 63"
      "0 \<le> significant_figures h" "significant_figures h \<le> 5" "normalizing_index_offset h = 0"
  shows "hdr_decode_compressed mem lg z it buffer target = do {
           r \<leftarrow> apply_to_counts_zz g (payload @ replicate 9 0) (int (length payload));
           case r of
             Inl e \<Rightarrow> Some (Inl e)
           | Inr g' \<Rightarrow> deliver it target (hdr_reset_internal_counters (g'\<lparr> normalizing_index_offset := 0, conversion_ratio := conversion_ratio h \<rparr>))
         }"
proof -
  have f: "field32 0 buffer = V2_COMPRESSION_COOKIE OR 0x10" "field32 4 buffer = of_nat (length y)" "length buffer = 8 + length y + length pad"
    using field32_at [of "[]" 0] field32_at [of "be32 (V2_COMPRESSION_COOKIE OR 0x10)" 4] by (simp_all add: enc(1))
  have ly: "sint (of_nat (length y) :: u32) = int (length y)" using sint_of_int_32 [of "int (length y)"] enc(2) by simp
  have lp: "sint (of_nat (length payload) :: u32) = int (length payload)" using sint_of_int_32 [of "int (length payload)"] small by simp
  have data: "take (length y) (drop 8 buffer) = y" by (simp add: enc(1))
  have head: "inflate_header z buffer SIZEOF_ENCODING_FLYWEIGHT_V1 V2_ENCODING_COOKIE = Inr (y, flyweight h (length payload))"
    using enc(3) z(1) by (simp add: inflate_header_def f ly SIZEOF_COMPRESSION_FLYWEIGHT_def SIZEOF_ENCODING_FLYWEIGHT_V1_def data flyweight_fields cookie_base)
  have r: "sint (word_of_int (lowest_trackable_value h) :: u64) = lowest_trackable_value h"
    "sint (word_of_int (highest_trackable_value h) :: u64) = highest_trackable_value h"
    "sint (word_of_int (significant_figures h) :: u32) = significant_figures h"
    using range by (simp_all add: sint_of_int_64 sint_of_int_32)
  have "hdr_decode_compressed mem lg z it buffer target = hdr_decode_compressed_v2 mem lg z it buffer target"
    by (simp add: hdr_decode_compressed_def f SIZEOF_COMPRESSION_FLYWEIGHT_def cookie_base)
  also have "\<dots> = do {
           r \<leftarrow> apply_to_counts_zz g (payload @ replicate 9 0) (int (length payload));
           case r of
             Inl e \<Rightarrow> Some (Inl e)
           | Inr g' \<Rightarrow> deliver it target (hdr_reset_internal_counters (g'\<lparr> normalizing_index_offset := 0, conversion_ratio := conversion_ratio h \<rparr>))
         }"
    unfolding hdr_decode_compressed_v2_def head using fresh z(2) range(7)
    by (simp add: flyweight_fields r lp SIZEOF_ENCODING_FLYWEIGHT_V1_def)
  finally show ?thesis .
qed

lemma layout_fields:
  assumes "layout h' = layout h"
  shows "lowest_trackable_value h' = lowest_trackable_value h" "highest_trackable_value h' = highest_trackable_value h"
    "significant_figures h' = significant_figures h" "normalizing_index_offset h' = normalizing_index_offset h"
    "conversion_ratio h' = conversion_ratio h" "counts_len h' = counts_len h"
  using assms by (cases h; cases h'; simp add: layout_def)+

lemma held_roundtrip:
  assumes holds: "hdr_holds h' vs" and vs: "length vs < 2 ^ 63" and z: "zlib_ok z" and lay: "layout h' = layout h"
    and fresh: "hdr_init (\<lambda>_. True) lg (lowest_trackable_value h) (highest_trackable_value h) (significant_figures h) = Some (Inr h)"
      "counts h = replicate (nat (counts_len h)) 0"
    and range: "0 \<le> lowest_trackable_value h" "lowest_trackable_value h < 2 ^ 63" "0 \<le> highest_trackable_value h" "highest_trackable_value h < 2 ^ 63"
      "0 \<le> significant_figures h" "significant_figures h \<le> 5" "normalizing_index_offset h = 0"
  shows "\<exists>t g. hdr_log_encode (\<lambda>_. True) z h' = Some (Inr t) \<and> hdr_log_decode (\<lambda>_. True) lg z it t None = Some (Inr g) \<and>
           counts g = counts h' \<and> total_count g = total_count h' \<and> layout g = layout h'"
proof -
  obtain cs y where c: "hdr_encode_compressed (\<lambda>_. True) z h' = Some (Inr (be32 (V2_COMPRESSION_COOKIE OR 0x10) @ be32 (of_nat (length y)) @ y))"
    "length y < 2 ^ 30" "z_inflate z y 40 = Some (flyweight h' (length (encode_counts cs)))"
    "z_finish z y 40 (length (encode_counts cs)) = Some (encode_counts cs)" "length (encode_counts cs) < 2 ^ 28"
    "counts_ok cs" "length cs \<le> length (counts h')" "cs @ replicate (length (counts h') - length cs) 0 = counts h'"
    by (rule compressed_form [OF holds vs z])
  let ?b = "be32 (V2_COMPRESSION_COOKIE OR 0x10) @ be32 (of_nat (length y)) @ y"
  have "?b \<noteq> []" "length ?b < 2 ^ 50" using c(2) by (simp_all add: be32_def)
  then obtain t where t: "hdr_base64_encode ?b (hdr_base64_encoded_len (length ?b)) = Inr t"
    "hdr_base64_decode t (hdr_base64_decoded_len (length t)) = Inr (?b @ replicate (hdr_base64_decoded_len (length t) - length ?b) 0)"
    by (rule base64_inverse)
  have wf: "hdr_wf h'" using holds by (simp add: hdr_holds_def)
  have len: "length (counts h') = nat (counts_len h')" "counts_len h' \<le> 2 ^ 23" "0 \<le> counts_len h'"
    using wf counts_len_le [OF wf] counts_len_eq [OF wf] by (simp_all add: hdr_wf_def)
  note f = layout_fields [OF lay]
  have zz: "apply_to_counts_zz h (encode_counts cs @ replicate 9 0) (int (length (encode_counts cs))) = Some (Inr (h\<lparr> counts := counts h' \<rparr>))"
    using apply_zz_inverse [OF c(6), of "[]" "length (counts h')" "[]" "replicate 9 0"] c(7,8) len
    by (simp add: apply_to_counts_zz_def fresh(2) f)
  have enc: "hdr_log_encode (\<lambda>_. True) z h' = Some (Inr t)" using t(1) by (simp add: hdr_log_encode_def c(1))
  let ?g = "h\<lparr> counts := counts h', normalizing_index_offset := 0, conversion_ratio := conversion_ratio h' \<rparr>"
  have "z_init z" using z by (simp add: zlib_ok_def)
  then have dec: "hdr_log_decode (\<lambda>_. True) lg z it t None = Some (Inr (hdr_reset_internal_counters ?g))"
    using v2_decodes [OF refl c(2) _ c(3-5), of "\<lambda>_. True" lg h it "replicate (hdr_base64_decoded_len (length t) - length ?b) 0" None] fresh(1) range zz
    by (simp add: hdr_log_decode_def t(2) f deliver_def)
  note held = held_counts_ok [OF holds vs]
  have "layout ?g = layout h'" using range(7) f(5) unfolding lay by (simp add: layout_def)
  moreover have "counts_ok (counts ?g)" "sum_list (counts ?g) < 2 ^ 63" using held vs by simp_all
  ultimately show ?thesis using enc dec reset_counters [of ?g] held by auto
qed

section \<open>Property\<close>

text \<open>
  C24. A histogram that is written to a log is read back: after any sequence of values, encoding the histogram
  (counters to variable-length integers with runs of zeros, compression, base 64) succeeds, and decoding the text gives a
  histogram of the same layout with the same counters and the same total.
\<close>

theorem hdr_log_roundtrip:
  assumes "lg_ok lg" and "highest < 2 ^ 63" and "config_valid lg lowest highest figures" and "zlib_ok z"
    and "\<forall>v \<in> set vs. v < 2 ^ 63" and "length vs < 2 ^ 63"
  shows "\<exists>h h' t g. hdr_init (\<lambda>_. True) lg lowest highest figures = Some (Inr h) \<and> record_list h vs = Some h' \<and>
           hdr_log_encode (\<lambda>_. True) z h' = Some (Inr t) \<and> hdr_log_decode (\<lambda>_. True) lg z it t None = Some (Inr g) \<and>
           counts g = counts h' \<and> total_count g = total_count h' \<and> layout g = layout h'"
proof -
  obtain h where h: "hdr_init (\<lambda>_. True) lg lowest highest figures = Some (Inr h)" "hdr_holds h []" "counts h = replicate (nat (counts_len h)) 0"
    "highest_trackable_value h = highest" "lowest_trackable_value h = lowest" "significant_figures h = figures"
    "normalizing_index_offset h = 0" "conversion_ratio h = ONE_BITS"
    by (rule fresh_layout [OF assms(1-3)])
  obtain h' where h': "record_list h vs = Some h'" "hdr_holds h' (rev (filter (accepts h) vs))" "layout h' = layout h"
    using record_list_holds [OF h(2), of vs] assms(5,6) by auto
  have "length (rev (filter (accepts h) vs)) < 2 ^ 63" using assms(6) length_filter_le [of "accepts h" vs] by (simp only: length_rev)
  moreover have "1 \<le> lowest" "1 \<le> figures" "figures \<le> 5" "2 * lowest \<le> highest" using assms(3) by (simp_all add: config_valid_def)
  ultimately show ?thesis using held_roundtrip [OF h'(2) _ assms(4) h'(3), of lg it] h assms(2) h'(1) by simp
qed

theorem hdr_log_roundtrip_witness:
  "\<forall>it. \<exists>h h' t g. hdr_init (\<lambda>_. True) lg_example 1 1000000 3 = Some (Inr h) \<and> record_list h [5, 70000, 5] = Some h' \<and>
     hdr_log_encode (\<lambda>_. True) zlib_example h' = Some (Inr t) \<and> hdr_log_decode (\<lambda>_. True) lg_example zlib_example it t None = Some (Inr g) \<and>
     counts g = counts h'"
  using hdr_log_roundtrip [OF lg_example_ok _ benchmark_config_valid zlib_example_ok, of "[5, 70000, 5]"] by fastforce

end
