(* ===== verification/Hdr_Atomic.thy ===== *)
theory Hdr_Atomic
  imports Hdr_Record "HOL-Library.Multiset"
begin

text \<open>
  Threads that record into one HDR histogram at the same time (\<^verbatim>\<open>hdr_record_value_atomic\<close> of
  \<^verbatim>\<open>hdr_histogram.c\<close>, which every worker thread calls for every transaction).

  One step is one atomic access to the histogram: an addition, a load or a compare-and-swap.  A thread has the values it
  still records, the point it has reached in the call it is in, and, for the proofs only, the values it has recorded.
\<close>

section \<open>Atomic steps\<close>

datatype rec_pc = Rec_idle | Rec_count int int | Rec_total int | Load_min int | Cas_min int int | Load_max int | Cas_max int int

record recorder =
  r_todo :: "int list"
  r_pc :: rec_pc
  r_past :: "int list"

text \<open>The start of a call reads only what no thread changes.\<close>

definition hdr_record_value_atomic :: "hdr_histogram \<Rightarrow> int \<Rightarrow> rec_pc" where
  "hdr_record_value_atomic h value =
     (if value < 0 then Rec_idle
      else let ci = counts_index_for h value
           in if ci < 0 \<or> counts_len h \<le> ci then Rec_idle else Rec_count ci value)"

definition counts_inc_normalised_atomic :: "hdr_histogram \<Rightarrow> int \<Rightarrow> int \<Rightarrow> hdr_histogram option" where
  "counts_inc_normalised_atomic h index value =
     (let normalised_index = normalize_index h index
      in do { c \<leftarrow> counts_get_direct h normalised_index;
              Some (h\<lparr> counts := (counts h)[nat normalised_index := s64 (c + value)] \<rparr>) })"

fun update_min_max_atomic :: "hdr_histogram \<Rightarrow> rec_pc \<Rightarrow> hdr_histogram \<times> rec_pc" where
  "update_min_max_atomic h (Load_min value) = (h, if value = 0 \<or> min_value h \<le> value then Load_max value else Cas_min value (min_value h))"
| "update_min_max_atomic h (Cas_min value cur) =
     (if min_value h = cur then (h\<lparr> min_value := value \<rparr>, Load_max value) else (h, Load_min value))"
| "update_min_max_atomic h (Load_max value) = (h, if value \<le> max_value h then Rec_idle else Cas_max value (max_value h))"
| "update_min_max_atomic h (Cas_max value cur) =
     (if max_value h = cur then (h\<lparr> max_value := value \<rparr>, Rec_idle) else (h, Load_max value))"
| "update_min_max_atomic h p = (h, p)"

text \<open>\<open>None\<close> is an access outside the counters, or no call to go on with.\<close>

fun atomic_step :: "hdr_histogram \<Rightarrow> rec_pc \<Rightarrow> (hdr_histogram \<times> rec_pc) option" where
  "atomic_step h Rec_idle = None"
| "atomic_step h (Rec_count index value) = do { h' \<leftarrow> counts_inc_normalised_atomic h index 1; Some (h', Rec_total value) }"
| "atomic_step h (Rec_total value) = Some (h\<lparr> total_count := s64 (total_count h + 1) \<rparr>, Load_min value)"
| "atomic_step h p = Some (update_min_max_atomic h p)"

text \<open>The value of the call a thread is in.\<close>

fun pc_value :: "rec_pc \<Rightarrow> int list" where
  "pc_value Rec_idle = []"
| "pc_value (Rec_count index value) = [value]"
| "pc_value (Rec_total value) = [value]"
| "pc_value (Load_min value) = [value]"
| "pc_value (Cas_min value cur) = [value]"
| "pc_value (Load_max value) = [value]"
| "pc_value (Cas_max value cur) = [value]"

inductive record_step :: "hdr_histogram \<times> recorder list \<Rightarrow> hdr_histogram \<times> recorder list \<Rightarrow> bool" where
  start_call: "i < length ts \<Longrightarrow> r_pc (ts ! i) = Rec_idle \<Longrightarrow> r_todo (ts ! i) = v # vs \<Longrightarrow>
    record_step (h, ts) (h, ts[i := (ts ! i)\<lparr> r_todo := vs, r_pc := hdr_record_value_atomic h v \<rparr>])"
| go_on: "i < length ts \<Longrightarrow> atomic_step h (r_pc (ts ! i)) = Some (h', p) \<Longrightarrow>
    record_step (h, ts) (h', ts[i := (ts ! i)\<lparr> r_pc := p, r_past := (if p = Rec_idle then pc_value (r_pc (ts ! i)) else []) @ r_past (ts ! i) \<rparr>])"

definition recorders :: "int list list \<Rightarrow> recorder list" where
  "recorders = map (\<lambda>vs. \<lparr> r_todo = vs, r_pc = Rec_idle, r_past = [] \<rparr>)"

definition all_recorded :: "recorder list \<Rightarrow> bool" where
  "all_recorded ts \<longleftrightarrow> (\<forall>t \<in> set ts. r_todo t = [] \<and> r_pc t = Rec_idle)"

section \<open>Termination\<close>

text \<open>
  A compare-and-swap fails only if another thread has succeeded since the load.  The steps to come are bounded: each value
  has four more stages at most, and within a stage a thread repeats its loop at most once for each stage another thread ends.
\<close>

fun stage_left :: "rec_pc \<Rightarrow> nat" where
  "stage_left Rec_idle = 0"
| "stage_left (Rec_count index value) = 4"
| "stage_left (Rec_total value) = 3"
| "stage_left (Load_min value) = 2"
| "stage_left (Cas_min value cur) = 2"
| "stage_left (Load_max value) = 1"
| "stage_left (Cas_max value cur) = 1"

fun loop_left :: "hdr_histogram \<Rightarrow> rec_pc \<Rightarrow> nat" where
  "loop_left h (Load_min value) = 2"
| "loop_left h (Cas_min value cur) = (if min_value h = cur then 1 else 3)"
| "loop_left h (Load_max value) = 2"
| "loop_left h (Cas_max value cur) = (if max_value h = cur then 1 else 3)"
| "loop_left h p = 0"

definition stages_left :: "recorder \<Rightarrow> nat" where
  "stages_left t = 5 * length (r_todo t) + stage_left (r_pc t)"

definition steps_left :: "hdr_histogram \<times> recorder list \<Rightarrow> nat" where
  "steps_left = (\<lambda>(h, ts). (3 * length ts + 1) * sum_list (map stages_left ts) + sum_list (map (\<lambda>t. loop_left h (r_pc t)) ts))"

lemma sum_map_update:
  assumes "i < length ts" and "f t' + b = f (ts ! i) + (a :: 'b :: comm_monoid_add)"
  shows "sum_list (map f (ts[i := t'])) + b = sum_list (map f ts) + a"
  using assms
proof (induction ts arbitrary: i)
  case (Cons t ts)
  show ?case
  proof (cases i)
    case 0
    have "sum_list (map f (t' # ts)) + b = (f t' + b) + sum_list (map f ts)" by (simp add: ac_simps)
    also have "\<dots> = (f t + a) + sum_list (map f ts)" using Cons.prems 0 by simp
    finally show ?thesis using 0 by (simp add: ac_simps)
  next
    case (Suc j)
    then have "sum_list (map f (ts[j := t'])) + b = sum_list (map f ts) + a" using Cons by simp
    then show ?thesis using Suc by (simp add: add.assoc)
  qed
qed simp

lemma loop_left_le: "sum_list (map (\<lambda>t. loop_left h (r_pc t)) ts) \<le> 3 * length ts"
proof (induction ts)
  case (Cons t ts)
  have "loop_left h p \<le> 3" for p by (cases p) simp_all
  from this [of "r_pc t"] Cons.IH show ?case by simp
qed simp

lemma steps_left_stage:
  assumes "i < length ts" and "stages_left t' < stages_left (ts ! i)"
  shows "steps_left (h', ts[i := t']) < steps_left (h, ts)"
proof -
  have "sum_list (map stages_left (ts[i := t'])) + (stages_left (ts ! i) - stages_left t') = sum_list (map stages_left ts) + 0"
    using assms by (intro sum_map_update) simp_all
  then have "sum_list (map stages_left (ts[i := t'])) + 1 \<le> sum_list (map stages_left ts)" using assms(2) by linarith
  then have "(3 * length ts + 1) * (sum_list (map stages_left (ts[i := t'])) + 1) \<le> (3 * length ts + 1) * sum_list (map stages_left ts)"
    by (rule mult_le_mono2)
  then show ?thesis using loop_left_le [of h' "ts[i := t']"] by (simp add: steps_left_def)
qed

lemma steps_left_loop:
  assumes "i < length ts" and "stages_left t' = stages_left (ts ! i)" and "loop_left h (r_pc t') < loop_left h (r_pc (ts ! i))"
  shows "steps_left (h, ts[i := t']) < steps_left (h, ts)"
proof -
  have "sum_list (map stages_left (ts[i := t'])) + 0 = sum_list (map stages_left ts) + 0" using assms by (intro sum_map_update) simp_all
  moreover have "sum_list (map (\<lambda>t. loop_left h (r_pc t)) (ts[i := t'])) + (loop_left h (r_pc (ts ! i)) - loop_left h (r_pc t')) =
      sum_list (map (\<lambda>t. loop_left h (r_pc t)) ts) + 0" using assms by (intro sum_map_update) simp_all
  ultimately show ?thesis using assms(3) by (simp add: steps_left_def)
qed

lemma atomic_step_left:
  assumes "atomic_step h p = Some (h', p')"
  shows "stage_left p' < stage_left p \<or> h' = h \<and> stage_left p' = stage_left p \<and> loop_left h p' < loop_left h p"
  using assms by (cases p) (auto split: if_splits bind_splits)

lemma record_step_left: "record_step s s' \<Longrightarrow> steps_left s' < steps_left s"
proof (induction rule: record_step.induct)
  case (start_call i ts v vs h)
  show ?case
    using start_call by (intro steps_left_stage) (simp_all add: stages_left_def hdr_record_value_atomic_def Let_def)
next
  case (go_on i ts h h' p)
  from atomic_step_left [OF go_on(2)] show ?case
  proof
    assume "stage_left p < stage_left (r_pc (ts ! i))"
    then show ?thesis using go_on(1) by (intro steps_left_stage) (simp_all add: stages_left_def)
  next
    assume *: "h' = h \<and> stage_left p = stage_left (r_pc (ts ! i)) \<and> loop_left h p < loop_left h (r_pc (ts ! i))"
    then show ?thesis using go_on(1) by (auto intro!: steps_left_loop simp: stages_left_def)
  qed
qed

section \<open>What the histogram holds while threads record\<close>

text \<open>The values a thread has taken past a stage: those of ended calls, and that of its call if it has.\<close>

definition seen :: "nat \<Rightarrow> recorder \<Rightarrow> int multiset" where
  "seen k t = mset (r_past t) + (if stage_left (r_pc t) < k then mset (pc_value (r_pc t)) else {#})"

definition all_seen :: "nat \<Rightarrow> recorder list \<Rightarrow> int multiset" where
  "all_seen k ts = sum_list (map (seen k) ts)"

definition all_values :: "hdr_histogram \<Rightarrow> recorder list \<Rightarrow> int multiset" where
  "all_values h ts = sum_list (map (\<lambda>t. seen 5 t + mset (filter (accepts h) (r_todo t))) ts)"

fun pc_ok :: "hdr_histogram \<Rightarrow> rec_pc \<Rightarrow> bool" where
  "pc_ok h Rec_idle \<longleftrightarrow> True"
| "pc_ok h (Rec_count index value) \<longleftrightarrow> accepts h value \<and> index = counts_index_for h value"
| "pc_ok h (Cas_min value cur) \<longleftrightarrow> accepts h value \<and> value \<noteq> 0 \<and> value < cur"
| "pc_ok h (Cas_max value cur) \<longleftrightarrow> accepts h value \<and> cur < value"
| "pc_ok h (Rec_total value) \<longleftrightarrow> accepts h value"
| "pc_ok h (Load_min value) \<longleftrightarrow> accepts h value"
| "pc_ok h (Load_max value) \<longleftrightarrow> accepts h value"

definition counts_of :: "hdr_histogram \<Rightarrow> int multiset \<Rightarrow> int list" where
  "counts_of h m = map (\<lambda>i. int (size (filter_mset (\<lambda>v. counts_index_for h v = int i) m))) [0..<nat (counts_len h)]"

definition recording :: "hdr_histogram \<Rightarrow> hdr_histogram \<times> recorder list \<Rightarrow> bool" where
  "recording h0 = (\<lambda>(h, ts).
     layout h = layout h0 \<and> counts h = counts_of h0 (all_seen 4 ts) \<and> total_count h = int (size (all_seen 3 ts)) \<and>
     min_value h = Min (insert INT64_MAX (set_mset (all_seen 2 ts) - {0})) \<and> max_value h = Max (insert 0 (set_mset (all_seen 1 ts))) \<and>
     (\<forall>t \<in> set ts. pc_ok h0 (r_pc t) \<and> (\<forall>v \<in> set (r_todo t). v < 2 ^ 63)))"

lemma all_seen_update:
  "i < length ts \<Longrightarrow> seen k t' = seen k (ts ! i) + d \<Longrightarrow> all_seen k (ts[i := t']) = all_seen k ts + d"
  using sum_map_update [of i ts "seen k" t' "{#}" d] by (simp add: all_seen_def)

lemma go_on_seen:
  assumes "atomic_step h p = Some (h', p')" and "r_pc t = p" and "0 < k"
  shows "seen k (t\<lparr> r_pc := p', r_past := (if p' = Rec_idle then pc_value p else []) @ r_past t \<rparr>) =
     seen k t + (if stage_left p' < k \<and> k \<le> stage_left p then mset (pc_value p) else {#})"
  using assms by (cases p) (auto simp: seen_def split: if_splits bind_splits)

lemma counts_of_add:
  assumes "accepts h v" and "hdr_wf h" and "size m + 1 < 2 ^ 63"
  shows "(counts_of h m)[nat (counts_index_for h v) := s64 (counts_of h m ! nat (counts_index_for h v) + 1)] = counts_of h (m + {# v #})"
proof -
  note i = accepts_index [OF assms(2,1)]
  have "size (filter_mset P m) + 1 < 2 ^ 63" for P
    using assms(3) size_filter_mset_lesseq [of P m] by linarith
  then have "s64 (int (size (filter_mset P m)) + 1) = int (size (filter_mset P m)) + 1" for P
    by (intro s64_id) (auto simp: less_eq_nat.simps)
  then show ?thesis using i by (intro nth_equalityI) (auto simp: counts_of_def nth_list_update)
qed

lemma min_add:
  assumes "finite S"
  shows "Min (insert M (insert v S - {0 :: int})) =
     (if v = 0 \<or> Min (insert M (S - {0})) \<le> v then Min (insert M (S - {0})) else v)"
proof (cases "v = 0")
  case False
  then have "insert M (insert v S - {0}) = insert v (insert M (S - {0}))" by auto
  then have "Min (insert M (insert v S - {0})) = min v (Min (insert M (S - {0})))" using assms by simp
  then show ?thesis using False by (simp add: min_def)
qed simp

lemma max_add:
  assumes "finite S"
  shows "Max (insert (0 :: int) (insert v S)) = (if v \<le> Max (insert 0 S) then Max (insert 0 S) else v)"
proof -
  have "Max (insert v (insert 0 S)) = max v (Max (insert 0 S))" using assms by (intro Max_insert) simp_all
  then have "Max (insert 0 (insert v S)) = max v (Max (insert 0 S))" by (simp only: insert_commute [of 0 v])
  then show ?thesis by (simp add: max_def)
qed

lemma layout_fields_offset: "layout h = layout h0 \<Longrightarrow> normalizing_index_offset h = normalizing_index_offset h0"
  using layout_funs(9) by metis

lemma start_value:
  assumes "hdr_wf h0" and "layout h = layout h0" and "v < 2 ^ 63"
  shows "hdr_record_value_atomic h v = (if accepts h0 v then Rec_count (counts_index_for h0 v) v else Rec_idle)"
proof (cases "accepts h0 v")
  case True
  then show ?thesis using accepts_index [OF assms(1) True] by (simp add: hdr_record_value_atomic_def layout_eq [OF assms(2)] accepts_def)
next
  case False
  then have "v < 0 \<or> \<not> counts_index_for h0 v < counts_len h0"
    using index_in_range [OF assms(1) _ assms(3)] by (auto simp: accepts_def limit_def)
  then show ?thesis using False by (auto simp: hdr_record_value_atomic_def layout_eq [OF assms(2)] Let_def)
qed

lemma seen_size: "k \<le> 5 \<Longrightarrow> size (all_seen k ts) \<le> size (all_values h ts)"
proof -
  assume "k \<le> 5"
  then have "size (seen k t) \<le> size (seen 5 t)" for t by (simp add: seen_def)
  then show ?thesis by (induction ts) (simp_all add: all_seen_def all_values_def add_mono trans_le_add1)
qed

lemma go_on_values:
  assumes "i < length ts" and "atomic_step h (r_pc (ts ! i)) = Some (h', p)"
    and t': "t' = (ts ! i)\<lparr> r_pc := p, r_past := (if p = Rec_idle then pc_value (r_pc (ts ! i)) else []) @ r_past (ts ! i) \<rparr>"
  shows "0 < k \<Longrightarrow> all_seen k (ts[i := t']) =
           all_seen k ts + (if stage_left p < k \<and> k \<le> stage_left (r_pc (ts ! i)) then mset (pc_value (r_pc (ts ! i))) else {#})"
    and "all_values h0 (ts[i := t']) = all_values h0 ts"
proof -
  note s = go_on_seen [OF assms(2) refl, folded t']
  show "0 < k \<Longrightarrow> all_seen k (ts[i := t']) =
           all_seen k ts + (if stage_left p < k \<and> k \<le> stage_left (r_pc (ts ! i)) then mset (pc_value (r_pc (ts ! i))) else {#})"
    by (rule all_seen_update [OF assms(1)]) (rule s)
  have "\<not> 5 \<le> stage_left q" for q by (cases q) simp_all
  then have "seen 5 t' = seen 5 (ts ! i)" using s [of 5] by simp
  moreover have "r_todo t' = r_todo (ts ! i)" by (simp add: t')
  ultimately show "all_values h0 (ts[i := t']) = all_values h0 ts"
    using sum_map_update [OF assms(1), of "\<lambda>t. seen 5 t + mset (filter (accepts h0) (r_todo t))" t' "{#}" "{#}"] by (simp add: all_values_def)
qed

lemma go_on_recording:
  assumes wf: "hdr_wf h0" and inv: "recording h0 (h, ts)" and i: "i < length ts" and small: "size (all_values h0 ts) < 2 ^ 63"
    and st: "atomic_step h (r_pc (ts ! i)) = Some (h', p)"
    and t': "t' = (ts ! i)\<lparr> r_pc := p, r_past := (if p = Rec_idle then pc_value (r_pc (ts ! i)) else []) @ r_past (ts ! i) \<rparr>"
  shows "recording h0 (h', ts[i := t'])"
proof -
  note seen = go_on_values(1) [OF i st t']
  have lay: "layout h = layout h0" using inv by (simp add: recording_def)
  have ok: "pc_ok h0 (r_pc (ts ! i))" using inv i by (simp add: recording_def)
  have small': "size (all_seen k (ts[i := t'])) < 2 ^ 63" if "k \<le> 5" for k
    using seen_size [OF that, of "ts[i := t']" h0] go_on_values(2) [OF i st t', of h0] small by simp
  have cs: "counts h = counts_of h0 (all_seen 4 ts)" using inv by (simp add: recording_def)
  have norm: "normalize_index h ci = ci" for ci
    using wf layout_fields_offset [OF lay] by (simp add: normalize_index_def hdr_wf_def)
  have "layout h' = layout h0 \<and> pc_ok h0 p \<and> counts h' = counts_of h0 (all_seen 4 (ts[i := t'])) \<and>
     total_count h' = int (size (all_seen 3 (ts[i := t']))) \<and>
     min_value h' = Min (insert INT64_MAX (set_mset (all_seen 2 (ts[i := t'])) - {0})) \<and>
     max_value h' = Max (insert 0 (set_mset (all_seen 1 (ts[i := t']))))"
  proof (cases "r_pc (ts ! i)")
    case Rec_idle
    then show ?thesis using st by simp
  next
    case (Rec_count ci v)
    then have acc: "accepts h0 v" and ci: "ci = counts_index_for h0 v" using ok by simp_all
    have "0 \<le> ci" "ci < int (length (counts h))" using accepts_index [OF wf acc] by (simp_all add: ci cs counts_of_def)
    then have st': "h' = h\<lparr> counts := (counts h)[nat ci := s64 (counts h ! nat ci + 1)] \<rparr>" "p = Rec_total v"
      using st Rec_count by (simp_all add: counts_inc_normalised_atomic_def counts_get_direct_def norm Let_def)
    have "size (all_seen 4 ts) + 1 < 2 ^ 63" using small' [of 4] seen [of 4] Rec_count st'(2) by simp
    then have "counts h' = counts_of h0 (all_seen 4 ts + {# v #})" using counts_of_add [OF acc wf] by (simp add: st'(1) cs ci)
    then show ?thesis using st' seen [of 4] seen [of 3] seen [of 2] seen [of 1] inv acc Rec_count by (simp add: recording_def layout_def)
  next
    case (Rec_total v)
    have "size (all_seen 3 ts) + 1 < 2 ^ 63" using small' [of 3] seen [of 3] Rec_total st by auto
    then have "s64 (int (size (all_seen 3 ts)) + 1) = int (size (all_seen 3 ts)) + 1" by (intro s64_id) simp_all
    then show ?thesis using st seen [of 4] seen [of 3] seen [of 2] seen [of 1] inv ok Rec_total by (auto simp: recording_def layout_def)
  next
    case (Load_min v)
    then show ?thesis using st seen [of 4] seen [of 3] seen [of 2] seen [of 1] inv ok
      by (auto simp: recording_def min_add simp del: Min_gr_iff split: if_splits)
  next
    case (Cas_min v cur)
    then show ?thesis using st seen [of 4] seen [of 3] seen [of 2] seen [of 1] inv ok
      by (auto simp: recording_def layout_def min_add simp del: Min_gr_iff Min_insert split: if_splits)
  next
    case (Load_max v)
    then show ?thesis using st seen [of 4] seen [of 3] seen [of 2] seen [of 1] inv ok
      by (auto simp: recording_def max_add simp del: Max_less_iff Max_insert split: if_splits)
  next
    case (Cas_max v cur)
    then show ?thesis using st seen [of 4] seen [of 3] seen [of 2] seen [of 1] inv ok
      by (auto simp: recording_def layout_def max_add simp del: Max_less_iff Max_insert split: if_splits)
  qed
  moreover have "\<forall>v \<in> set (r_todo t'). v < 2 ^ 63" using inv nth_mem [OF i] by (auto simp: t' recording_def)
  ultimately show ?thesis using inv by (auto simp: recording_def t' dest!: subsetD [OF set_update_subset_insert])
qed

lemma start_recording:
  assumes wf: "hdr_wf h0" and inv: "recording h0 (h, ts)" and i: "i < length ts" and idle: "r_pc (ts ! i) = Rec_idle"
    and todo: "r_todo (ts ! i) = v # vs" and t': "t' = (ts ! i)\<lparr> r_todo := vs, r_pc := hdr_record_value_atomic h v \<rparr>"
  shows "recording h0 (h, ts[i := t'])" and "all_values h0 (ts[i := t']) = all_values h0 ts"
proof -
  have "v < 2 ^ 63" "layout h = layout h0" using inv i todo by (auto simp: recording_def dest!: nth_mem)
  then have p: "r_pc t' = (if accepts h0 v then Rec_count (counts_index_for h0 v) v else Rec_idle)"
    using start_value [OF wf] by (simp add: t')
  have "seen k t' = seen k (ts ! i)" if "k \<le> 4" for k using that by (simp add: seen_def p idle) (simp add: t')
  then have same: "all_seen k (ts[i := t']) = all_seen k ts" if "k \<le> 4" for k using all_seen_update [OF i, of k t' "{#}"] that by simp
  have "pc_ok h0 (r_pc t')" by (simp add: p)
  moreover have "\<forall>w \<in> set (r_todo t'). w < 2 ^ 63" using inv i todo by (auto simp: t' recording_def dest!: nth_mem)
  ultimately show "recording h0 (h, ts[i := t'])"
    using inv by (auto simp: recording_def same dest!: subsetD [OF set_update_subset_insert])
  have "seen 5 t' + mset (filter (accepts h0) (r_todo t')) = seen 5 (ts ! i) + mset (filter (accepts h0) (r_todo (ts ! i)))"
    using p by (simp add: seen_def todo idle) (simp add: t')
  then show "all_values h0 (ts[i := t']) = all_values h0 ts"
    using sum_map_update [OF i, of "\<lambda>t. seen 5 t + mset (filter (accepts h0) (r_todo t))" t' "{#}" "{#}"] by (simp add: all_values_def)
qed

lemma record_step_recording:
  assumes "record_step s s'" and "hdr_wf h0" and "recording h0 s" and "size (all_values h0 (snd s)) < 2 ^ 63"
  shows "recording h0 s' \<and> all_values h0 (snd s') = all_values h0 (snd s)"
  using assms
proof (induction rule: record_step.induct)
  case (start_call i ts v vs h)
  then show ?case using start_recording [OF _ _ start_call(1-3) refl] by simp
next
  case (go_on i ts h h' p)
  then show ?case using go_on_recording [OF _ _ go_on(1) _ go_on(2) refl] go_on_values(2) [OF go_on(1,2) refl] by simp
qed

interpretation rs: preserved record_step
  "\<lambda>s. hdr_wf h0 \<and> recording h0 s \<and> all_values h0 (snd s) = vs \<and> size vs < 2 ^ 63" for h0 vs
  by unfold_locales (use record_step_recording in blast)

lemma record_steps_recording:
  assumes "record_step\<^sup>*\<^sup>* s s'" and "hdr_wf h0" and "recording h0 s" and "size (all_values h0 (snd s)) < 2 ^ 63"
  shows "recording h0 s' \<and> all_values h0 (snd s') = all_values h0 (snd s)"
  using rs.reach_inv [OF assms(1), of h0 "all_values h0 (snd s)"] assms(2-4) by simp

lemma recorders_values: "all_values h (recorders vss) = mset (filter (accepts h) (concat vss))"
  by (induction vss) (simp_all add: all_values_def recorders_def seen_def)

lemma recorders_recording:
  assumes "hdr_holds h []" and "\<forall>v \<in> set (concat vss). v < 2 ^ 63"
  shows "recording h (h, recorders vss)"
proof -
  have "all_seen k (recorders vss) = {#}" for k by (induction vss) (simp_all add: all_seen_def recorders_def seen_def)
  then show ?thesis using assms by (auto simp: recording_def recorders_def hdr_holds_def counts_of_def values_at_def)
qed

lemma counts_of_values: "counts_of h (mset vs) = map (values_at h vs) [0..<nat (counts_len h)]"
  by (simp add: counts_of_def values_at_def flip: mset_filter)

text \<open>What a histogram holds, with its layout, determines it.\<close>

lemma holds_unique:
  assumes "hdr_holds h vs" and "hdr_holds h' vs'" and "mset vs = mset vs'" and "layout h = layout h'"
  shows "h = h'"
proof -
  have "counts h = counts_of h (mset vs)" "counts h' = counts_of h' (mset vs')" using assms(1,2) by (simp_all add: hdr_holds_def counts_of_values)
  then have "counts h = counts h'" using assms(3) layout_eq [OF assms(4)] by (simp add: counts_of_def)
  moreover have "total_count h = total_count h'" "min_value h = min_value h'" "max_value h = max_value h'"
    using assms(1,2) mset_eq_length [OF assms(3)] mset_eq_setD [OF assms(3)] by (simp_all add: hdr_holds_def)
  ultimately show ?thesis using assms(4) by (cases h; cases h') (simp add: layout_def)
qed

lemma recorded_holds:
  assumes "hdr_wf h0" and "recording h0 (h, ts)" and "all_recorded ts" and "all_values h0 ts = mset vs" and "\<forall>v \<in> set vs. accepts h0 v"
  shows "hdr_holds h vs" and "layout h = layout h0"
proof -
  have "seen k t = mset (r_past t)" if "t \<in> set ts" for k t using that assms(3) by (simp add: all_recorded_def seen_def)
  then have "all_seen k ts = all_values h0 ts" for k
    using assms(3) by (auto simp: all_seen_def all_values_def all_recorded_def intro!: arg_cong [where f = sum_list])
  then have seen: "all_seen k ts = mset vs" for k using assms(4) by simp
  show lay: "layout h = layout h0" using assms(2) by (simp add: recording_def)
  have cs: "counts h = counts_of h0 (mset vs)" using assms(2) by (simp add: recording_def seen)
  have "length (counts h) = length (counts h0)" using assms(1) by (simp add: cs counts_of_def hdr_wf_def)
  then have wf: "hdr_wf h" using layout_wf [OF lay] assms(1) by simp
  have "counts h = map (values_at h vs) [0..<nat (counts_len h)]"
    using cs by (simp add: counts_of_values layout_eq [OF lay] values_at_def)
  then show "hdr_holds h vs" using wf assms(2,5) by (simp add: hdr_holds_def recording_def seen layout_eq [OF lay])
qed

lemma can_step:
  assumes wf: "hdr_wf h0" and inv: "recording h0 (h, ts)" and "\<not> all_recorded ts"
  shows "\<exists>s'. record_step (h, ts) s'"
proof -
  obtain i where i: "i < length ts" "r_todo (ts ! i) \<noteq> [] \<or> r_pc (ts ! i) \<noteq> Rec_idle"
    using assms(3) by (auto simp: all_recorded_def in_set_conv_nth)
  have ok: "pc_ok h0 (r_pc (ts ! i))" and lay: "layout h = layout h0" using inv i(1) by (simp_all add: recording_def)
  have len: "length (counts h) = nat (counts_len h0)" using inv by (simp add: recording_def counts_of_def)
  have norm: "normalize_index h ci = ci" for ci
    using wf layout_fields_offset [OF lay] by (simp add: normalize_index_def hdr_wf_def)
  show ?thesis
  proof (cases "r_pc (ts ! i) = Rec_idle")
    case True
    then show ?thesis using i by (cases "r_todo (ts ! i)") (auto intro: start_call)
  next
    case False
    have "0 \<le> ci \<and> ci < int (length (counts h))" if "r_pc (ts ! i) = Rec_count ci v" for ci v
      using that ok accepts_index [OF wf, of v] len by simp
    then have "\<exists>x. atomic_step h (r_pc (ts ! i)) = Some x"
      using False by (cases "r_pc (ts ! i)") (simp_all add: counts_inc_normalised_atomic_def counts_get_direct_def norm Let_def)
    then obtain h' p where "atomic_step h (r_pc (ts ! i)) = Some (h', p)" by fastforce
    then show ?thesis using go_on [OF i(1)] by blast
  qed
qed

lemma can_finish:
  assumes "hdr_wf h0" and "recording h0 s" and "size (all_values h0 (snd s)) < 2 ^ 63"
  shows "\<exists>h' ts'. record_step\<^sup>*\<^sup>* s (h', ts') \<and> all_recorded ts'"
  using assms(2,3)
proof (induction "steps_left s" arbitrary: s rule: less_induct)
  case less
  obtain h ts where s: "s = (h, ts)" by fastforce
  show ?case
  proof (cases "all_recorded ts")
    case True
    then show ?thesis using s by blast
  next
    case False
    then obtain s' where s': "record_step s s'" using can_step [OF assms(1)] less.prems(1) s by blast
    then obtain h' ts' where "record_step\<^sup>*\<^sup>* s' (h', ts')" "all_recorded ts'"
      using less.hyps [OF record_step_left [OF s']] record_step_recording [OF s' assms(1) less.prems] less.prems(2) by auto
    then show ?thesis using s' by (blast intro: converse_rtranclp_into_rtranclp)
  qed
qed

section \<open>Properties\<close>

text \<open>
  C12. However the accesses of the threads interleave, when all of them have recorded their values, the histogram is the one
  that recording the same values by one thread gives: no value is lost or counted twice, and the extremes are right.
\<close>

theorem atomic_recording_exact:
  assumes "hdr_holds h []" and "\<forall>v \<in> set (concat vss). v < 2 ^ 63" and "length (concat vss) < 2 ^ 63"
    and "record_step\<^sup>*\<^sup>* (h, recorders vss) (h', ts)" and "all_recorded ts"
  shows "record_list h (concat vss) = Some h'"
proof -
  let ?vs = "filter (accepts h) (concat vss)"
  have wf: "hdr_wf h" using assms(1) by (simp add: hdr_holds_def)
  have "length ?vs < 2 ^ 63" using assms(3) length_filter_le [of "accepts h" "concat vss"] by linarith
  then have "size (all_values h (recorders vss)) < 2 ^ 63" by (simp only: recorders_values size_mset)
  then have inv: "recording h (h', ts)" "all_values h ts = mset ?vs"
    using record_steps_recording [OF assms(4) wf recorders_recording [OF assms(1,2)]] by (simp_all add: recorders_values)
  have holds: "hdr_holds h' ?vs" "layout h' = layout h" using recorded_holds [OF wf inv(1) assms(5) inv(2)] by simp_all
  obtain g where "record_list h (concat vss) = Some g" "hdr_holds g (rev ?vs)" "layout g = layout h"
    using record_list_holds [OF assms(1), of "concat vss"] assms(2,3) by auto
  then show ?thesis using holds_unique [OF holds(1), of g "rev ?vs"] holds(2) by simp
qed

text \<open>
  C28. Recording is lock-free: from every state the threads can reach, the recording of all values can be ended, and no schedule makes
  the loops around the compare-and-swap instructions run forever.
\<close>

theorem atomic_recording_ends:
  assumes "hdr_holds h []" and "\<forall>v \<in> set (concat vss). v < 2 ^ 63" and "length (concat vss) < 2 ^ 63"
    and "record_step\<^sup>*\<^sup>* (h, recorders vss) s"
  shows "(\<exists>h' ts. record_step\<^sup>*\<^sup>* s (h', ts) \<and> all_recorded ts) \<and>
         (\<nexists>run. run 0 = s \<and> (\<forall>n. record_step (run n) (run (Suc n))))"
proof
  have wf: "hdr_wf h" using assms(1) by (simp add: hdr_holds_def)
  have "length (filter (accepts h) (concat vss)) < 2 ^ 63" using assms(3) length_filter_le [of "accepts h" "concat vss"] by linarith
  then have small: "size (all_values h (recorders vss)) < 2 ^ 63" by (simp only: recorders_values size_mset)
  show "\<exists>h' ts. record_step\<^sup>*\<^sup>* s (h', ts) \<and> all_recorded ts"
    using record_steps_recording [OF assms(4) wf recorders_recording [OF assms(1,2)]] small by (intro can_finish [OF wf]) simp_all
  show "\<nexists>run. run 0 = s \<and> (\<forall>n. record_step (run n) (run (Suc n)))"
  proof
    assume "\<exists>run. run 0 = s \<and> (\<forall>n. record_step (run n) (run (Suc n)))"
    then obtain run where run: "\<forall>n. record_step (run n) (run (Suc n))" by blast
    have "\<forall>n. (run (Suc n), run n) \<in> measure steps_left" using record_step_left [OF run [rule_format]] by simp
    then show False using wf_measure [of steps_left] by (simp only: wf_iff_no_infinite_down_chain) blast
  qed
qed

text \<open>Two threads, the second of which is overtaken between its load and its compare-and-swap.\<close>

definition example_hist :: hdr_histogram where
  "example_hist = \<lparr> lowest_trackable_value = 1, highest_trackable_value = 100, unit_magnitude = 0, significant_figures = 1,
     sub_bucket_half_count_magnitude = 4, sub_bucket_half_count = 16, sub_bucket_mask = 31, sub_bucket_count = 32, bucket_count = 3,
     min_value = INT64_MAX, max_value = 0, normalizing_index_offset = 0, conversion_ratio = ONE_BITS, counts_len = 64, total_count = 0,
     counts = replicate 64 0 \<rparr>"

lemma example_holds: "hdr_holds example_hist []"
  by (rule hdr_holds_init) (simp_all add: example_hist_def hdr_wf_def)

theorem atomic_recording_exact_witness:
  "\<exists>h' ts. record_step\<^sup>*\<^sup>* (example_hist, recorders [[7, 40], [- 3, 7]]) (h', ts) \<and> all_recorded ts \<and>
     record_list example_hist [7, 40, - 3, 7] = Some h'"
proof -
  have "recording example_hist (example_hist, recorders [[7, 40], [- 3, 7]])" by (intro recorders_recording example_holds) simp
  moreover have "size (all_values example_hist (recorders [[7, 40], [- 3, 7]])) < 2 ^ 63"
    by (simp add: recorders_values)
  ultimately obtain h' ts where "record_step\<^sup>*\<^sup>* (example_hist, recorders [[7, 40], [- 3, 7]]) (h', ts)" "all_recorded ts"
    using can_finish [of example_hist "(example_hist, recorders [[7, 40], [- 3, 7]])"] example_holds by (auto simp: hdr_holds_def)
  then show ?thesis using atomic_recording_exact [OF example_holds, of "[[7, 40], [- 3, 7]]" h' ts] by auto
qed

theorem atomic_recording_ends_witness:
  "\<exists>h' ts. record_step\<^sup>*\<^sup>* (example_hist, recorders [[7, 40], [- 3, 7]]) (h', ts) \<and> all_recorded ts"
  using atomic_recording_ends [OF example_holds, of "[[7, 40], [- 3, 7]]"] by simp

end
