(* ===== verification/Obj_Validate.thy ===== *)
theory Obj_Validate
  imports Obj_Populate Workload
begin

text \<open>
  The validators of \<^verbatim>\<open>object_spec.c\<close> that the tests are built with (\<^verbatim>\<open>_TEST\<close>): whether a value is one that a specification
  describes.  With \<^verbatim>\<open>do_assert\<close> a failed check aborts the test, without it the validator returns false.
  \<open>Undefined\<close> stands for reading past an array or using a NULL value.

  The lookup in an ordered map belongs to the client library: it is the argument \<open>get\<close>.
\<close>

section \<open>Checks\<close>

datatype outcome = Returns bool | Aborts | Undefined

definition check :: "bool \<Rightarrow> bool \<Rightarrow> outcome \<Rightarrow> outcome" where
  "check do_assert cond r = (if cond then r else if do_assert then Aborts else Returns False)"

lemma check_simps [simp]: "check d True r = r" "check True False r = Aborts" "check False False r = Returns False"
  by (simp_all add: check_def)

section \<open>Comparison of constants\<close>

type_synonym om_getter = "(as_val \<times> as_val) list \<Rightarrow> as_val \<Rightarrow> as_val option"

fun dbg_as_val_cmp :: "om_getter \<Rightarrow> bool \<Rightarrow> as_val \<Rightarrow> as_val \<Rightarrow> outcome"
  and dbg_as_list_cmp :: "om_getter \<Rightarrow> bool \<Rightarrow> as_val list \<Rightarrow> as_val list \<Rightarrow> outcome"
  and dbg_as_map_cmp :: "om_getter \<Rightarrow> bool \<Rightarrow> (as_val \<times> as_val) list \<Rightarrow> (as_val \<times> as_val) list \<Rightarrow> bool \<Rightarrow> outcome" where
  "dbg_as_val_cmp get d (As_bool a) (As_bool b) = check d (a = b) (Returns True)"
| "dbg_as_val_cmp get d (As_int a) (As_int b) = check d (a = b) (Returns True)"
| "dbg_as_val_cmp get d (As_str a) (As_str b) = check d (cstr a = cstr b) (Returns True)"
| "dbg_as_val_cmp get d (As_dbl a) (As_dbl b) = check d (double_eq a b) (Returns True)"
| "dbg_as_val_cmp get d (As_list as) (As_list bs) = check d (length as = length bs) (dbg_as_list_cmp get d as bs)"
| "dbg_as_val_cmp get d (As_map m) (As_map m') = check d (length m = length m') (dbg_as_map_cmp get d m m' True)"
| "dbg_as_val_cmp get d _ _ = check d False (Returns True)"
| "dbg_as_list_cmp get d [] bs = Returns True"
| "dbg_as_list_cmp get d (a # as) (b # bs) =
     (case dbg_as_val_cmp get d a b of Returns r \<Rightarrow> check d r (dbg_as_list_cmp get d as bs) | x \<Rightarrow> x)"
| "dbg_as_list_cmp get d (a # as) [] = Undefined"
| "dbg_as_map_cmp get d [] other same = check d same (Returns True)"
| "dbg_as_map_cmp get d ((k, v) # m) other same =
     (case get other k of
        None \<Rightarrow> check d False (Returns True)
      | Some w \<Rightarrow> (case dbg_as_val_cmp get d v w of Returns r \<Rightarrow> dbg_as_map_cmp get d m other (same \<and> r) | x \<Rightarrow> x))"

section \<open>Validation\<close>

text \<open>The bounds that are written out for each range.\<close>

definition dbg_int_in_range :: "u8 \<Rightarrow> u64 \<Rightarrow> bool" where
  "dbg_int_in_range rg val =
     (if rg = 0 then 0 \<le> val \<and> val < 256
      else if rg = 1 then 256 \<le> val \<and> val < 65536
      else if rg = 2 then 65536 \<le> val \<and> val < 0x1000000
      else if rg = 3 then 0x1000000 \<le> val \<and> val < 0x100000000
      else if rg = 4 then 0x100000000 \<le> val \<and> val < 0x10000000000
      else if rg = 5 then 0x10000000000 \<le> val \<and> val < 0x1000000000000
      else if rg = 6 then 0x1000000000000 \<le> val \<and> val < 0x100000000000000
      else rg = 7 \<longrightarrow> 0x100000000000000 \<le> val)"

definition dbg_validate_int :: "u8 \<Rightarrow> bool \<Rightarrow> u64 \<Rightarrow> outcome" where
  "dbg_validate_int rg d val = check d (rg \<le> 7) (check d (dbg_int_in_range rg val) (Returns True))"

definition dbg_validate_string :: "u32 \<Rightarrow> bool \<Rightarrow> string \<Rightarrow> outcome" where
  "dbg_validate_string len d s =
     check d (unat len = length s)
       (check d (list_all (\<lambda>c. 97 \<le> cc c \<and> cc c \<le> 122 \<or> 48 \<le> cc c \<and> cc c \<le> 57) s) (Returns True))"

text \<open>The assertion compares constants as \<^verbatim>\<open>float\<close>, the comparison without it as \<^verbatim>\<open>double\<close>.\<close>

definition dbg_double_eq :: "bool \<Rightarrow> u64 \<Rightarrow> u64 \<Rightarrow> bool" where
  "dbg_double_eq d x y = (if d then fp_eq (fp_to_float (double_fp x)) (fp_to_float (double_fp y)) else double_eq x y)"

text \<open>
  The elements of a list: for each element of the specification its repetitions, until all elements of the list are seen.  The result of the
  validator is not used.
\<close>

fun repeat_valid :: "nat \<Rightarrow> (as_val \<Rightarrow> outcome) \<Rightarrow> as_val list \<Rightarrow> outcome" where
  "repeat_valid 0 f vs = Returns True"
| "repeat_valid (Suc n) f [] = Undefined"
| "repeat_valid (Suc n) f (v # vs) = (case f v of Returns _ \<Rightarrow> repeat_valid n f vs | x \<Rightarrow> x)"

fun dbg_validate_list :: "bool \<Rightarrow> (u32 \<times> (bool \<Rightarrow> as_val \<Rightarrow> outcome)) list \<Rightarrow> as_val list \<Rightarrow> outcome" where
  "dbg_validate_list d es [] = Returns True"
| "dbg_validate_list d [] (v # vs) = Undefined"
| "dbg_validate_list d ((n, f) # es) (v # vs) =
     (case repeat_valid (unat n) (f d) (v # vs) of
        Returns _ \<Rightarrow> dbg_validate_list d es (drop (unat n) (v # vs))
      | x \<Rightarrow> x)"

text \<open>
  The entries of a map: each pair is counted for the first entry that still expects pairs and describes it.  An entry is its number of repetitions
  with the validators of key and value.
\<close>

type_synonym entry = "nat \<times> (bool \<Rightarrow> as_val \<Rightarrow> outcome) \<times> (bool \<Rightarrow> as_val \<Rightarrow> outcome)"

fun both :: "outcome \<Rightarrow> outcome \<Rightarrow> outcome" where
  "both (Returns True) y = y"
| "both x y = x"

fun take_entry :: "entry list \<Rightarrow> as_val \<times> as_val \<Rightarrow> outcome + entry list" where
  "take_entry [] p = Inl (Returns False)"
| "take_entry ((n, f, g) # es) p =
     (if n = 0 then map_sum id (Cons (n, f, g)) (take_entry es p)
      else case both (f False (fst p)) (g False (snd p)) of
             Returns r \<Rightarrow> if r then Inr ((n - 1, f, g) # es) else map_sum id (Cons (n, f, g)) (take_entry es p)
           | x \<Rightarrow> Inl x)"

fun dbg_validate_map :: "bool \<Rightarrow> entry list \<Rightarrow> (as_val \<times> as_val) list \<Rightarrow> outcome" where
  "dbg_validate_map d es [] = check d (list_all (\<lambda>(n, _). n = 0) es) (Returns True)"
| "dbg_validate_map d es (p # ps) =
     (case take_entry es p of
        Inr es' \<Rightarrow> dbg_validate_map d es' ps
      | Inl (Returns _) \<Rightarrow> check d False (Returns True)
      | Inl x \<Rightarrow> x)"

primrec dbg_validate_bin_spec :: "om_getter \<Rightarrow> bin_spec \<Rightarrow> bool \<Rightarrow> as_val \<Rightarrow> outcome"
  and dbg_validate_kind :: "om_getter \<Rightarrow> bin_kind \<Rightarrow> bool \<Rightarrow> as_val \<Rightarrow> outcome"
  and dbg_validators :: "om_getter \<Rightarrow> kv_pair \<Rightarrow> entry" where
  "dbg_validate_bin_spec get (Bin n k) = dbg_validate_kind get k"
| "dbg_validate_kind get K_bool = (\<lambda>d v. case v of As_bool b \<Rightarrow> Returns True | _ \<Rightarrow> check d False (Returns True))"
| "dbg_validate_kind get (C_bool b) = (\<lambda>d v. case v of As_bool c \<Rightarrow> check d (c = b) (Returns True) | _ \<Rightarrow> check d False (Returns True))"
| "dbg_validate_kind get (K_int rg) = (\<lambda>d v. case v of As_int i \<Rightarrow> dbg_validate_int rg d i | _ \<Rightarrow> check d False (Returns True))"
| "dbg_validate_kind get (C_int i) = (\<lambda>d v. case v of As_int j \<Rightarrow> check d (j = i) (Returns True) | _ \<Rightarrow> check d False (Returns True))"
| "dbg_validate_kind get (K_str len) = (\<lambda>d v. case v of As_str s \<Rightarrow> dbg_validate_string len d s | _ \<Rightarrow> check d False (Returns True))"
| "dbg_validate_kind get (C_str s) =
     (\<lambda>d v. case v of As_str t \<Rightarrow> check d (cstr t = cstr s) (Returns True) | _ \<Rightarrow> check d False (Returns True))"
| "dbg_validate_kind get (K_bytes len) =
     (\<lambda>d v. case v of As_bytes bs \<Rightarrow> check d (unat len = length bs) (Returns True) | _ \<Rightarrow> check d False (Returns True))"
| "dbg_validate_kind get K_double = (\<lambda>d v. case v of As_dbl x \<Rightarrow> Returns True | _ \<Rightarrow> check d False (Returns True))"
| "dbg_validate_kind get (C_double x) =
     (\<lambda>d v. case v of As_dbl y \<Rightarrow> check d (dbg_double_eq d y x) (Returns True) | _ \<Rightarrow> check d False (Returns True))"
| "dbg_validate_kind get (K_list len es) =
     (\<lambda>d v. case v of
        As_list vs \<Rightarrow> check d (length vs = unat len) (dbg_validate_list d (zip (map n_repeats es) (map (dbg_validate_bin_spec get) es)) vs)
      | _ \<Rightarrow> check d False (Returns True))"
| "dbg_validate_kind get (C_list vs) = (\<lambda>d v. dbg_as_val_cmp get d (As_list vs) v)"
| "dbg_validate_kind get (K_map len kvs) =
     (\<lambda>d v. case v of
        As_map m \<Rightarrow> check d (length m = unat len) (dbg_validate_map d (map (dbg_validators get) kvs) m)
      | _ \<Rightarrow> check d False (Returns True))"
| "dbg_validate_kind get (C_map m) = (\<lambda>d v. dbg_as_val_cmp get d (As_map m) v)"
| "dbg_validators get (Kv k v) = (unat (n_repeats k), dbg_validate_bin_spec get k, dbg_validate_bin_spec get v)"

section \<open>Generated values are valid\<close>

text \<open>Specifications without maps, in which no constant is a NaN or an array of bytes.\<close>

primrec plain_val :: "as_val \<Rightarrow> bool" where
  "plain_val (As_bool b) = True"
| "plain_val (As_int i) = True"
| "plain_val (As_str s) = True"
| "plain_val (As_dbl d) = double_eq d d"
| "plain_val (As_bytes bs) = False"
| "plain_val (As_list vs) = list_all id (map plain_val vs)"
| "plain_val (As_map m) = False"

primrec plain_spec :: "bin_spec \<Rightarrow> bool" and plain_kind :: "bin_kind \<Rightarrow> bool" and plain_kv :: "kv_pair \<Rightarrow> bool" where
  "plain_spec (Bin n k) = plain_kind k"
| "plain_kind K_bool = True"
| "plain_kind (C_bool b) = True"
| "plain_kind (K_int rg) = True"
| "plain_kind (C_int i) = True"
| "plain_kind (K_str len) = True"
| "plain_kind (C_str s) = True"
| "plain_kind (K_bytes len) = True"
| "plain_kind K_double = True"
| "plain_kind (C_double d) = (double_fp d \<noteq> NaN)"
| "plain_kind (K_list len es) = list_all id (map plain_spec es)"
| "plain_kind (C_list vs) = list_all plain_val vs"
| "plain_kind (K_map len kvs) = False"
| "plain_kind (C_map m) = False"
| "plain_kv (Kv k v) = False"

lemma list_cmp_refl:
  assumes "\<And>v. v \<in> set vs \<Longrightarrow> dbg_as_val_cmp get True v v = Returns True"
  shows "dbg_as_list_cmp get True vs vs = Returns True"
  using assms by (induction vs) simp_all

lemma val_cmp_refl: "plain_val v \<Longrightarrow> dbg_as_val_cmp get True v v = Returns True"
proof (induction v)
  case (As_list vs)
  then show ?case by (simp add: list_cmp_refl list_all_iff)
qed simp_all

lemma repeat_valid_all:
  assumes "n \<le> length vs" and "\<And>v. v \<in> set (take n vs) \<Longrightarrow> f v = Returns True"
  shows "repeat_valid n f vs = Returns True"
  using assms by (induction n f vs rule: repeat_valid.induct) simp_all

lemma matches_valid:
  assumes "matches (zip ns ps) vs" and "length ns = length ps" and "length fs = length ps" and "\<forall>n \<in> set ns. 0 < n"
    and "\<And>i v. i < length ps \<Longrightarrow> (ps ! i) v \<Longrightarrow> (fs ! i) True v = Returns True"
  shows "dbg_validate_list True (zip ns fs) vs = Returns True"
  using assms
proof (induction ns arbitrary: ps fs vs)
  case (Cons n ns)
  obtain p ps' f fs' where e: "ps = p # ps'" "fs = f # fs'" using Cons.prems(2,3) by (cases ps; cases fs) auto
  have m: "unat n \<le> length vs" "list_all p (take (unat n) vs)" "matches (zip ns ps') (drop (unat n) vs)" using Cons.prems(1) e by auto
  have f: "f True v = Returns True" if "p v" for v using Cons.prems(5) [of 0 v] that e by simp
  have "dbg_validate_list True (zip ns fs') (drop (unat n) vs) = Returns True"
    using m(3) Cons.prems(2-4) Cons.prems(5) [of "Suc i" for i] e by (intro Cons.IH [of ps']) auto
  moreover have "repeat_valid (unat n) (f True) vs = Returns True" using m f by (intro repeat_valid_all) (auto simp: list_all_iff)
  moreover have "vs \<noteq> []" using m(1) Cons.prems(4) by (auto simp: unat_eq_0)
  ultimately show ?case using e by (cases vs) simp_all
qed simp

lemma int_range_valid:
  assumes "rg \<le> 7" and "int_lo rg \<le> unat i" and "unat i < int_hi rg"
  shows "dbg_int_in_range rg i"
proof -
  have "unat rg \<le> 7" using assms(1) by (simp add: word_le_nat_alt)
  then have "unat rg = 0 \<or> unat rg = 1 \<or> unat rg = 2 \<or> unat rg = 3 \<or> unat rg = 4 \<or> unat rg = 5 \<or> unat rg = 6 \<or> unat rg = 7"
    by linarith
  then consider "rg = 0" | "rg = 1" | "rg = 2" | "rg = 3" | "rg = 4" | "rg = 5" | "rg = 6" | "rg = 7"
    by (auto simp: word_unat_eq_iff)
  then show ?thesis
    using assms(2,3) by cases (simp_all add: dbg_int_in_range_def int_lo_def int_hi_def word_le_nat_alt word_less_nat_alt)
qed

lemma float_eq_refl: "x \<noteq> NaN \<Longrightarrow> fp_eq (fp_to_float x) (fp_to_float x)"
proof (cases x)
  case (Fin y)
  then show ?thesis by (simp add: to_float_def fp_round_def Let_def)
qed simp_all

lemma wf_spec_repeats: "wf_spec b \<Longrightarrow> 0 < n_repeats b"
  by (cases b) simp

lemma conforming_valid:
  shows "plain_spec b \<Longrightarrow> wf_spec b \<Longrightarrow> conf_spec b v \<Longrightarrow> dbg_validate_bin_spec get b True v = Returns True"
    and "plain_kind k \<Longrightarrow> wf_kind k \<Longrightarrow> conf_kind k v \<Longrightarrow> dbg_validate_kind get k True v = Returns True"
    and "plain_kv kv \<Longrightarrow> True"
proof (induction b and k and kv arbitrary: v and v)
  case (K_int rg)
  then show ?case using int_range_valid by (auto simp: dbg_validate_int_def split: as_val.splits)
next
  case (K_str len)
  then show ?case by (fastforce simp: dbg_validate_string_def check_def list_all_iff is_alphanum_def isdigit_def split: as_val.splits)
next
  case (C_double d)
  then show ?case using float_eq_refl by (simp add: dbg_double_eq_def)
next
  case (K_list len es)
  then obtain vs where vs: "v = As_list vs" "length vs = unat len" "matches (zip (map n_repeats es) (map conf_spec es)) vs"
    by (auto split: as_val.splits)
  have "dbg_validate_list True (zip (map n_repeats es) (map (dbg_validate_bin_spec get) es)) vs = Returns True"
  proof (rule matches_valid [OF vs(3)])
    show "\<forall>n \<in> set (map n_repeats es). 0 < n" using K_list.prems(2) by (auto simp: list_all_iff dest!: wf_spec_repeats)
    show "(map (dbg_validate_bin_spec get) es ! i) True v = Returns True" if "i < length (map conf_spec es)" "(map conf_spec es ! i) v" for i v
      using that K_list by (simp add: list_all_iff)
  qed simp_all
  then show ?case using vs by simp
next
  case (C_list vs)
  then show ?case using list_cmp_refl [of vs] val_cmp_refl by (simp add: list_all_iff)
qed (auto split: as_val.splits)

section \<open>Records\<close>

text \<open>
  \<^verbatim>\<open>_dbg_obj_spec_assert_valid\<close>: the bins of a record, all of them or the selected ones, each under its name.  A bin whose specification lies
  past the array has none.
\<close>

fun assert_bins ::
  "om_getter \<Rightarrow> 'rec record_api \<Rightarrow> nat \<Rightarrow> string \<Rightarrow> 'rec \<Rightarrow> (u32 \<times> bin_spec option) list \<Rightarrow> outcome" where
  "assert_bins get api sz name r [] = Returns True"
| "assert_bins get api sz name r ((i, None) # ps) = Undefined"
| "assert_bins get api sz name r ((i, Some b) # ps) =
     (case as_record_get api r (gen_bin_name sz name i) of
        None \<Rightarrow> Aborts
      | Some v \<Rightarrow> (case dbg_validate_bin_spec get b True v of Returns _ \<Rightarrow> assert_bins get api sz name r ps | x \<Rightarrow> x))"

fun assert_all :: "om_getter \<Rightarrow> 'rec record_api \<Rightarrow> nat \<Rightarrow> string \<Rightarrow> 'rec \<Rightarrow> u32 \<Rightarrow> u32 \<Rightarrow> bin_spec list \<Rightarrow> outcome" where
  "assert_all get api sz name r n cnt [] = (if cnt < n then Undefined else Returns True)"
| "assert_all get api sz name r n cnt (b # bs) =
     (if cnt < n then
        (case assert_bins get api sz name r (map (\<lambda>j. (cnt + of_nat j, Some b)) [0..<unat (n_repeats b)]) of
           Returns _ \<Rightarrow> assert_all get api sz name r n (cnt + n_repeats b) bs
         | x \<Rightarrow> x)
      else Returns True)"

fun spec_of_bin :: "bin_spec list \<Rightarrow> u32 \<Rightarrow> u32 \<Rightarrow> bin_spec option" where
  "spec_of_bin [] tot i = None"
| "spec_of_bin (b # bs) tot i = (if tot + n_repeats b > i then Some b else spec_of_bin bs (tot + n_repeats b) i)"

definition dbg_obj_spec_assert_valid ::
  "om_getter \<Rightarrow> 'rec record_api \<Rightarrow> nat \<Rightarrow> obj_spec \<Rightarrow> 'rec \<Rightarrow> u32 list option \<Rightarrow> string \<Rightarrow> outcome" where
  "dbg_obj_spec_assert_valid get api sz o1 r wb name =
     (case wb of
        None \<Rightarrow> assert_all get api sz name r (n_bin_specs o1) 0 (bin_specs o1)
      | Some idxs \<Rightarrow> assert_bins get api sz name r (map (\<lambda>i. (i, spec_of_bin (bin_specs o1) 0 i)) idxs))"

lemma assert_bins_append:
  "assert_bins get api sz name r (ps @ qs) =
     (case assert_bins get api sz name r ps of Returns _ \<Rightarrow> assert_bins get api sz name r qs | x \<Rightarrow> x)"
  by (induction get api sz name r ps rule: assert_bins.induct) (simp_all split: option.split outcome.split)

lemma assert_all_eq:
  assumes "all_bins n cnt bs = Some ps"
  shows "assert_all get api sz name r n cnt bs = assert_bins get api sz name r (map (apsnd Some) ps)"
  using assms
  by (induction n cnt bs arbitrary: ps rule: all_bins.induct) (auto simp: assert_bins_append comp_def split: if_splits outcome.split)

lemma spec_of_bin_eq:
  assumes "tot \<le> i" and "unat i < unat tot + length (expand bs)" and "unat tot + length (expand bs) < 2 ^ 32"
  shows "spec_of_bin bs tot i = Some (expand bs ! (unat i - unat tot))"
  using assms
proof (induction bs arbitrary: tot)
  case Nil
  then show ?case by (simp add: expand_def word_le_nat_alt)
next
  case (Cons b bs)
  have c: "unat (tot + n_repeats b) = unat tot + unat (n_repeats b)"
    using Cons.prems(3) by (intro unat_add_no_overflow) (simp add: expand_Cons)
  show ?case
  proof (cases "tot + n_repeats b > i")
    case True
    then have "unat i - unat tot < unat (n_repeats b)" using Cons.prems(1) c by (simp add: word_less_nat_alt word_le_nat_alt less_diff_conv2)
    then show ?thesis using True by (simp add: expand_Cons nth_append)
  next
    case False
    then have "spec_of_bin bs (tot + n_repeats b) i = Some (expand bs ! (unat i - unat (tot + n_repeats b)))"
      using Cons.prems c by (intro Cons.IH) (simp_all add: expand_Cons)
    moreover have "unat (n_repeats b) \<le> unat i - unat tot" using False c by (simp add: word_less_nat_alt)
    ultimately show ?thesis using False c by (simp add: expand_Cons nth_append)
  qed
qed

lemma assert_bins_valid:
  assumes "\<forall>i \<in> set is. \<exists>v. as_record_get api r (gen_bin_name sz name i) = Some v \<and> dbg_validate_bin_spec get (f i) True v = Returns True"
  shows "assert_bins get api sz name r (map (\<lambda>i. (i, Some (f i))) is) = Returns True"
  using assms by (induction "is") auto

lemma assert_valid_eq:
  assumes "obj_ok o1" and "write_bins_ok o1 wb"
  shows "dbg_obj_spec_assert_valid get api sz o1 r wb name =
    assert_bins get api sz name r (map (\<lambda>i. (i, Some (expand (bin_specs o1) ! unat i))) (write_indices o1 wb))"
proof (cases wb)
  case None
  then have "all_bins (n_bin_specs o1) 0 (bin_specs o1) = Some (map (\<lambda>i. (i, expand (bin_specs o1) ! unat i)) (write_indices o1 wb))"
    using bins_to_write_eq [OF assms] by (simp add: bins_to_write_def)
  from assert_all_eq [OF this] show ?thesis using None by (simp add: dbg_obj_spec_assert_valid_def comp_def)
next
  case (Some idxs)
  have "spec_of_bin (bin_specs o1) 0 i = Some (expand (bin_specs o1) ! unat i)" if "i \<in> set idxs" for i
    using that write_indices_ok(2) [OF assms(2)] assms(1) Some unat_u32_lt [of "n_bin_specs o1"] spec_of_bin_eq [of 0 i "bin_specs o1"]
    by (auto simp: write_indices_def obj_ok_def length_expand word_less_nat_alt)
  then show ?thesis using Some by (simp add: dbg_obj_spec_assert_valid_def write_indices_def cong: map_cong)
qed

text \<open>
  C40. A record that \<^verbatim>\<open>obj_spec_populate_bins\<close> fills passes \<^verbatim>\<open>_dbg_obj_spec_assert_valid\<close> for the same object specification
  and selection of bins: no assertion of the validators fails and none of them reads past an array, for specifications without maps
  and without constants that are NaN.
\<close>

theorem populated_record_valid:
  assumes "obj_ok o1" and "write_bins_ok o1 wb" and "obj_spec_bin_name_compatible sz o1 name"
    and "unat (n_bin_specs o1) < 2 ^ 31" and "sz < 2 ^ 32" and "length name < 2 ^ 32"
    and "om_ok om" and "rng_ok rng" and "ratio_ok ratio" and "record_ok api"
    and "bins_used api r + length (write_indices o1 wb) \<le> bins_capacity api r"
    and plain: "list_all plain_spec (bin_specs o1)"
  shows "\<exists>r' t. obj_spec_populate_bins om rng api sz o1 name wb ratio r (Some s) = Gen r' (Some t) \<and>
    dbg_obj_spec_assert_valid get api sz o1 r' wb name = Returns True"
proof -
  obtain r' t where r: "obj_spec_populate_bins om rng api sz o1 name wb ratio r (Some s) = Gen r' (Some t)"
    "\<forall>i \<in> set (write_indices o1 wb). \<exists>v. as_record_get api r' (gen_bin_name sz name i) = Some v \<and>
        conf_spec (expand (bin_specs o1) ! unat i) v"
    using populated [OF assms(1-11)] by blast
  have "plain_spec (expand (bin_specs o1) ! unat i) \<and> wf_spec (expand (bin_specs o1) ! unat i)" if "i \<in> set (write_indices o1 wb)" for i
  proof -
    have "unat i < length (expand (bin_specs o1))"
      using that write_indices_ok(2) [OF assms(2)] assms(1) by (auto simp: obj_ok_def length_expand word_less_nat_alt)
    then have "expand (bin_specs o1) ! unat i \<in> set (bin_specs o1)" using set_expand nth_mem by blast
    then show ?thesis using plain assms(1) by (auto simp: obj_ok_def list_all_iff)
  qed
  then have "\<forall>i \<in> set (write_indices o1 wb). \<exists>v. as_record_get api r' (gen_bin_name sz name i) = Some v \<and>
      dbg_validate_bin_spec get (expand (bin_specs o1) ! unat i) True v = Returns True"
    using r(2) conforming_valid(1) by blast
  then have "dbg_obj_spec_assert_valid get api sz o1 r' wb name = Returns True"
    unfolding assert_valid_eq [OF assms(1,2)] by (rule assert_bins_valid)
  then show ?thesis using r(1) by blast
qed

text \<open>Two lists, of which the second is selected.\<close>

definition valid_bins :: obj_spec where
  "valid_bins = \<lparr> bin_specs = [Bin 2 (K_list 3 [Bin 2 (K_str 30), Bin 1 (K_int 1)])], n_bin_specs = 2, valid = True \<rparr>"

theorem populated_record_valid_witness:
  "\<exists>r' t. obj_spec_populate_bins example_om example_rng example_api 15 valid_bins ''b'' (Some [1]) (Fin 1) [] (Some 0)
       = Gen r' (Some t) \<and>
     dbg_obj_spec_assert_valid map_of example_api 15 valid_bins r' (Some [1]) ''b'' = Returns True"
proof -
  have "obj_ok valid_bins" "write_bins_ok valid_bins (Some [1])" "list_all plain_spec (bin_specs valid_bins)"
    by (simp_all add: obj_ok_def write_bins_ok_def valid_bins_def)
  moreover have "obj_spec_bin_name_compatible 15 valid_bins ''b''"
    by (simp add: obj_spec_bin_name_compatible_def valid_bins_def bin_name_too_large_def dec_display_len_eq dec_string.simps)
  moreover have "unat (n_bin_specs valid_bins) < 2 ^ 31" "length ''b'' < 2 ^ 32"
    "bins_used example_api [] + length (write_indices valid_bins (Some [1])) \<le> bins_capacity example_api []"
    by (simp_all add: valid_bins_def example_api_def write_indices_def)
  ultimately show ?thesis
    using populated_record_valid [OF _ _ _ _ _ _ example_ok(3-5) example_api_ok, of valid_bins "Some [1]" 15 "''b''" "[]" 0 map_of]
    by simp
qed

section \<open>What the validators miss\<close>

text \<open>
  Without assertions the elements of a list are not checked, so that a map entry accepts any list of the right length.
  A pair is counted for the first entry that describes it: the pairs that are left may then match none, although
  another assignment of the pairs to the entries exists.
\<close>

lemma list_elements_unchecked:
  "\<not> conf_spec (Bin 1 (K_list 1 [Bin 1 K_bool])) (As_list [As_int 5])"
  "dbg_validate_bin_spec get (Bin 1 (K_list 1 [Bin 1 K_bool])) False (As_list [As_int 5]) = Returns True"
  by simp_all

lemma greedy_map_rejected:
  "conf_spec (Bin 1 (K_map 2 [Kv (Bin 1 (K_int 0)) (Bin 1 K_bool), Kv (Bin 1 (C_int 5)) (Bin 1 (C_bool True))]))
     (As_map [(As_int 5, As_bool True), (As_int 7, As_bool False)])"
  "dbg_validate_bin_spec get (Bin 1 (K_map 2 [Kv (Bin 1 (K_int 0)) (Bin 1 K_bool), Kv (Bin 1 (C_int 5)) (Bin 1 (C_bool True))])) True
     (As_map [(As_int 5, As_bool True), (As_int 7, As_bool False)]) = Aborts"
  by (simp_all add: dbg_validate_int_def dbg_int_in_range_def int_lo_def int_hi_def)

end
