(* ===== verification/Args.thy ===== *)
theory Args
  imports Workload Throttle
begin

text \<open>
  The settings of a run (\<^verbatim>\<open>args_t\<close> of \<^verbatim>\<open>benchmark.h\<close>) and their defaults.

  A C \<^verbatim>\<open>int\<close> is an integer; the functions that set one reduce it to 32 bits.  A string that may be NULL is an
  option; the workload string of the stage that the options describe, which may be NULL, is kept beside its
  definition.  The percentiles are of type \<^verbatim>\<open>double\<close>.
\<close>

datatype as_policy_key = AS_POLICY_KEY_DIGEST | AS_POLICY_KEY_SEND

datatype as_policy_replica = AS_POLICY_REPLICA_MASTER | AS_POLICY_REPLICA_ANY | AS_POLICY_REPLICA_SEQUENCE | AS_POLICY_REPLICA_PREFER_RACK

datatype as_policy_read_mode_ap = AS_POLICY_READ_MODE_AP_ONE | AS_POLICY_READ_MODE_AP_ALL

datatype as_policy_read_mode_sc =
    AS_POLICY_READ_MODE_SC_SESSION | AS_POLICY_READ_MODE_SC_LINEARIZE | AS_POLICY_READ_MODE_SC_ALLOW_REPLICA
  | AS_POLICY_READ_MODE_SC_ALLOW_UNAVAILABLE

datatype as_policy_commit_level = AS_POLICY_COMMIT_LEVEL_ALL | AS_POLICY_COMMIT_LEVEL_MASTER

datatype as_auth_mode = AS_AUTH_INTERNAL | AS_AUTH_EXTERNAL | AS_AUTH_EXTERNAL_INSECURE | AS_AUTH_PKI

record as_config_tls =
  tls_enable :: bool
  tls_cafile :: "string option"
  tls_capath :: "string option"
  tls_protocols :: "string option"
  tls_cipher_suite :: "string option"
  tls_crl_check :: bool
  tls_crl_check_all :: bool
  tls_cert_blacklist :: "string option"
  tls_log_session_info :: bool
  tls_keyfile :: "string option"
  tls_keyfile_pw :: "string option"
  tls_certfile :: "string option"
  tls_for_login_only :: bool

record args =
  a_hosts :: string
  a_port :: int
  a_use_services_alternate :: bool
  a_max_error_rate :: int
  a_tender_interval :: int
  a_error_rate_window :: int
  a_max_socket_idle :: int
  a_user :: "string option"
  a_password :: string
  a_namespace :: string
  a_set :: string
  a_bin_name :: string
  a_start_key :: u64
  a_keys :: u64
  a_stage_defs :: "stage_def list"
  a_workload_str :: "string option"
  a_workload_stages_file :: "string option"
  a_obj_spec :: obj_spec
  a_transaction_worker_threads :: int
  a_enable_compression :: bool
  a_compression_ratio :: fp
  a_conn_timeout_ms :: int
  a_read_socket_timeout :: int
  a_write_socket_timeout :: int
  a_read_total_timeout :: int
  a_write_total_timeout :: int
  a_max_retries :: int
  a_sleep_between_retries :: int
  a_debug :: bool
  a_latency :: bool
  a_latency_percentiles :: "fp list"
  a_latency_histogram :: bool
  a_histogram_output :: "string option"
  a_histogram_period :: int
  a_hdr_output :: "string option"
  a_use_shm :: bool
  a_key :: as_policy_key
  a_replica :: as_policy_replica
  a_rack_id :: int
  a_read_mode_ap :: as_policy_read_mode_ap
  a_read_mode_sc :: as_policy_read_mode_sc
  a_write_commit_level :: as_policy_commit_level
  a_min_conns_per_node :: int
  a_max_conns_per_node :: int
  a_conn_pools_per_node :: int
  a_async_min_conns_per_node :: int
  a_async_max_conns_per_node :: int
  a_durable_deletes :: bool
  a_async_max_commands :: int
  a_event_loop_capacity :: int
  a_tls :: as_config_tls
  a_tls_name :: "string option"
  a_auth_mode :: as_auth_mode

text \<open>
  \<^verbatim>\<open>_load_defaults\<close>: the timeouts are those of the client library.  The memory of the object specification is not
  initialised before it is parsed.
\<close>

definition no_tls :: as_config_tls where
  "no_tls = \<lparr> tls_enable = False, tls_cafile = None, tls_capath = None, tls_protocols = None, tls_cipher_suite = None, tls_crl_check = False,
     tls_crl_check_all = False, tls_cert_blacklist = None, tls_log_session_info = False, tls_keyfile = None, tls_keyfile_pw = None,
     tls_certfile = None, tls_for_login_only = False \<rparr>"

definition load_defaults :: "om_setter \<Rightarrow> obj_spec \<Rightarrow> int \<Rightarrow> int \<Rightarrow> args" where
  "load_defaults om mem socket_timeout_default total_timeout_default =
     \<lparr> a_hosts = ''127.0.0.1'', a_port = 3000, a_use_services_alternate = False, a_max_error_rate = 0, a_tender_interval = 1000,
       a_error_rate_window = 1, a_max_socket_idle = 55, a_user = None, a_password = [], a_namespace = ''test'', a_set = ''testset'',
       a_bin_name = ''testbin'', a_start_key = 1, a_keys = 1000000, a_stage_defs = [], a_workload_str = None, a_workload_stages_file = None,
       a_obj_spec = snd (obj_spec_parse om mem ''I''), a_transaction_worker_threads = 16, a_enable_compression = False,
       a_compression_ratio = Fin 1, a_conn_timeout_ms = 1000, a_read_socket_timeout = socket_timeout_default,
       a_write_socket_timeout = socket_timeout_default, a_read_total_timeout = total_timeout_default,
       a_write_total_timeout = total_timeout_default, a_max_retries = 1, a_sleep_between_retries = 0, a_debug = False, a_latency = False,
       a_latency_percentiles = [Fin 50, Fin 90, Fin 99, to_double (999 / 10), to_double (9999 / 100)], a_latency_histogram = False,
       a_histogram_output = None, a_histogram_period = 1, a_hdr_output = None, a_use_shm = False, a_key = AS_POLICY_KEY_DIGEST,
       a_replica = AS_POLICY_REPLICA_SEQUENCE, a_rack_id = - 1, a_read_mode_ap = AS_POLICY_READ_MODE_AP_ONE,
       a_read_mode_sc = AS_POLICY_READ_MODE_SC_SESSION, a_write_commit_level = AS_POLICY_COMMIT_LEVEL_ALL, a_min_conns_per_node = 0,
       a_max_conns_per_node = 300, a_conn_pools_per_node = 1, a_async_min_conns_per_node = 0, a_async_max_conns_per_node = 300,
       a_durable_deletes = False, a_async_max_commands = 50, a_event_loop_capacity = 1, a_tls = no_tls, a_tls_name = None,
       a_auth_mode = AS_AUTH_INTERNAL \<rparr>"

end
