(* ===== verification/Output.thy ===== *)
theory Output
  imports Args Transaction Hdr_Encoding
begin

text \<open>
  Periodic output and the set-up of the histograms (\<^verbatim>\<open>latency_output.c\<close>, with
  \<^verbatim>\<open>print_hdr_percentiles\<close> of \<^verbatim>\<open>common.c\<close> and \<^verbatim>\<open>fprint_stage\<close> of \<^verbatim>\<open>workload.h\<close>).

  The state of the output thread holds the data it shares with the worker threads; what those do between two passes
  changes the counters and histograms in any way.  The time of day, the text of a period in seconds and the prefix of a
  log line are arguments.  \<open>None\<close> is undefined behaviour: a division by zero, an index out of range, output to a
  stream that is not open.
\<close>

section \<open>Lines of percentiles\<close>

definition pad_right :: "nat \<Rightarrow> string \<Rightarrow> string" where
  "pad_right n s = s @ replicate (n - length s) (CHR '' '')"

definition print_hdr_percentiles :: "hdr_iter \<Rightarrow> string \<Rightarrow> hdr_histogram \<Rightarrow> string \<Rightarrow> u64 \<Rightarrow> rat list \<Rightarrow> string option" where
  "print_hdr_percentiles it utc h name elapsed_s percentiles = do {
     mn \<leftarrow> (if total_count h = 0 then Some 0 else hdr_min h);
     cnts \<leftarrow> those (map (hdr_value_at_percentile it h) percentiles);
     Some (''hdr: '' @ pad_right 5 name @ '' '' @ take 24 utc @ '' '' @ dec_string (unat elapsed_s) @ '', '' @
           dec_string (unat (word_of_int (total_count h) :: u64)) @ '', '' @ sdec_string mn @ '', '' @ sdec_string (hdr_max h) @
           concat (map (\<lambda>c. '', '' @ dec_string (unat (word_of_int c :: u64))) cnts) @ nl)
   }"

definition fprint_stage :: "stages \<Rightarrow> nat \<Rightarrow> string option" where
  "fprint_stage ss k =
     (if k < length (stage_list ss)
      then Some (''Stage '' @ dec_string (k + 1) @ '': '' @ (case desc (stage_list ss ! k) of None \<Rightarrow> '''' | Some d \<Rightarrow> d) @ nl)
      else None)"

section \<open>Counters of a period\<close>

record period_counts =
  write_current :: u64
  write_timeout_current :: u64
  write_error_current :: u64
  read_hit_current :: u64
  read_miss_current :: u64
  read_timeout_current :: u64
  read_error_current :: u64
  udf_current :: u64
  udf_timeout_current :: u64
  udf_error_current :: u64

definition exchange_counts :: "cdata \<Rightarrow> period_counts \<times> cdata" where
  "exchange_counts c =
     (\<lparr> write_current = write_count c, write_timeout_current = write_timeout_count c, write_error_current = write_error_count c,
        read_hit_current = read_hit_count c, read_miss_current = read_miss_count c, read_timeout_current = read_timeout_count c,
        read_error_current = read_error_count c, udf_current = udf_count c, udf_timeout_current = udf_timeout_count c,
        udf_error_current = udf_error_count c \<rparr>,
      c\<lparr> write_count := 0, write_timeout_count := 0, write_error_count := 0, read_hit_count := 0, read_miss_count := 0,
         read_timeout_count := 0, read_error_count := 0, udf_count := 0, udf_timeout_count := 0, udf_error_count := 0 \<rparr>)"

definition any_records :: "period_counts \<Rightarrow> bool" where
  "any_records p \<longleftrightarrow>
     write_current p + write_timeout_current p + write_error_current p + read_hit_current p + read_miss_current p +
     read_timeout_current p + read_error_current p + udf_current p + udf_timeout_current p + udf_error_current p \<noteq> 0"

text \<open>The rate, in double precision; \<open>cvt\<close> is the conversion of numbers out of range.\<close>

definition per_second :: "(fp \<Rightarrow> u64) \<Rightarrow> u64 \<Rightarrow> int \<Rightarrow> u64" where
  "per_second cvt n elapsed =
     to_uint64 cvt (d_lift (+) (d_lift (/) (d_lift (*) (to_double (of_nat (unat n))) (Fin 1000000)) (to_double (of_int elapsed))) (Fin (1 / 2)))"

definition tps_text :: "string \<Rightarrow> u64 \<Rightarrow> u64 \<Rightarrow> u64 \<Rightarrow> u64 \<Rightarrow> u64 \<Rightarrow> string" where
  "tps_text name t hit miss timeouts errors =
     name @ ''(tps='' @ sdec_string (sint t) @ '' (hit='' @ sdec_string (sint hit) @ '' miss='' @ sdec_string (sint miss) @
     '') timeouts='' @ sdec_string (sint timeouts) @ '' errors='' @ sdec_string (sint errors) @ '')''"

definition counts_text :: "(fp \<Rightarrow> u64) \<Rightarrow> stages \<Rightarrow> period_counts \<Rightarrow> int \<Rightarrow> string" where
  "counts_text cvt ss p elapsed =
     (let write_tps = per_second cvt (write_current p) elapsed;
          read_hit_tps = per_second cvt (read_hit_current p) elapsed;
          read_miss_tps = per_second cvt (read_miss_current p) elapsed;
          udf_tps = per_second cvt (udf_current p) elapsed
      in (if stages_contain_writes ss
          then tps_text ''write'' write_tps write_tps 0 (write_timeout_current p) (write_error_current p) @ '' '' else '''') @
         (if stages_contain_reads ss
          then tps_text ''read'' (read_hit_tps + read_miss_tps) read_hit_tps read_miss_tps (read_timeout_current p) (read_error_current p) @ '' ''
          else '''') @
         (if stages_contain_udfs ss
          then tps_text ''udf'' udf_tps udf_tps 0 (udf_timeout_current p) (udf_error_current p) @ '' '' else '''') @
         tps_text ''total'' (write_tps + read_hit_tps + read_miss_tps + udf_tps) (write_tps + read_hit_tps + udf_tps) read_miss_tps
           (write_timeout_current p + read_timeout_current p + udf_timeout_current p)
           (write_error_current p + read_error_current p + udf_error_current p) @ nl)"

section \<open>The output thread\<close>

datatype sleep_status = COORD_SLEEP_TIMEOUT | COORD_SLEEP_INTERRUPTED

record out_env =
  oe_log :: string
  oe_utc :: string
  oe_secs :: "u64 \<Rightarrow> string"
  oe_percentiles :: "rat list"
  histogram_period :: int
  oe_cvt :: "fp \<Rightarrow> u64"
  oe_iter :: hdr_iter

record out_state =
  o_cdata :: cdata
  o_write_hdr :: hdr_histogram
  o_read_hdr :: hdr_histogram
  o_udf_hdr :: hdr_histogram
  o_throttle :: dyn_throttle
  o_wake_up :: timespec
  o_time :: u64
  o_start_time :: u64
  o_prev_time :: u64
  o_prev_time_hist :: u64
  o_gen_count :: u64
  o_first_log :: bool
  o_stdout :: string
  o_histogram :: string

definition elapsed_us :: "sleep_status \<Rightarrow> u64 \<Rightarrow> u64 \<Rightarrow> int" where
  "elapsed_us status now prev =
     (let e = sint (now - prev);
          e = (if e \<le> 0 then 1000000 else e)
      in if status = COORD_SLEEP_INTERRUPTED \<and> e < 1000000 then 1000000 else e)"

definition percentile_lines :: "out_env \<Rightarrow> stages \<Rightarrow> out_state \<Rightarrow> string option" where
  "percentile_lines env ss s =
     (let elapsed_s = (o_time s - o_start_time s) div 1000000;
          line = (\<lambda>b h name. if b then print_hdr_percentiles (oe_iter env) (oe_utc env) h name elapsed_s (oe_percentiles env) else Some '''')
      in do {
           w \<leftarrow> line (stages_contain_writes ss) (o_write_hdr s) ''write'';
           r \<leftarrow> line (stages_contain_reads ss) (o_read_hdr s) ''read'';
           u \<leftarrow> line (stages_contain_udfs ss) (o_udf_hdr s) ''udf'';
           Some (w @ r @ u)
         })"

definition histogram_lines :: "out_env \<Rightarrow> stages \<Rightarrow> nat \<Rightarrow> u64 \<Rightarrow> out_state \<Rightarrow> out_state option" where
  "histogram_lines env ss k elapsed_hist s = do {
     head \<leftarrow> (if o_first_log s then fprint_stage ss k else Some '''');
     let c = o_cdata s;
     let clear = (\<lambda>b h. if b then histogram_print_clear h (oe_utc env) (oe_secs env elapsed_hist) else ('''', h));
     let (w, wh) = clear (stages_contain_writes ss) (write_histogram c);
     let (r, rh) = clear (stages_contain_reads ss) (read_histogram c);
     let (u, uh) = clear (stages_contain_udfs ss) (udf_histogram c);
     Some (s\<lparr> o_cdata := c\<lparr> write_histogram := wh, read_histogram := rh, udf_histogram := uh \<rparr>,
              o_histogram := o_histogram s @ head @ w @ r @ u \<rparr>)
   }"

text \<open>One pass: from the reading of the clock to the output of latencies.  A pass with no records prints nothing.
  The time of the pass is also stored in \<^verbatim>\<open>period_begin\<close>, which nothing reads.\<close>

definition output_pass :: "out_env \<Rightarrow> stages \<Rightarrow> nat \<Rightarrow> sleep_status \<Rightarrow> timespec \<Rightarrow> out_state \<Rightarrow> out_state option" where
  "output_pass env ss k status wake_up s =
     (let now = timespec_to_us wake_up;
          elapsed = elapsed_us status now (o_prev_time s);
          (p, c) = exchange_counts (o_cdata s);
          s = s\<lparr> o_wake_up := wake_up, o_time := now, o_prev_time := now, o_cdata := c, o_gen_count := o_gen_count s + 1,
                 o_stdout := o_stdout s @ (if any_records p then oe_log env @ counts_text (oe_cvt env) ss p elapsed else '''') \<rparr>
      in if status \<noteq> COORD_SLEEP_INTERRUPTED \<and> histogram_period env = 0 then None
         else if status = COORD_SLEEP_INTERRUPTED \<or> o_gen_count s mod of_int (histogram_period env) = 0 then
           let elapsed_hist = now - o_prev_time_hist s;
               s = s\<lparr> o_prev_time_hist := now \<rparr>
           in if \<not> any_records p then Some s
              else do {
                lines \<leftarrow> (if latency (o_cdata s) then percentile_lines env ss s else Some '''');
                let s = s\<lparr> o_stdout := o_stdout s @ lines \<rparr>;
                if histogram_output (o_cdata s) then histogram_lines env ss k elapsed_hist s else Some s
              }
         else Some s)"

text \<open>The sleep at the end of a pass, and what is reset after the threads have met between two stages.\<close>

definition output_sleep :: "out_env \<Rightarrow> out_state \<Rightarrow> out_state" where
  "output_sleep env s =
     (let (pause_us, thr) = dyn_throttle_pause_for (oe_cvt env) (o_throttle s) (o_time s)
      in s\<lparr> o_throttle := thr, o_wake_up := timespec_add_us (o_wake_up s) pause_us \<rparr>)"

definition output_next_stage :: "out_env \<Rightarrow> timespec \<Rightarrow> out_state \<Rightarrow> out_state" where
  "output_next_stage env wake_up s =
     (let now = timespec_to_us wake_up
      in s\<lparr> o_wake_up := wake_up, o_time := now, o_throttle := dyn_throttle_reset_time (oe_cvt env) (o_throttle s) now,
            o_prev_time := now, o_prev_time_hist := now, o_gen_count := 0, o_first_log := True \<rparr>)"

text \<open>One round of the loop; the flag is false when the thread ends.  \<open>ended\<close> is read after the threads have met.\<close>

definition output_round ::
    "out_env \<Rightarrow> stages \<Rightarrow> nat \<Rightarrow> bool \<Rightarrow> sleep_status \<Rightarrow> timespec \<Rightarrow> timespec \<Rightarrow> out_state \<Rightarrow> (out_state \<times> bool) option" where
  "output_round env ss k ended status wake_up wake_up2 s = do {
     s \<leftarrow> output_pass env ss k status wake_up s;
     Some (if status = COORD_SLEEP_INTERRUPTED then
             if ended then (s, False) else (output_sleep env (output_next_stage env wake_up2 s), True)
           else (output_sleep env (s\<lparr> o_first_log := False \<rparr>), True))
   }"

definition periodic_output_worker :: "out_env \<Rightarrow> cdata \<Rightarrow> hdr_histogram \<times> hdr_histogram \<times> hdr_histogram \<Rightarrow> dyn_throttle \<Rightarrow> timespec \<Rightarrow> out_state" where
  "periodic_output_worker env c hdrs thr wake_up =
     (let start_time = timespec_to_us wake_up
      in output_sleep env
           \<lparr> o_cdata = c, o_write_hdr = fst hdrs, o_read_hdr = fst (snd hdrs), o_udf_hdr = snd (snd hdrs),
             o_throttle = dyn_throttle_init thr (Fin 1000000), o_wake_up = wake_up, o_time = start_time, o_start_time = start_time,
             o_prev_time = start_time, o_prev_time_hist = start_time, o_gen_count = 0, o_first_log = True, o_stdout = '''',
             o_histogram = '''' \<rparr>)"

section \<open>Set-up and release\<close>

text \<open>A stream is NULL, the standard output, or an open file.  \<open>opens\<close> says which files can be opened.\<close>

datatype stream = No_stream | Std_out | Out_file string

definition fopen :: "(string \<Rightarrow> bool) \<Rightarrow> string \<Rightarrow> stream" where
  "fopen opens f = (if opens f then Out_file f else No_stream)"

record hist_setup =
  hs_period :: int
  hs_percentiles :: "fp list option"
  hs_output :: stream
  hs_histograms :: "histogram list"
  hs_streams :: "stream list"
  hs_hdrs :: "hdr_histogram option list"
  hs_text :: string

definition latency_ranges :: "rangespec list" where
  "latency_ranges =
     [\<lparr> upper_bound = 4000, spec_width = 100 \<rparr>, \<lparr> upper_bound = 64000, spec_width = 1000 \<rparr>,
      \<lparr> upper_bound = 128000, spec_width = 4000 \<rparr>]"

text \<open>
  The kinds of transactions that the stages contain, in the order writes, reads, UDF calls: for each, its histogram is set up and described
  on the output, and its two files are opened.
\<close>

definition kinds_of :: "stages \<Rightarrow> string list" where
  "kinds_of ss = (if stages_contain_writes ss then [''write''] else []) @ (if stages_contain_reads ss then [''read''] else []) @
     (if stages_contain_udfs ss then [''udf''] else [])"

fun setup_histograms :: "string list \<Rightarrow> hist_setup \<Rightarrow> hist_setup option" where
  "setup_histograms [] hs = Some hs"
| "setup_histograms (knd # knds) hs = do {
     h \<leftarrow> histogram_init 100 latency_ranges;
     let h = histogram_set_name h (knd @ ''_hist'');
     if hs_output hs = No_stream then None
     else setup_histograms knds (hs\<lparr> hs_histograms := hs_histograms hs @ [h], hs_text := hs_text hs @ histogram_print_info h \<rparr>)
   }"

definition output_names :: "string \<Rightarrow> string \<Rightarrow> string \<Rightarrow> string list" where
  "output_names dir utc knd = [dir @ ''/'' @ knd @ ''_'' @ utc @ ''.hdrhist'', dir @ ''/'' @ knd @ ''_'' @ utc @ ''.txt'']"

fun setup_hdrs :: "(nat \<Rightarrow> bool) \<Rightarrow> (int \<Rightarrow> rat) \<Rightarrow> string list \<Rightarrow> hist_setup \<Rightarrow> hist_setup option" where
  "setup_hdrs mem lg [] hs = Some hs"
| "setup_hdrs mem lg (knd # knds) hs = do {
     r \<leftarrow> hdr_init mem lg 1 1000000 3;
     setup_hdrs (\<lambda>i. mem (i + 2)) lg knds (hs\<lparr> hs_hdrs := hs_hdrs hs @ [case r of Inl _ \<Rightarrow> None | Inr h \<Rightarrow> Some h] \<rparr>)
   }"

definition initialize_histograms ::
    "(nat \<Rightarrow> bool) \<Rightarrow> (int \<Rightarrow> rat) \<Rightarrow> (string \<Rightarrow> bool) \<Rightarrow> string \<Rightarrow> args \<Rightarrow> stages \<Rightarrow> (int \<times> hist_setup) option" where
  "initialize_histograms mem lg opens utc a ss =
     (let hs = \<lparr> hs_period = a_histogram_period a, hs_percentiles = (if a_latency a then Some (a_latency_percentiles a) else None),
                 hs_output = No_stream, hs_histograms = [], hs_streams = [], hs_hdrs = [], hs_text = [] \<rparr>
      in do {
           (ret, hs) \<leftarrow>
             (if a_latency_histogram a then
                let out = (case a_histogram_output a of Some f \<Rightarrow> fopen opens f | None \<Rightarrow> Std_out)
                in map_option (Pair (if out = No_stream then - 1 else 0)) (setup_histograms (kinds_of ss) (hs\<lparr> hs_output := out \<rparr>))
              else Some (0, hs));
           let (ret, hs) =
             (case a_hdr_output a of
                None \<Rightarrow> (ret, hs)
              | Some dir \<Rightarrow>
                  let streams = map (fopen opens) (concat (map (output_names dir utc) (kinds_of ss)))
                  in (if No_stream \<in> set streams then - 1 else ret, hs\<lparr> hs_streams := streams \<rparr>));
           hs \<leftarrow> (if a_latency a \<or> a_hdr_output a \<noteq> None then setup_hdrs mem lg (kinds_of ss) hs else Some hs);
           Some (ret, hs)
         })"

fun given :: "'a option \<Rightarrow> 'a list" where
  "given None = []"
| "given (Some x) = [x]"

text \<open>What is released: the vector of percentiles, histograms, streams and HDR histograms.\<close>

datatype released = Rel_percentiles | Rel_histogram histogram | Rel_stream stream | Rel_hdr hdr_histogram

definition free_histograms :: "args \<Rightarrow> hist_setup \<Rightarrow> released list option" where
  "free_histograms a hs =
     (if a_latency_histogram a \<and> a_histogram_output a \<noteq> None \<and> hs_output hs = No_stream then None
      else Some ((if a_latency a then [Rel_percentiles] else []) @
                 (if a_latency_histogram a
                  then map Rel_histogram (hs_histograms hs) @ (if a_histogram_output a \<noteq> None then [Rel_stream (hs_output hs)] else []) else []) @
                 (if a_hdr_output a \<noteq> None then map Rel_stream (filter (\<lambda>f. f \<noteq> No_stream) (hs_streams hs)) else []) @
                 (if a_latency a \<or> a_hdr_output a \<noteq> None then map Rel_hdr (concat (map given (hs_hdrs hs)))
                  else [])))"

section \<open>Rates\<close>

text \<open>The printed rate is the rate of the period rounded to the nearest number, or the next one.\<close>

lemma per_second_bounds:
  assumes n: "unat n = N" "N < 2 ^ 30" and e: "0 < elapsed" "elapsed < 2 ^ 52"
    and x: "x = of_nat N * 1000000 / (of_int elapsed :: rat)"
  shows "\<lfloor>x + 1 / 2\<rfloor> \<le> int (unat (per_second cvt n elapsed))" "int (unat (per_second cvt n elapsed)) \<le> \<lceil>x + 1 / 2\<rceil>"
    "x \<le> of_nat N \<Longrightarrow> int (unat (per_second cvt n elapsed)) \<le> int N"
proof -
  have n0: "to_double (of_nat N) = Fin (of_nat N)" using n by (intro double_nat) simp
  have n1: "to_double (of_nat N * 1000000) = Fin (of_nat N * 1000000)"
    using double_nat [of "N * 1000000"] n by simp
  have e1: "to_double (of_int elapsed) = Fin (of_int elapsed)" using double_nat [of "nat elapsed"] e by (simp add: nat_less_iff)
  have x0: "0 \<le> x" using e(1) by (simp add: x)
  have "(1 :: rat) \<le> of_int elapsed" using e(1) by simp
  then have "x \<le> of_nat N * 1000000" unfolding x by (simp add: divide_le_eq mult_le_cancel_left1)
  moreover have "of_nat N * 1000000 < (2 ^ 50 :: rat)" using n(2) of_nat_less_iff [of "N * 1000000" "2 ^ 50", where 'a = rat] by simp
  ultimately have x1: "x < 2 ^ 50" by simp
  define c where "c = nat \<lceil>x + 1 / 2\<rceil>"
  have ci: "int c = \<lceil>x + 1 / 2\<rceil>" using x0 unfolding c_def by simp
  have cx: "x + 1 / 2 \<le> of_nat c" using le_of_int_ceiling [of "x + 1 / 2"] unfolding ci [symmetric] by simp
  have "\<lceil>x + 1 / 2\<rceil> \<le> 2 ^ 50 + 1" using x1 by (simp add: ceiling_le_iff)
  then have c: "1 \<le> c" "c \<le> 2 ^ 50 + 1" using cx x0 unfolding ci [symmetric] by (cases c; simp)+
  have c2: "of_nat (2 * c - 1) / 2 = (of_nat c - 1 / 2 :: rat)" using c(1) by (simp add: of_nat_diff field_simps)
  obtain y where y: "to_double x = Fin y" "0 \<le> y" "y \<le> of_nat c - 1 / 2"
    using double_between [of x "2 * c - 1", OF x0, unfolded c2] cx c by fastforce
  obtain z where z: "to_double (y + 1 / 2) = Fin z" "0 \<le> z" "z \<le> of_nat c"
    using double_between [of "y + 1 / 2" "2 * c"] y c by auto
  have "of_nat c < (2 ^ 64 :: rat)" using c(2) of_nat_less_iff [of c "2 ^ 64", where 'a = rat] by simp
  then have zr: "\<lfloor>z\<rfloor> < 2 ^ 64" "0 \<le> \<lfloor>z\<rfloor>" using z(2,3) by (simp_all add: floor_less_iff)
  have "per_second cvt n elapsed = of_nat (nat \<lfloor>z\<rfloor>)"
    using n(1) n0 n1 e1 y(1) z zr \<open>of_nat c < (2 ^ 64 :: rat)\<close>
    by (simp add: per_second_def x [symmetric] to_uint64_def fp_to_unsigned_def)
  then have q: "int (unat (per_second cvt n elapsed)) = \<lfloor>z\<rfloor>" using zr by (simp add: uint_word_of_int floor_less_iff take_bit_int_eq_self)
  show "int (unat (per_second cvt n elapsed)) \<le> \<lceil>x + 1 / 2\<rceil>"
    unfolding q ci [symmetric] using z(3) by (simp add: floor_le_iff)
  show "int (unat (per_second cvt n elapsed)) \<le> int N" if xN: "x \<le> of_nat N"
  proof -
    have "y \<le> of_nat N" using double_between [of x "2 * N", OF x0] xN n(2) y(1) by auto
    then have "z \<le> of_nat (2 * N + 1) / 2" using double_between [of "y + 1 / 2" "2 * N + 1"] y(2) n(2) z(1) by auto
    then have "z < of_nat N + 1" by simp
    then show ?thesis unfolding q by (simp add: floor_le_iff)
  qed
  show "\<lfloor>x + 1 / 2\<rfloor> \<le> int (unat (per_second cvt n elapsed))"
  proof (cases "\<lfloor>x + 1 / 2\<rfloor> \<le> 0")
    case True
    then show ?thesis by (rule order_trans) simp
  next
    case False
    define k where "k = nat \<lfloor>x + 1 / 2\<rfloor>"
    have k: "int k = \<lfloor>x + 1 / 2\<rfloor>" "1 \<le> k" using False unfolding k_def by linarith+
    have kx: "of_nat k \<le> x + 1 / 2" using of_int_floor_le [of "x + 1 / 2"] unfolding k(1) [symmetric] by simp
    have "int k \<le> int c" unfolding k(1) ci by (rule floor_le_ceiling)
    then have kc: "k \<le> 2 ^ 50 + 1" using c(2) by simp
    have k4: "of_nat (4 * k - 2) / 4 = (of_nat k - 1 / 2 :: rat)" "of_nat (4 * k) / 4 = (of_nat k :: rat)" using k(2) by (simp_all add: of_nat_diff field_simps)
    have "of_nat k - 1 / 2 \<le> y" using double_at_least [of "4 * k - 2" x y] kx kc k(2) y(1) unfolding k4 by simp
    then have "of_nat k \<le> z" using double_at_least [of "4 * k" "y + 1 / 2" z] kc k(2) z(1) unfolding k4 by simp
    then show ?thesis unfolding q k(1) [symmetric] by (simp add: le_floor_iff)
  qed
qed

section \<open>Passes\<close>

lemma exchange_histograms:
  "write_histogram (snd (exchange_counts c)) = write_histogram c" "read_histogram (snd (exchange_counts c)) = read_histogram c"
  "udf_histogram (snd (exchange_counts c)) = udf_histogram c"
  by (simp_all add: exchange_counts_def)

text \<open>
  A pass in which no transaction has ended since the last one writes nothing and keeps the histograms, also at the end of a
  stage: what they hold is then reported with the next stage.
\<close>

lemma idle_pass_keeps:
  assumes "\<not> any_records (fst (exchange_counts (o_cdata s)))" and "status = COORD_SLEEP_INTERRUPTED \<or> histogram_period env \<noteq> 0"
  shows "\<exists>s'. output_pass env ss k status now s = Some s' \<and> o_stdout s' = o_stdout s \<and> o_histogram s' = o_histogram s \<and>
     write_histogram (o_cdata s') = write_histogram (o_cdata s) \<and> read_histogram (o_cdata s') = read_histogram (o_cdata s) \<and>
     udf_histogram (o_cdata s') = udf_histogram (o_cdata s)"
  using assms exchange_histograms [of "o_cdata s"]
  by (auto simp: output_pass_def Let_def split: prod.splits if_splits)

text \<open>The number of the pass within the stage decides whether latencies are due.\<close>

lemma pass_not_due:
  assumes "status \<noteq> COORD_SLEEP_INTERRUPTED" and "(o_gen_count s + 1) mod of_int (histogram_period env) \<noteq> (0 :: u64)" and "histogram_period env \<noteq> 0"
  shows "\<exists>s'. output_pass env ss k status now s = Some s' \<and> o_histogram s' = o_histogram s \<and> o_first_log s' = o_first_log s"
  using assms by (auto simp: output_pass_def Let_def split: prod.splits if_splits)

section \<open>Properties\<close>

text \<open>
  The rate that is printed for a number of transactions is the true rate over the period rounded to the nearest number, or
  the number above; in a period of one second or more it is never above the number of transactions, so that a
  stage that ends within a second does not show a rate that is too high.
\<close>

theorem per_second_exact:
  assumes "unat n < 2 ^ 30" and "sint (now - prev) < 2 ^ 52"
  shows "let e = elapsed_us status now prev; x = of_nat (unat n) * 1000000 / (of_int e :: rat); r = int (unat (per_second cvt n e))
         in 0 < e \<and> \<lfloor>x + 1 / 2\<rfloor> \<le> r \<and> r \<le> \<lceil>x + 1 / 2\<rceil> \<and> (status = COORD_SLEEP_INTERRUPTED \<longrightarrow> r \<le> int (unat n))"
proof -
  obtain N where N: "unat n = N" "N < 2 ^ 30" using assms(1) by blast
  define e where "e = elapsed_us status now prev"
  define x where "x = of_nat N * 1000000 / (of_int e :: rat)"
  have e: "0 < e" "e < 2 ^ 52" using assms(2) by (auto simp: e_def elapsed_us_def Let_def)
  note b = per_second_bounds [OF N e x_def, of cvt]
  have "int (unat (per_second cvt n e)) \<le> int N" if "status = COORD_SLEEP_INTERRUPTED"
  proof -
    have "1000000 \<le> e" using that by (simp add: e_def elapsed_us_def Let_def)
    then have "x \<le> of_nat N" unfolding x_def using e(1) by (simp add: divide_le_eq mult_left_mono)
    then show ?thesis by (rule b(3))
  qed
  then show ?thesis using b e(1) N(1) unfolding Let_def e_def [symmetric] x_def by simp
qed

text \<open>
  With a period of histograms of more than one pass, the stage a histogram belongs to is never named, unless the stage
  ends within the first pass: the first pass of a stage writes no histogram but takes the flag that asks for the name back, and without the
  flag no output depends on the stage.
\<close>

theorem stage_name_lost:
  assumes "2 \<le> histogram_period env" and "histogram_period env < 2 ^ 31" and "o_gen_count s = 0"
  shows "(\<exists>s'. output_round env ss k ended COORD_SLEEP_TIMEOUT now now2 s = Some (s', True) \<and> o_histogram s' = o_histogram s \<and> \<not> o_first_log s') \<and>
         (\<forall>s' status k'. \<not> o_first_log s' \<longrightarrow> output_pass env ss k status now s' = output_pass env ss k' status now s')"
proof
  have "unat (of_int (histogram_period env) :: u64) = nat (histogram_period env)"
    using assms(1,2) by (simp add: unat_eq_nat_uint uint_word_of_int take_bit_int_eq_self)
  then have "(o_gen_count s + 1) mod of_int (histogram_period env) \<noteq> (0 :: u64)" using assms by (auto simp: word_arith_nat_defs(7) unat_eq_0)
  then obtain s' where "output_pass env ss k COORD_SLEEP_TIMEOUT now s = Some s'" "o_histogram s' = o_histogram s"
    using pass_not_due [of COORD_SLEEP_TIMEOUT s env ss k now] assms(1) by auto
  then show "\<exists>s'. output_round env ss k ended COORD_SLEEP_TIMEOUT now now2 s = Some (s', True) \<and> o_histogram s' = o_histogram s \<and> \<not> o_first_log s'"
    by (simp add: output_round_def output_sleep_def split: prod.split)
  show "\<forall>s' status k'. \<not> o_first_log s' \<longrightarrow> output_pass env ss k status now s' = output_pass env ss k' status now s'"
    by (simp add: output_pass_def histogram_lines_def Let_def split: prod.split)
qed

definition wanted_files :: "args \<Rightarrow> stages \<Rightarrow> string \<Rightarrow> string list" where
  "wanted_files a ss utc =
     (if a_latency_histogram a then given (a_histogram_output a) else []) @
     (case a_hdr_output a of None \<Rightarrow> [] | Some dir \<Rightarrow> concat (map (output_names dir utc) (kinds_of ss)))"

definition released_files :: "released list \<Rightarrow> string list" where
  "released_files rs = concat (map (\<lambda>r. case r of Rel_stream (Out_file f) \<Rightarrow> [f] | _ \<Rightarrow> []) rs)"

lemma latency_ranges_init: "\<exists>h. histogram_init 100 latency_ranges = Some h"
proof -
  have "histogram_init 100 latency_ranges \<noteq> None" by (simp add: histogram_init_def latency_ranges_def)
  then show ?thesis by blast
qed

lemma setup_histograms_eq:
  "hs_output hs \<noteq> No_stream \<Longrightarrow> \<exists>hists tx. setup_histograms knds hs = Some (hs\<lparr> hs_histograms := hists, hs_text := tx \<rparr>) \<and>
     length hists = length (hs_histograms hs) + length knds"
proof (induction knds arbitrary: hs)
  case Nil
  show ?case by (intro exI [of _ "hs_histograms hs"] exI [of _ "hs_text hs"]) simp
next
  case (Cons knd knds)
  obtain h where h: "histogram_init 100 latency_ranges = Some h" using latency_ranges_init by blast
  let ?h = "histogram_set_name h (knd @ ''_hist'')"
  show ?case using Cons.IH [of "hs\<lparr> hs_histograms := hs_histograms hs @ [?h], hs_text := hs_text hs @ histogram_print_info ?h \<rparr>"] Cons.prems h
    by (auto simp: Let_def)
qed

lemma setup_hdrs_eq:
  assumes "lg_ok lg" and "config_valid lg 1 1000000 3"
  shows "\<exists>hdrs. setup_hdrs (\<lambda>_. True) lg knds hs = Some (hs\<lparr> hs_hdrs := hs_hdrs hs @ map Some hdrs \<rparr>) \<and> length hdrs = length knds"
proof (induction knds arbitrary: hs)
  case Nil
  show ?case by (intro exI [of _ "[]"]) simp
next
  case (Cons knd knds)
  obtain h where h: "hdr_init (\<lambda>_. True) lg 1 1000000 3 = Some (Inr h)" using init_wf(1) [OF assms(1) _ assms(2)] by auto
  obtain hdrs where "setup_hdrs (\<lambda>_. True) lg knds (hs\<lparr> hs_hdrs := hs_hdrs hs @ [Some h] \<rparr>) =
      Some (hs\<lparr> hs_hdrs := hs_hdrs hs @ map Some (h # hdrs) \<rparr>)" "length hdrs = length knds"
    using Cons.IH [of "hs\<lparr> hs_hdrs := hs_hdrs hs @ [Some h] \<rparr>"] by auto
  then show ?case using h by (intro exI [of _ "h # hdrs"]) simp
qed

lemma released_files_simps [simp]:
  "released_files [] = []" "released_files (rs @ rs') = released_files rs @ released_files rs'"
  "released_files (Rel_percentiles # rs) = released_files rs" "released_files (Rel_stream (Out_file f) # rs) = f # released_files rs"
  "released_files (Rel_stream Std_out # rs) = released_files rs"
  "released_files (map Rel_histogram hists) = []" "released_files (map Rel_hdr hdrs) = []"
  by (auto simp: released_files_def concat_eq_Nil_conv)

lemma opened_streams:
  "No_stream \<notin> set (map (fopen opens) fs) \<longleftrightarrow> (\<forall>f \<in> set fs. opens f)"
  "\<forall>f \<in> set fs. opens f \<Longrightarrow> released_files (map Rel_stream (filter (\<lambda>f. f \<noteq> No_stream) (map (fopen opens) fs))) = fs"
  by (induction fs) (auto simp: fopen_def)

lemma initialize_cases:
  assumes "lg_ok lg" and "config_valid lg 1 1000000 3"
  shows "case initialize_histograms (\<lambda>_. True) lg opens utc a ss of
           None \<Rightarrow> a_latency_histogram a \<and> kinds_of ss \<noteq> [] \<and> (\<exists>f. a_histogram_output a = Some f \<and> \<not> opens f)
         | Some (ret, hs) \<Rightarrow>
             (if \<forall>f \<in> set (wanted_files a ss utc). opens f
              then ret = 0 \<and> (\<exists>rs. free_histograms a hs = Some rs \<and> released_files rs = wanted_files a ss utc)
              else ret = - 1)"
proof -
  let ?out = "case a_histogram_output a of Some f \<Rightarrow> fopen opens f | None \<Rightarrow> Std_out"
  obtain hs0 where hs0: "hs0 = \<lparr> hs_period = a_histogram_period a, hs_percentiles = (if a_latency a then Some (a_latency_percentiles a) else None),
      hs_output = No_stream, hs_histograms = [], hs_streams = [], hs_hdrs = [], hs_text = [] \<rparr>" by blast
  show ?thesis
  proof (cases "a_latency_histogram a \<and> ?out = No_stream \<and> kinds_of ss \<noteq> []")
    case True
    then have "\<exists>f. a_histogram_output a = Some f \<and> \<not> opens f" by (cases "a_histogram_output a") (auto simp: fopen_def split: if_splits)
    moreover obtain h where "histogram_init 100 latency_ranges = Some h" using latency_ranges_init by blast
    ultimately show ?thesis using True by (cases "kinds_of ss") (auto simp: initialize_histograms_def Let_def)
  next
    case False
    have "\<exists>hists tx. (if a_latency_histogram a then setup_histograms (kinds_of ss) (hs0\<lparr> hs_output := ?out \<rparr>) else Some hs0) =
        Some (hs0\<lparr> hs_output := if a_latency_histogram a then ?out else No_stream, hs_histograms := hists, hs_text := tx \<rparr>)"
      using False setup_histograms_eq [of "hs0\<lparr> hs_output := ?out \<rparr>" "kinds_of ss"] by (auto simp: hs0)
    then obtain hists tx where first: "(if a_latency_histogram a then setup_histograms (kinds_of ss) (hs0\<lparr> hs_output := ?out \<rparr>) else Some hs0) =
        Some (hs0\<lparr> hs_output := if a_latency_histogram a then ?out else No_stream, hs_histograms := hists, hs_text := tx \<rparr>)" by blast
    define ret where "ret = (if a_latency_histogram a \<and> ?out = No_stream then - 1 else 0 :: int)"
    define hs1 where "hs1 = hs0\<lparr> hs_output := if a_latency_histogram a then ?out else No_stream, hs_histograms := hists, hs_text := tx \<rparr>"
    have r1: "(if a_latency_histogram a then map_option (Pair (if ?out = No_stream then - 1 else 0)) (setup_histograms (kinds_of ss) (hs0\<lparr> hs_output := ?out \<rparr>))
        else Some (0, hs0)) = Some (ret, hs1)"
      using first by (auto simp: ret_def hs1_def split: if_splits)
    define fs where "fs = (case a_hdr_output a of None \<Rightarrow> [] | Some dir \<Rightarrow> concat (map (output_names dir utc) (kinds_of ss)))"
    obtain hdrs where hdrs: "(if a_latency a \<or> a_hdr_output a \<noteq> None then setup_hdrs (\<lambda>_. True) lg (kinds_of ss) (hs1\<lparr> hs_streams := map (fopen opens) fs \<rparr>)
        else Some (hs1\<lparr> hs_streams := map (fopen opens) fs \<rparr>)) = Some (hs1\<lparr> hs_streams := map (fopen opens) fs, hs_hdrs := map Some hdrs \<rparr>)"
    proof (cases "a_latency a \<or> a_hdr_output a \<noteq> None")
      case True
      then show ?thesis using setup_hdrs_eq [OF assms, of "kinds_of ss" "hs1\<lparr> hs_streams := map (fopen opens) fs \<rparr>"] that by (auto simp: hs1_def hs0)
    next
      case False
      then show ?thesis using that [of "[]"] by (simp add: hs1_def hs0)
    qed
    have second: "(case a_hdr_output a of None \<Rightarrow> (ret, hs1) | Some dir \<Rightarrow>
          (if No_stream \<in> set (map (fopen opens) (concat (map (output_names dir utc) (kinds_of ss)))) then - 1 else ret,
           hs1\<lparr> hs_streams := map (fopen opens) (concat (map (output_names dir utc) (kinds_of ss))) \<rparr>)) =
        (if No_stream \<in> set (map (fopen opens) fs) then - 1 else ret, hs1\<lparr> hs_streams := map (fopen opens) fs \<rparr>)"
      by (cases "a_hdr_output a") (simp_all add: fs_def hs1_def hs0)
    have "initialize_histograms (\<lambda>_. True) lg opens utc a ss =
        Some (if No_stream \<in> set (map (fopen opens) fs) then - 1 else ret, hs1\<lparr> hs_streams := map (fopen opens) fs, hs_hdrs := map Some hdrs \<rparr>)"
      unfolding initialize_histograms_def Let_def hs0 [symmetric] r1 by (simp only: bind.bind_lunit prod.case second hdrs)
    moreover have "No_stream \<in> set (map (fopen opens) fs) \<longleftrightarrow> \<not> (\<forall>f \<in> set fs. opens f)" using opened_streams(1) [of opens fs] by blast
    moreover have "ret = 0 \<longleftrightarrow> (\<forall>f \<in> set (if a_latency_histogram a then given (a_histogram_output a) else []). opens f)"
    proof (cases "a_histogram_output a")
      case None
      then show ?thesis unfolding ret_def by simp
    next
      case (Some f)
      then show ?thesis unfolding ret_def fopen_def by (cases "opens f"; cases "a_latency_histogram a") simp_all
    qed
    moreover have "ret = 0 \<or> ret = - 1" unfolding ret_def by simp
    moreover have "\<exists>rs. free_histograms a (hs1\<lparr> hs_streams := map (fopen opens) fs, hs_hdrs := map Some hdrs \<rparr>) = Some rs \<and> released_files rs = wanted_files a ss utc"
      if "\<forall>f \<in> set (wanted_files a ss utc). opens f"
      using that opened_streams(2) [of fs opens]
      by (auto simp: free_histograms_def wanted_files_def hs1_def fs_def fopen_def split: option.splits)
    ultimately show ?thesis by (auto simp: wanted_files_def fs_def [symmetric])
  qed
qed


lemma zero_period_divides: "histogram_period env = 0 \<Longrightarrow> output_pass env ss k COORD_SLEEP_TIMEOUT now s = None"
  by (simp add: output_pass_def Let_def split: prod.split)

definition example_out_env :: "hdr_iter \<Rightarrow> out_env" where
  "example_out_env it = \<lparr> oe_log = ''log '', oe_utc = ''2024-01-01T00:00:00Z'', oe_secs = (\<lambda>_. ''2''), oe_percentiles = [50, 99],
     histogram_period = 2, oe_cvt = (\<lambda>_. 0), oe_iter = it \<rparr>"

theorem per_second_exact_witness:
  "let e = elapsed_us COORD_SLEEP_INTERRUPTED 2500000 2000000; r = int (unat (per_second (\<lambda>_. 0) 700 e)) in e = 1000000 \<and> 700 \<le> r \<and> r \<le> 700"
proof -
  have e: "elapsed_us COORD_SLEEP_INTERRUPTED 2500000 2000000 = 1000000" by (simp add: elapsed_us_def)
  have "\<lfloor>(700 :: rat) + 1 / 2\<rfloor> = 700" by (simp add: floor_eq_iff)
  then show ?thesis using per_second_exact [of 700 2500000 2000000 COORD_SLEEP_INTERRUPTED "\<lambda>_. 0"] by (simp add: Let_def e)
qed

theorem stage_name_lost_witness:
  "\<forall>it c hdrs thr t ss. \<exists>s'. output_round (example_out_env it) ss 0 False COORD_SLEEP_TIMEOUT t t (periodic_output_worker (example_out_env it) c hdrs thr t) =
     Some (s', True) \<and> \<not> o_first_log s'"
proof (intro allI)
  fix it c hdrs thr t ss
  let ?s = "periodic_output_worker (example_out_env it) c hdrs thr t"
  have "o_gen_count ?s = 0" by (simp add: periodic_output_worker_def output_sleep_def Let_def split: prod.split)
  then show "\<exists>s'. output_round (example_out_env it) ss 0 False COORD_SLEEP_TIMEOUT t t ?s = Some (s', True) \<and> \<not> o_first_log s'"
    using stage_name_lost [of "example_out_env it" ?s ss 0 False t t] by (auto simp: example_out_env_def)
qed


end
