(* ===== verification/Run.thy ===== *)
theory Run
  imports Output Workload_Ok
begin

text \<open>
  Setting up, running and ending a benchmark (\<^verbatim>\<open>benchmark.c\<close>).

  What the client library and POSIX threads answer is in the parameters: whether event loops can be created, hosts
  added, a connection made, whether each thread can be created.  The threads themselves are modelled with the transactions, the
  output and the coordinator; here it matters which of them are created, joined and released.
\<close>

section \<open>Client configuration and policies\<close>

record as_config =
  cfg_user :: "string option"
  cfg_password :: string
  rack_aware :: bool
  cfg_rack_id :: int
  cfg_use_shm :: bool
  cfg_conn_timeout_ms :: int
  login_timeout_ms :: int
  cfg_use_services_alternate :: bool
  cfg_max_error_rate :: int
  cfg_tender_interval :: int
  cfg_error_rate_window :: int
  cfg_max_socket_idle :: int
  cfg_min_conns_per_node :: int
  cfg_max_conns_per_node :: int
  thread_pool_size :: int
  cfg_conn_pools_per_node :: int
  cfg_async_min_conns_per_node :: int
  cfg_async_max_conns_per_node :: int
  cfg_info_timeout :: int
  cfg_tls :: as_config_tls
  cfg_auth_mode :: as_auth_mode

text \<open>The second comparison is between unsigned numbers, as one side of it is cast.\<close>

definition client_config :: "args \<Rightarrow> as_config" where
  "client_config a =
     (let aware = (a_replica a = AS_POLICY_REPLICA_PREFER_RACK)
      in \<lparr> cfg_user = a_user a, cfg_password = a_password a, rack_aware = aware, cfg_rack_id = (if aware then a_rack_id a else 0),
           cfg_use_shm = a_use_shm a, cfg_conn_timeout_ms = a_conn_timeout_ms a, login_timeout_ms = 10000,
           cfg_use_services_alternate = a_use_services_alternate a, cfg_max_error_rate = a_max_error_rate a,
           cfg_tender_interval = a_tender_interval a, cfg_error_rate_window = a_error_rate_window a,
           cfg_max_socket_idle = a_max_socket_idle a, cfg_min_conns_per_node = a_min_conns_per_node a,
           cfg_max_conns_per_node = a_max_conns_per_node a, thread_pool_size = 0, cfg_conn_pools_per_node = a_conn_pools_per_node a,
           cfg_async_min_conns_per_node = a_async_min_conns_per_node a,
           cfg_async_max_conns_per_node =
             (if (of_int (a_async_max_conns_per_node a) :: u32) < of_int (a_async_max_commands a) then a_async_max_commands a
              else a_async_max_conns_per_node a),
           cfg_info_timeout = 10000, cfg_tls = a_tls a, cfg_auth_mode = a_auth_mode a \<rparr>)"

record run_env =
  create_loops :: "int \<Rightarrow> bool"
  add_hosts :: "string \<Rightarrow> int \<Rightarrow> bool"
  connect :: "as_config \<Rightarrow> bool"
  info_any :: "string \<Rightarrow> string option"
  run_name_size :: nat

definition connect_to_server :: "run_env \<Rightarrow> args \<Rightarrow> stages \<Rightarrow> int" where
  "connect_to_server env a ss =
     (if stages_contain_async ss \<and> \<not> create_loops env (a_event_loop_capacity a) then 2
      else if \<not> add_hosts env (a_hosts a) (a_port a) then 3
      else if \<not> connect env (client_config a) then 1
      else 0)"

text \<open>\<^verbatim>\<open>strstr\<close>: what follows the first occurrence of a text.\<close>

fun after :: "string \<Rightarrow> string \<Rightarrow> string option" where
  "after pat [] = (if pat = [] then Some [] else None)"
| "after pat (c # cs) = (if take (length pat) (c # cs) = pat then Some (drop (length pat) (c # cs)) else after pat cs)"

definition is_single_bin :: "run_env \<Rightarrow> string \<Rightarrow> bool" where
  "is_single_bin env ns =
     (case info_any env (''namespace/'' @ ns) of
        None \<Rightarrow> False
      | Some res \<Rightarrow>
          case after ''single-bin='' res of
            None \<Rightarrow> False
          | Some p \<Rightarrow> CHR '';'' \<in> set p \<and> takeWhile (\<lambda>c. c \<noteq> CHR '';'') p = ''true'')"

record base_policy =
  socket_timeout :: int
  total_timeout :: int
  max_retries :: int
  sleep_between_retries :: int
  compress :: bool

record as_policies =
  p_read :: base_policy
  p_write :: base_policy
  p_apply :: base_policy
  p_operate :: base_policy
  p_remove :: base_policy
  p_batch :: base_policy
  p_key :: as_policy_key
  p_replica :: as_policy_replica
  p_read_mode_ap :: as_policy_read_mode_ap
  p_read_mode_sc :: as_policy_read_mode_sc
  p_commit_level :: as_policy_commit_level
  p_durable_delete :: bool
  p_info_timeout :: int

definition read_policy :: "args \<Rightarrow> base_policy" where
  "read_policy a = \<lparr> socket_timeout = a_read_socket_timeout a, total_timeout = a_read_total_timeout a, max_retries = a_max_retries a,
     sleep_between_retries = a_sleep_between_retries a, compress = a_enable_compression a \<rparr>"

definition write_policy :: "args \<Rightarrow> base_policy" where
  "write_policy a = \<lparr> socket_timeout = a_write_socket_timeout a, total_timeout = a_write_total_timeout a, max_retries = a_max_retries a,
     sleep_between_retries = a_sleep_between_retries a, compress = a_enable_compression a \<rparr>"

text \<open>What is set in a thread's data; key, replica and modes are the same in each policy that has them.\<close>

record thread_start =
  ts_t_idx :: u32
  ts_stage_idx :: u32
  ts_do_work :: bool
  ts_finished :: bool
  ts_policies :: as_policies

definition init_tdata :: "args \<Rightarrow> u32 \<Rightarrow> thread_start" where
  "init_tdata a i =
     \<lparr> ts_t_idx = i, ts_stage_idx = 0, ts_do_work = True, ts_finished = False,
       ts_policies = \<lparr> p_read = read_policy a, p_write = write_policy a, p_apply = write_policy a, p_operate = write_policy a,
         p_remove = write_policy a, p_batch = read_policy a, p_key = a_key a, p_replica = a_replica a, p_read_mode_ap = a_read_mode_ap a,
         p_read_mode_sc = a_read_mode_sc a, p_commit_level = a_write_commit_level a, p_durable_delete = a_durable_deletes a,
         p_info_timeout = 10000 \<rparr> \<rparr>"

section \<open>Threads\<close>

text \<open>
  \<open>ok i\<close> says whether the thread with index \<open>i\<close> can be created.  \<open>spawn\<close> is the loop that creates the worker threads: the
  index it ends with and whether all were created.  \<open>join_loop\<close> goes down from an index, wraps around below 0, and ends with
  the output thread, which has the last index; it gives the threads told to end, if any, and joined.  The pause before the first
  stage, \<open>stage_random_pause\<close>, only delays the start.
\<close>

partial_function (option) spawn :: "(u32 \<Rightarrow> bool) \<Rightarrow> u32 \<Rightarrow> u32 \<Rightarrow> (u32 \<times> bool) option" where
  "spawn ok n_threads i =
     (if i < n_threads - 1 then if ok i then spawn ok n_threads (i + 1) else Some (i, False) else Some (i, True))"

partial_function (option) join_loop :: "u32 \<Rightarrow> u32 \<Rightarrow> u32 list option" where
  "join_loop n_threads i =
     (let i = (if i \<ge> n_threads then n_threads - 1 else i)
      in if i = n_threads - 1 then Some [i]
         else do { js \<leftarrow> join_loop n_threads (i - 1); Some (i # js) })"

record run_result =
  rr_ret :: int
  rr_created :: "u32 list"
  rr_coordinated :: bool
  rr_stopped :: "u32 list"
  rr_joined :: "u32 list"
  rr_freed :: "u32 list"

definition run_threads :: "(u32 \<Rightarrow> bool) \<Rightarrow> args \<Rightarrow> run_result option" where
  "run_threads ok a =
     (let n_threads = 1 + of_int (a_transaction_worker_threads a)
      in if \<not> ok (n_threads - 1)
         then Some \<lparr> rr_ret = - 1, rr_created = [], rr_coordinated = False, rr_stopped = [], rr_joined = [], rr_freed = [] \<rparr>
         else do {
           (i, all) \<leftarrow> spawn ok n_threads 0;
           joined \<leftarrow> join_loop n_threads (i - 1);
           Some \<lparr> rr_ret = (if all then 0 else - 1), rr_created = map of_nat [0..<unat i] @ [n_threads - 1], rr_coordinated = all,
                  rr_stopped = (if all then [] else joined), rr_joined = joined, rr_freed = joined \<rparr>
         })"

section \<open>The benchmark\<close>

datatype run_event =
    Ev_histograms "int \<times> hist_setup" | Ev_run run_result | Ev_summary | Ev_free_histograms "released list" | Ev_close_client
  | Ev_close_loops | Ev_free_stages "stage_block list"

text \<open>The data set, and the bin name: empty for a namespace with a single bin.\<close>

definition bin_name_of :: "run_env \<Rightarrow> args \<Rightarrow> string" where
  "bin_name_of env a = (if is_single_bin env (a_namespace a) then [] else a_bin_name a)"

definition run_benchmark ::
    "(nat \<Rightarrow> bool) \<Rightarrow> (int \<Rightarrow> rat) \<Rightarrow> (string \<Rightarrow> bool) \<Rightarrow> string \<Rightarrow> run_env \<Rightarrow> (u32 \<Rightarrow> bool) \<Rightarrow> args \<Rightarrow> stages \<Rightarrow> (int \<times> run_event list) option" where
  "run_benchmark mem lg opens utc env ok a args_stages = do {
     (ss, args_stages) \<leftarrow> stages_move args_stages;
     let ret = connect_to_server env a args_stages;
     (ret, evs) \<leftarrow>
       (if ret \<noteq> 0 then Some (ret, [])
        else do {
          let bin_name = bin_name_of env a;
          let ret = (if is_single_bin env (a_namespace a) \<and> obj_spec_n_bins (a_obj_spec a) > 1 then - 1 else 0 :: int);
          let cleanup2 = [Ev_close_client] @ (if stages_contain_async args_stages then [Ev_close_loops] else []);
          (hret, hs) \<leftarrow> initialize_histograms mem lg opens utc a ss;
          if hret \<noteq> 0 then Some (- 1, [Ev_histograms (hret, hs)] @ cleanup2)
          else if ret = 0 \<and> list_ex (\<lambda>st. \<not> obj_spec_bin_name_compatible (run_name_size env) (stage_obj st) bin_name) (stage_list ss) then do {
            rel \<leftarrow> free_histograms a hs;
            Some (- 1, [Ev_histograms (hret, hs), Ev_free_histograms rel] @ cleanup2)
          } else do {
            r \<leftarrow> run_threads ok a;
            rel \<leftarrow> free_histograms a hs;
            Some (rr_ret r, [Ev_histograms (hret, hs), Ev_run r, Ev_summary, Ev_free_histograms rel] @ cleanup2)
          }
        });
     blocks \<leftarrow> free_workload_config ss;
     Some (ret, evs @ [Ev_free_stages blocks])
   }"

section \<open>Threads are joined once\<close>

lemma join_loop_wrapped: "join_loop n (- 1) = Some [n - 1]"
  by (subst join_loop.simps) (auto simp: Let_def)

lemma join_loop_from:
  assumes "k + 1 < unat n"
  shows "join_loop n (of_nat k) = Some (map of_nat (rev [0..<Suc k]) @ [n - 1])"
  using assms
proof (induction k)
  case 0
  then have "1 < n" by (simp add: word_less_nat_alt)
  then have "\<not> n \<le> 0" "0 \<noteq> n - 1" by auto
  then have "join_loop n 0 = Option.bind (join_loop n (- 1)) (\<lambda>js. Some (0 # js))" by (subst join_loop.simps) (simp add: Let_def)
  then show ?case by (simp add: join_loop_wrapped)
next
  case (Suc k)
  have lt: "unat (of_nat (Suc k) :: u32) = Suc k" using Suc.prems unat_u32_lt [of n] by (intro unat_of_nat_32) simp
  then have "\<not> n \<le> of_nat (Suc k)" using Suc.prems by (simp add: word_le_nat_alt)
  moreover have "of_nat (Suc k) \<noteq> n - 1"
  proof
    assume "of_nat (Suc k) = n - 1"
    then have "n = of_nat (Suc (Suc k))" by simp
    then show False using Suc.prems by (metis Suc_eq_plus1 less_irrefl unat_of_nat_32 unat_u32_lt order_less_trans)
  qed
  ultimately have "join_loop n (of_nat (Suc k)) = Option.bind (join_loop n (of_nat k)) (\<lambda>js. Some (of_nat (Suc k) # js))"
    by (subst join_loop.simps) (simp add: Let_def)
  then show ?case using Suc.IH Suc.prems by simp
qed

lemma spawn_from:
  assumes "k < unat n"
  shows "\<exists>m. spawn ok n (of_nat k) = Some (of_nat m, m = unat n - 1) \<and> k \<le> m \<and> m < unat n \<and>
     (\<forall>i. k \<le> i \<and> i < m \<longrightarrow> ok (of_nat i)) \<and> (m < unat n - 1 \<longrightarrow> \<not> ok (of_nat m))"
  using assms
proof (induction "unat n - k" arbitrary: k rule: less_induct)
  case less
  have n: "unat (n - 1) = unat n - 1" using less.prems by (intro unat_minus_one) auto
  have u: "unat (of_nat k :: u32) = k" using less.prems unat_u32_lt [of n] by (intro unat_of_nat_32) simp
  have iff: "of_nat k < n - 1 \<longleftrightarrow> k < unat n - 1" by (simp add: word_less_nat_alt n u)
  show ?case
  proof (cases "k < unat n - 1 \<and> ok (of_nat k)")
    case True
    then have "Suc k < unat n" "unat n - Suc k < unat n - k" by linarith+
    note IH = less.hyps [OF this(2) this(1)]
    have "spawn ok n (of_nat k) = spawn ok n (of_nat (Suc k))" using True by (subst spawn.simps) (simp add: iff add.commute)
    moreover obtain m where "spawn ok n (of_nat (Suc k)) = Some (of_nat m, m = unat n - 1)" "Suc k \<le> m" "m < unat n"
      "\<forall>i. Suc k \<le> i \<and> i < m \<longrightarrow> ok (of_nat i)" "m < unat n - 1 \<longrightarrow> \<not> ok (of_nat m)"
      using IH by blast
    ultimately show ?thesis using True by (intro exI [of _ m]) (auto simp: le_Suc_eq Suc_le_eq dest: le_neq_implies_less)
  next
    case False
    then have "spawn ok n (of_nat k) = Some (of_nat k, k = unat n - 1)" using less.prems by (subst spawn.simps) (auto simp: iff)
    then show ?thesis using False less.prems by (intro exI [of _ k]) auto
  qed
qed

lemma join_created:
  assumes "m < unat n"
  shows "join_loop n (of_nat m - 1) = Some (map of_nat (rev [0..<m]) @ [n - 1])"
  using assms join_loop_wrapped [of n] join_loop_from [of "m - 1" n] by (cases m) (simp_all del: upt_Suc)

lemma indices_distinct:
  assumes "m < unat n"
  shows "distinct (map (of_nat :: nat \<Rightarrow> u32) [0..<m] @ [n - 1])"
proof -
  have u: "unat (of_nat i :: u32) = i" if "i < m" for i using that assms unat_u32_lt [of n] by (intro unat_of_nat_32) simp
  have "inj_on (of_nat :: nat \<Rightarrow> u32) (set [0..<m])" by (intro inj_onI) (metis atLeastLessThan_iff set_upt u)
  moreover have "n - 1 \<noteq> of_nat i" if "i < m" for i
  proof
    assume e: "n - 1 = of_nat i"
    have "unat (n - 1) = unat n - 1" using assms by (intro unat_minus_one) auto
    then have "unat n - 1 = i" using u [OF that] unfolding e by simp
    then show False using that assms by simp
  qed
  ultimately have "distinct (map (of_nat :: nat \<Rightarrow> u32) [0..<m])" "n - 1 \<notin> set (map of_nat [0..<m])" by (simp_all add: distinct_map) (metis imageE atLeastLessThan_iff)
  then show ?thesis by simp
qed

lemma threads_joined:
  assumes "0 \<le> a_transaction_worker_threads a" and "a_transaction_worker_threads a \<le> 10000"
  shows "\<exists>r. run_threads ok a = Some r \<and> distinct (rr_joined r) \<and> set (rr_joined r) = set (rr_created r) \<and> rr_freed r = rr_joined r \<and>
     (rr_created r \<noteq> [] \<longrightarrow> last (rr_joined r) = of_int (a_transaction_worker_threads a)) \<and>
     (rr_ret r = 0 \<longleftrightarrow> (\<forall>i. 0 \<le> i \<and> i \<le> a_transaction_worker_threads a \<longrightarrow> ok (of_int i))) \<and>
     rr_coordinated r = (rr_ret r = 0) \<and> (rr_ret r \<noteq> 0 \<longrightarrow> rr_stopped r = rr_joined r)"
proof -
  obtain t where t: "a_transaction_worker_threads a = int t" "t \<le> 10000" using assms by (metis nonneg_int_cases of_nat_le_iff of_nat_numeral)
  let ?n = "1 + of_nat t :: u32"
  have n: "unat ?n = Suc t" using unat_of_nat_32 [of "Suc t"] t(2) by simp
  have all: "(\<forall>i. 0 \<le> i \<and> i \<le> int t \<longrightarrow> ok (of_int i)) \<longleftrightarrow> (\<forall>i \<le> t. ok (of_nat i))"
    by (metis int_nat_eq nat_le_iff of_int_of_nat_eq of_nat_0_le_iff of_nat_le_iff)
  show ?thesis
  proof (cases "ok (of_nat t)")
    case False
    then show ?thesis using all by (auto simp: run_threads_def t(1) Let_def)
  next
    case True
    obtain m where m: "spawn ok ?n 0 = Some (of_nat m, m = t)" "m < Suc t" "\<forall>i < m. ok (of_nat i)" "m < t \<longrightarrow> \<not> ok (of_nat m)"
      using spawn_from [of 0 ?n ok] by (auto simp: n)
    have um: "unat (of_nat m :: u32) = m" using m(2) t(2) by (intro unat_of_nat_32) simp
    have "(\<forall>i \<le> t. ok (of_nat i)) \<longleftrightarrow> m = t" using m(2-4) True by (metis le_neq_implies_less less_Suc_eq_le nat_less_le)
    then show ?thesis using join_created [of m ?n] indices_distinct [of m ?n] m(1,2) n True all
      by (auto simp: run_threads_def t(1) Let_def um simp flip: rev_map)
  qed
qed

section \<open>Properties\<close>


lemma moved: "stages_valid ss \<Longrightarrow> stages_move ss = Some (ss, ss\<lparr> stages_valid := False \<rparr>)"
  by (cases ss) (simp add: stages_move_def)

text \<open>The branch that runs the threads.\<close>

lemma benchmark_runs:
  assumes "stages_valid ss" and "free_workload_config ss = Some blocks" and "connect_to_server env a (ss\<lparr> stages_valid := False \<rparr>) = 0"
    and "initialize_histograms mem lg opens utc a ss = Some (0, hs)" and "free_histograms a hs = Some rel" and "run_threads ok a = Some r"
    and "is_single_bin env (a_namespace a) \<and> obj_spec_n_bins (a_obj_spec a) > 1 \<or>
         list_all (\<lambda>st. obj_spec_bin_name_compatible (run_name_size env) (stage_obj st) (bin_name_of env a)) (stage_list ss)"
  shows "\<exists>evs. run_benchmark mem lg opens utc env ok a ss = Some (rr_ret r, evs) \<and> Ev_run r \<in> set evs \<and> Ev_free_histograms rel \<in> set evs"
  using assms by (auto simp: run_benchmark_def moved Let_def list_ex_iff list_all_iff)

lemma benchmark_ends:
  assumes "lg_ok lg" and "config_valid lg 1 1000000 3" and "stages_valid ss" and "free_workload_config ss = Some blocks"
    and "0 \<le> a_transaction_worker_threads a" and "a_transaction_worker_threads a \<le> 10000"
    and "a_latency_histogram a \<longrightarrow> (\<forall>f. a_histogram_output a = Some f \<longrightarrow> opens f)"
  shows "\<exists>ret evs. run_benchmark (\<lambda>_. True) lg opens utc env ok a ss = Some (ret, evs @ [Ev_free_stages blocks]) \<and>
     (Ev_close_client \<in> set evs \<longleftrightarrow> connect_to_server env a (ss\<lparr> stages_valid := False \<rparr>) = 0) \<and>
     (ret = 0 \<longrightarrow> (\<exists>r rel. Ev_run r \<in> set evs \<and> rr_coordinated r \<and> Ev_free_histograms rel \<in> set evs \<and> released_files rel = wanted_files a ss utc))"
proof -
  obtain r where r: "run_threads ok a = Some r" "rr_coordinated r = (rr_ret r = 0)" using threads_joined [OF assms(5,6)] by blast
  obtain hret hs where h: "initialize_histograms (\<lambda>_. True) lg opens utc a ss = Some (hret, hs)"
    "hret \<noteq> 0 \<or> (\<exists>rel. free_histograms a hs = Some rel \<and> released_files rel = wanted_files a ss utc)"
    using initialize_cases [OF assms(1,2), where opens = opens and utc = utc and a = a and ss = ss] assms(7) by (auto split: option.splits if_splits)
  show ?thesis
  proof (cases "connect_to_server env a (ss\<lparr> stages_valid := False \<rparr>) = 0 \<and> hret = 0")
    case False
    then show ?thesis using h(1) assms(3,4) by (auto simp: run_benchmark_def moved Let_def)
  next
    case True
    then obtain rel where "free_histograms a hs = Some rel" "released_files rel = wanted_files a ss utc" using h(2) by blast
    then show ?thesis using True h(1) assms(3,4) r by (auto simp: run_benchmark_def moved Let_def)
  qed
qed

text \<open>
  A benchmark whose stages can be released returns, releases them last, and closes the client exactly if the connection was made;
  it returns 0 only after a run that the coordinator led, and then every file that was opened for histograms has been closed.
\<close>

theorem benchmark_returns:
  assumes "lg_ok lg" and "config_valid lg 1 1000000 3" and "stages_valid ss" and "free_workload_config ss = Some blocks"
    and "0 \<le> a_transaction_worker_threads a" and "a_transaction_worker_threads a \<le> 10000"
    and "a_latency_histogram a \<longrightarrow> (\<forall>f. a_histogram_output a = Some f \<longrightarrow> opens f)"
  shows "\<exists>ret evs. run_benchmark (\<lambda>_. True) lg opens utc env ok a ss = Some (ret, evs @ [Ev_free_stages blocks]) \<and>
     (Ev_close_client \<in> set evs \<longleftrightarrow> connect_to_server env a (ss\<lparr> stages_valid := False \<rparr>) = 0) \<and>
     (ret = 0 \<longrightarrow> (\<exists>r rel. Ev_run r \<in> set evs \<and> rr_coordinated r \<and> Ev_free_histograms rel \<in> set evs \<and> released_files rel = wanted_files a ss utc))"
  by (rule benchmark_ends [OF assms])

text \<open>A specification of several bins is reported for a namespace with a single bin, but the benchmark goes on.\<close>

lemma single_bin_runs:
  assumes "lg_ok lg" and "config_valid lg 1 1000000 3" and "stages_valid ss" and "free_workload_config ss = Some blocks"
    and "0 \<le> a_transaction_worker_threads a" and "a_transaction_worker_threads a \<le> 10000"
    and "\<forall>f \<in> set (wanted_files a ss utc). opens f" and "connect_to_server env a (ss\<lparr> stages_valid := False \<rparr>) = 0"
    and "is_single_bin env (a_namespace a)" and "obj_spec_n_bins (a_obj_spec a) > 1"
  shows "\<exists>r evs. run_threads ok a = Some r \<and> run_benchmark (\<lambda>_. True) lg opens utc env ok a ss = Some (rr_ret r, evs) \<and> Ev_run r \<in> set evs"
proof -
  obtain r where r: "run_threads ok a = Some r" using threads_joined [OF assms(5,6)] by blast
  have "\<not> (a_latency_histogram a \<and> (\<exists>f. a_histogram_output a = Some f \<and> \<not> opens f))" using assms(7) by (auto simp: wanted_files_def)
  then obtain hs rel where "initialize_histograms (\<lambda>_. True) lg opens utc a ss = Some (0, hs)" "free_histograms a hs = Some rel"
    using initialize_cases [OF assms(1,2), where opens = opens and utc = utc and a = a and ss = ss] assms(7) by (auto split: option.splits if_splits)
  then show ?thesis using benchmark_runs [OF assms(3,4,8) _ _ r] r assms(9,10) by blast
qed

section \<open>Witnesses\<close>

definition example_run_env :: run_env where
  "example_run_env = \<lparr> create_loops = (\<lambda>_. True), add_hosts = (\<lambda>_ _. True), connect = (\<lambda>_. True),
     info_any = (\<lambda>_. Some ''replication-factor=2;single-bin=true;''), run_name_size = 16 \<rparr>"

lemma example_single_bin: "is_single_bin example_run_env ns"
  by (simp add: is_single_bin_def example_run_env_def)

definition example_args :: args where
  "example_args = load_defaults example_om empty_obj 30000 1000"

definition example_run :: stages where
  "example_run = \<lparr> stage_list = [example_stage\<lparr> read_bins := Null_bins, write_bins := Null_bins \<rparr>], stages_valid = True \<rparr>"

lemma example_run_free: "free_workload_config example_run = Some [Stages_array]"
  by (simp add: free_workload_config_def example_run_def free_stage_def example_stage_def free_obj_def empty_obj_def
      workload_contains_udfs_def obj_spec_free_def)

lemma example_threads: "a_transaction_worker_threads example_args = 16"
  by (simp add: example_args_def load_defaults_def)


theorem benchmark_returns_witness:
  "\<exists>ret evs. run_benchmark (\<lambda>_. True) lg_example (\<lambda>_. True) ''t'' example_run_env (\<lambda>_. True) example_args example_run = Some (ret, evs @ [Ev_free_stages [Stages_array]])"
  using benchmark_returns [OF lg_example_ok benchmark_config_valid _ example_run_free, where a = example_args and opens = "\<lambda>_. True" and utc = "''t''"
      and env = example_run_env and ok = "\<lambda>_. True"]
  by (auto simp: example_run_def example_args_def load_defaults_def)

end
