(* ===== verification/Options.thy ===== *)
theory Options
  imports Run
begin

text \<open>
  The command line (\<^verbatim>\<open>benchmark_init.c\<close>): the table of options, what each option does, the checks of the settings, the
  defaults that depend on the options, and the main function.

  \<^verbatim>\<open>getopt_long_only\<close> is the C library's: its answers, the code of an option with its argument and the element of
  \<^verbatim>\<open>argv\<close> that follows, are the input.  The password prompt, the names of authentication modes, the environment, password files and
  the reader of stage files are parameters.  Texts that are printed are not modelled.
\<close>

unbundle bit_operations_syntax

section \<open>The table of options\<close>

abbreviation (input) opt_char :: "char \<Rightarrow> int" where "opt_char c \<equiv> of_char c"

definition WARN_MSG :: int where "WARN_MSG = 0x40000000"

abbreviation (input) TLS_OPT_ENABLE :: int where "TLS_OPT_ENABLE \<equiv> 1000"
abbreviation (input) TLS_OPT_NAME :: int where "TLS_OPT_NAME \<equiv> 1001"
abbreviation (input) TLS_OPT_CA_FILE :: int where "TLS_OPT_CA_FILE \<equiv> 1002"
abbreviation (input) TLS_OPT_CA_PATH :: int where "TLS_OPT_CA_PATH \<equiv> 1003"
abbreviation (input) TLS_OPT_PROTOCOLS :: int where "TLS_OPT_PROTOCOLS \<equiv> 1004"
abbreviation (input) TLS_OPT_CIPHER_SUITE :: int where "TLS_OPT_CIPHER_SUITE \<equiv> 1005"
abbreviation (input) TLS_OPT_CRL_CHECK :: int where "TLS_OPT_CRL_CHECK \<equiv> 1006"
abbreviation (input) TLS_OPT_CRL_CHECK_ALL :: int where "TLS_OPT_CRL_CHECK_ALL \<equiv> 1007"
abbreviation (input) TLS_OPT_CERT_BLACK_LIST :: int where "TLS_OPT_CERT_BLACK_LIST \<equiv> 1008"
abbreviation (input) TLS_OPT_LOG_SESSION_INFO :: int where "TLS_OPT_LOG_SESSION_INFO \<equiv> 1009"
abbreviation (input) TLS_OPT_KEY_FILE :: int where "TLS_OPT_KEY_FILE \<equiv> 1010"
abbreviation (input) TLS_OPT_KEY_FILE_PASSWORD :: int where "TLS_OPT_KEY_FILE_PASSWORD \<equiv> 1011"
abbreviation (input) TLS_OPT_CERT_FILE :: int where "TLS_OPT_CERT_FILE \<equiv> 1012"
abbreviation (input) TLS_OPT_LOGIN_ONLY :: int where "TLS_OPT_LOGIN_ONLY \<equiv> 1013"
abbreviation (input) TLS_OPT_AUTH :: int where "TLS_OPT_AUTH \<equiv> 1014"
abbreviation (input) BENCH_OPT_HELP :: int where "BENCH_OPT_HELP \<equiv> 2000"
abbreviation (input) BENCH_OPT_CONNECT_TIMEOUT :: int where "BENCH_OPT_CONNECT_TIMEOUT \<equiv> 2001"
abbreviation (input) BENCH_OPT_SERVICES_ALTERNATE :: int where "BENCH_OPT_SERVICES_ALTERNATE \<equiv> 2002"
abbreviation (input) BENCH_OPT_MAX_ERROR_RATE :: int where "BENCH_OPT_MAX_ERROR_RATE \<equiv> 2003"
abbreviation (input) BENCH_OPT_TENDER_INTERVAL :: int where "BENCH_OPT_TENDER_INTERVAL \<equiv> 2004"
abbreviation (input) BENCH_OPT_ERROR_RATE_WINDOW :: int where "BENCH_OPT_ERROR_RATE_WINDOW \<equiv> 2005"
abbreviation (input) BENCH_OPT_MAX_SOCKET_IDLE :: int where "BENCH_OPT_MAX_SOCKET_IDLE \<equiv> 2006"
abbreviation (input) BENCH_OPT_MIN_CONNS_PER_NODE :: int where "BENCH_OPT_MIN_CONNS_PER_NODE \<equiv> 2007"
abbreviation (input) BENCH_OPT_MAX_CONNS_PER_NODE :: int where "BENCH_OPT_MAX_CONNS_PER_NODE \<equiv> 2008"
abbreviation (input) BENCH_OPT_ASYNC_MIN_CONNS_PER_NODE :: int where "BENCH_OPT_ASYNC_MIN_CONNS_PER_NODE \<equiv> 2009"
abbreviation (input) BENCH_OPT_ASYNC_MAX_CONNS_PER_NODE :: int where "BENCH_OPT_ASYNC_MAX_CONNS_PER_NODE \<equiv> 2010"
abbreviation (input) BENCH_OPT_UDF_PACKAGE_NAME :: int where "BENCH_OPT_UDF_PACKAGE_NAME \<equiv> 2011"
abbreviation (input) BENCH_OPT_UDF_FUNCTION_NAME :: int where "BENCH_OPT_UDF_FUNCTION_NAME \<equiv> 2012"
abbreviation (input) BENCH_OPT_UDF_FUNCTION_VALUES :: int where "BENCH_OPT_UDF_FUNCTION_VALUES \<equiv> 2013"
abbreviation (input) BENCH_OPT_WORKLOAD_STAGES :: int where "BENCH_OPT_WORKLOAD_STAGES \<equiv> 2014"
abbreviation (input) BENCH_OPT_READ_BINS :: int where "BENCH_OPT_READ_BINS \<equiv> 2015"
abbreviation (input) BENCH_OPT_WRITE_BINS :: int where "BENCH_OPT_WRITE_BINS \<equiv> 2016"
abbreviation (input) BENCH_OPT_BATCH_SIZE :: int where "BENCH_OPT_BATCH_SIZE \<equiv> 2017"
abbreviation (input) BENCH_OPT_BATCH_READ_SIZE :: int where "BENCH_OPT_BATCH_READ_SIZE \<equiv> 2018"
abbreviation (input) BENCH_OPT_BATCH_WRITE_SIZE :: int where "BENCH_OPT_BATCH_WRITE_SIZE \<equiv> 2019"
abbreviation (input) BENCH_OPT_BATCH_DELETE_SIZE :: int where "BENCH_OPT_BATCH_DELETE_SIZE \<equiv> 2020"
abbreviation (input) BENCH_OPT_COMPRESS :: int where "BENCH_OPT_COMPRESS \<equiv> 2021"
abbreviation (input) BENCH_OPT_COMPRESSION_RATIO :: int where "BENCH_OPT_COMPRESSION_RATIO \<equiv> 2022"
abbreviation (input) BENCH_OPT_SOCKET_TIMEOUT :: int where "BENCH_OPT_SOCKET_TIMEOUT \<equiv> 2023"
abbreviation (input) BENCH_OPT_READ_SOCKET_TIMEOUT :: int where "BENCH_OPT_READ_SOCKET_TIMEOUT \<equiv> 2024"
abbreviation (input) BENCH_OPT_WRITE_SOCKET_TIMEOUT :: int where "BENCH_OPT_WRITE_SOCKET_TIMEOUT \<equiv> 2025"
abbreviation (input) BENCH_OPT_READ_SOCKET_TOTAL_TIMEOUT :: int where "BENCH_OPT_READ_SOCKET_TOTAL_TIMEOUT \<equiv> 2026"
abbreviation (input) BENCH_OPT_WRITE_SOCKET_TOTAL_TIMEOUT :: int where "BENCH_OPT_WRITE_SOCKET_TOTAL_TIMEOUT \<equiv> 2027"
abbreviation (input) BENCH_OPT_MAX_RETRIES :: int where "BENCH_OPT_MAX_RETRIES \<equiv> 2028"
abbreviation (input) BENCH_OPT_SLEEP_BETWEEN_RETRIES :: int where "BENCH_OPT_SLEEP_BETWEEN_RETRIES \<equiv> 2029"
abbreviation (input) BENCH_OPT_PERCENTILES :: int where "BENCH_OPT_PERCENTILES \<equiv> 2030"
abbreviation (input) BENCH_OPT_OUTPUT_FILE :: int where "BENCH_OPT_OUTPUT_FILE \<equiv> 2031"
abbreviation (input) BENCH_OPT_OUTPUT_PERIOD :: int where "BENCH_OPT_OUTPUT_PERIOD \<equiv> 2032"
abbreviation (input) BENCH_OPT_HDR_HIST :: int where "BENCH_OPT_HDR_HIST \<equiv> 2033"
abbreviation (input) BENCH_OPT_RACK_ID :: int where "BENCH_OPT_RACK_ID \<equiv> 2034"
abbreviation (input) BENCH_OPT_SEND_KEY :: int where "BENCH_OPT_SEND_KEY \<equiv> 2035"

datatype has_arg = no_argument | required_argument | optional_argument

definition long_options :: "(string \<times> has_arg \<times> int) list" where
  "long_options =
     [(''version'', no_argument, opt_char CHR ''V''), (''help'', no_argument, BENCH_OPT_HELP),
      (''hosts'', required_argument, opt_char CHR ''h''), (''port'', required_argument, opt_char CHR ''p''),
      (''user'', required_argument, opt_char CHR ''U''), (''password'', optional_argument, opt_char CHR ''P''),
      (''connect-timeout'', required_argument, BENCH_OPT_CONNECT_TIMEOUT),
      (''services-alternate'', no_argument, BENCH_OPT_SERVICES_ALTERNATE),
      (''max-error-rate'', required_argument, BENCH_OPT_MAX_ERROR_RATE),
      (''tender-interval'', required_argument, BENCH_OPT_TENDER_INTERVAL),
      (''error-rate-window'', required_argument, BENCH_OPT_ERROR_RATE_WINDOW),
      (''max-socket-idle'', required_argument, BENCH_OPT_MAX_SOCKET_IDLE), (''namespace'', required_argument, opt_char CHR ''n''),
      (''set'', required_argument, opt_char CHR ''s''), (''bin'', required_argument, opt_char CHR ''b''),
      (''start-key'', required_argument, opt_char CHR ''K''), (''keys'', required_argument, opt_char CHR ''k''),
      (''udf-package-name'', required_argument, BENCH_OPT_UDF_PACKAGE_NAME), (''upn'', required_argument, BENCH_OPT_UDF_PACKAGE_NAME),
      (''udf-function-name'', required_argument, BENCH_OPT_UDF_FUNCTION_NAME), (''ufn'', required_argument, BENCH_OPT_UDF_FUNCTION_NAME),
      (''udf-function-values'', required_argument, BENCH_OPT_UDF_FUNCTION_VALUES),
      (''ufv'', required_argument, BENCH_OPT_UDF_FUNCTION_VALUES), (''object-spec'', required_argument, opt_char CHR ''o''),
      (''random'', no_argument, opt_char CHR ''R''), (''expiration-time'', required_argument, opt_char CHR ''e''),
      (''duration'', required_argument, opt_char CHR ''t''), (''workload'', required_argument, opt_char CHR ''w''),
      (''workload-stages'', required_argument, BENCH_OPT_WORKLOAD_STAGES), (''read-bins'', required_argument, BENCH_OPT_READ_BINS),
      (''write-bins'', required_argument, BENCH_OPT_WRITE_BINS), (''threads'', required_argument, opt_char CHR ''z''),
      (''throughput'', required_argument, opt_char CHR ''g''), (''batch-size'', required_argument, BENCH_OPT_BATCH_SIZE),
      (''batch-read-size'', required_argument, BENCH_OPT_BATCH_READ_SIZE),
      (''batch-write-size'', required_argument, BENCH_OPT_BATCH_WRITE_SIZE),
      (''batch-delete-size'', required_argument, BENCH_OPT_BATCH_DELETE_SIZE), (''compress'', no_argument, BENCH_OPT_COMPRESS),
      (''compression-ratio'', required_argument, BENCH_OPT_COMPRESSION_RATIO),
      (''socket-timeout'', required_argument, BENCH_OPT_SOCKET_TIMEOUT),
      (''read-socket-timeout'', required_argument, BENCH_OPT_READ_SOCKET_TIMEOUT),
      (''write-socket-timeout'', required_argument, BENCH_OPT_WRITE_SOCKET_TIMEOUT), (''timeout'', required_argument, opt_char CHR ''T''),
      (''read-timeout'', required_argument, BENCH_OPT_READ_SOCKET_TOTAL_TIMEOUT),
      (''write-timeout'', required_argument, BENCH_OPT_WRITE_SOCKET_TOTAL_TIMEOUT),
      (''max-retries'', required_argument, BENCH_OPT_MAX_RETRIES),
      (''sleep-between-retries'', required_argument, BENCH_OPT_SLEEP_BETWEEN_RETRIES), (''debug'', no_argument, opt_char CHR ''d''),
      (''latency'', no_argument, opt_char CHR ''L''), (''percentiles'', required_argument, BENCH_OPT_PERCENTILES),
      (''output-file'', required_argument, BENCH_OPT_OUTPUT_FILE), (''output-period'', required_argument, BENCH_OPT_OUTPUT_PERIOD),
      (''hdr-hist'', required_argument, BENCH_OPT_HDR_HIST), (''shared'', no_argument, opt_char CHR ''S''),
      (''replica'', required_argument, opt_char CHR ''C''), (''rack-id'', required_argument, BENCH_OPT_RACK_ID),
      (''read-mode-ap'', required_argument, opt_char CHR ''N''), (''read-mode-sc'', required_argument, opt_char CHR ''B''),
      (''commit-level'', required_argument, opt_char CHR ''M''), (''min-conns-per-node'', required_argument, BENCH_OPT_MIN_CONNS_PER_NODE),
      (''max-conns-per-node'', required_argument, BENCH_OPT_MAX_CONNS_PER_NODE),
      (''conn-pools-per-node'', required_argument, opt_char CHR ''Y''),
      (''async-min-conns-per-node'', required_argument, BENCH_OPT_ASYNC_MIN_CONNS_PER_NODE),
      (''async-max-conns-per-node'', required_argument, BENCH_OPT_ASYNC_MAX_CONNS_PER_NODE),
      (''durable-delete'', no_argument, opt_char CHR ''D''), (''async'', no_argument, opt_char CHR ''a''),
      (''async-max-commands'', required_argument, opt_char CHR ''c''), (''event-loops'', required_argument, opt_char CHR ''W''),
      (''send-key'', no_argument, BENCH_OPT_SEND_KEY), (''tls-enable'', no_argument, TLS_OPT_ENABLE),
      (''tls-name'', required_argument, TLS_OPT_NAME), (''tls-cafile'', required_argument, TLS_OPT_CA_FILE),
      (''tls-capath'', required_argument, TLS_OPT_CA_PATH), (''tls-protocols'', required_argument, TLS_OPT_PROTOCOLS),
      (''tls-cipher-suite'', required_argument, TLS_OPT_CIPHER_SUITE), (''tls-crl-check'', no_argument, TLS_OPT_CRL_CHECK),
      (''tls-crl-check-all'', no_argument, TLS_OPT_CRL_CHECK_ALL), (''tls-cert-blacklist'', required_argument, TLS_OPT_CERT_BLACK_LIST),
      (''tls-log-session-info'', no_argument, TLS_OPT_LOG_SESSION_INFO), (''tls-keyfile'', required_argument, TLS_OPT_KEY_FILE),
      (''tls-keyfile-password'', optional_argument, TLS_OPT_KEY_FILE_PASSWORD), (''tls-certfile'', required_argument, TLS_OPT_CERT_FILE),
      (''tls-login-only'', no_argument, TLS_OPT_LOGIN_ONLY), (''auth'', required_argument, TLS_OPT_AUTH),
      (''servicesAlternate'', no_argument, WARN_MSG OR BENCH_OPT_SERVICES_ALTERNATE),
      (''startKey'', required_argument, WARN_MSG OR opt_char CHR ''K''),
      (''udfPackageName'', required_argument, WARN_MSG OR BENCH_OPT_UDF_PACKAGE_NAME),
      (''udfFunctionName'', required_argument, WARN_MSG OR BENCH_OPT_UDF_FUNCTION_NAME),
      (''udfFunctionValues'', required_argument, WARN_MSG OR BENCH_OPT_UDF_FUNCTION_VALUES),
      (''objectSpec'', required_argument, WARN_MSG OR opt_char CHR ''o''),
      (''workloadStages'', required_argument, WARN_MSG OR BENCH_OPT_WORKLOAD_STAGES),
      (''readBins'', required_argument, WARN_MSG OR BENCH_OPT_READ_BINS),
      (''writeBins'', required_argument, WARN_MSG OR BENCH_OPT_WRITE_BINS),
      (''batchSize'', required_argument, WARN_MSG OR BENCH_OPT_BATCH_SIZE),
      (''compressionRatio'', required_argument, WARN_MSG OR BENCH_OPT_COMPRESSION_RATIO),
      (''socketTimeout'', required_argument, WARN_MSG OR BENCH_OPT_SOCKET_TIMEOUT),
      (''readSocketTimeout'', required_argument, WARN_MSG OR BENCH_OPT_READ_SOCKET_TIMEOUT),
      (''writeSocketTimeout'', required_argument, WARN_MSG OR BENCH_OPT_WRITE_SOCKET_TIMEOUT),
      (''readTimeout'', required_argument, WARN_MSG OR BENCH_OPT_READ_SOCKET_TOTAL_TIMEOUT),
      (''writeTimeout'', required_argument, WARN_MSG OR BENCH_OPT_WRITE_SOCKET_TOTAL_TIMEOUT),
      (''maxRetries'', required_argument, WARN_MSG OR BENCH_OPT_MAX_RETRIES),
      (''outputFile'', required_argument, WARN_MSG OR BENCH_OPT_OUTPUT_FILE),
      (''outputPeriod'', required_argument, WARN_MSG OR BENCH_OPT_OUTPUT_PERIOD),
      (''hdrHist'', required_argument, WARN_MSG OR BENCH_OPT_HDR_HIST),
      (''readModeAP'', required_argument, WARN_MSG OR opt_char CHR ''N''),
      (''readModeSC'', required_argument, WARN_MSG OR opt_char CHR ''B''),
      (''commitLevel'', required_argument, WARN_MSG OR opt_char CHR ''M''),
      (''connPoolsPerNode'', required_argument, WARN_MSG OR opt_char CHR ''Y''),
      (''durableDelete'', no_argument, WARN_MSG OR opt_char CHR ''D''),
      (''asyncMaxCommands'', required_argument, WARN_MSG OR opt_char CHR ''c''),
      (''eventLoops'', required_argument, WARN_MSG OR opt_char CHR ''W''), (''tlsEnable'', no_argument, WARN_MSG OR TLS_OPT_ENABLE),
      (''tlsCaFile'', required_argument, WARN_MSG OR TLS_OPT_CA_FILE), (''tlsCaPath'', required_argument, WARN_MSG OR TLS_OPT_CA_PATH),
      (''tlsProtocols'', required_argument, WARN_MSG OR TLS_OPT_PROTOCOLS),
      (''tlsCipherSuite'', required_argument, WARN_MSG OR TLS_OPT_CIPHER_SUITE),
      (''tlsCrlCheck'', no_argument, WARN_MSG OR TLS_OPT_CRL_CHECK), (''tlsCrlCheckAll'', no_argument, WARN_MSG OR TLS_OPT_CRL_CHECK_ALL),
      (''tlsCertBlackList'', required_argument, WARN_MSG OR TLS_OPT_CERT_BLACK_LIST),
      (''tlsLogSessionInfo'', no_argument, WARN_MSG OR TLS_OPT_LOG_SESSION_INFO),
      (''tlsKeyFile'', required_argument, WARN_MSG OR TLS_OPT_KEY_FILE),
      (''tlsKeyFilePassword'', optional_argument, WARN_MSG OR TLS_OPT_KEY_FILE_PASSWORD),
      (''tlsCertFile'', required_argument, WARN_MSG OR TLS_OPT_CERT_FILE), (''tlsLoginOnly'', no_argument, WARN_MSG OR TLS_OPT_LOGIN_ONLY)]"

definition short_options :: "(int \<times> has_arg) list" where
  "short_options =
     map (\<lambda>c. (opt_char c, no_argument)) ''vVRdLSDa'' @ map (\<lambda>c. (opt_char c, required_argument)) ''hpUnsbKkoetwzgTCNBMYcW'' @
     [(opt_char CHR ''P'', optional_argument)]"

text \<open>The name that is suggested instead of one in camel case; the buffer has 1024 bytes.\<close>

fun camelcase_loop :: "string \<Rightarrow> nat \<Rightarrow> string" where
  "camelcase_loop [] j = []"
| "camelcase_loop (c # cs) j =
     (if j < 1024 - 2 then
        if CHR ''A'' \<le> c \<and> c \<le> CHR ''Z'' then CHR ''-'' # tolower c # camelcase_loop cs (j + 2)
        else c # camelcase_loop cs (j + 1)
      else [])"

definition camelcase_to_dash :: "string \<Rightarrow> string" where
  "camelcase_to_dash camel_str = camelcase_loop camel_str 0"

section \<open>Options\<close>

definition atoi :: "string \<Rightarrow> int" where
  "atoi s = sint (ucast (fst (strtol s 10)) :: u32)"

record parsed_opt =
  po_code :: int
  po_arg :: "string option"
  po_next :: "string option"

record opt_env =
  oe_om :: om_setter
  oe_password :: "string option \<Rightarrow> string"
  oe_getpass :: string
  oe_getenv :: "string \<Rightarrow> string option"
  oe_files :: "string \<Rightarrow> pw_file"
  oe_auth :: "string \<Rightarrow> as_auth_mode option"
  oe_yaml :: "string \<Rightarrow> stage_def list option"
  oe_stages :: "nat \<Rightarrow> stage list"
  oe_sizes :: "nat \<times> nat \<times> nat"
  oe_password_size :: nat

text \<open>Go on, return a status, or undefined behaviour.\<close>

datatype opt_result = Go args | Stop int args | Opt_crash

definition flag_options :: "(int \<times> (args \<Rightarrow> args)) list" where
  "flag_options =
     [(BENCH_OPT_SERVICES_ALTERNATE, a_use_services_alternate_update (\<lambda>_. True)), (BENCH_OPT_COMPRESS, a_enable_compression_update (\<lambda>_. True)),
      (opt_char CHR ''d'', a_debug_update (\<lambda>_. True)), (opt_char CHR ''L'', a_latency_update (\<lambda>_. True)),
      (opt_char CHR ''S'', a_use_shm_update (\<lambda>_. True)), (opt_char CHR ''D'', a_durable_deletes_update (\<lambda>_. True)),
      (BENCH_OPT_SEND_KEY, a_key_update (\<lambda>_. AS_POLICY_KEY_SEND)), (TLS_OPT_ENABLE, a_tls_update (tls_enable_update (\<lambda>_. True))),
      (TLS_OPT_CRL_CHECK, a_tls_update (tls_crl_check_update (\<lambda>_. True))),
      (TLS_OPT_CRL_CHECK_ALL, a_tls_update (tls_crl_check_all_update (\<lambda>_. True))),
      (TLS_OPT_LOG_SESSION_INFO, a_tls_update (tls_log_session_info_update (\<lambda>_. True))),
      (TLS_OPT_LOGIN_ONLY, a_tls_update (tls_for_login_only_update (\<lambda>_. True)))]"

text \<open>The case of \<^verbatim>\<open>BENCH_OPT_SLEEP_BETWEEN_RETRIES\<close> falls through to the next one.\<close>

definition int_options :: "(int \<times> (int \<Rightarrow> args \<Rightarrow> args)) list" where
  "int_options =
     [(opt_char CHR ''p'', \<lambda>n. a_port_update (\<lambda>_. n)), (BENCH_OPT_CONNECT_TIMEOUT, \<lambda>n. a_conn_timeout_ms_update (\<lambda>_. n)),
      (BENCH_OPT_MAX_ERROR_RATE, \<lambda>n. a_max_error_rate_update (\<lambda>_. n)), (BENCH_OPT_TENDER_INTERVAL, \<lambda>n. a_tender_interval_update (\<lambda>_. n)),
      (BENCH_OPT_ERROR_RATE_WINDOW, \<lambda>n. a_error_rate_window_update (\<lambda>_. n)), (BENCH_OPT_MAX_SOCKET_IDLE, \<lambda>n. a_max_socket_idle_update (\<lambda>_. n)),
      (opt_char CHR ''z'', \<lambda>n. a_transaction_worker_threads_update (\<lambda>_. n)),
      (BENCH_OPT_SOCKET_TIMEOUT, \<lambda>n a. a\<lparr> a_read_socket_timeout := n, a_write_socket_timeout := n \<rparr>),
      (BENCH_OPT_READ_SOCKET_TIMEOUT, \<lambda>n. a_read_socket_timeout_update (\<lambda>_. n)),
      (BENCH_OPT_WRITE_SOCKET_TIMEOUT, \<lambda>n. a_write_socket_timeout_update (\<lambda>_. n)),
      (opt_char CHR ''T'', \<lambda>n a. a\<lparr> a_read_total_timeout := n, a_write_total_timeout := n \<rparr>),
      (BENCH_OPT_READ_SOCKET_TOTAL_TIMEOUT, \<lambda>n. a_read_total_timeout_update (\<lambda>_. n)),
      (BENCH_OPT_WRITE_SOCKET_TOTAL_TIMEOUT, \<lambda>n. a_write_total_timeout_update (\<lambda>_. n)),
      (BENCH_OPT_MAX_RETRIES, \<lambda>n. a_max_retries_update (\<lambda>_. n)),
      (BENCH_OPT_SLEEP_BETWEEN_RETRIES, \<lambda>n a. a\<lparr> a_sleep_between_retries := n, a_debug := True \<rparr>),
      (BENCH_OPT_OUTPUT_PERIOD, \<lambda>n. a_histogram_period_update (\<lambda>_. n)), (BENCH_OPT_RACK_ID, \<lambda>n. a_rack_id_update (\<lambda>_. n)),
      (BENCH_OPT_MIN_CONNS_PER_NODE, \<lambda>n. a_min_conns_per_node_update (\<lambda>_. n)),
      (BENCH_OPT_MAX_CONNS_PER_NODE, \<lambda>n. a_max_conns_per_node_update (\<lambda>_. n)),
      (opt_char CHR ''Y'', \<lambda>n. a_conn_pools_per_node_update (\<lambda>_. n)),
      (BENCH_OPT_ASYNC_MIN_CONNS_PER_NODE, \<lambda>n. a_async_min_conns_per_node_update (\<lambda>_. n)),
      (BENCH_OPT_ASYNC_MAX_CONNS_PER_NODE, \<lambda>n. a_async_max_conns_per_node_update (\<lambda>_. n)),
      (opt_char CHR ''c'', \<lambda>n. a_async_max_commands_update (\<lambda>_. n)), (opt_char CHR ''W'', \<lambda>n. a_event_loop_capacity_update (\<lambda>_. n))]"

text \<open>\<^verbatim>\<open>compression_ratio\<close> is a \<^verbatim>\<open>float\<close>; the password has a buffer of fixed size, and what it holds ends with NUL.\<close>

definition text_options :: "(int \<times> (string \<Rightarrow> args \<Rightarrow> args)) list" where
  "text_options =
     [(opt_char CHR ''h'', \<lambda>s. a_hosts_update (\<lambda>_. s)), (opt_char CHR ''U'', \<lambda>s. a_user_update (\<lambda>_. Some s)),
      (opt_char CHR ''n'', \<lambda>s. a_namespace_update (\<lambda>_. s)), (opt_char CHR ''s'', \<lambda>s. a_set_update (\<lambda>_. s)),
      (opt_char CHR ''b'', \<lambda>s. a_bin_name_update (\<lambda>_. s)), (opt_char CHR ''K'', \<lambda>s. a_start_key_update (\<lambda>_. fst (strtoul s 10))),
      (opt_char CHR ''k'', \<lambda>s. a_keys_update (\<lambda>_. fst (strtoul s 10))),
      (BENCH_OPT_COMPRESSION_RATIO, \<lambda>s. a_compression_ratio_update (\<lambda>_. fp_to_float (double_fp (fst (strtod s))))),
      (BENCH_OPT_OUTPUT_FILE, \<lambda>s a. a\<lparr> a_latency_histogram := True, a_histogram_output := (if s \<noteq> ''stdout'' then Some s else a_histogram_output a) \<rparr>),
      (BENCH_OPT_HDR_HIST, \<lambda>s. a_hdr_output_update (\<lambda>_. Some s)), (TLS_OPT_NAME, \<lambda>s. a_tls_name_update (\<lambda>_. Some s)),
      (TLS_OPT_CA_FILE, \<lambda>s. a_tls_update (tls_cafile_update (\<lambda>_. Some s))), (TLS_OPT_CA_PATH, \<lambda>s. a_tls_update (tls_capath_update (\<lambda>_. Some s))),
      (TLS_OPT_PROTOCOLS, \<lambda>s. a_tls_update (tls_protocols_update (\<lambda>_. Some s))),
      (TLS_OPT_CIPHER_SUITE, \<lambda>s. a_tls_update (tls_cipher_suite_update (\<lambda>_. Some s))),
      (TLS_OPT_CERT_BLACK_LIST, \<lambda>s. a_tls_update (tls_cert_blacklist_update (\<lambda>_. Some s))),
      (TLS_OPT_KEY_FILE, \<lambda>s. a_tls_update (tls_keyfile_update (\<lambda>_. Some s))),
      (TLS_OPT_CERT_FILE, \<lambda>s. a_tls_update (tls_certfile_update (\<lambda>_. Some s)))]"

text \<open>The stage that the options describe, made when the first of them is met.\<close>

definition cli_stage :: stage_def where
  "cli_stage = \<lparr> sd_duration = - 1, sd_desc = None, sd_tps = 0, sd_ttl = 0, sd_key_start = - 1, sd_key_end = - 1, sd_pause = 0,
     sd_batch_size = 0, sd_batch_read_size = 0, sd_batch_write_size = 0, sd_batch_delete_size = 0, sd_async = False, sd_random = False,
     sd_stage_idx = 1, sd_workload_str = [], sd_obj_spec_str = None, sd_read_bins_str = None, sd_write_bins_str = None,
     sd_udf_package_name = None, sd_udf_fn_name = None, sd_udf_fn_args = None \<rparr>"

definition get_or_init_stage :: "args \<Rightarrow> args" where
  "get_or_init_stage a = (if a_stage_defs a = [] then a\<lparr> a_stage_defs := [cli_stage] \<rparr> else a)"

definition on_stage :: "(stage_def \<Rightarrow> stage_def) \<Rightarrow> args \<Rightarrow> args" where
  "on_stage f a = a\<lparr> a_stage_defs := (case a_stage_defs a of [] \<Rightarrow> [] | sd # sds \<Rightarrow> f sd # sds) \<rparr>"

text \<open>A stage option: whether it has an argument, whether it is accepted, and what it does.  A number must end with its text.\<close>

definition number_ends :: "string \<Rightarrow> string \<Rightarrow> bool" where
  "number_ends s endptr \<longleftrightarrow> s \<noteq> [] \<and> endptr = []"

definition stage_options :: "opt_env \<Rightarrow> (int \<times> bool \<times> (string \<Rightarrow> bool) \<times> (string \<Rightarrow> args \<Rightarrow> args)) list" where
  "stage_options env =
     (let any = (\<lambda>_. True)
      in [(BENCH_OPT_UDF_PACKAGE_NAME, True, \<lambda>s. length s \<le> fst (snd (oe_sizes env)), \<lambda>s. on_stage (sd_udf_package_name_update (\<lambda>_. Some s))),
          (BENCH_OPT_UDF_FUNCTION_NAME, True, \<lambda>s. length s \<le> snd (snd (oe_sizes env)), \<lambda>s. on_stage (sd_udf_fn_name_update (\<lambda>_. Some s))),
          (BENCH_OPT_UDF_FUNCTION_VALUES, True, any, \<lambda>s. on_stage (sd_udf_fn_args_update (\<lambda>_. Some s))),
          (opt_char CHR ''R'', False, any, \<lambda>s. on_stage (sd_random_update (\<lambda>_. True))),
          (opt_char CHR ''e'', True, \<lambda>s. number_ends s (fst (snd (strtol s 10))), \<lambda>s. on_stage (sd_ttl_update (\<lambda>_. fst (strtol s 10)))),
          (opt_char CHR ''t'', True, \<lambda>s. number_ends s (fst (snd (strtoul s 10))), \<lambda>s. on_stage (sd_duration_update (\<lambda>_. fst (strtoul s 10)))),
          (opt_char CHR ''w'', True, any, \<lambda>s. a_workload_str_update (\<lambda>_. Some s)),
          (BENCH_OPT_READ_BINS, True, any, \<lambda>s. on_stage (sd_read_bins_str_update (\<lambda>_. Some s))),
          (BENCH_OPT_WRITE_BINS, True, any, \<lambda>s. on_stage (sd_write_bins_str_update (\<lambda>_. Some s))),
          (opt_char CHR ''g'', True, any, \<lambda>s. on_stage (sd_tps_update (\<lambda>_. of_int (atoi s)))),
          (BENCH_OPT_BATCH_SIZE, True, any, \<lambda>s. on_stage (sd_batch_size_update (\<lambda>_. of_int (atoi s)))),
          (BENCH_OPT_BATCH_READ_SIZE, True, any, \<lambda>s. on_stage (sd_batch_read_size_update (\<lambda>_. of_int (atoi s)))),
          (BENCH_OPT_BATCH_WRITE_SIZE, True, any, \<lambda>s. on_stage (sd_batch_write_size_update (\<lambda>_. of_int (atoi s)))),
          (BENCH_OPT_BATCH_DELETE_SIZE, True, any, \<lambda>s. on_stage (sd_batch_delete_size_update (\<lambda>_. of_int (atoi s)))),
          (opt_char CHR ''a'', False, any, \<lambda>s. on_stage (sd_async_update (\<lambda>_. True)))])"

text \<open>Options with named values.\<close>

definition choice_options :: "opt_env \<Rightarrow> (int \<times> (string \<Rightarrow> (args \<Rightarrow> args) option)) list" where
  "choice_options env =
     [(opt_char CHR ''C'', map_of [(''master'', a_replica_update (\<lambda>_. AS_POLICY_REPLICA_MASTER)), (''any'', a_replica_update (\<lambda>_. AS_POLICY_REPLICA_ANY)),
         (''sequence'', a_replica_update (\<lambda>_. AS_POLICY_REPLICA_SEQUENCE)), (''prefer-rack'', a_replica_update (\<lambda>_. AS_POLICY_REPLICA_PREFER_RACK))]),
      (opt_char CHR ''N'', map_of [(''one'', a_read_mode_ap_update (\<lambda>_. AS_POLICY_READ_MODE_AP_ONE)),
         (''all'', a_read_mode_ap_update (\<lambda>_. AS_POLICY_READ_MODE_AP_ALL))]),
      (opt_char CHR ''B'', map_of [(''session'', a_read_mode_sc_update (\<lambda>_. AS_POLICY_READ_MODE_SC_SESSION)),
         (''linearize'', a_read_mode_sc_update (\<lambda>_. AS_POLICY_READ_MODE_SC_LINEARIZE)),
         (''allowReplica'', a_read_mode_sc_update (\<lambda>_. AS_POLICY_READ_MODE_SC_ALLOW_REPLICA)),
         (''allowUnavailable'', a_read_mode_sc_update (\<lambda>_. AS_POLICY_READ_MODE_SC_ALLOW_UNAVAILABLE))]),
      (opt_char CHR ''M'', map_of [(''all'', a_write_commit_level_update (\<lambda>_. AS_POLICY_COMMIT_LEVEL_ALL)),
         (''master'', a_write_commit_level_update (\<lambda>_. AS_POLICY_COMMIT_LEVEL_MASTER))]),
      (TLS_OPT_AUTH, \<lambda>s. map_option (\<lambda>m. a_auth_mode_update (\<lambda>_. m)) (oe_auth env s))]"

function parse_percentiles :: "string \<Rightarrow> fp list \<Rightarrow> fp list" where
  "parse_percentiles s perc =
     (let tmp = takeWhile (\<lambda>c. c \<noteq> CHR '','') s; rest = dropWhile (\<lambda>c. c \<noteq> CHR '','') s;
          (v, endptr, _) = strtod tmp
      in if tmp = [] \<or> endptr \<noteq> [] then []
         else if rest = [] then perc @ [double_fp v]
         else parse_percentiles (tl rest) (perc @ [double_fp v]))"
  by pat_completeness auto
termination
proof (relation "measure (\<lambda>(s, perc). length s)", simp)
  fix s rest :: string and perc perc' :: "fp list"
  assume rest: "rest = dropWhile (\<lambda>c. c \<noteq> CHR '','') s" "rest \<noteq> []"
  have "length (tl rest) < length rest" using rest(2) by simp
  also have "length rest \<le> length s" unfolding rest(1) by (rule length_dropWhile_le)
  finally show "((tl rest, perc), (s, perc')) \<in> measure (\<lambda>(s, perc). length s)" by simp
qed

declare parse_percentiles.simps [simp del]

text \<open>An argument in the next element of \<^verbatim>\<open>argv\<close>, for options whose argument is optional.\<close>

definition next_argument :: "parsed_opt \<Rightarrow> string option" where
  "next_argument p = (case po_next p of None \<Rightarrow> None | Some s \<Rightarrow> if s \<noteq> [] \<and> hd s \<noteq> CHR ''-'' then Some s else None)"

definition set_password :: "opt_env \<Rightarrow> parsed_opt \<Rightarrow> args \<Rightarrow> args" where
  "set_password env p a =
     a\<lparr> a_password := take (oe_password_size env - 1)
          (if po_arg p = None \<and> next_argument p \<noteq> None then the (next_argument p) else oe_password env (po_arg p)) \<rparr>"

definition set_keyfile_password :: "parsed_opt \<Rightarrow> args \<Rightarrow> args" where
  "set_keyfile_password p a =
     a\<lparr> a_tls := (a_tls a)\<lparr> tls_keyfile_pw := Some (case po_arg p of
          Some s \<Rightarrow> s
        | None \<Rightarrow> (case next_argument p of Some s \<Rightarrow> s | None \<Rightarrow> [])) \<rparr> \<rparr>"

definition set_object_spec :: "opt_env \<Rightarrow> string \<Rightarrow> args \<Rightarrow> opt_result" where
  "set_object_spec env s a =
     (case obj_spec_free (a_obj_spec a) of
        None \<Rightarrow> Opt_crash
      | Some (_, freed) \<Rightarrow>
          (case obj_spec_parse (oe_om env) freed s of
             (Parsed _, o1) \<Rightarrow> Go (a\<lparr> a_obj_spec := o1 \<rparr>)
           | (Parse_error _ _, o1) \<Rightarrow> Stop (- 1) (a\<lparr> a_obj_spec := o1 \<rparr>)
           | (Crash, _) \<Rightarrow> Opt_crash))"

text \<open>The options that are not in a table, which all have an argument.\<close>

definition set_other :: "opt_env \<Rightarrow> int \<Rightarrow> string \<Rightarrow> args \<Rightarrow> opt_result" where
  "set_other env c s a =
     (if c = opt_char CHR ''o'' then set_object_spec env s a
      else if c = BENCH_OPT_WORKLOAD_STAGES then
        if a_stage_defs a \<noteq> [] then Stop (- 1) a else Go (a\<lparr> a_workload_stages_file := Some s \<rparr>)
      else if c = BENCH_OPT_PERCENTILES then Go (a\<lparr> a_latency_percentiles := parse_percentiles s [] \<rparr>)
      else Stop 1 a)"

definition with_argument :: "parsed_opt \<Rightarrow> (string \<Rightarrow> opt_result) \<Rightarrow> opt_result" where
  "with_argument p f = (case po_arg p of None \<Rightarrow> Opt_crash | Some s \<Rightarrow> f s)"

text \<open>Options of the stage, with named values, and the remaining ones.\<close>

definition set_stage_opt :: "opt_env \<Rightarrow> parsed_opt \<Rightarrow> int \<Rightarrow> args \<Rightarrow> opt_result" where
  "set_stage_opt env p c a =
     (case map_of (stage_options env) c of
        Some (has_argument, accepted, f) \<Rightarrow>
          if a_workload_stages_file a \<noteq> None then Stop (- 1) a
          else (let a = get_or_init_stage a;
                    g = (\<lambda>s. if accepted s then Go (f s a) else Stop (- 1) a)
                in if has_argument then with_argument p g else g [])
      | None \<Rightarrow>
      case map_of (choice_options env) c of
        Some f \<Rightarrow> with_argument p (\<lambda>s. case f s of None \<Rightarrow> Stop 1 a | Some g \<Rightarrow> Go (g a))
      | None \<Rightarrow>
          if c = opt_char CHR ''o'' \<or> c = BENCH_OPT_WORKLOAD_STAGES \<or> c = BENCH_OPT_PERCENTILES then with_argument p (\<lambda>s. set_other env c s a)
          else Stop 1 a)"

definition set_opt :: "opt_env \<Rightarrow> parsed_opt \<Rightarrow> args \<Rightarrow> opt_result" where
  "set_opt env p a =
     (let c = po_code p AND NOT WARN_MSG
      in if c = opt_char CHR ''v'' \<or> c = opt_char CHR ''V'' \<or> c = BENCH_OPT_HELP then Stop (- 1) a
         else if c = opt_char CHR ''P'' then Go (set_password env p a)
         else if c = TLS_OPT_KEY_FILE_PASSWORD then Go (set_keyfile_password p a)
         else case map_of flag_options c of Some f \<Rightarrow> Go (f a) | None \<Rightarrow>
           case map_of int_options c of Some f \<Rightarrow> with_argument p (\<lambda>s. Go (f (atoi s) a)) | None \<Rightarrow>
           case map_of text_options c of Some f \<Rightarrow> with_argument p (\<lambda>s. Go (f s a)) | None \<Rightarrow> set_stage_opt env p c a)"

section \<open>The checks of the settings\<close>

fun ascending :: "fp list \<Rightarrow> bool" where
  "ascending (l # r # ps) \<longleftrightarrow> \<not> fp_ge l r \<and> ascending (r # ps)"
| "ascending _ \<longleftrightarrow> True"

definition percentiles_valid :: "fp list \<Rightarrow> bool" where
  "percentiles_valid ps \<longleftrightarrow> ps \<noteq> [] \<and> list_all (\<lambda>itm. \<not> (fp_less itm (Fin 0) \<or> fp_ge itm (Fin 100))) ps \<and> ascending ps"

text \<open>The first check that fails returns 1; a warning about the connections per node has no effect.\<close>

definition validate_args :: "args \<Rightarrow> int" where
  "validate_args a =
     (if a_max_error_rate a < 0 then 1
      else if a_tender_interval a < 0 then 1
      else if a_error_rate_window a < 0 then 1
      else if a_max_socket_idle a < 0 then 1
      else if a_start_key a = - 1 then 1
      else if a_keys a = - 1 then 1
      else if a_transaction_worker_threads a \<le> 0 \<or> a_transaction_worker_threads a > 10000 then 1
      else if fp_less (a_compression_ratio a) (to_double (1 / 1000)) \<or> fp_less (Fin 1) (a_compression_ratio a) then 1
      else if a_conn_timeout_ms a < 0 then 1
      else if a_read_socket_timeout a < 0 then 1
      else if a_write_socket_timeout a < 0 then 1
      else if a_read_total_timeout a < 0 then 1
      else if a_write_total_timeout a < 0 then 1
      else if a_latency a \<and> \<not> percentiles_valid (a_latency_percentiles a) then 1
      else if (a_latency_histogram a \<or> a_latency a) \<and> a_histogram_period a \<le> 0 then 1
      else if a_min_conns_per_node a < 0 then 1
      else if a_max_conns_per_node a < 0 then 1
      else if a_replica a \<noteq> AS_POLICY_REPLICA_PREFER_RACK \<and> a_rack_id a \<noteq> - 1 then 1
      else if a_replica a = AS_POLICY_REPLICA_PREFER_RACK \<and> a_rack_id a = - 1 then 1
      else if a_conn_pools_per_node a \<le> 0 \<or> a_conn_pools_per_node a > 1000 then 1
      else if a_async_min_conns_per_node a < 0 then 1
      else if a_async_max_conns_per_node a < 0 then 1
      else if a_async_max_commands a \<le> 0 \<or> a_async_max_commands a > 5000 then 1
      else if a_event_loop_capacity a \<le> 0 \<or> a_event_loop_capacity a > 1000 then 1
      else 0)"

text \<open>
  \<^verbatim>\<open>set_args\<close>: the options in the order \<^verbatim>\<open>getopt_long_only\<close> gives them, then the passwords, then the checks.  An empty password
  for the key file is asked for with \<^verbatim>\<open>getpass\<close>, whose answer is in static memory and is passed to \<^verbatim>\<open>cf_free\<close>.
\<close>

fun set_opts :: "opt_env \<Rightarrow> parsed_opt list \<Rightarrow> args \<Rightarrow> opt_result" where
  "set_opts env [] a = Go a"
| "set_opts env (p # ps) a = (case set_opt env p a of Go b \<Rightarrow> set_opts env ps b | Stop ret b \<Rightarrow> Stop ret b | Opt_crash \<Rightarrow> Opt_crash)"

definition read_keyfile_pw :: "opt_env \<Rightarrow> args \<Rightarrow> opt_result" where
  "read_keyfile_pw env a =
     (case (tls_keyfile (a_tls a), tls_keyfile_pw (a_tls a)) of
        (Some _, Some pw) \<Rightarrow>
          let old_pass = (if pw = [] then oe_getpass env else pw)
          in (case tls_read_password (oe_getenv env) (oe_files env) old_pass of
                Inl _ \<Rightarrow> Stop 1 (a\<lparr> a_tls := (a_tls a)\<lparr> tls_keyfile_pw := Some old_pass \<rparr> \<rparr>)
              | Inr new_pass \<Rightarrow>
                  if pw = [] then Opt_crash else Go (a\<lparr> a_tls := (a_tls a)\<lparr> tls_keyfile_pw := Some new_pass \<rparr> \<rparr>))
      | _ \<Rightarrow> Go a)"

definition ask_password :: "opt_env \<Rightarrow> args \<Rightarrow> args" where
  "ask_password env a =
     (if a_user a \<noteq> None \<and> a_password a = [] then a\<lparr> a_password := take (oe_password_size env - 1) (oe_password env None) \<rparr> else a)"

definition set_args :: "opt_env \<Rightarrow> parsed_opt list \<Rightarrow> args \<Rightarrow> opt_result" where
  "set_args env opts a =
     (case set_opts env opts a of
        Go a1 \<Rightarrow>
          (case read_keyfile_pw env a1 of
             Go a2 \<Rightarrow> let a3 = ask_password env a2 in if validate_args a3 = 0 then Go a3 else Stop (validate_args a3) a3
           | r \<Rightarrow> r)
      | r \<Rightarrow> r)"

section \<open>The main function\<close>

definition stage_env_of :: "opt_env \<Rightarrow> args \<Rightarrow> stage_env" where
  "stage_env_of env a =
     \<lparr> env_start_key = a_start_key a, env_keys = a_keys a, env_bin_name = a_bin_name a, bin_name_size = fst (oe_sizes env),
       module_name_size = fst (snd (oe_sizes env)), function_name_size = snd (snd (oe_sizes env)) \<rparr>"

definition status_of :: "stages \<times> bool \<Rightarrow> int \<times> stages" where
  "status_of p = (if snd p then 0 else - 1, fst p)"

text \<open>The stage file is read by the YAML library; the stages are built in freshly allocated memory.\<close>

definition parse_workload_config_file :: "opt_env \<Rightarrow> string \<Rightarrow> args \<Rightarrow> (int \<times> stages) option" where
  "parse_workload_config_file env file a =
     (case oe_yaml env file of
        None \<Rightarrow> Some (- 1, \<lparr> stage_list = [], stages_valid = False \<rparr>)
      | Some defs \<Rightarrow>
          map_option status_of
            (stages_set_defaults_and_parse (oe_om env) (stage_env_of env a) (a_obj_spec a) (oe_stages env (length defs)) defs))"

definition load_defaults_post :: "opt_env \<Rightarrow> args \<Rightarrow> (int \<times> stages) option" where
  "load_defaults_post env a =
     (case a_workload_stages_file a of
        Some file \<Rightarrow> parse_workload_config_file env file a
      | None \<Rightarrow>
          let a = on_stage (\<lambda>sd. sd\<lparr> sd_desc := Some ''default config (specify your own with --workload-stages)'',
                    sd_workload_str := (case a_workload_str a of None \<Rightarrow> ''RU'' | Some s \<Rightarrow> s) \<rparr>) (get_or_init_stage a)
          in map_option (\<lambda>p. apsnd (stages_valid_update (\<lambda>_. True)) (status_of p))
               (stages_set_defaults_and_parse (oe_om env) (stage_env_of env a) (a_obj_spec a)
                  (oe_stages env (length (a_stage_defs a))) (a_stage_defs a)))"

text \<open>\<^verbatim>\<open>args->stages\<close> has no value, \<open>None\<close>, before \<^verbatim>\<open>_load_defaults_post\<close>.\<close>

definition free_args :: "args \<Rightarrow> stages option \<Rightarrow> (block list \<times> stage_block list) option" where
  "free_args a ss = do {
     (bs, _) \<leftarrow> obj_spec_free (a_obj_spec a);
     sbs \<leftarrow> (if a_workload_stages_file a \<noteq> None then Option.bind ss free_workload_config else Some []);
     Some (bs, sbs)
   }"

text \<open>What the machine and the libraries provide, and the memory in which the first object specification is parsed.\<close>

record main_env =
  me_opt :: opt_env
  me_run :: run_env
  me_mem :: "nat \<Rightarrow> bool"
  me_lg :: "int \<Rightarrow> rat"
  me_opens :: "string \<Rightarrow> bool"
  me_utc :: string
  me_threads :: "u32 \<Rightarrow> bool"
  me_obj :: obj_spec
  me_timeouts :: "int \<times> int"

definition defaults_of :: "main_env \<Rightarrow> args" where
  "defaults_of me = load_defaults (oe_om (me_opt me)) (me_obj me) (fst (me_timeouts me)) (snd (me_timeouts me))"

text \<open>What \<^verbatim>\<open>run_benchmark\<close> leaves of the stages in \<^verbatim>\<open>args\<close> is no longer valid: they have moved.\<close>

definition benchmark_init :: "main_env \<Rightarrow> parsed_opt list \<Rightarrow> (int \<times> run_event list) option" where
  "benchmark_init me opts =
     (let status = (\<lambda>ret. if ret = - 1 then 0 else ret)
      in case set_args (me_opt me) opts (defaults_of me) of
           Opt_crash \<Rightarrow> None
         | Stop ret a \<Rightarrow> do { free_args a None; Some (status ret, []) }
         | Go a \<Rightarrow> do {
             (ret, ss) \<leftarrow> load_defaults_post (me_opt me) a;
             if ret = 0 then do {
               (ret, evs) \<leftarrow> run_benchmark (me_mem me) (me_lg me) (me_opens me) (me_utc me) (me_run me) (me_threads me) a ss;
               free_args a (Some (ss\<lparr> stages_valid := False \<rparr>));
               Some (ret, evs)
             } else do { free_args a (Some ss); Some (status ret, []) }
           })"

section \<open>What the options leave alone\<close>

definition keeps_setup :: "(args \<Rightarrow> args) \<Rightarrow> bool" where
  "keeps_setup f \<longleftrightarrow> (\<forall>a. a_workload_stages_file (f a) = a_workload_stages_file a \<and> a_stage_defs (f a) = a_stage_defs a \<and> a_obj_spec (f a) = a_obj_spec a)"

lemma flag_keeps: "map_of flag_options c = Some f \<Longrightarrow> keeps_setup f"
proof -
  have "list_all (\<lambda>(c, f). keeps_setup f) flag_options" by (simp add: flag_options_def keeps_setup_def)
  then show "map_of flag_options c = Some f \<Longrightarrow> keeps_setup f" by (auto simp: list_all_iff dest!: map_of_SomeD)
qed

lemma int_keeps: "map_of int_options c = Some f \<Longrightarrow> keeps_setup (f n)"
proof -
  have "list_all (\<lambda>(c, f). \<forall>n. keeps_setup (f n)) int_options" by (simp add: int_options_def keeps_setup_def)
  then show "map_of int_options c = Some f \<Longrightarrow> keeps_setup (f n)" by (auto simp: list_all_iff dest!: map_of_SomeD)
qed

lemma text_keeps: "map_of text_options c = Some f \<Longrightarrow> keeps_setup (f s)"
proof -
  have "list_all (\<lambda>(c, f). \<forall>s. keeps_setup (f s)) text_options" by (simp add: text_options_def keeps_setup_def)
  then show "map_of text_options c = Some f \<Longrightarrow> keeps_setup (f s)" by (auto simp: list_all_iff dest!: map_of_SomeD)
qed

lemma choice_keeps: "map_of (choice_options env) c = Some f \<Longrightarrow> f s = Some g \<Longrightarrow> keeps_setup g"
proof -
  have "list_all (\<lambda>(c, f). \<forall>s g. f s = Some g \<longrightarrow> keeps_setup g) (choice_options env)"
    by (auto simp: choice_options_def keeps_setup_def split: if_splits)
  then show "map_of (choice_options env) c = Some f \<Longrightarrow> f s = Some g \<Longrightarrow> keeps_setup g" by (auto simp: list_all_iff dest!: map_of_SomeD)
qed

lemma stage_keeps:
  assumes "map_of (stage_options env) c = Some (h, acc, f)"
  shows "a_workload_stages_file (f s a) = a_workload_stages_file a \<and> length (a_stage_defs (f s a)) = length (a_stage_defs a) \<and> a_obj_spec (f s a) = a_obj_spec a"
proof -
  have on: "length (a_stage_defs (on_stage g a)) = length (a_stage_defs a)" "a_workload_stages_file (on_stage g a) = a_workload_stages_file a"
    "a_obj_spec (on_stage g a) = a_obj_spec a" for g a
    by (simp_all add: on_stage_def split: list.splits)
  have "list_all (\<lambda>(c, h, acc, f). \<forall>s a. a_workload_stages_file (f s a) = a_workload_stages_file a \<and>
      length (a_stage_defs (f s a)) = length (a_stage_defs a) \<and> a_obj_spec (f s a) = a_obj_spec a) (stage_options env)"
    by (simp add: stage_options_def Let_def on)
  then show ?thesis using assms by (force simp: list_all_iff dest!: map_of_SomeD)
qed

text \<open>The settings while options are read.\<close>

definition opts_inv :: "args \<Rightarrow> bool" where
  "opts_inv a \<longleftrightarrow> (a_workload_stages_file a \<noteq> None \<longrightarrow> a_stage_defs a = []) \<and> length (a_stage_defs a) \<le> 1 \<and> valid (a_obj_spec a) \<and> obj_wf (a_obj_spec a)"

lemma keeps_inv: "keeps_setup f \<Longrightarrow> opts_inv a \<Longrightarrow> opts_inv (f a)"
  by (simp add: keeps_setup_def opts_inv_def)

lemma parse_spec_cases:
  assumes "om_ok om"
  obtains o1 where "obj_spec_parse om base s = (Parsed o1, o1)" "valid o1" "obj_wf o1"
  | m loc where "obj_spec_parse om base s = (Parse_error m loc, base\<lparr> valid := False \<rparr>)"
  using parse_loop_ok [OF assms begin_state_ok, of "cstr s"]
  by (auto simp: obj_spec_parse_def parse_bin_types_def Let_def obj_wf_def)

lemma inv_frees: "opts_inv a \<Longrightarrow> \<exists>bs o1. obj_spec_free (a_obj_spec a) = Some (bs, o1)"
  using free_specs_safe [of "bin_specs (a_obj_spec a)" "n_bin_specs (a_obj_spec a)"] by (auto simp: opts_inv_def obj_wf_def obj_spec_free_def)

text \<open>An option is accepted with the invariant kept, or rejected with settings that can be released.\<close>

fun opt_result_ok :: "opt_result \<Rightarrow> bool" where
  "opt_result_ok (Go a) \<longleftrightarrow> opts_inv a"
| "opt_result_ok (Stop ret a) \<longleftrightarrow> ret \<noteq> 0 \<and> (\<exists>bs o1. obj_spec_free (a_obj_spec a) = Some (bs, o1))"
| "opt_result_ok Opt_crash \<longleftrightarrow> False"

lemma stop_ok: "opts_inv a \<Longrightarrow> ret \<noteq> 0 \<Longrightarrow> opt_result_ok (Stop ret a)"
  using inv_frees by simp

lemma set_object_spec_ok:
  assumes "om_ok (oe_om env)" and "opts_inv a"
  shows "opt_result_ok (set_object_spec env s a)"
proof -
  obtain bs o1 where f: "obj_spec_free (a_obj_spec a) = Some (bs, o1)" using inv_frees [OF assms(2)] by blast
  show ?thesis
  proof (rule parse_spec_cases [OF assms(1), of o1 s])
    fix o2
    assume "obj_spec_parse (oe_om env) o1 s = (Parsed o2, o2)" "valid o2" "obj_wf o2"
    then show ?thesis using f assms(2) by (simp add: set_object_spec_def opts_inv_def)
  next
    fix m loc
    assume "obj_spec_parse (oe_om env) o1 s = (Parse_error m loc, o1\<lparr> valid := False \<rparr>)"
    then show ?thesis using f by (simp add: set_object_spec_def obj_spec_free_def)
  qed
qed

text \<open>What \<^verbatim>\<open>getopt_long_only\<close> answers: an option of the tables, with an argument where the table requires one, or a question mark.\<close>

definition option_table :: "(int \<times> has_arg) list" where
  "option_table = map (\<lambda>(n, h, c). (c, h)) long_options @ short_options"

definition delivered :: "parsed_opt \<Rightarrow> bool" where
  "delivered p \<longleftrightarrow> po_code p = opt_char CHR ''?'' \<or> (\<exists>h. (po_code p, h) \<in> set option_table \<and> (h = required_argument \<longrightarrow> po_arg p \<noteq> None))"

definition argument_codes :: "int list" where
  "argument_codes = map fst int_options @ map fst text_options @
     [BENCH_OPT_UDF_PACKAGE_NAME, BENCH_OPT_UDF_FUNCTION_NAME, BENCH_OPT_UDF_FUNCTION_VALUES, opt_char CHR ''e'', opt_char CHR ''t'',
      opt_char CHR ''w'', BENCH_OPT_READ_BINS, BENCH_OPT_WRITE_BINS, opt_char CHR ''g'', BENCH_OPT_BATCH_SIZE, BENCH_OPT_BATCH_READ_SIZE,
      BENCH_OPT_BATCH_WRITE_SIZE, BENCH_OPT_BATCH_DELETE_SIZE, opt_char CHR ''C'', opt_char CHR ''N'', opt_char CHR ''B'', opt_char CHR ''M'', TLS_OPT_AUTH,
      opt_char CHR ''o'', BENCH_OPT_WORKLOAD_STAGES, BENCH_OPT_PERCENTILES]"

lemma table_agrees: "list_all (\<lambda>(c, h). (c AND NOT WARN_MSG) \<in> set argument_codes \<longleftrightarrow> h = required_argument) option_table"
  by (simp add: option_table_def long_options_def short_options_def WARN_MSG_def argument_codes_def int_options_def text_options_def)

lemma question_mark: "(opt_char CHR ''?'' AND NOT WARN_MSG) \<notin> set argument_codes"
  by (simp add: WARN_MSG_def argument_codes_def int_options_def text_options_def)

lemma delivered_arg:
  assumes "delivered p" and "(po_code p AND NOT WARN_MSG) \<in> set argument_codes"
  obtains s where "po_arg p = Some s"
  using assms table_agrees question_mark by (fastforce simp: delivered_def list_all_iff)

text \<open>With the argument that its code needs, an option keeps the invariant or is rejected.\<close>

lemma map_of_codes: "map_of xs c = Some f \<Longrightarrow> c \<in> set (map fst xs)"
  by (metis domI dom_map_of_conv_image_fst set_map)

lemma table_codes:
  "map_of int_options c = Some f \<Longrightarrow> c \<in> set argument_codes"
  "map_of text_options c = Some g \<Longrightarrow> c \<in> set argument_codes"
  unfolding argument_codes_def set_append by (rule UnI1, erule map_of_codes) (rule UnI2, rule UnI1, erule map_of_codes)

lemma stage_codes:
  "map_of (stage_options env) c = Some (True, acc, f) \<Longrightarrow> c \<in> set argument_codes"
  by (auto simp: stage_options_def Let_def argument_codes_def split: if_splits)

lemma choice_codes: "map_of (choice_options env) c = Some f \<Longrightarrow> c \<in> set argument_codes"
  by (auto simp: choice_options_def argument_codes_def split: if_splits)

lemma other_codes: "c = opt_char CHR ''o'' \<or> c = BENCH_OPT_WORKLOAD_STAGES \<or> c = BENCH_OPT_PERCENTILES \<Longrightarrow> c \<in> set argument_codes"
  by (elim disjE) (simp_all add: argument_codes_def)

lemma set_other_ok: "om_ok (oe_om env) \<Longrightarrow> opts_inv a \<Longrightarrow> opt_result_ok (set_other env c s a)"
  using stop_ok [of a 1] stop_ok [of a "- 1"] set_object_spec_ok [of env a s] by (auto simp: set_other_def opts_inv_def)

lemma with_argument_ok:
  assumes "delivered p" and "(po_code p AND NOT WARN_MSG) \<in> set argument_codes" and "\<And>s. P (f s)"
  shows "P (with_argument p f)"
proof -
  obtain s where "po_arg p = Some s" by (rule delivered_arg [OF assms(1,2)])
  then show ?thesis using assms(3) by (simp add: with_argument_def)
qed

lemma get_or_init_stage_inv:
  assumes "opts_inv a" and "a_workload_stages_file a = None"
  shows "opts_inv (get_or_init_stage a) \<and> a_workload_stages_file (get_or_init_stage a) = None"
  using assms by (simp add: opts_inv_def get_or_init_stage_def)

lemma stage_option_ok:
  assumes "map_of (stage_options env) c = Some (h, acc, f)" and "opts_inv a" and "a_workload_stages_file a = None"
  shows "opt_result_ok (if acc s then Go (f s (get_or_init_stage a)) else Stop (- 1) (get_or_init_stage a))"
proof -
  note g = get_or_init_stage_inv [OF assms(2,3)]
  have "opts_inv (f s (get_or_init_stage a))" using stage_keeps [OF assms(1), of s "get_or_init_stage a"] g by (simp add: opts_inv_def)
  then show ?thesis using stop_ok [of "get_or_init_stage a" "- 1"] g by simp
qed

lemma set_stage_opt_ok:
  assumes om: "om_ok (oe_om env)" and inv: "opts_inv a" and p: "delivered p" and c: "c = (po_code p AND NOT WARN_MSG)"
  shows "opt_result_ok (set_stage_opt env p c a)"
proof (cases "map_of (stage_options env) c")
  case None
  note n = None
  have stop: "opt_result_ok (Stop 1 a)" by (rule stop_ok [OF inv]) simp
  show ?thesis
  proof (cases "map_of (choice_options env) c")
    case None
    have "opt_result_ok (with_argument p (\<lambda>s. set_other env c s a))" if "c = opt_char CHR ''o'' \<or> c = BENCH_OPT_WORKLOAD_STAGES \<or> c = BENCH_OPT_PERCENTILES"
      by (rule with_argument_ok [OF p other_codes [OF that, unfolded c]]) (rule set_other_ok [OF om inv])
    then show ?thesis using n None stop by (simp add: set_stage_opt_def del: opt_result_ok.simps)
  next
    case (Some f)
    have g: "opt_result_ok (case f s of None \<Rightarrow> Stop 1 a | Some g \<Rightarrow> Go (g a))" for s
      using stop keeps_inv [OF choice_keeps [OF Some] inv, of s] by (cases "f s") simp_all
    have "opt_result_ok (with_argument p (\<lambda>s. case f s of None \<Rightarrow> Stop 1 a | Some g \<Rightarrow> Go (g a)))"
      by (rule with_argument_ok [OF p choice_codes [OF Some, unfolded c]]) (rule g)
    then show ?thesis using n Some by (simp add: set_stage_opt_def del: opt_result_ok.simps)
  qed
next
  case (Some t)
  obtain h acc f where t: "t = (h, acc, f)" by (cases t)
  note m = Some [unfolded t]
  show ?thesis
  proof (cases "a_workload_stages_file a = None")
    case True
    let ?g = "\<lambda>s. if acc s then Go (f s (get_or_init_stage a)) else Stop (- 1) (get_or_init_stage a)"
    have "opt_result_ok (?g s)" for s by (rule stage_option_ok [OF m inv True])
    then have "opt_result_ok (if h then with_argument p ?g else ?g [])"
      using with_argument_ok [OF p stage_codes [of env c acc f, unfolded c], of opt_result_ok ?g] m c by (cases h) auto
    then show ?thesis using m True by (simp add: set_stage_opt_def Let_def del: opt_result_ok.simps)
  next
    case False
    then show ?thesis using m stop_ok [OF inv, of "- 1"] by (simp add: set_stage_opt_def del: opt_result_ok.simps)
  qed
qed

lemma set_opt_ok:
  assumes "om_ok (oe_om env)" and "opts_inv a" and "delivered p"
  shows "opt_result_ok (set_opt env p a)"
proof -
  let ?c = "po_code p AND NOT WARN_MSG"
  have stop: "opt_result_ok (Stop (- 1) a)" by (rule stop_ok [OF assms(2)]) simp
  have pw: "opts_inv (set_password env p a)" "opts_inv (set_keyfile_password p a)"
    using assms(2) by (simp_all add: set_password_def set_keyfile_password_def opts_inv_def)
  have flag: "opts_inv (f a)" if "map_of flag_options ?c = Some f" for f by (rule keeps_inv [OF flag_keeps [OF that] assms(2)])
  have int: "opt_result_ok (with_argument p (\<lambda>s. Go (f (atoi s) a)))" if m: "map_of int_options ?c = Some f" for f
    by (rule with_argument_ok [OF assms(3) table_codes(1) [OF m]]) (simp add: keeps_inv [OF int_keeps [OF m] assms(2)])
  have str: "opt_result_ok (with_argument p (\<lambda>s. Go (f s a)))" if m: "map_of text_options ?c = Some f" for f
    by (rule with_argument_ok [OF assms(3) table_codes(2) [OF m]]) (simp add: keeps_inv [OF text_keeps [OF m] assms(2)])
  have "opt_result_ok (case map_of int_options ?c of Some f \<Rightarrow> with_argument p (\<lambda>s. Go (f (atoi s) a)) | None \<Rightarrow>
      case map_of text_options ?c of Some f \<Rightarrow> with_argument p (\<lambda>s. Go (f s a)) | None \<Rightarrow> set_stage_opt env p ?c a)"
    using int str set_stage_opt_ok [OF assms refl] by (cases "map_of int_options ?c"; cases "map_of text_options ?c") (simp_all del: opt_result_ok.simps)
  then show ?thesis
    using pw stop flag unfolding set_opt_def Let_def by (cases "map_of flag_options ?c") (simp_all del: opt_result_ok.simps(2,3))
qed

lemma set_opts_ok:
  assumes "om_ok (oe_om env)" and "opts_inv a" and "list_all delivered ps"
  shows "opt_result_ok (set_opts env ps a)"
  using assms(2,3)
proof (induction ps arbitrary: a)
  case (Cons p ps)
  then show ?case using set_opt_ok [OF assms(1) Cons.prems(1), of p] by (cases "set_opt env p a") auto
qed simp


section \<open>Accepted settings\<close>

lemma default_spec: "parse_bin_types om ''I'' = Parsed ([Bin 1 (K_int 3)], 1)"
  by (simp add: parse_defs char_defs)

lemma defaults_inv: "opts_inv (defaults_of me)"
  by (simp add: opts_inv_def defaults_of_def load_defaults_def obj_spec_parse_def cstr_def default_spec Let_def obj_wf_def)

lemma read_keyfile_pw_keeps:
  "read_keyfile_pw env a = Go b \<Longrightarrow> opts_inv a \<Longrightarrow> opts_inv b"
  "read_keyfile_pw env a = Stop ret b \<Longrightarrow> opts_inv a \<Longrightarrow> ret = 1 \<and> opts_inv b"
  by (auto simp: read_keyfile_pw_def opts_inv_def Let_def split: option.splits sum.splits if_splits)

lemma ask_password_inv: "opts_inv a \<Longrightarrow> opts_inv (ask_password env a)"
  by (simp add: ask_password_def opts_inv_def)

lemma set_args_Go:
  assumes "om_ok (oe_om env)" and "opts_inv a" and "list_all delivered ps" and "set_args env ps a = Go b"
  shows "opts_inv b \<and> validate_args b = 0"
proof -
  obtain a1 where 1: "set_opts env ps a = Go a1" using assms(4) by (auto simp: set_args_def split: opt_result.splits)
  then have "opts_inv a1" using set_opts_ok [OF assms(1-3)] by simp
  moreover obtain a2 where 2: "read_keyfile_pw env a1 = Go a2" "validate_args (ask_password env a2) = 0" "b = ask_password env a2"
    using assms(4) 1 by (auto simp: set_args_def Let_def split: opt_result.splits if_splits)
  ultimately show ?thesis using read_keyfile_pw_keeps(1) ask_password_inv by simp
qed

lemma set_args_Stop:
  assumes "om_ok (oe_om env)" and "opts_inv a" and "list_all delivered ps" and "set_args env ps a = Stop ret b"
  shows "opt_result_ok (Stop ret b)"
proof (cases "set_opts env ps a")
  case (Go a1)
  then have inv: "opts_inv a1" using set_opts_ok [OF assms(1-3)] by simp
  show ?thesis
  proof (cases "read_keyfile_pw env a1")
    case 2: (Go a2)
    have "opts_inv (ask_password env a2)" using read_keyfile_pw_keeps(1) [OF 2 inv] by (rule ask_password_inv)
    moreover have "b = ask_password env a2" "ret \<noteq> 0" using assms(4) Go 2 by (auto simp: set_args_def Let_def split: if_splits)
    ultimately show ?thesis by (intro stop_ok) simp_all
  next
    case 2: (Stop ret' a2)
    then show ?thesis using assms(4) Go read_keyfile_pw_keeps(2) [OF 2 inv] by (auto simp: set_args_def intro: inv_frees)
  qed (use assms(4) Go in \<open>simp add: set_args_def\<close>)
qed (use assms(4) set_opts_ok [OF assms(1-3)] in \<open>auto simp: set_args_def\<close>)

lemma accepted_threads: "validate_args a = 0 \<Longrightarrow> 0 < a_transaction_worker_threads a \<and> a_transaction_worker_threads a \<le> 10000"
  by (auto simp: validate_args_def split: if_splits)

lemma accepted_commands: "validate_args a = 0 \<Longrightarrow> 0 < a_async_max_commands a \<and> a_async_max_commands a \<le> 5000"
  by (auto simp: validate_args_def split: if_splits)

text \<open>Percentiles of which none is a NaN are ascending and in range when latencies are shown.\<close>

lemma not_ge: "x \<noteq> NaN \<Longrightarrow> y \<noteq> NaN \<Longrightarrow> \<not> fp_ge x y \<longleftrightarrow> fp_less x y"
  by (cases x; cases y) (auto simp: fp_ge_def)

lemma fp_less_trans: "fp_less x y \<Longrightarrow> fp_less y z \<Longrightarrow> fp_less x z"
  by (cases x; cases y; cases z) auto

lemma ascending_sorted: "NaN \<notin> set ps \<Longrightarrow> ascending ps \<longleftrightarrow> sorted_wrt fp_less ps"
proof (induction ps rule: ascending.induct)
  case (1 l r ps)
  then have "\<not> fp_ge l r \<longleftrightarrow> fp_less l r" by (intro not_ge) auto
  then show ?case using 1 fp_less_trans [of l r] by auto
qed simp_all

section \<open>Stages of accepted settings\<close>

lemma post_stages:
  assumes "om_ok (oe_om env)" and "opts_inv a" and "\<And>n. length (oe_stages env n) = n" and "load_defaults_post env a = Some (0, ss)"
  shows "list_all stage_ok (stage_list ss) \<and> stages_valid ss \<and> (\<exists>bs. free_workload_config ss = Some bs)"
proof -
  obtain se defs where *: "stages_set_defaults_and_parse (oe_om env) se (a_obj_spec a) (oe_stages env (length defs)) defs = Some (ss, True)"
  proof (cases "a_workload_stages_file a")
    case None
    let ?a = "on_stage (\<lambda>sd. sd\<lparr> sd_desc := Some ''default config (specify your own with --workload-stages)'',
      sd_workload_str := (case a_workload_str a of None \<Rightarrow> ''RU'' | Some s \<Rightarrow> s) \<rparr>) (get_or_init_stage a)"
    obtain s1 where s1: "stages_set_defaults_and_parse (oe_om env) (stage_env_of env ?a) (a_obj_spec ?a) (oe_stages env (length (a_stage_defs ?a)))
        (a_stage_defs ?a) = Some (s1, True)" "ss = s1\<lparr> stages_valid := True \<rparr>"
      using assms(4) None by (auto simp: load_defaults_post_def status_of_def Let_def split: if_splits)
    moreover have "stages_valid s1" using s1(1) by (auto simp: stages_set_defaults_and_parse_def Let_def split: if_splits prod.splits)
    moreover have "a_obj_spec ?a = a_obj_spec a" by (simp add: on_stage_def get_or_init_stage_def)
    ultimately show ?thesis by (intro that [where se = "stage_env_of env ?a" and defs = "a_stage_defs ?a"]) (cases s1, simp)
  next
    case (Some path)
    then show ?thesis
      using assms(4) by (auto simp: load_defaults_post_def parse_workload_config_file_def status_of_def intro: that split: if_splits option.splits)
  qed
  have wf: "obj_wf (a_obj_spec a)" using assms(2) by (simp add: opts_inv_def)
  have len: "length (oe_stages env (length defs)) = length defs" by (rule assms(3))
  show ?thesis using accepted_stages [OF assms(1) wf len *] accepted_released [OF assms(1) wf len *] by blast
qed


section \<open>The end of the program\<close>

lemma free_args_Some:
  assumes "\<exists>bs o1. obj_spec_free (a_obj_spec a) = Some (bs, o1)" and "\<not> stages_valid ss"
  shows "\<exists>r. free_args a (Some ss) = Some r"
  using assms by (auto simp: free_args_def free_workload_config_def)

lemma post_rejects:
  assumes "load_defaults_post env a = Some (ret, ss)" and "ret \<noteq> 0"
  shows "ret = - 1 \<and> (a_workload_stages_file a \<noteq> None \<longrightarrow> \<not> stages_valid ss)"
proof (cases "a_workload_stages_file a")
  case None
  then show ?thesis using assms by (auto simp: load_defaults_post_def status_of_def Let_def split: if_splits)
next
  case (Some path)
  have "\<not> stages_valid s" if "stages_set_defaults_and_parse om se g mem defs = Some (s, False)" for om se g mem defs s
    using that by (auto simp: stages_set_defaults_and_parse_def Let_def split: if_splits prod.splits)
  then show ?thesis
    using assms Some by (fastforce simp: load_defaults_post_def parse_workload_config_file_def status_of_def split: option.splits if_splits)
qed

lemma rejected_stages:
  assumes "om_ok (oe_om (me_opt me))" and "list_all delivered opts" and "set_args (me_opt me) opts (defaults_of me) = Go a"
    and "load_defaults_post (me_opt me) a = Some (ret, ss)" and "ret \<noteq> 0"
  shows "benchmark_init me opts = Some (0, [])"
proof -
  note r = post_rejects [OF assms(4,5)]
  have "opts_inv a" using set_args_Go [OF assms(1) defaults_inv assms(2,3)] by blast
  then have "\<exists>x. free_args a (Some ss) = Some x" using inv_frees r by (cases "a_workload_stages_file a") (fastforce simp: free_args_def free_workload_config_def)+
  then show ?thesis using assms(3-5) r by (auto simp: benchmark_init_def)
qed

section \<open>Properties\<close>

text \<open>
  C21. Whatever options \<^verbatim>\<open>getopt_long_only\<close> delivers according to the tables, reading them never uses a missing argument and never
  reaches undefined behaviour.  Accepted options leave at most one stage and no stage at all next to a stage file, and a
  valid, well-formed object specification; options that are rejected leave settings that can be released.
\<close>

theorem options_safe:
  assumes "om_ok (oe_om env)" and "list_all delivered opts"
  shows "case set_opts env opts (defaults_of me) of
      Go a \<Rightarrow> (a_workload_stages_file a \<noteq> None \<longrightarrow> a_stage_defs a = []) \<and> length (a_stage_defs a) \<le> 1 \<and>
        valid (a_obj_spec a) \<and> obj_wf (a_obj_spec a)
    | Stop ret a \<Rightarrow> ret \<noteq> 0 \<and> (\<exists>bs o1. obj_spec_free (a_obj_spec a) = Some (bs, o1))
    | Opt_crash \<Rightarrow> False"
  using set_opts_ok [OF assms(1) defaults_inv assms(2), of me] by (cases "set_opts env opts (defaults_of me)") (simp_all add: opts_inv_def)


text \<open>
  C36. When options are rejected the status is that of \<^verbatim>\<open>set_args\<close>, but 0 instead of -1; nothing is run.  If a stage file had been
  named before, the stages are released although they were never set, which is undefined.
\<close>

theorem rejected_options:
  assumes "om_ok (oe_om (me_opt me))" and "list_all delivered opts" and "set_args (me_opt me) opts (defaults_of me) = Stop ret a"
  shows "benchmark_init me opts = (if a_workload_stages_file a = None then Some (if ret = - 1 then 0 else ret, []) else None)"
proof -
  have "\<exists>bs o1. obj_spec_free (a_obj_spec a) = Some (bs, o1)" using set_args_Stop [OF assms(1) defaults_inv assms(2,3)] by simp
  then show ?thesis using assms(3) by (auto simp: benchmark_init_def free_args_def)
qed

text \<open>
  When the stages are rejected, in a file or as options, the program ends with status 0 and runs nothing.
\<close>

theorem rejected_stages_exit_0:
  assumes "om_ok (oe_om (me_opt me))" and "list_all delivered opts" and "set_args (me_opt me) opts (defaults_of me) = Go a"
    and "load_defaults_post (me_opt me) a = Some (ret, ss)" and "ret \<noteq> 0"
  shows "benchmark_init me opts = Some (0, [])"
  by (rule rejected_stages [OF assms])

section \<open>Witnesses\<close>

definition example_opt_env :: opt_env where
  "example_opt_env = \<lparr> oe_om = example_om, oe_password = (\<lambda>_. ''secret''), oe_getpass = ''pw'', oe_getenv = (\<lambda>_. None), oe_files = (\<lambda>_. No_file),
     oe_auth = (\<lambda>_. None), oe_yaml = (\<lambda>f. if f = ''s.yml'' then Some [example_def] else None), oe_stages = (\<lambda>n. replicate n example_stage),
     oe_sizes = (16, 128, 128), oe_password_size = 64 \<rparr>"

definition example_main :: main_env where
  "example_main = \<lparr> me_opt = example_opt_env, me_run = example_run_env, me_mem = (\<lambda>_. True), me_lg = lg_example, me_opens = (\<lambda>_. True),
     me_utc = ''t'', me_threads = (\<lambda>_. True), me_obj = empty_obj, me_timeouts = (30000, 1000) \<rparr>"

abbreviation stages_option :: "string \<Rightarrow> parsed_opt" where
  "stages_option f \<equiv> \<lparr> po_code = BENCH_OPT_WORKLOAD_STAGES, po_arg = Some f, po_next = None \<rparr>"

abbreviation auth_option :: "string \<Rightarrow> parsed_opt" where
  "auth_option s \<equiv> \<lparr> po_code = TLS_OPT_AUTH, po_arg = Some s, po_next = None \<rparr>"

lemma example_env_om: "oe_om (me_opt example_main) = example_om" "oe_om example_opt_env = example_om"
  by (simp_all add: example_main_def example_opt_env_def)

lemma example_opt: "me_opt example_main = example_opt_env"
  by (simp add: example_main_def)

lemma example_delivered: "list_all delivered [stages_option f]" "list_all delivered [stages_option f, auth_option s]"
  by (simp_all add: delivered_def option_table_def long_options_def short_options_def WARN_MSG_def)

lemmas option_defs = set_opt_def set_stage_opt_def set_other_def with_argument_def WARN_MSG_def flag_options_def int_options_def
  text_options_def stage_options_def choice_options_def Let_def

lemma example_stages_option: "set_opt env (stages_option f) (defaults_of me) = Go ((defaults_of me)\<lparr> a_workload_stages_file := Some f \<rparr>)"
  by (simp add: option_defs defaults_of_def load_defaults_def)

lemma example_auth_option: "set_opt example_opt_env (auth_option s) a = Stop 1 a"
  by (simp add: option_defs example_opt_env_def)

lemma small_ratio: "\<not> fp_less (Fin 1) (to_double (1 / 1000))"
  using double_between [of "1 / 1000" 1] by auto

lemma example_accepted:
  "set_args example_opt_env [stages_option f] (defaults_of example_main) = Go ((defaults_of example_main)\<lparr> a_workload_stages_file := Some f \<rparr>)"
proof -
  let ?a = "(defaults_of example_main)\<lparr> a_workload_stages_file := Some f \<rparr>"
  have "read_keyfile_pw example_opt_env ?a = Go ?a" "ask_password example_opt_env ?a = ?a"
    by (simp_all add: read_keyfile_pw_def ask_password_def defaults_of_def load_defaults_def no_tls_def)
  moreover have "validate_args ?a = 0"
    by (simp add: validate_args_def defaults_of_def load_defaults_def small_ratio example_main_def)
  ultimately show ?thesis by (simp add: set_args_def example_stages_option)
qed

lemma example_post:
  obtains ss where "load_defaults_post example_opt_env ((defaults_of example_main)\<lparr> a_workload_stages_file := Some ''s.yml'' \<rparr>) = Some (0, ss)"
proof -
  let ?a = "(defaults_of example_main)\<lparr> a_workload_stages_file := Some ''s.yml'' \<rparr>"
  have "env_start_key (stage_env_of example_opt_env ?a) < env_start_key (stage_env_of example_opt_env ?a) + env_keys (stage_env_of example_opt_env ?a)"
    by (simp add: stage_env_of_def defaults_of_def load_defaults_def)
  then obtain ss where "stages_set_defaults_and_parse example_om (stage_env_of example_opt_env ?a) (a_obj_spec ?a) [example_stage] [example_def] = Some (ss, True)"
    by (rule example_stages_in)
  then show ?thesis
    by (intro that [of ss]) (simp add: load_defaults_post_def parse_workload_config_file_def example_env_om status_of_def, simp add: example_opt_env_def status_of_def)
qed

theorem options_safe_witness:
  "\<exists>a. set_opts example_opt_env [stages_option ''s.yml''] (defaults_of example_main) = Go a \<and> a_workload_stages_file a = Some ''s.yml'' \<and>
     a_stage_defs a = [] \<and> obj_wf (a_obj_spec a)"
  using options_safe [of example_opt_env "[stages_option ''s.yml'']" example_main, OF _ example_delivered(1)] example_ok(3)
  by (simp add: example_stages_option example_env_om)


theorem rejected_options_witness:
  "benchmark_init example_main [stages_option ''s.yml'', auth_option ''none''] = None"
proof -
  have "set_args example_opt_env [stages_option ''s.yml'', auth_option ''none''] (defaults_of example_main)
      = Stop 1 ((defaults_of example_main)\<lparr> a_workload_stages_file := Some ''s.yml'' \<rparr>)"
    by (simp add: set_args_def example_stages_option example_auth_option)
  then show ?thesis using rejected_options [OF _ example_delivered(2), of example_main] example_ok(3) by (simp add: example_env_om example_opt)
qed

theorem rejected_stages_exit_0_witness:
  "benchmark_init example_main [stages_option ''missing.yml''] = Some (0, [])"
proof (rule rejected_stages_exit_0 [OF _ example_delivered(1)])
  show "set_args (me_opt example_main) [stages_option ''missing.yml''] (defaults_of example_main)
      = Go ((defaults_of example_main)\<lparr> a_workload_stages_file := Some ''missing.yml'' \<rparr>)"
    using example_accepted by (simp add: example_main_def)
  show "load_defaults_post (me_opt example_main) ((defaults_of example_main)\<lparr> a_workload_stages_file := Some ''missing.yml'' \<rparr>)
      = Some (- 1, \<lparr> stage_list = [], stages_valid = False \<rparr>)"
    by (simp add: load_defaults_post_def parse_workload_config_file_def example_main_def example_opt_env_def)
qed (use example_ok(3) in \<open>simp_all add: example_env_om\<close>)

section \<open>Deprecated names\<close>

text \<open>For some deprecated names the name that is suggested instead is not an option.\<close>

lemma suggestion_missing:
  "list_all (\<lambda>n. n \<in> set (map fst long_options) \<and> camelcase_to_dash n \<notin> set (map fst long_options)) [''tlsCaFile'', ''readModeAP'']"
  by (simp add: camelcase_to_dash_def long_options_def tolower_def)

end
